(* ===== verification/Prelude.thy ===== *)
theory Prelude
  imports Main "HOL-Library.Word"
begin

unbundle bit_operations_syntax

section \<open>Shared vocabulary of the development\<close>

text \<open>
  What every component theory uses: the error values of the code's \<open>elog\<close> and
  \<open>ereport\<close> calls, the C integer types, the two loop shapes that occur over and over
  (\<open>for (i = lo; i < hi; i++) w[i] = f(w[i])\<close> and a linear scan with an early exit),
  and the generic facts on lists and words that the component proofs share.
\<close>

subsection \<open>Errors\<close>

text \<open>
  \<open>ERROR m\<close> is \<open>elog(ERROR, m)\<close>, \<open>PANIC m\<close> and \<open>FATAL m\<close> the severer levels.
  \<open>LOOP\<close> stands for a C loop that does not end; the theorems show where it cannot occur.
\<close>

datatype pg_error = ERROR string | FATAL string | PANIC string | LOOP

type_synonym 'a result = "pg_error + 'a"

definition returns :: "'a result \<Rightarrow> bool" where
  "returns r \<longleftrightarrow> (case r of Inl _ \<Rightarrow> False | Inr _ \<Rightarrow> True)"

lemma returns_simps [simp]: "\<not> returns (Inl e)" "returns (Inr v)"
  by (simp_all add: returns_def)

lemma returnsE: "returns r \<Longrightarrow> (\<And>v. r = Inr v \<Longrightarrow> P) \<Longrightarrow> P"
  by (cases r) auto

subsection \<open>Machine integers\<close>

type_synonym uint8 = "8 word"
type_synonym uint16 = "16 word"
type_synonym uint32 = "32 word"
type_synonym uint64 = "64 word"

subsection \<open>Collections of rewrite rules\<close>

named_theorems pg_defs \<open>definitions of C macros and constants, unfolded together\<close>
named_theorems pg_abs \<open>how an operation acts on the abstraction of its data\<close>
named_theorems pg_inv \<open>preservation of a component's well-formedness\<close>

subsection \<open>Indexed loops over an array\<close>

definition loop_upd :: "nat \<Rightarrow> nat \<Rightarrow> (nat \<Rightarrow> 'a \<Rightarrow> 'a) \<Rightarrow> 'a list \<Rightarrow> 'a list" where
  "loop_upd lo hi f xs = fold (\<lambda>i ws. ws[i := f i (ws ! i)]) [lo..<hi] xs"

lemma length_fold_upd [simp]:
  "length (fold (\<lambda>i ws. ws[i := f i (ws ! i)]) is xs) = length xs"
  by (induction "is" arbitrary: xs) auto

lemma length_loop_upd [simp]: "length (loop_upd lo hi f xs) = length xs"
  by (simp add: loop_upd_def)

lemma nth_loop_upd:
  assumes "j < length xs"
  shows "loop_upd lo hi f xs ! j = (if lo \<le> j \<and> j < hi then f j (xs ! j) else xs ! j)"
proof (induction hi)
  case 0
  then show ?case by (simp add: loop_upd_def)
next
  case (Suc hi)
  show ?case
  proof (cases "lo \<le> hi")
    case True
    then have "loop_upd lo (Suc hi) f xs =
        (loop_upd lo hi f xs)[hi := f hi (loop_upd lo hi f xs ! hi)]"
      by (simp add: loop_upd_def)
    with Suc True assms show ?thesis
      by (cases "j = hi") (simp_all add: nth_list_update)
  qed (auto simp: loop_upd_def)
qed

lemma loop_upd_empty [simp]: "hi \<le> lo \<Longrightarrow> loop_upd lo hi f xs = xs"
  by (simp add: loop_upd_def)

text \<open>The two-part loops of the code: common indices first, then those of the longer array.\<close>

lemma all_nat_split:
  fixes Q :: "nat \<Rightarrow> bool"
  assumes "\<And>i. l \<le> i \<Longrightarrow> Q i" and "m \<le> l"
  shows "(\<forall>i. Q i) \<longleftrightarrow> (\<forall>i < m. Q i) \<and> (\<forall>i. m \<le> i \<and> i < l \<longrightarrow> Q i)"
  using assms by (metis not_less)

subsection \<open>Bits of a word\<close>

lemma word_neq_0_iff: "(w :: 'a::len word) \<noteq> 0 \<longleftrightarrow> (\<exists>n. bit w n)"
  by (metis bit_0_eq bit_eq_iff bot_apply bot_bool_def)

lemma word_eq_0_iff: "(w :: 'a::len word) = 0 \<longleftrightarrow> (\<forall>n. \<not> bit w n)"
  using word_neq_0_iff by blast

lemma bit_word_length: "bit (w :: 'a::len word) n \<Longrightarrow> n < LENGTH('a)"
  by (rule bit_imp_le_length)

lemma unat_drop_bit_less:
  assumes "(w :: 'a::len word) \<noteq> 0" and "0 < n"
  shows "unat (drop_bit n w) < unat w"
proof -
  have "0 < unat w" using assms(1) by (simp add: unat_gt_0)
  moreover have "unat (drop_bit n w) = unat w div 2 ^ n"
    by (metis unat_drop_bit_eq drop_bit_eq_div)
  moreover have "(1::nat) < 2 ^ n" using assms(2) by (rule one_less_power[rotated]) simp
  ultimately show ?thesis by simp
qed

lemma bit_two_power [simp]:
  "bit (2 ^ k :: 'a::len word) n \<longleftrightarrow> n = k \<and> k < LENGTH('a)"
  by (auto simp: bit_exp_iff)

lemma bit_shift_one [simp]:
  "bit (push_bit k 1 :: 'a::len word) n \<longleftrightarrow> n = k \<and> k < LENGTH('a)"
  by simp

subsection \<open>Loops with an early exit\<close>

text \<open>
  \<open>loop_exit body is s\<close> runs \<open>body i s\<close> for each index in turn; \<open>Inl r\<close> is
  \<open>return r\<close> out of the loop, \<open>Inr s'\<close> goes on with the state \<open>s'\<close>.
\<close>

fun loop_exit :: "('i \<Rightarrow> 's \<Rightarrow> 'r + 's) \<Rightarrow> 'i list \<Rightarrow> 's \<Rightarrow> 'r + 's" where
  "loop_exit body [] s = Inr s"
| "loop_exit body (i # is) s =
     (case body i s of Inl r \<Rightarrow> Inl r | Inr s' \<Rightarrow> loop_exit body is s')"

lemma loop_exit_append:
  "loop_exit body (is @ js) s =
     (case loop_exit body is s of Inl r \<Rightarrow> Inl r | Inr s' \<Rightarrow> loop_exit body js s')"
  by (induction "is" arbitrary: s) (auto split: sum.splits)

lemma loop_exit_snoc:
  "loop_exit body [0..<Suc n] s =
     (case loop_exit body [0..<n] s of Inl r \<Rightarrow> Inl r | Inr s' \<Rightarrow> body n s')"
  by (auto simp: loop_exit_append split: sum.splits)

text \<open>A loop whose body keeps the state and exits at the first hit finds the least hit.\<close>

lemma loop_exit_find:
  assumes "\<And>i. i \<in> set is \<Longrightarrow> \<not> P i \<Longrightarrow> body i s = Inr s"
    and "\<And>i. i \<in> set is \<Longrightarrow> P i \<Longrightarrow> \<exists>r. body i s = Inl r"
  shows "loop_exit body is s =
    (case find P is of None \<Rightarrow> Inr s | Some i \<Rightarrow> body i s)"
  using assms
  by (induction "is") (force split: sum.splits)+

lemma find_upt_Some_iff:
  "find P [lo..<hi] = Some i \<longleftrightarrow> lo \<le> i \<and> i < hi \<and> P i \<and> (\<forall>j. lo \<le> j \<and> j < i \<longrightarrow> \<not> P j)"
proof (induction hi arbitrary: i)
  case 0
  then show ?case by auto
next
  case (Suc hi)
  have "find P (xs @ ys) = (case find P xs of None \<Rightarrow> find P ys | Some z \<Rightarrow> Some z)" for xs ys
    by (induction xs) auto
  then show ?case
    using Suc
    by (cases "lo \<le> hi", auto simp: find_None_iff less_Suc_eq split: option.splits)
      (metis linorder_less_linear)+
qed

lemma find_upt_None_iff: "find P [lo..<hi] = None \<longleftrightarrow> (\<forall>i. lo \<le> i \<and> i < hi \<longrightarrow> \<not> P i)"
  by (auto simp: find_None_iff)

text \<open>Running a fallible body over a list, stopping at the first error.\<close>

fun foldM :: "('x \<Rightarrow> 'r \<Rightarrow> 'r result) \<Rightarrow> 'x list \<Rightarrow> 'r \<Rightarrow> 'r result" where
  "foldM f [] r = Inr r"
| "foldM f (x # xs) r = (case f x r of Inl e \<Rightarrow> Inl e | Inr r' \<Rightarrow> foldM f xs r')"

subsection \<open>Checking a lookup table entry by entry\<close>

fun table_check :: "nat \<Rightarrow> (nat \<Rightarrow> 'a \<Rightarrow> bool) \<Rightarrow> 'a list \<Rightarrow> bool" where
  "table_check v P [] = True"
| "table_check v P (t # ts) = (P v t \<and> table_check (v + 1) P ts)"

lemma table_check_nth: "table_check v P ts \<Longrightarrow> i < length ts \<Longrightarrow> P (v + i) (ts ! i)"
proof (induction ts arbitrary: v i)
  case (Cons t ts)
  then show ?case by (cases i) fastforce+
qed simp

subsection \<open>Draining a container\<close>

text \<open>
  \<open>while ((x = first(&s)) >= 0) r = f(x, r);\<close>  \<open>None\<close> is a loop that does not end.
\<close>

partial_function (option) drain_loop ::
  "('c \<Rightarrow> (int \<times> 'c) result) \<Rightarrow> (int \<Rightarrow> 'r \<Rightarrow> 'r result) \<Rightarrow> 'c \<Rightarrow> 'r \<Rightarrow> 'r result option" where
  "drain_loop first f c r =
     (case first c of
        Inl e \<Rightarrow> Some (Inl e)
      | Inr p \<Rightarrow>
          (if fst p < 0 then Some (Inr r)
           else (case f (fst p) r of
                   Inl e \<Rightarrow> Some (Inl e)
                 | Inr r' \<Rightarrow> drain_loop first f (snd p) r')))"

end
