(* ===== verification/IntSet.thy ===== *)
theory IntSet
  imports Prelude
begin

section \<open>The interface of a set of small integers\<close>

text \<open>
  What the callers of \<open>bitmapset.c\<close> rely on: adding and deleting a member, testing
  membership, and taking the first member out, in terms of the set of naturals the value
  stands for. The lemmas about draining loops are proved here once, from these laws only.
\<close>

locale int_set =
  fixes abs :: "'c \<Rightarrow> nat set"
    and empty :: "'c"
    and member :: "int \<Rightarrow> 'c \<Rightarrow> bool result"
    and add :: "'c \<Rightarrow> int \<Rightarrow> 'c result"
    and del :: "'c \<Rightarrow> int \<Rightarrow> 'c result"
    and first :: "'c \<Rightarrow> (int \<times> 'c) result"
  assumes abs_finite: "finite (abs c)"
    and abs_empty: "abs empty = {}"
    and member_neg: "x < 0 \<Longrightarrow> \<exists>e. member x c = Inl e"
    and member_iff: "0 \<le> x \<Longrightarrow> member x c = Inr (nat x \<in> abs c)"
    and add_neg: "x < 0 \<Longrightarrow> \<exists>e. add c x = Inl e"
    and add_ok: "0 \<le> x \<Longrightarrow> \<exists>d. add c x = Inr d \<and> abs d = insert (nat x) (abs c)"
    and del_neg: "x < 0 \<Longrightarrow> \<exists>e. del c x = Inl e"
    and del_ok: "0 \<le> x \<Longrightarrow> \<exists>d. del c x = Inr d \<and> abs d = abs c - {nat x}"
    and first_empty: "abs c = {} \<Longrightarrow> \<exists>d. first c = Inr (- 1, d) \<and> abs d = {}"
    and first_min: "abs c \<noteq> {} \<Longrightarrow>
      \<exists>d. first c = Inr (int (Min (abs c)), d) \<and> abs d = abs c - {Min (abs c)}"
begin

text \<open>A draining loop visits the members once each, in increasing order, and ends.\<close>

lemma drain_visits_sorted:
  "drain_loop first f c r = Some (foldM f (map int (sorted_list_of_set (abs c))) r)"
proof (induction "card (abs c)" arbitrary: c r)
  case 0
  then have "abs c = {}" using abs_finite by simp
  with first_empty [of c] show ?case
    by (auto simp: drain_loop.simps [of first f c])
next
  case (Suc n)
  then have ne: "abs c \<noteq> {}" by auto
  let ?m = "Min (abs c)"
  obtain d where d: "first c = Inr (int ?m, d)" "abs d = abs c - {?m}"
    using first_min [OF ne] by blast
  have "n = card (abs d)"
    using Suc(2) d(2) abs_finite [of c] ne by simp
  then have IH: "drain_loop first f d r' = Some (foldM f (map int (sorted_list_of_set (abs d))) r')" for r'
    by (rule Suc(1))
  have "sorted_list_of_set (abs c) = ?m # sorted_list_of_set (abs d)"
    using sorted_list_of_set_nonempty [OF abs_finite ne] d(2) by simp
  with d(1) IH show ?case
    by (subst drain_loop.simps) (auto split: sum.splits)
qed

lemma foldM_add:
  assumes "\<forall>x \<in> set xs. 0 \<le> x + k"
  shows "\<exists>d. foldM (\<lambda>x r. add r (x + k)) xs r = Inr d \<and>
    abs d = (\<lambda>x. nat (x + k)) ` set xs \<union> abs r"
  using assms
proof (induction xs arbitrary: r)
  case (Cons x xs)
  obtain d where d: "add r (x + k) = Inr d" "abs d = insert (nat (x + k)) (abs r)"
    using add_ok [of "x + k" r] Cons.prems by auto
  obtain d' where "foldM (\<lambda>x r. add r (x + k)) xs d = Inr d'"
      "abs d' = (\<lambda>x. nat (x + k)) ` set xs \<union> abs d"
    using Cons.IH [of d] Cons.prems by auto
  with d show ?case by auto
qed simp

lemma foldM_add_neg:
  assumes "x \<in> set xs" and "x + k < 0"
  shows "\<exists>e. foldM (\<lambda>x r. add r (x + k)) xs r = Inl e"
  using assms
proof (induction xs arbitrary: r)
  case (Cons y ys)
  show ?case
  proof (cases "y + k < 0")
    case True
    then show ?thesis using add_neg [of "y + k" r] by auto
  next
    case False
    with Cons show ?thesis using add_ok [of "y + k" r] by auto
  qed
qed simp

lemma drain_shift:
  assumes "\<forall>x \<in> abs c. 0 \<le> int x + k"
  shows "\<exists>d. drain_loop first (\<lambda>x r. add r (x + k)) c r = Some (Inr d) \<and>
    abs d = (\<lambda>x. nat (int x + k)) ` abs c \<union> abs r"
  using foldM_add [of "map int (sorted_list_of_set (abs c))" k r] assms abs_finite [of c]
  by (auto simp: drain_visits_sorted image_image)

lemma drain_shift_neg:
  assumes "x \<in> abs c" and "int x + k < 0"
  shows "\<exists>e. drain_loop first (\<lambda>x r. add r (x + k)) c r = Some (Inl e)"
  using foldM_add_neg [of "int x" "map int (sorted_list_of_set (abs c))" k r] assms abs_finite [of c]
  by (simp add: drain_visits_sorted)

lemma substitute:
  assumes "0 \<le> old" and "0 \<le> new" and "nat old \<in> abs c"
  shows "\<exists>d e. del c old = Inr d \<and> add d new = Inr e \<and>
    abs e = insert (nat new) (abs c - {nat old})"
  using del_ok [OF assms(1), of c] add_ok [OF assms(2)] by metis

end

end
