(* ===== verification/Bitmapset.thy ===== *)
theory Bitmapset
  imports IntSet
begin

section \<open>Bitmap sets (nodes/bitmapset.c)\<close>

text \<open>
  The planner's sets of small non-negative integers. A \<open>Bitmapset *\<close> is NULL (\<open>None\<close>)
  or points to an array of 32-bit words; \<open>nwords\<close> is the length of that array. The
  functions that recycle an argument return the value the caller goes on with, and
  \<open>bms_first_member\<close>, which modifies its argument, returns the modified set too.
  A C \<open>int\<close> is an \<open>int\<close>; every function that gets a negative member raises the code's
  error. \<open>palloc\<close> does not fail in the model.
\<close>

subsection \<open>Representation\<close>

type_synonym bitmapword = "32 word"

record Bitmapset =
  words :: "bitmapword list"

abbreviation nwords :: "Bitmapset \<Rightarrow> nat" where
  "nwords a \<equiv> length (words a)"

datatype BMS_Comparison = BMS_EQUAL | BMS_SUBSET1 | BMS_SUBSET2 | BMS_DIFFERENT

datatype BMS_Membership = BMS_EMPTY_SET | BMS_SINGLETON | BMS_MULTIPLE

definition BITS_PER_BITMAPWORD :: nat where
  "BITS_PER_BITMAPWORD = 32"

definition WORDNUM :: "int \<Rightarrow> nat" where
  "WORDNUM x = nat x div BITS_PER_BITMAPWORD"

definition BITNUM :: "int \<Rightarrow> nat" where
  "BITNUM x = nat x mod BITS_PER_BITMAPWORD"

definition RIGHTMOST_ONE :: "bitmapword \<Rightarrow> bitmapword" where
  "RIGHTMOST_ONE x = x AND - x"

definition HAS_MULTIPLE_ONES :: "bitmapword \<Rightarrow> bool" where
  "HAS_MULTIPLE_ONES x \<longleftrightarrow> RIGHTMOST_ONE x \<noteq> x"

definition rightmost_one_pos :: "nat list" where
  "rightmost_one_pos = [
     0, 0, 1, 0, 2, 0, 1, 0, 3, 0, 1, 0, 2, 0, 1, 0,
     4, 0, 1, 0, 2, 0, 1, 0, 3, 0, 1, 0, 2, 0, 1, 0,
     5, 0, 1, 0, 2, 0, 1, 0, 3, 0, 1, 0, 2, 0, 1, 0,
     4, 0, 1, 0, 2, 0, 1, 0, 3, 0, 1, 0, 2, 0, 1, 0,
     6, 0, 1, 0, 2, 0, 1, 0, 3, 0, 1, 0, 2, 0, 1, 0,
     4, 0, 1, 0, 2, 0, 1, 0, 3, 0, 1, 0, 2, 0, 1, 0,
     5, 0, 1, 0, 2, 0, 1, 0, 3, 0, 1, 0, 2, 0, 1, 0,
     4, 0, 1, 0, 2, 0, 1, 0, 3, 0, 1, 0, 2, 0, 1, 0,
     7, 0, 1, 0, 2, 0, 1, 0, 3, 0, 1, 0, 2, 0, 1, 0,
     4, 0, 1, 0, 2, 0, 1, 0, 3, 0, 1, 0, 2, 0, 1, 0,
     5, 0, 1, 0, 2, 0, 1, 0, 3, 0, 1, 0, 2, 0, 1, 0,
     4, 0, 1, 0, 2, 0, 1, 0, 3, 0, 1, 0, 2, 0, 1, 0,
     6, 0, 1, 0, 2, 0, 1, 0, 3, 0, 1, 0, 2, 0, 1, 0,
     4, 0, 1, 0, 2, 0, 1, 0, 3, 0, 1, 0, 2, 0, 1, 0,
     5, 0, 1, 0, 2, 0, 1, 0, 3, 0, 1, 0, 2, 0, 1, 0,
     4, 0, 1, 0, 2, 0, 1, 0, 3, 0, 1, 0, 2, 0, 1, 0]"

definition number_of_ones :: "nat list" where
  "number_of_ones = [
     0, 1, 1, 2, 1, 2, 2, 3, 1, 2, 2, 3, 2, 3, 3, 4,
     1, 2, 2, 3, 2, 3, 3, 4, 2, 3, 3, 4, 3, 4, 4, 5,
     1, 2, 2, 3, 2, 3, 3, 4, 2, 3, 3, 4, 3, 4, 4, 5,
     2, 3, 3, 4, 3, 4, 4, 5, 3, 4, 4, 5, 4, 5, 5, 6,
     1, 2, 2, 3, 2, 3, 3, 4, 2, 3, 3, 4, 3, 4, 4, 5,
     2, 3, 3, 4, 3, 4, 4, 5, 3, 4, 4, 5, 4, 5, 5, 6,
     2, 3, 3, 4, 3, 4, 4, 5, 3, 4, 4, 5, 4, 5, 5, 6,
     3, 4, 4, 5, 4, 5, 5, 6, 4, 5, 5, 6, 5, 6, 6, 7,
     1, 2, 2, 3, 2, 3, 3, 4, 2, 3, 3, 4, 3, 4, 4, 5,
     2, 3, 3, 4, 3, 4, 4, 5, 3, 4, 4, 5, 4, 5, 5, 6,
     2, 3, 3, 4, 3, 4, 4, 5, 3, 4, 4, 5, 4, 5, 5, 6,
     3, 4, 4, 5, 4, 5, 5, 6, 4, 5, 5, 6, 5, 6, 6, 7,
     2, 3, 3, 4, 3, 4, 4, 5, 3, 4, 4, 5, 4, 5, 5, 6,
     3, 4, 4, 5, 4, 5, 5, 6, 4, 5, 5, 6, 5, 6, 6, 7,
     3, 4, 4, 5, 4, 5, 5, 6, 4, 5, 5, 6, 5, 6, 6, 7,
     4, 5, 5, 6, 5, 6, 6, 7, 5, 6, 6, 7, 6, 7, 7, 8]"

text \<open>
  \<open>while ((w & 255) == 0) { w >>= 8; result += 8; } result += rightmost_one_pos[w & 255];\<close>
  The C loop does not end exactly when \<open>w\<close> has become 0.
\<close>

function byte_scan :: "bitmapword \<Rightarrow> int \<Rightarrow> int result" where
  "byte_scan w res =
     (if w = 0 then Inl LOOP
      else if w AND 255 = 0 then byte_scan (drop_bit 8 w) (res + 8)
      else Inr (res + int (rightmost_one_pos ! unat (w AND 255))))"
  by pat_completeness auto
termination
  by (relation "measure (\<lambda>(w, r). unat w)")
    (auto simp del: drop_bit_numeral_bit0 intro!: unat_drop_bit_less)

text \<open>\<open>while (w != 0) { result += number_of_ones[w & 255]; w >>= 8; }\<close>\<close>

function byte_count :: "bitmapword \<Rightarrow> nat \<Rightarrow> nat" where
  "byte_count w res =
     (if w \<noteq> 0 then byte_count (drop_bit 8 w) (res + number_of_ones ! unat (w AND 255))
      else res)"
  by pat_completeness auto
termination
  by (relation "measure (\<lambda>(w, r). unat w)")
    (auto simp del: drop_bit_numeral_bit0 intro!: unat_drop_bit_less)

declare byte_scan.simps [simp del] byte_count.simps [simp del]

subsection \<open>Tests and comparisons\<close>

definition bms_copy :: "Bitmapset option \<Rightarrow> Bitmapset option" where
  "bms_copy a = (case a of None \<Rightarrow> None | Some a \<Rightarrow> Some \<lparr>words = words a\<rparr>)"

definition bms_is_empty :: "Bitmapset option \<Rightarrow> bool" where
  "bms_is_empty a = (case a of
     None \<Rightarrow> True
   | Some a \<Rightarrow> list_all (\<lambda>wordnum. words a ! wordnum = 0) [0..<nwords a])"

definition bms_equal :: "Bitmapset option \<Rightarrow> Bitmapset option \<Rightarrow> bool" where
  "bms_equal a b = (case a of
     None \<Rightarrow> (case b of None \<Rightarrow> True | Some _ \<Rightarrow> bms_is_empty b)
   | Some a' \<Rightarrow> (case b of
       None \<Rightarrow> bms_is_empty a
     | Some b' \<Rightarrow>
         (let (shorter, longer) = (if nwords a' \<le> nwords b' then (a', b') else (b', a'));
              shortlen = nwords shorter;
              longlen = nwords longer
          in list_all (\<lambda>i. words shorter ! i = words longer ! i) [0..<shortlen] \<and>
             list_all (\<lambda>i. words longer ! i = 0) [shortlen..<longlen])))"

definition bms_make_singleton :: "int \<Rightarrow> Bitmapset option result" where
  "bms_make_singleton x =
     (if x < 0 then Inl (ERROR ''negative bitmapset member not allowed'')
      else let wordnum = WORDNUM x; bitnum = BITNUM x
           in Inr (Some \<lparr>words = (replicate (wordnum + 1) 0)[wordnum := push_bit bitnum 1]\<rparr>))"

definition bms_is_subset :: "Bitmapset option \<Rightarrow> Bitmapset option \<Rightarrow> bool" where
  "bms_is_subset a b = (case a of
     None \<Rightarrow> True
   | Some a' \<Rightarrow> (case b of
       None \<Rightarrow> bms_is_empty a
     | Some b' \<Rightarrow>
         (let shortlen = min (nwords a') (nwords b')
          in list_all (\<lambda>i. words a' ! i AND NOT (words b' ! i) = 0) [0..<shortlen] \<and>
             (if nwords a' > nwords b'
              then list_all (\<lambda>i. words a' ! i = 0) [shortlen..<nwords a'] else True))))"

text \<open>
  The loop bodies of \<open>bms_subset_compare\<close>: \<open>Inl\<close> is \<open>return BMS_DIFFERENT\<close>, \<open>Inr\<close> the
  status so far.
\<close>

definition not_subset_of_b :: "BMS_Comparison \<Rightarrow> BMS_Comparison + BMS_Comparison" where
  "not_subset_of_b res = (if res = BMS_SUBSET1 then Inl BMS_DIFFERENT else Inr BMS_SUBSET2)"

definition not_subset_of_a :: "BMS_Comparison \<Rightarrow> BMS_Comparison + BMS_Comparison" where
  "not_subset_of_a res = (if res = BMS_SUBSET2 then Inl BMS_DIFFERENT else Inr BMS_SUBSET1)"

definition subset_compare_word ::
  "Bitmapset \<Rightarrow> Bitmapset \<Rightarrow> nat \<Rightarrow> BMS_Comparison \<Rightarrow> BMS_Comparison + BMS_Comparison" where
  "subset_compare_word a b i res =
     (let aword = words a ! i; bword = words b ! i
      in case (if aword AND NOT bword \<noteq> 0 then not_subset_of_b res else Inr res) of
           Inl r \<Rightarrow> Inl r
         | Inr res \<Rightarrow> (if bword AND NOT aword \<noteq> 0 then not_subset_of_a res else Inr res))"

definition bms_subset_compare ::
  "Bitmapset option \<Rightarrow> Bitmapset option \<Rightarrow> BMS_Comparison" where
  "bms_subset_compare a b = (case a of
     None \<Rightarrow> (case b of
       None \<Rightarrow> BMS_EQUAL
     | Some _ \<Rightarrow> (if bms_is_empty b then BMS_EQUAL else BMS_SUBSET1))
   | Some a' \<Rightarrow> (case b of
       None \<Rightarrow> (if bms_is_empty a then BMS_EQUAL else BMS_SUBSET2)
     | Some b' \<Rightarrow>
         (let shortlen = min (nwords a') (nwords b')
          in case loop_exit (subset_compare_word a' b') [0..<shortlen] BMS_EQUAL of
               Inl r \<Rightarrow> r
             | Inr res \<Rightarrow>
                 (case (if nwords a' > nwords b' then
                          loop_exit (\<lambda>i r. if words a' ! i \<noteq> 0 then not_subset_of_b r else Inr r)
                            [shortlen..<nwords a'] res
                        else if nwords a' < nwords b' then
                          loop_exit (\<lambda>i r. if words b' ! i \<noteq> 0 then not_subset_of_a r else Inr r)
                            [shortlen..<nwords b'] res
                        else Inr res) of
                    Inl r \<Rightarrow> r
                  | Inr res \<Rightarrow> res))))"

definition bms_is_member :: "int \<Rightarrow> Bitmapset option \<Rightarrow> bool result" where
  "bms_is_member x a =
     (if x < 0 then Inl (ERROR ''negative bitmapset member not allowed'')
      else case a of
        None \<Rightarrow> Inr False
      | Some a \<Rightarrow>
          (let wordnum = WORDNUM x; bitnum = BITNUM x
           in if wordnum \<ge> nwords a then Inr False
              else Inr (words a ! wordnum AND push_bit bitnum 1 \<noteq> 0)))"

definition bms_overlap :: "Bitmapset option \<Rightarrow> Bitmapset option \<Rightarrow> bool" where
  "bms_overlap a b = (case (a, b) of
     (Some a, Some b) \<Rightarrow>
       list_ex (\<lambda>i. words a ! i AND words b ! i \<noteq> 0) [0..<min (nwords a) (nwords b)]
   | _ \<Rightarrow> False)"

definition bms_nonempty_difference :: "Bitmapset option \<Rightarrow> Bitmapset option \<Rightarrow> bool" where
  "bms_nonempty_difference a b = (case a of
     None \<Rightarrow> False
   | Some a' \<Rightarrow> (case b of
       None \<Rightarrow> \<not> bms_is_empty a
     | Some b' \<Rightarrow>
         (let shortlen = min (nwords a') (nwords b')
          in list_ex (\<lambda>i. words a' ! i AND NOT (words b' ! i) \<noteq> 0) [0..<shortlen] \<or>
             list_ex (\<lambda>i. words a' ! i \<noteq> 0) [shortlen..<nwords a'])))"

definition singleton_word ::
  "Bitmapset \<Rightarrow> nat \<Rightarrow> int \<Rightarrow> pg_error + int" where
  "singleton_word a wordnum res =
     (let w = words a ! wordnum
      in if w \<noteq> 0 then
           (if res \<ge> 0 \<or> HAS_MULTIPLE_ONES w
            then Inl (ERROR ''bitmapset has multiple members'')
            else byte_scan w (int (wordnum * BITS_PER_BITMAPWORD)))
         else Inr res)"

definition bms_singleton_member :: "Bitmapset option \<Rightarrow> int result" where
  "bms_singleton_member a = (case a of
     None \<Rightarrow> Inl (ERROR ''bitmapset is empty'')
   | Some a \<Rightarrow>
       (case loop_exit (singleton_word a) [0..<nwords a] (- 1) of
          Inl e \<Rightarrow> Inl e
        | Inr res \<Rightarrow> if res < 0 then Inl (ERROR ''bitmapset is empty'') else Inr res))"

definition bms_num_members :: "Bitmapset option \<Rightarrow> nat" where
  "bms_num_members a = (case a of
     None \<Rightarrow> 0
   | Some a \<Rightarrow> fold (\<lambda>wordnum res. byte_count (words a ! wordnum) res) [0..<nwords a] 0)"

definition membership_word ::
  "Bitmapset \<Rightarrow> nat \<Rightarrow> BMS_Membership \<Rightarrow> BMS_Membership + BMS_Membership" where
  "membership_word a wordnum res =
     (let w = words a ! wordnum
      in if w \<noteq> 0 then
           (if res \<noteq> BMS_EMPTY_SET \<or> HAS_MULTIPLE_ONES w then Inl BMS_MULTIPLE
            else Inr BMS_SINGLETON)
         else Inr res)"

definition bms_membership :: "Bitmapset option \<Rightarrow> BMS_Membership" where
  "bms_membership a = (case a of
     None \<Rightarrow> BMS_EMPTY_SET
   | Some a \<Rightarrow>
       (case loop_exit (membership_word a) [0..<nwords a] BMS_EMPTY_SET of
          Inl r \<Rightarrow> r | Inr r \<Rightarrow> r))"

subsection \<open>Set algebra\<close>

definition bms_union :: "Bitmapset option \<Rightarrow> Bitmapset option \<Rightarrow> Bitmapset option" where
  "bms_union a b = (case a of
     None \<Rightarrow> bms_copy b
   | Some a' \<Rightarrow> (case b of
       None \<Rightarrow> bms_copy a
     | Some b' \<Rightarrow>
         (let (res, oth) = (if nwords a' \<le> nwords b' then (b', a') else (a', b'))
          in Some (res\<lparr>words :=
               loop_upd 0 (nwords oth) (\<lambda>i w. w OR words oth ! i) (words res)\<rparr>))))"

definition bms_intersect :: "Bitmapset option \<Rightarrow> Bitmapset option \<Rightarrow> Bitmapset option" where
  "bms_intersect a b = (case (a, b) of
     (Some a', Some b') \<Rightarrow>
       (let (res, oth) = (if nwords a' \<le> nwords b' then (a', b') else (b', a'))
        in Some (res\<lparr>words :=
             loop_upd 0 (nwords res) (\<lambda>i w. w AND words oth ! i) (words res)\<rparr>))
   | _ \<Rightarrow> None)"

definition bms_difference :: "Bitmapset option \<Rightarrow> Bitmapset option \<Rightarrow> Bitmapset option" where
  "bms_difference a b = (case a of
     None \<Rightarrow> None
   | Some a' \<Rightarrow> (case b of
       None \<Rightarrow> bms_copy a
     | Some b' \<Rightarrow>
         (let shortlen = min (nwords a') (nwords b')
          in Some (a'\<lparr>words :=
               loop_upd 0 shortlen (\<lambda>i w. w AND NOT (words b' ! i)) (words a')\<rparr>))))"

subsection \<open>Operations that recycle an input\<close>

definition bms_add_member :: "Bitmapset option \<Rightarrow> int \<Rightarrow> Bitmapset option result" where
  "bms_add_member a x =
     (if x < 0 then Inl (ERROR ''negative bitmapset member not allowed'')
      else case a of
        None \<Rightarrow> bms_make_singleton x
      | Some a \<Rightarrow>
          (let wordnum = WORDNUM x; bitnum = BITNUM x;
               ws = (if wordnum \<ge> nwords a
                     then words a @ replicate (wordnum + 1 - nwords a) 0 else words a)
           in Inr (Some (a\<lparr>words := ws[wordnum := ws ! wordnum OR push_bit bitnum 1]\<rparr>))))"

definition bms_del_member :: "Bitmapset option \<Rightarrow> int \<Rightarrow> Bitmapset option result" where
  "bms_del_member a x =
     (if x < 0 then Inl (ERROR ''negative bitmapset member not allowed'')
      else case a of
        None \<Rightarrow> Inr None
      | Some a \<Rightarrow>
          (let wordnum = WORDNUM x; bitnum = BITNUM x
           in if wordnum < nwords a
              then Inr (Some (a\<lparr>words := (words a)[wordnum :=
                     words a ! wordnum AND NOT (push_bit bitnum 1)]\<rparr>))
              else Inr (Some a)))"

definition bms_add_members :: "Bitmapset option \<Rightarrow> Bitmapset option \<Rightarrow> Bitmapset option" where
  "bms_add_members a b = (case a of
     None \<Rightarrow> bms_copy b
   | Some a' \<Rightarrow> (case b of
       None \<Rightarrow> a
     | Some b' \<Rightarrow>
         (let (res, oth) = (if nwords a' < nwords b' then (b', a') else (a', b'))
          in Some (res\<lparr>words :=
               loop_upd 0 (nwords oth) (\<lambda>i w. w OR words oth ! i) (words res)\<rparr>))))"

definition bms_int_members :: "Bitmapset option \<Rightarrow> Bitmapset option \<Rightarrow> Bitmapset option" where
  "bms_int_members a b = (case a of
     None \<Rightarrow> None
   | Some a' \<Rightarrow> (case b of
       None \<Rightarrow> None
     | Some b' \<Rightarrow>
         (let shortlen = min (nwords a') (nwords b');
              ws = loop_upd 0 shortlen (\<lambda>i w. w AND words b' ! i) (words a')
          in Some (a'\<lparr>words := loop_upd shortlen (nwords a') (\<lambda>i w. 0) ws\<rparr>))))"

definition bms_del_members :: "Bitmapset option \<Rightarrow> Bitmapset option \<Rightarrow> Bitmapset option" where
  "bms_del_members a b = (case a of
     None \<Rightarrow> None
   | Some a' \<Rightarrow> (case b of
       None \<Rightarrow> a
     | Some b' \<Rightarrow>
         (let shortlen = min (nwords a') (nwords b')
          in Some (a'\<lparr>words :=
               loop_upd 0 shortlen (\<lambda>i w. w AND NOT (words b' ! i)) (words a')\<rparr>))))"

definition bms_join :: "Bitmapset option \<Rightarrow> Bitmapset option \<Rightarrow> Bitmapset option" where
  "bms_join a b = (case a of
     None \<Rightarrow> b
   | Some a' \<Rightarrow> (case b of
       None \<Rightarrow> a
     | Some b' \<Rightarrow>
         (let (res, oth) = (if nwords a' < nwords b' then (b', a') else (a', b'))
          in Some (res\<lparr>words :=
               loop_upd 0 (nwords oth) (\<lambda>i w. w OR words oth ! i) (words res)\<rparr>))))"

text \<open>Removes and returns the first member; the set after the call comes with the result.\<close>

definition first_member_word ::
  "Bitmapset \<Rightarrow> nat \<Rightarrow> unit \<Rightarrow> (int \<times> Bitmapset option) result + unit" where
  "first_member_word a wordnum u =
     (let w = words a ! wordnum
      in if w \<noteq> 0 then
           (let w = RIGHTMOST_ONE w;
                a' = a\<lparr>words := (words a)[wordnum := words a ! wordnum AND NOT w]\<rparr>
            in Inl (case byte_scan w (int (wordnum * BITS_PER_BITMAPWORD)) of
                      Inl e \<Rightarrow> Inl e | Inr res \<Rightarrow> Inr (res, Some a')))
         else Inr ())"

definition bms_first_member :: "Bitmapset option \<Rightarrow> (int \<times> Bitmapset option) result" where
  "bms_first_member a = (case a of
     None \<Rightarrow> Inr (- 1, None)
   | Some a \<Rightarrow>
       (case loop_exit (first_member_word a) [0..<nwords a] () of
          Inl r \<Rightarrow> r
        | Inr _ \<Rightarrow> Inr (- 1, Some a)))"

subsection \<open>Words and their lowest bit\<close>

lemma and_255: "(w :: bitmapword) AND 255 = take_bit 8 w"
  by (simp add: take_bit_eq_mask mask_eq_exp_minus_1)

lemma unat_and_255: "unat ((w :: bitmapword) AND 255) = take_bit 8 (unat w)"
  by (simp add: and_255 unsigned_take_bit_eq)

lemma bit_low_byte: "bit (unat ((w :: bitmapword) AND 255)) n \<longleftrightarrow> n < 8 \<and> bit w n"
  by (simp add: unat_and_255 bit_take_bit_iff bit_unsigned_iff)

lemma low_byte_bound: "unat ((w :: bitmapword) AND 255) < 256"
  using take_bit_nat_less_exp [of 8 "unat w"] by (simp add: unat_and_255)

lemma low_byte_zero_iff: "(w :: bitmapword) AND 255 = 0 \<longleftrightarrow> (\<forall>n<8. \<not> bit w n)"
  by (auto simp: and_255 bit_eq_iff bit_take_bit_iff)

definition lowest_bit :: "bitmapword \<Rightarrow> nat \<Rightarrow> bool" where
  "lowest_bit w k \<longleftrightarrow> bit w k \<and> (\<forall>j<k. \<not> bit w j)"

lemma lowest_bit_exists: "w \<noteq> 0 \<Longrightarrow> \<exists>k. lowest_bit w k"
  unfolding lowest_bit_def word_neq_0_iff using exists_least_iff [of "bit w"] by blast

lemma lowest_bit_unique: "lowest_bit w k \<Longrightarrow> lowest_bit w l \<Longrightarrow> k = l"
  unfolding lowest_bit_def by (metis linorder_neqE_nat)

lemma lowest_bit_bound: "lowest_bit w k \<Longrightarrow> k < 32"
  using bit_imp_le_length [of w k] by (simp add: lowest_bit_def)

lemma length_rightmost_one_pos [simp]: "length rightmost_one_pos = 256"
  by (simp add: rightmost_one_pos_def)

lemma rightmost_table_ok:
  "table_check 1 (\<lambda>v t. t < 8 \<and> v mod 2 ^ t = 0 \<and> odd (v div 2 ^ t)) (tl rightmost_one_pos)"
  by (simp add: rightmost_one_pos_def del: One_nat_def)

lemma rightmost_one_pos_spec:
  assumes "0 < v" and "v < 256"
  shows "rightmost_one_pos ! v < 8 \<and> bit v (rightmost_one_pos ! v) \<and>
    (\<forall>j < rightmost_one_pos ! v. \<not> bit v j)"
proof -
  let ?t = "rightmost_one_pos ! v"
  have "tl rightmost_one_pos ! (v - 1) = ?t"
    using assms by (simp add: nth_tl)
  then have ok: "?t < 8 \<and> v mod 2 ^ ?t = 0 \<and> odd (v div 2 ^ ?t)"
    using table_check_nth [OF rightmost_table_ok, of "v - 1"] assms by simp
  then have "take_bit ?t v = 0"
    by (simp add: take_bit_eq_mod)
  then have "\<forall>j < ?t. \<not> bit v j"
    by (metis bit_0_eq bit_take_bit_iff bot_apply bot_bool_def)
  with ok show ?thesis
    by (simp add: bit_iff_odd)
qed

lemma byte_scan_lowest:
  "w \<noteq> 0 \<Longrightarrow> \<exists>k. byte_scan w r = Inr (r + int k) \<and> lowest_bit w k"
proof (induction w r rule: byte_scan.induct)
  case (1 w r)
  show ?case
  proof (cases "w AND 255 = 0")
    case True
    have ne: "drop_bit 8 w \<noteq> 0"
      using 1(2) True
      by (auto simp only: word_neq_0_iff bit_drop_bit_eq low_byte_zero_iff comp_apply)
        (metis add.commute le_Suc_ex not_less)
    with 1 True obtain k where k: "byte_scan (drop_bit 8 w) (r + 8) = Inr (r + 8 + int k)"
        "lowest_bit (drop_bit 8 w) k"
      by blast
    have "lowest_bit w (k + 8)"
      unfolding lowest_bit_def
    proof (intro conjI allI impI)
      show "bit w (k + 8)"
        using k(2) by (simp only: lowest_bit_def bit_drop_bit_eq comp_apply add.commute)
      fix j assume "j < k + 8"
      show "\<not> bit w j"
      proof (cases "j < 8")
        case False
        then obtain i where "j = 8 + i" by (metis le_Suc_ex not_less)
        with k(2) \<open>j < k + 8\<close> show ?thesis
          by (simp only: lowest_bit_def bit_drop_bit_eq comp_apply) auto
      qed (use True low_byte_zero_iff in blast)
    qed
    moreover have "byte_scan w r = Inr (r + int (k + 8))"
      using 1(2) True k(1) by (subst byte_scan.simps) (simp add: algebra_simps)
    ultimately show ?thesis by blast
  next
    case False
    let ?v = "unat (w AND 255)"
    have "0 < ?v" using False by (simp add: unat_gt_0)
    with rightmost_one_pos_spec [of ?v] low_byte_bound [of w]
    have "lowest_bit w (rightmost_one_pos ! ?v)"
      by (auto simp: lowest_bit_def bit_low_byte)
    moreover have "byte_scan w r = Inr (r + int (rightmost_one_pos ! ?v))"
      using 1(2) False by (subst byte_scan.simps) simp
    ultimately show ?thesis by blast
  qed
qed

lemma odd_and_minus:
  assumes "odd (u :: bitmapword)"
  shows "u AND - u = 1"
proof (rule bit_word_eqI)
  fix n assume n: "n < LENGTH(32)"
  have "(u - 1) OR 1 = u" using assms by (simp add: or_one_eq)
  then have "bit u n \<longleftrightarrow> bit (u - 1) n \<or> n = 0"
    by (metis bit_1_iff bit_or_iff n possible_bit_word)
  moreover have "\<not> bit (u - 1) 0" using assms by (simp add: bit_0)
  ultimately show "bit (u AND - u) n = bit (1 :: bitmapword) n"
    using n by (auto simp: bit_and_iff bit_minus_iff bit_1_iff)
qed

lemma RIGHTMOST_ONE_lowest:
  assumes "lowest_bit w k"
  shows "RIGHTMOST_ONE w = push_bit k 1"
proof -
  define u where "u = drop_bit k w"
  have w: "w = push_bit k u"
  proof (rule bit_word_eqI)
    fix n assume "n < LENGTH(32)"
    with assms show "bit w n = bit (push_bit k u) n"
      by (cases "k \<le> n") (auto simp: u_def bit_push_bit_iff bit_drop_bit_eq lowest_bit_def)
  qed
  have "odd u"
    using assms by (simp add: u_def lowest_bit_def bit_iff_odd_drop_bit)
  then have "u AND - u = 1" by (rule odd_and_minus)
  then show ?thesis
    by (simp add: RIGHTMOST_ONE_def w del: push_bit_of_1 flip: push_bit_minus push_bit_and)
qed

subsection \<open>The set a bitmapset stands for\<close>

text \<open>
  \<open>wordat\<close> reads the array as if it went on with zero words for ever, which is what makes
  the length of the array invisible; every operation acts on it word by word.
\<close>

definition wordat :: "Bitmapset option \<Rightarrow> nat \<Rightarrow> bitmapword" where
  "wordat a i = (case a of None \<Rightarrow> 0 | Some a \<Rightarrow> if i < nwords a then words a ! i else 0)"

definition bms_set :: "Bitmapset option \<Rightarrow> nat set" where
  "bms_set a = {x. bit (wordat a (x div 32)) (x mod 32)}"

lemma bms_set_iff: "32 * i + n \<in> bms_set a \<longleftrightarrow> bit (wordat a i) n" if "n < 32" for n i
  using that by (simp add: bms_set_def)

lemma mem_bms_set: "x \<in> bms_set a \<longleftrightarrow> bit (wordat a (x div 32)) (x mod 32)"
  by (simp add: bms_set_def)

lemma all_bits_iff:
  "(\<forall>i n. n < 32 \<longrightarrow> P (bit (wordat a i) n) (bit (wordat b i) n)) \<longleftrightarrow>
   (\<forall>x. P (x \<in> bms_set a) (x \<in> bms_set b))"
proof safe
  fix x assume "\<forall>i n. n < 32 \<longrightarrow> P (bit (wordat a i) n) (bit (wordat b i) n)"
  then show "P (x \<in> bms_set a) (x \<in> bms_set b)"
    unfolding mem_bms_set by simp
next
  fix i n :: nat
  assume *: "\<forall>x. P (x \<in> bms_set a) (x \<in> bms_set b)" and "n < 32"
  from spec [OF *(1), of "32 * i + n"] \<open>n < 32\<close>
  show "P (bit (wordat a i) n) (bit (wordat b i) n)" by (simp add: bms_set_iff)
qed

lemma word_eq_bits: "(v :: bitmapword) = w \<longleftrightarrow> (\<forall>n<32. bit v n = bit w n)"
  by (auto simp: bit_eq_iff)

lemma bms_set_eq_iff: "bms_set a = bms_set b \<longleftrightarrow> (\<forall>i. wordat a i = wordat b i)"
  using all_bits_iff [where P = "(=)"] by (auto simp: word_eq_bits set_eq_iff)

lemma bms_subset_iff: "bms_set a \<subseteq> bms_set b \<longleftrightarrow> (\<forall>i. wordat a i AND NOT (wordat b i) = 0)"
  using all_bits_iff [where P = "(\<longrightarrow>)" and a = a and b = b]
  by (auto simp: word_eq_bits bit_and_iff bit_not_iff subset_iff)

lemma bms_disjoint_iff: "bms_set a \<inter> bms_set b = {} \<longleftrightarrow> (\<forall>i. wordat a i AND wordat b i = 0)"
  using all_bits_iff [where P = "\<lambda>p q. \<not> (p \<and> q)" and a = a and b = b]
  by (auto simp: word_eq_bits bit_and_iff disjoint_iff)

lemma wordat_None [simp]: "wordat None i = 0"
  by (simp add: wordat_def)

lemma bms_set_None [simp]: "bms_set None = {}"
  by (simp add: bms_set_def)

lemma bms_empty_iff: "bms_set a = {} \<longleftrightarrow> (\<forall>i. wordat a i = 0)"
  using bms_set_eq_iff [of a None] by simp

lemma bms_set_empty_Some: "bms_set (Some a) = {} \<longleftrightarrow> (\<forall>i < nwords a. words a ! i = 0)"
  by (auto simp: bms_empty_iff wordat_def)

lemma finite_bms_set [simp]: "finite (bms_set a)"
proof -
  have "bms_set a \<subseteq> {..< 32 * (case a of None \<Rightarrow> 0 | Some a \<Rightarrow> nwords a)}"
  proof
    fix x assume "x \<in> bms_set a"
    then have "x div 32 < (case a of None \<Rightarrow> 0 | Some a \<Rightarrow> nwords a)"
      by (auto simp: bms_set_def wordat_def split: option.splits if_splits)
    then show "x \<in> {..< 32 * (case a of None \<Rightarrow> 0 | Some a \<Rightarrow> nwords a)}"
      by (simp add: div_less_iff_less_mult mult.commute)
  qed
  then show ?thesis by (rule finite_subset) simp
qed

subsection \<open>What the tests decide\<close>

lemma bms_copy_id [simp]: "bms_copy a = a"
  by (auto simp: bms_copy_def split: option.splits)

lemma bms_is_empty_iff [pg_abs]: "bms_is_empty a \<longleftrightarrow> bms_set a = {}"
  by (auto simp: bms_is_empty_def bms_set_empty_Some list_all_iff split: option.splits)

lemma wordat_Some: "wordat (Some a) i = (if i < nwords a then words a ! i else 0)"
  by (simp add: wordat_def)

lemma wordat_simps [simp]:
  "i < nwords a \<Longrightarrow> wordat (Some a) i = words a ! i"
  "nwords a \<le> i \<Longrightarrow> wordat (Some a) i = 0"
  by (simp_all add: wordat_Some)

lemma bms_equal_Some:
  "bms_equal (Some a) (Some b) \<longleftrightarrow> (\<forall>i. wordat (Some a) i = wordat (Some b) i)"
proof (cases "nwords a \<le> nwords b")
  case True
  have "(\<forall>i. wordat (Some a) i = wordat (Some b) i) \<longleftrightarrow>
      (\<forall>i < nwords a. wordat (Some a) i = wordat (Some b) i) \<and>
      (\<forall>i. nwords a \<le> i \<and> i < nwords b \<longrightarrow> wordat (Some a) i = wordat (Some b) i)"
    by (rule all_nat_split) (use True in simp_all)
  with True show ?thesis
    by (auto simp: bms_equal_def Let_def list_all_iff)
next
  case False
  have "(\<forall>i. wordat (Some a) i = wordat (Some b) i) \<longleftrightarrow>
      (\<forall>i < nwords b. wordat (Some a) i = wordat (Some b) i) \<and>
      (\<forall>i. nwords b \<le> i \<and> i < nwords a \<longrightarrow> wordat (Some a) i = wordat (Some b) i)"
    by (rule all_nat_split) (use False in simp_all)
  with False show ?thesis
    by (auto simp: bms_equal_def Let_def list_all_iff)
qed

lemma bms_equal_iff [pg_abs]: "bms_equal a b \<longleftrightarrow> bms_set a = bms_set b"
proof (cases "a = None \<or> b = None")
  case True
  then show ?thesis by (auto simp: bms_equal_def bms_is_empty_iff split: option.splits)
next
  case False
  then show ?thesis by (auto simp: bms_equal_Some bms_set_eq_iff)
qed

text \<open>The common part of the tests on \<open>a\<close> and the complement of \<open>b\<close>.\<close>

lemma all_diff_words:
  "(\<forall>i. wordat (Some a) i AND NOT (wordat (Some b) i) = 0) \<longleftrightarrow>
   (\<forall>i < min (nwords a) (nwords b). words a ! i AND NOT (words b ! i) = 0) \<and>
   (\<forall>i. min (nwords a) (nwords b) \<le> i \<and> i < nwords a \<longrightarrow> words a ! i = 0)"
proof -
  have "(\<forall>i. wordat (Some a) i AND NOT (wordat (Some b) i) = 0) \<longleftrightarrow>
      (\<forall>i < min (nwords a) (nwords b). wordat (Some a) i AND NOT (wordat (Some b) i) = 0) \<and>
      (\<forall>i. min (nwords a) (nwords b) \<le> i \<and> i < nwords a \<longrightarrow>
        wordat (Some a) i AND NOT (wordat (Some b) i) = 0)"
    by (rule all_nat_split) simp_all
  then show ?thesis by (auto simp: min_le_iff_disj)
qed

lemma bms_is_subset_iff [pg_abs]: "bms_is_subset a b \<longleftrightarrow> bms_set a \<subseteq> bms_set b"
proof (cases "a = None \<or> b = None")
  case True
  then show ?thesis by (auto simp: bms_is_subset_def bms_is_empty_iff split: option.splits)
next
  case False
  then obtain a' b' where ab: "a = Some a'" "b = Some b'" by auto
  show ?thesis
    unfolding ab bms_subset_iff all_diff_words
    by (auto simp: bms_is_subset_def Let_def list_all_iff)
qed

lemma all_and_words:
  "(\<forall>i. wordat (Some a) i AND wordat (Some b) i = 0) \<longleftrightarrow>
   (\<forall>i < min (nwords a) (nwords b). words a ! i AND words b ! i = 0)"
proof -
  have "(\<forall>i. wordat (Some a) i AND wordat (Some b) i = 0) \<longleftrightarrow>
      (\<forall>i < min (nwords a) (nwords b). wordat (Some a) i AND wordat (Some b) i = 0) \<and>
      (\<forall>i. min (nwords a) (nwords b) \<le> i \<and> i < min (nwords a) (nwords b) \<longrightarrow>
        wordat (Some a) i AND wordat (Some b) i = 0)"
    by (rule all_nat_split) (auto simp: min_le_iff_disj)
  then show ?thesis by auto
qed

lemma bms_overlap_iff [pg_abs]: "bms_overlap a b \<longleftrightarrow> bms_set a \<inter> bms_set b \<noteq> {}"
proof (cases "a = None \<or> b = None")
  case True
  then show ?thesis by (auto simp: bms_overlap_def split: option.splits)
next
  case False
  then obtain a' b' where ab: "a = Some a'" "b = Some b'" by auto
  show ?thesis
    unfolding ab bms_disjoint_iff all_and_words
    by (auto simp: bms_overlap_def list_ex_iff)
qed

lemma bms_nonempty_difference_iff [pg_abs]:
  "bms_nonempty_difference a b \<longleftrightarrow> bms_set a - bms_set b \<noteq> {}"
proof (cases "a = None \<or> b = None")
  case True
  then show ?thesis
    by (auto simp: bms_nonempty_difference_def bms_is_empty_iff split: option.splits)
next
  case False
  then obtain a' b' where ab: "a = Some a'" "b = Some b'" by auto
  show ?thesis
    unfolding ab Diff_eq_empty_iff bms_subset_iff all_diff_words
    by (auto simp: bms_nonempty_difference_def Let_def list_ex_iff)
qed

lemma bms_is_member_eq [pg_abs]:
  "bms_is_member x a =
     (if x < 0 then Inl (ERROR ''negative bitmapset member not allowed'')
      else Inr (nat x \<in> bms_set a))"
  by (auto simp: bms_is_member_def bms_set_def wordat_def WORDNUM_def BITNUM_def
      BITS_PER_BITMAPWORD_def word_neq_0_iff bit_and_iff split: option.splits)

subsection \<open>The operations on sets\<close>

lemma bms_setI:
  assumes "\<And>i. wordat c i = f (wordat a i) (wordat b i)"
    and "\<And>v w n. n < 32 \<Longrightarrow> bit (f v w) n \<longleftrightarrow> g (bit v n) (bit w n)"
  shows "bms_set c = {x. g (x \<in> bms_set a) (x \<in> bms_set b)}"
  using assms by (auto simp: bms_set_def)

lemma wordat_or_into_longer:
  assumes "nwords b \<le> nwords a"
  shows "wordat (Some (a\<lparr>words := loop_upd 0 (nwords b) (\<lambda>i w. w OR words b ! i) (words a)\<rparr>)) i =
    wordat (Some a) i OR wordat (Some b) i"
  using assms by (auto simp: wordat_def nth_loop_upd)

lemma bms_set_union [pg_abs]: "bms_set (bms_union a b) = bms_set a \<union> bms_set b"
proof -
  have "wordat (bms_union a b) i = wordat a i OR wordat b i" for i
    by (auto simp: bms_union_def wordat_or_into_longer or.commute split: option.splits)
  then show ?thesis
    by (subst bms_setI [where f = "(OR)" and g = "(\<or>)" and a = a and b = b])
      (auto simp: bit_or_iff)
qed

lemma bms_set_add_members [pg_abs]: "bms_set (bms_add_members a b) = bms_set a \<union> bms_set b"
proof -
  have "wordat (bms_add_members a b) i = wordat a i OR wordat b i" for i
    by (auto simp: bms_add_members_def wordat_or_into_longer or.commute split: option.splits)
  then show ?thesis
    by (subst bms_setI [where f = "(OR)" and g = "(\<or>)" and a = a and b = b])
      (auto simp: bit_or_iff)
qed

lemma bms_set_join [pg_abs]: "bms_set (bms_join a b) = bms_set a \<union> bms_set b"
proof -
  have "wordat (bms_join a b) i = wordat a i OR wordat b i" for i
    by (auto simp: bms_join_def wordat_or_into_longer or.commute split: option.splits)
  then show ?thesis
    by (subst bms_setI [where f = "(OR)" and g = "(\<or>)" and a = a and b = b])
      (auto simp: bit_or_iff)
qed

lemma bms_set_intersect [pg_abs]: "bms_set (bms_intersect a b) = bms_set a \<inter> bms_set b"
proof -
  have "wordat (bms_intersect a b) i = wordat a i AND wordat b i" for i
    by (auto simp: bms_intersect_def wordat_def nth_loop_upd and.commute split: option.splits)
  then show ?thesis
    by (subst bms_setI [where f = "(AND)" and g = "(\<and>)" and a = a and b = b])
      (auto simp: bit_and_iff)
qed

lemma bms_set_int_members [pg_abs]: "bms_set (bms_int_members a b) = bms_set a \<inter> bms_set b"
proof -
  have "wordat (bms_int_members a b) i = wordat a i AND wordat b i" for i
    by (auto simp: bms_int_members_def Let_def wordat_def nth_loop_upd split: option.splits)
  then show ?thesis
    by (subst bms_setI [where f = "(AND)" and g = "(\<and>)" and a = a and b = b])
      (auto simp: bit_and_iff)
qed

lemma bms_set_difference [pg_abs]: "bms_set (bms_difference a b) = bms_set a - bms_set b"
proof -
  have "wordat (bms_difference a b) i = wordat a i AND NOT (wordat b i)" for i
    by (auto simp: bms_difference_def wordat_def nth_loop_upd split: option.splits)
  then show ?thesis
    by (subst bms_setI [where f = "\<lambda>v w. v AND NOT w" and g = "\<lambda>p q. p \<and> \<not> q" and a = a and b = b])
      (auto simp: bit_and_iff bit_not_iff)
qed

lemma bms_set_del_members [pg_abs]: "bms_set (bms_del_members a b) = bms_set a - bms_set b"
proof -
  have "wordat (bms_del_members a b) i = wordat a i AND NOT (wordat b i)" for i
    by (auto simp: bms_del_members_def wordat_def nth_loop_upd split: option.splits)
  then show ?thesis
    by (subst bms_setI [where f = "\<lambda>v w. v AND NOT w" and g = "\<lambda>p q. p \<and> \<not> q" and a = a and b = b])
      (auto simp: bit_and_iff bit_not_iff)
qed

lemma bms_set_set_bit:
  assumes "\<And>i. wordat c i = (if i = k then wordat a i OR push_bit n 1 else wordat a i)"
    and "n < 32"
  shows "bms_set c = insert (32 * k + n) (bms_set a)"
proof (rule set_eqI)
  fix x
  have "x = 32 * k + n \<longleftrightarrow> x div 32 = k \<and> x mod 32 = n"
    using assms(2) by auto
  with assms show "x \<in> bms_set c \<longleftrightarrow> x \<in> insert (32 * k + n) (bms_set a)"
    by (auto simp: bms_set_def bit_or_iff)
qed

lemma bms_set_clear_bit:
  assumes "\<And>i. wordat c i = (if i = k then wordat a i AND NOT (push_bit n 1) else wordat a i)"
    and "n < 32"
  shows "bms_set c = bms_set a - {32 * k + n}"
proof (rule set_eqI)
  fix x
  have "x = 32 * k + n \<longleftrightarrow> x div 32 = k \<and> x mod 32 = n"
    using assms(2) by auto
  with assms show "x \<in> bms_set c \<longleftrightarrow> x \<in> bms_set a - {32 * k + n}"
    by (auto simp: bms_set_def bit_and_iff bit_not_iff)
qed

lemma word_bit_num: "32 * WORDNUM x + BITNUM x = nat x" "BITNUM x < 32"
  by (simp_all add: WORDNUM_def BITNUM_def BITS_PER_BITMAPWORD_def)

lemma bms_make_singleton_set:
  assumes "0 \<le> x"
  shows "\<exists>c. bms_make_singleton x = Inr c \<and> bms_set c = {nat x}"
proof -
  define c where "c = Some \<lparr>words = (replicate (WORDNUM x + 1) 0)
      [WORDNUM x := push_bit (BITNUM x) (1 :: bitmapword)]\<rparr>"
  have "bms_set c = insert (32 * WORDNUM x + BITNUM x) (bms_set None)"
    by (rule bms_set_set_bit)
      (auto simp: c_def wordat_Some nth_list_update word_bit_num nth_append simp flip: replicate_append_same)
  moreover have "bms_make_singleton x = Inr c"
    using assms by (simp add: bms_make_singleton_def c_def Let_def)
  ultimately show ?thesis by (simp add: word_bit_num)
qed

lemma bms_add_member_set:
  assumes "0 \<le> x"
  shows "\<exists>c. bms_add_member a x = Inr c \<and> bms_set c = insert (nat x) (bms_set a)"
proof (cases a)
  case None
  with bms_make_singleton_set [OF assms] assms show ?thesis
    by (simp add: bms_add_member_def)
next
  case (Some a')
  define ws where "ws = (if WORDNUM x \<ge> nwords a'
    then words a' @ replicate (WORDNUM x + 1 - nwords a') 0 else words a')"
  define c where "c = Some (a'\<lparr>words :=
    ws[WORDNUM x := ws ! WORDNUM x OR push_bit (BITNUM x) 1]\<rparr>)"
  have "bms_set c = insert (32 * WORDNUM x + BITNUM x) (bms_set a)"
    by (rule bms_set_set_bit)
      (auto simp: Some c_def ws_def wordat_Some nth_list_update nth_append word_bit_num)
  moreover have "bms_add_member a x = Inr c"
    using assms by (simp add: Some bms_add_member_def c_def ws_def Let_def)
  ultimately show ?thesis by (simp add: word_bit_num)
qed

lemma bms_del_member_set:
  assumes "0 \<le> x"
  shows "\<exists>c. bms_del_member a x = Inr c \<and> bms_set c = bms_set a - {nat x}"
proof (cases a)
  case None
  with assms show ?thesis by (simp add: bms_del_member_def)
next
  case (Some a')
  define c where "c = Some (if WORDNUM x < nwords a' then a'\<lparr>words := (words a')[WORDNUM x :=
    words a' ! WORDNUM x AND NOT (push_bit (BITNUM x) 1)]\<rparr> else a')"
  have "bms_set c = bms_set a - {32 * WORDNUM x + BITNUM x}"
    by (rule bms_set_clear_bit)
      (auto simp: Some c_def wordat_Some nth_list_update word_bit_num)
  moreover have "bms_del_member a x = Inr c"
    using assms by (simp add: Some bms_del_member_def c_def Let_def)
  ultimately show ?thesis by (simp add: word_bit_num)
qed

subsection \<open>Counting members\<close>

definition bits_of :: "bitmapword \<Rightarrow> nat set" where
  "bits_of w = {n. bit w n}"

lemma finite_bits_of [simp]: "finite (bits_of w)"
  by (rule finite_subset [of _ "{..<32}"]) (auto simp: bits_of_def dest: bit_imp_le_length)

lemma bits_of_empty_iff: "bits_of w = {} \<longleftrightarrow> w = 0"
  by (auto simp: bits_of_def word_eq_0_iff)

lemma number_table_ok:
  "table_check 0 (\<lambda>v t. t = v mod 2 + v div 2 mod 2 + v div 4 mod 2 + v div 8 mod 2 +
     v div 16 mod 2 + v div 32 mod 2 + v div 64 mod 2 + v div 128 mod 2) number_of_ones"
  by (simp add: number_of_ones_def)

lemma length_number_of_ones [simp]: "length number_of_ones = 256"
  by (simp add: number_of_ones_def)

lemma card_low_bits:
  "card {n. n < k \<and> bit (v::nat) n} = sum_list (map (\<lambda>n. v div 2 ^ n mod 2) [0..<k])"
proof (induction k)
  case (Suc k)
  have "{n. n < Suc k \<and> bit v n} = (if bit v k then insert k else id) {n. n < k \<and> bit v n}"
    by (auto simp: less_Suc_eq)
  then show ?case
    using Suc by (auto simp: bit_iff_odd mod_2_eq_odd)
qed simp

lemma number_of_ones_card:
  assumes "v < 256"
  shows "number_of_ones ! v = card {n. n < 8 \<and> bit v n}"
proof -
  have upt: "[0..<8] = [0, 1, 2, 3, 4, 5, 6, 7::nat]" by code_simp
  have "v < length number_of_ones" using assms by simp
  from table_check_nth [OF number_table_ok this] show ?thesis
    unfolding card_low_bits upt by simp
qed

lemma byte_count_card: "byte_count w r = r + card (bits_of w)"
proof (induction w r rule: byte_count.induct)
  case (1 w r)
  show ?case
  proof (cases "w = 0")
    case True
    then show ?thesis by (simp add: byte_count.simps bits_of_def)
  next
    case False
    have "n \<in> bits_of w \<longleftrightarrow> n < 8 \<and> bit w n \<or> n \<in> (\<lambda>n. 8 + n) ` bits_of (drop_bit 8 w)" for n
      by (cases "n < 8") (auto simp: bits_of_def bit_drop_bit_eq image_iff not_less le_iff_add
          simp del: drop_bit_numeral_bit0)
    then have "bits_of w = {n. n < 8 \<and> bit w n} \<union> (\<lambda>n. 8 + n) ` bits_of (drop_bit 8 w)"
      by blast
    moreover have "{n. n < 8 \<and> bit w n} \<inter> (\<lambda>n. 8 + n) ` bits_of (drop_bit 8 w) = {}"
      by auto
    ultimately have "card (bits_of w) =
        card {n. n < 8 \<and> bit w n} + card ((\<lambda>n. 8 + n) ` bits_of (drop_bit 8 w))"
      by (simp only: card_Un_disjoint finite_imageI finite_bits_of finite_Collect_conjI
          finite_Collect_less_nat simp_thms)
    moreover have "card ((\<lambda>n. 8 + n) ` bits_of (drop_bit 8 w)) = card (bits_of (drop_bit 8 w))"
      by (rule card_image) simp
    moreover have "number_of_ones ! unat (w AND 255) = card {n. n < 8 \<and> bit w n}"
      by (simp add: number_of_ones_card low_byte_bound bit_low_byte conj_left_commute conj_commute)
    ultimately show ?thesis
      using False 1 by (subst byte_count.simps) simp
  qed
qed

definition bms_below :: "Bitmapset \<Rightarrow> nat \<Rightarrow> nat set" where
  "bms_below a k = {x \<in> bms_set (Some a). x < 32 * k}"

lemma finite_bms_below [simp]: "finite (bms_below a k)"
  by (simp add: bms_below_def)

lemma bms_below_0 [simp]: "bms_below a 0 = {}"
  by (simp add: bms_below_def)

lemma bms_below_all: "bms_below a (nwords a) = bms_set (Some a)"
proof -
  have "x < 32 * nwords a" if "x \<in> bms_set (Some a)" for x
    using that by (auto simp: bms_set_def wordat_Some split: if_splits)
  then show ?thesis by (auto simp: bms_below_def)
qed

lemma bms_below_Suc:
  assumes "k < nwords a"
  shows "bms_below a (Suc k) = bms_below a k \<union> (\<lambda>n. 32 * k + n) ` bits_of (words a ! k)"
    (is "_ = _ \<union> ?new")
proof (rule set_eqI)
  fix x
  have "x \<in> ?new \<longleftrightarrow> x div 32 = k \<and> bit (words a ! k) (x mod 32)"
  proof
    assume "x \<in> ?new"
    then obtain n where n: "x = 32 * k + n" "bit (words a ! k) n"
      by (auto simp: bits_of_def)
    then have "n < 32" using bit_imp_le_length by fastforce
    with n show "x div 32 = k \<and> bit (words a ! k) (x mod 32)" by simp
  next
    assume "x div 32 = k \<and> bit (words a ! k) (x mod 32)"
    then show "x \<in> ?new"
      by (intro image_eqI [of _ _ "x mod 32"]) (auto simp: bits_of_def)
  qed
  moreover have "x < 32 * Suc k \<longleftrightarrow> x < 32 * k \<or> x div 32 = k"
    by auto
  ultimately show "x \<in> bms_below a (Suc k) \<longleftrightarrow> x \<in> bms_below a k \<union> ?new"
    using assms by (auto simp: bms_below_def bms_set_def)
qed

lemma card_bms_below_Suc:
  assumes "k < nwords a"
  shows "card (bms_below a (Suc k)) = card (bms_below a k) + card (bits_of (words a ! k))"
proof -
  have "bms_below a k \<inter> (\<lambda>n. 32 * k + n) ` bits_of (words a ! k) = {}"
    by (auto simp: bms_below_def)
  moreover have "card ((\<lambda>n. 32 * k + n) ` bits_of (words a ! k)) = card (bits_of (words a ! k))"
    by (rule card_image) simp
  ultimately show ?thesis
    using assms by (simp add: bms_below_Suc card_Un_disjoint)
qed

lemma bms_num_members_card [pg_abs]: "bms_num_members a = card (bms_set a)"
proof (cases a)
  case (Some a')
  have "k \<le> nwords a' \<Longrightarrow>
      fold (\<lambda>wordnum res. byte_count (words a' ! wordnum) res) [0..<k] 0 = card (bms_below a' k)" for k
    by (induction k) (simp_all add: byte_count_card card_bms_below_Suc)
  from this [of "nwords a'"] show ?thesis
    by (simp add: Some bms_num_members_def bms_below_all)
qed (simp add: bms_num_members_def)

subsection \<open>Zero, one or many members\<close>

lemma bits_of_eq_iff: "bits_of v = bits_of w \<longleftrightarrow> v = w"
  unfolding bits_of_def by (metis bit_word_eqI mem_Collect_eq)

lemma lowest_bit_mem: "lowest_bit w k \<Longrightarrow> k \<in> bits_of w"
  by (simp add: lowest_bit_def bits_of_def)

lemma bits_of_shift: "k < 32 \<Longrightarrow> bits_of (push_bit k 1) = {k}"
  by (auto simp: bits_of_def)

lemma HAS_MULTIPLE_ONES_iff:
  assumes "w \<noteq> 0"
  shows "HAS_MULTIPLE_ONES w \<longleftrightarrow> card (bits_of w) \<noteq> 1"
proof -
  obtain k where k: "lowest_bit w k" using lowest_bit_exists [OF assms] by blast
  have "RIGHTMOST_ONE w = w \<longleftrightarrow> bits_of w = {k}"
    using RIGHTMOST_ONE_lowest [OF k] bits_of_shift [OF lowest_bit_bound [OF k]]
    by (metis bits_of_eq_iff)
  also have "\<dots> \<longleftrightarrow> card (bits_of w) = 1"
    using lowest_bit_mem [OF k] by (auto simp: card_1_singleton_iff)
  finally show ?thesis by (simp add: HAS_MULTIPLE_ONES_def)
qed

lemma membership_loop:
  "k \<le> nwords a \<Longrightarrow> loop_exit (membership_word a) [0..<k] BMS_EMPTY_SET =
     (if card (bms_below a k) = 0 then Inr BMS_EMPTY_SET
      else if card (bms_below a k) = 1 then Inr BMS_SINGLETON
      else Inl BMS_MULTIPLE)"
proof (induction k)
  case (Suc k)
  then have k: "k < nwords a" by simp
  show ?case
  proof (cases "words a ! k = 0")
    case True
    then have "card (bits_of (words a ! k)) = 0" by (simp add: bits_of_empty_iff)
    with Suc k True show ?thesis
      by (simp add: loop_exit_snoc card_bms_below_Suc membership_word_def del: upt_Suc)
  next
    case False
    then have "0 < card (bits_of (words a ! k))" by (simp add: card_gt_0_iff bits_of_empty_iff)
    with Suc k False show ?thesis
      by (auto simp: loop_exit_snoc card_bms_below_Suc membership_word_def
          HAS_MULTIPLE_ONES_iff simp del: upt_Suc card_0_eq)
  qed
qed simp

lemma bms_membership_card [pg_abs]:
  "bms_membership a =
     (if card (bms_set a) = 0 then BMS_EMPTY_SET
      else if card (bms_set a) = 1 then BMS_SINGLETON else BMS_MULTIPLE)"
proof (cases a)
  case (Some a')
  then show ?thesis
    by (simp add: bms_membership_def membership_loop bms_below_all)
qed (simp add: bms_membership_def)

lemma singleton_loop:
  "k \<le> nwords a \<Longrightarrow> loop_exit (singleton_word a) [0..<k] (- 1) =
     (if card (bms_below a k) = 0 then Inr (- 1)
      else if card (bms_below a k) = 1 then Inr (int (the_elem (bms_below a k)))
      else Inl (ERROR ''bitmapset has multiple members''))"
proof (induction k)
  case (Suc k)
  then have k: "k < nwords a" by simp
  let ?w = "words a ! k"
  show ?case
  proof (cases "?w = 0")
    case True
    then have "bms_below a (Suc k) = bms_below a k"
      using k bits_of_empty_iff [of ?w] by (simp add: bms_below_Suc)
    with Suc k True show ?thesis
      by (auto simp: loop_exit_snoc singleton_word_def simp del: upt_Suc)
  next
    case False
    then have pos: "0 < card (bits_of ?w)" by (simp add: card_gt_0_iff bits_of_empty_iff)
    show ?thesis
    proof (cases "card (bms_below a k) = 0 \<and> card (bits_of ?w) = 1")
      case True
      obtain n where n: "byte_scan ?w (int (k * 32)) = Inr (int (k * 32) + int n)" "lowest_bit ?w n"
        using byte_scan_lowest [OF False] by blast
      have "bits_of ?w = {n}"
        using True lowest_bit_mem [OF n(2)] by (auto simp: card_1_singleton_iff)
      then have "bms_below a (Suc k) = {32 * k + n}"
        using True k by (simp add: bms_below_Suc)
      with Suc k True n(1) False show ?thesis
        by (simp add: loop_exit_snoc singleton_word_def HAS_MULTIPLE_ONES_iff
            BITS_PER_BITMAPWORD_def algebra_simps del: upt_Suc)
    next
      case False
      with \<open>?w \<noteq> 0\<close> pos Suc k show ?thesis
        by (auto simp: loop_exit_snoc card_bms_below_Suc singleton_word_def
            HAS_MULTIPLE_ONES_iff simp del: upt_Suc card_0_eq)
    qed
  qed
qed simp

lemma bms_singleton_member_eq [pg_abs]:
  "bms_singleton_member a =
     (if card (bms_set a) = 0 then Inl (ERROR ''bitmapset is empty'')
      else if card (bms_set a) = 1 then Inr (int (the_elem (bms_set a)))
      else Inl (ERROR ''bitmapset has multiple members''))"
proof (cases a)
  case (Some a')
  then show ?thesis
    by (simp add: bms_singleton_member_def singleton_loop bms_below_all)
qed (simp add: bms_singleton_member_def)

subsection \<open>Comparison for equality and inclusion\<close>

definition cmp_of :: "bool \<Rightarrow> bool \<Rightarrow> BMS_Comparison" where
  "cmp_of p q = (if p then (if q then BMS_EQUAL else BMS_SUBSET1)
                 else (if q then BMS_SUBSET2 else BMS_DIFFERENT))"

lemma compare_loop:
  assumes step: "\<And>i p q. p \<or> q \<Longrightarrow> i \<in> set ks \<Longrightarrow> body i (cmp_of p q) =
      (if p \<and> A i \<or> q \<and> B i then Inr (cmp_of (p \<and> A i) (q \<and> B i)) else Inl BMS_DIFFERENT)"
    and "p \<or> q"
  shows "loop_exit body ks (cmp_of p q) =
      (let p' = (p \<and> (\<forall>i \<in> set ks. A i)); q' = (q \<and> (\<forall>i \<in> set ks. B i))
       in if p' \<or> q' then Inr (cmp_of p' q') else Inl BMS_DIFFERENT)"
  using assms
proof (induction ks arbitrary: p q)
  case (Cons i ks)
  show ?case
  proof (cases "p \<and> A i \<or> q \<and> B i")
    case True
    have "loop_exit body (i # ks) (cmp_of p q) = loop_exit body ks (cmp_of (p \<and> A i) (q \<and> B i))"
      using Cons.prems True by simp
    also have "\<dots> = (let p' = ((p \<and> A i) \<and> (\<forall>i \<in> set ks. A i)); q' = ((q \<and> B i) \<and> (\<forall>i \<in> set ks. B i))
       in if p' \<or> q' then Inr (cmp_of p' q') else Inl BMS_DIFFERENT)"
      using Cons.prems True by (intro Cons.IH) auto
    finally show ?thesis by (simp add: Let_def conj_assoc)
  next
    case False
    with Cons.prems show ?thesis by (auto simp: Let_def)
  qed
qed (auto simp: Let_def)

lemma subset_compare_word_step:
  "p \<or> q \<Longrightarrow> subset_compare_word a b i (cmp_of p q) =
     (let A = (words a ! i AND NOT (words b ! i) = 0); B = (words b ! i AND NOT (words a ! i) = 0)
      in if p \<and> A \<or> q \<and> B then Inr (cmp_of (p \<and> A) (q \<and> B)) else Inl BMS_DIFFERENT)"
  by (auto simp: subset_compare_word_def not_subset_of_a_def not_subset_of_b_def cmp_of_def Let_def)

lemma bms_subset_compare_eq [pg_abs]:
  "bms_subset_compare a b = cmp_of (bms_set a \<subseteq> bms_set b) (bms_set b \<subseteq> bms_set a)"
proof (cases "a = None \<or> b = None")
  case True
  then show ?thesis
    by (auto simp: bms_subset_compare_def bms_is_empty_iff cmp_of_def split: option.splits)
next
  case False
  then obtain a' b' where ab: "a = Some a'" "b = Some b'" by auto
  let ?m = "min (nwords a') (nwords b')"
  let ?A = "\<lambda>i. words a' ! i AND NOT (words b' ! i) = 0"
  let ?B = "\<lambda>i. words b' ! i AND NOT (words a' ! i) = 0"
  have common: "loop_exit (subset_compare_word a' b') [0..<?m] (cmp_of True True) =
      (let p = (\<forall>i < ?m. ?A i); q = (\<forall>i < ?m. ?B i)
       in if p \<or> q then Inr (cmp_of p q) else Inl BMS_DIFFERENT)"
    by (subst compare_loop [where A = ?A and B = ?B])
      (simp_all only: subset_compare_word_step Let_def set_upt Ball_def atLeastLessThan_iff
        simp_thms le0)
  have extra_a: "loop_exit (\<lambda>i r. if words a' ! i \<noteq> 0 then not_subset_of_b r else Inr r)
        [?m..<nwords a'] (cmp_of p q) =
      (let p' = (p \<and> (\<forall>i. ?m \<le> i \<and> i < nwords a' \<longrightarrow> words a' ! i = 0))
       in if p' \<or> q then Inr (cmp_of p' q) else Inl BMS_DIFFERENT)" if "p \<or> q" for p q
    by (subst compare_loop [where A = "\<lambda>i. words a' ! i = 0" and B = "\<lambda>i. True"])
      (use that in \<open>auto simp: not_subset_of_b_def cmp_of_def Let_def Ball_def\<close>)
  have extra_b: "loop_exit (\<lambda>i r. if words b' ! i \<noteq> 0 then not_subset_of_a r else Inr r)
        [?m..<nwords b'] (cmp_of p q) =
      (let q' = (q \<and> (\<forall>i. ?m \<le> i \<and> i < nwords b' \<longrightarrow> words b' ! i = 0))
       in if p \<or> q' then Inr (cmp_of p q') else Inl BMS_DIFFERENT)" if "p \<or> q" for p q
    by (subst compare_loop [where A = "\<lambda>i. True" and B = "\<lambda>i. words b' ! i = 0"])
      (use that in \<open>auto simp: not_subset_of_a_def cmp_of_def Let_def Ball_def\<close>)
  define P0 Q0 where "P0 = (\<forall>i < ?m. ?A i)" and "Q0 = (\<forall>i < ?m. ?B i)"
  define PA QB where "PA = (\<forall>i. ?m \<le> i \<and> i < nwords a' \<longrightarrow> words a' ! i = 0)"
    and "QB = (\<forall>i. ?m \<le> i \<and> i < nwords b' \<longrightarrow> words b' ! i = 0)"
  have sub: "bms_set a \<subseteq> bms_set b \<longleftrightarrow> P0 \<and> PA" "bms_set b \<subseteq> bms_set a \<longleftrightarrow> Q0 \<and> QB"
    unfolding ab bms_subset_iff all_diff_words P0_def Q0_def PA_def QB_def
    by (simp_all only: min.commute)
  have short: "nwords a' \<le> nwords b' \<Longrightarrow> PA" "nwords b' \<le> nwords a' \<Longrightarrow> QB"
    by (auto simp: PA_def QB_def)
  have start: "cmp_of True True = BMS_EQUAL" by (simp add: cmp_of_def)
  note fold_defs = P0_def [symmetric] Q0_def [symmetric] PA_def [symmetric] QB_def [symmetric]
  note loop = common [unfolded fold_defs start Let_def]
  have code: "bms_subset_compare a b =
      (if P0 \<or> Q0 then
         (case (if nwords a' > nwords b' then
                  (if P0 \<and> PA \<or> Q0 then Inr (cmp_of (P0 \<and> PA) Q0) else Inl BMS_DIFFERENT)
                else if nwords a' < nwords b' then
                  (if P0 \<or> Q0 \<and> QB then Inr (cmp_of P0 (Q0 \<and> QB)) else Inl BMS_DIFFERENT)
                else Inr (cmp_of P0 Q0)) of Inl r \<Rightarrow> r | Inr r \<Rightarrow> r)
       else BMS_DIFFERENT)"
    using extra_a [unfolded fold_defs Let_def] extra_b [unfolded fold_defs Let_def]
    unfolding ab bms_subset_compare_def option.case Let_def loop
    by (cases "P0 \<or> Q0") (simp_all only: if_True if_False sum.case)
  show ?thesis
    unfolding code sub using short
    by (cases "nwords b' < nwords a'"; cases "nwords a' < nwords b'") (auto simp: cmp_of_def)
qed

subsection \<open>Taking the first member\<close>

lemma bms_first_member_empty:
  assumes "bms_set a = {}"
  shows "\<exists>c. bms_first_member a = Inr (- 1, c) \<and> bms_set c = {}"
proof (cases a)
  case None
  then show ?thesis by (simp add: bms_first_member_def)
next
  case (Some a')
  have "loop_exit (first_member_word a') ks () = Inr ()"
    if "\<forall>k \<in> set ks. words a' ! k = 0" for ks
    using that by (induction ks) (simp_all add: first_member_word_def)
  then show ?thesis
    using assms by (simp add: Some bms_first_member_def bms_set_empty_Some)
qed

lemma byte_scan_RIGHTMOST_ONE:
  assumes "lowest_bit w k"
  shows "byte_scan (RIGHTMOST_ONE w) r = Inr (r + int k)"
proof -
  have k: "k < 32" using assms by (rule lowest_bit_bound)
  have "RIGHTMOST_ONE w = push_bit k 1" using assms by (rule RIGHTMOST_ONE_lowest)
  moreover have "lowest_bit (push_bit k 1) k" using k by (simp add: lowest_bit_def)
  moreover have "push_bit k 1 \<noteq> (0 :: bitmapword)" using k by (auto simp: word_neq_0_iff)
  ultimately show ?thesis
    using byte_scan_lowest [of "RIGHTMOST_ONE w" r] by (metis lowest_bit_unique)
qed

lemma bms_first_member_nonempty:
  assumes "bms_set a \<noteq> {}"
  shows "\<exists>c. bms_first_member a = Inr (int (Min (bms_set a)), c) \<and>
    bms_set c = bms_set a - {Min (bms_set a)}"
proof -
  obtain a' where a: "a = Some a'" using assms by (cases a) auto
  have "find (\<lambda>i. words a' ! i \<noteq> 0) [0..<nwords a'] \<noteq> None"
    using assms by (auto simp: a bms_set_empty_Some find_None_iff)
  then obtain i where i: "find (\<lambda>i. words a' ! i \<noteq> 0) [0..<nwords a'] = Some i"
    by blast
  then have lt: "i < nwords a'" and wi: "words a' ! i \<noteq> 0"
    and before: "\<And>j. j < i \<Longrightarrow> words a' ! j = 0"
    by (auto simp: find_upt_Some_iff)
  obtain k where k: "lowest_bit (words a' ! i) k" using lowest_bit_exists [OF wi] by blast
  have k32: "k < 32" using k by (rule lowest_bit_bound)
  have min: "Min (bms_set a) = 32 * i + k"
  proof (rule Min_eqI)
    fix x assume x: "x \<in> bms_set a"
    then have "words a' ! (x div 32) \<noteq> 0" and bit: "bit (words a' ! (x div 32)) (x mod 32)"
      by (auto simp: a mem_bms_set wordat_Some word_neq_0_iff split: if_splits)
    then have "i \<le> x div 32" using before not_less by blast
    moreover have "k \<le> x mod 32" if "x div 32 = i"
      using bit k that by (auto simp: lowest_bit_def not_less [symmetric])
    moreover have "x = 32 * (x div 32) + x mod 32" by simp
    ultimately show "32 * i + k \<le> x"
      using k32 by (cases "x div 32 = i") linarith+
  next
    show "32 * i + k \<in> bms_set a"
      using k lt k32 by (simp add: a bms_set_iff lowest_bit_def)
  qed simp
  define c where "c = Some (a'\<lparr>words := (words a')
    [i := words a' ! i AND NOT (RIGHTMOST_ONE (words a' ! i))]\<rparr>)"
  have "loop_exit (first_member_word a') [0..<nwords a'] () = first_member_word a' i ()"
    by (subst loop_exit_find [where P = "\<lambda>i. words a' ! i \<noteq> 0"])
      (auto simp: first_member_word_def Let_def i)
  also have "\<dots> = Inl (Inr (int (32 * i + k), c))"
    using wi by (simp add: first_member_word_def Let_def byte_scan_RIGHTMOST_ONE [OF k]
        BITS_PER_BITMAPWORD_def c_def)
  finally have "bms_first_member a = Inr (int (32 * i + k), c)"
    by (simp add: a bms_first_member_def)
  moreover have "bms_set c = bms_set a - {32 * i + k}"
    by (rule bms_set_clear_bit)
      (use lt k32 in \<open>auto simp: a c_def wordat_Some nth_list_update RIGHTMOST_ONE_lowest [OF k]\<close>)
  ultimately show ?thesis using min by auto
qed

subsection \<open>The interface, provided\<close>

interpretation bms: int_set bms_set None bms_is_member bms_add_member bms_del_member bms_first_member
  by unfold_locales
    (simp_all add: bms_is_member_eq bms_add_member_set bms_del_member_set bms_first_member_empty
      bms_first_member_nonempty, simp_all add: bms_add_member_def bms_del_member_def)

end
