(* ===== verification/RelidSets.thy ===== *)
theory RelidSets
  imports Bitmapset
begin

section \<open>Clients of bitmap sets\<close>

text \<open>
  The rewriter's substitutions in sets of range-table indexes (\<open>rewriteManip.c\<close>) and the
  column check of an update (\<open>HeapSatisfiesHOTandKeyUpdate\<close> of \<open>heapam.c\<close>), which walks
  three attribute sets in step. They see a bitmapset through the laws of \<open>int_set\<close> only.
\<close>

type_synonym Relids = "Bitmapset option"

subsection \<open>rewriteManip.c\<close>

definition offset_relid_set :: "Relids \<Rightarrow> int \<Rightarrow> Relids result option" where
  "offset_relid_set relids off =
     drain_loop bms_first_member (\<lambda>rtindex res. bms_add_member res (rtindex + off))
       (bms_copy relids) None"

definition adjust_relid_set :: "Relids \<Rightarrow> int \<Rightarrow> int \<Rightarrow> Relids result" where
  "adjust_relid_set relids oldrelid newrelid =
     (case bms_is_member oldrelid relids of
        Inl e \<Rightarrow> Inl e
      | Inr m \<Rightarrow>
          (if m then
             (case bms_del_member (bms_copy relids) oldrelid of
                Inl e \<Rightarrow> Inl e
              | Inr relids \<Rightarrow> bms_add_member relids newrelid)
           else Inr relids))"

subsection \<open>HeapSatisfiesHOTandKeyUpdate\<close>

text \<open>
  The code keeps, for each of the three sets, the set itself, its next attribute number and
  a result flag; a cursor groups the three. The comparison of one attribute of the two tuples
  (\<open>heap_tuple_attr_equals\<close>) is the argument \<open>attr_equals\<close>. The two assertions on the nesting
  of the sets abort the server like a \<open>PANIC\<close> when they fail.
\<close>

definition FirstLowInvalidHeapAttributeNumber :: int where
  "FirstLowInvalidHeapAttributeNumber = - 8"

record attr_cursor =
  attrs :: "Bitmapset option"
  next_attnum :: int
  unchanged :: bool

definition cursor_next :: "attr_cursor \<Rightarrow> attr_cursor result" where
  "cursor_next c = (case bms_first_member (attrs c) of
     Inl e \<Rightarrow> Inl e
   | Inr (x, a) \<Rightarrow> Inr (c\<lparr>attrs := a, next_attnum := x + FirstLowInvalidHeapAttributeNumber\<rparr>))"

definition cursor_live :: "attr_cursor \<Rightarrow> bool" where
  "cursor_live c \<longleftrightarrow> unchanged c \<and> next_attnum c > FirstLowInvalidHeapAttributeNumber"

definition cursor_mark :: "int \<Rightarrow> attr_cursor \<Rightarrow> attr_cursor" where
  "cursor_mark check_now c =
     (if check_now = next_attnum c then c\<lparr>unchanged := False\<rparr> else c)"

definition cursor_advance :: "int \<Rightarrow> attr_cursor \<Rightarrow> attr_cursor result" where
  "cursor_advance check_now c =
     (if unchanged c \<and> check_now = next_attnum c then cursor_next c else Inr c)"

type_synonym hot_state = "attr_cursor \<times> attr_cursor \<times> attr_cursor"

fun hot_check_now :: "hot_state \<Rightarrow> int option" where
  "hot_check_now (hot, key, ident) =
     (if cursor_live hot then Some (next_attnum hot)
      else if cursor_live key then Some (next_attnum key)
      else if cursor_live ident then Some (next_attnum ident)
      else None)"

fun hot_mark :: "int \<Rightarrow> hot_state \<Rightarrow> hot_state" where
  "hot_mark x (hot, key, ident) = (cursor_mark x hot, cursor_mark x key, cursor_mark x ident)"

fun hot_all_changed :: "hot_state \<Rightarrow> bool" where
  "hot_all_changed (hot, key, ident) \<longleftrightarrow> \<not> unchanged hot \<and> \<not> unchanged key \<and> \<not> unchanged ident"

fun hot_map :: "(attr_cursor \<Rightarrow> attr_cursor result) \<Rightarrow> hot_state \<Rightarrow> hot_state result" where
  "hot_map f (hot, key, ident) =
     (case f hot of Inl e \<Rightarrow> Inl e | Inr hot \<Rightarrow>
       (case f key of Inl e \<Rightarrow> Inl e | Inr key \<Rightarrow>
         (case f ident of Inl e \<Rightarrow> Inl e | Inr ident \<Rightarrow> Inr (hot, key, ident))))"

partial_function (option) hot_loop ::
  "(int \<Rightarrow> bool) \<Rightarrow> hot_state \<Rightarrow> hot_state result option" where
  "hot_loop attr_equals s =
     (case hot_check_now s of
        None \<Rightarrow> Some (Inr s)
      | Some check_now \<Rightarrow>
          (let changed = (\<not> attr_equals check_now);
               s = (if changed then hot_mark check_now s else s)
           in if changed \<and> hot_all_changed s then Some (Inr s)
              else (case hot_map (cursor_advance check_now) s of
                      Inl e \<Rightarrow> Some (Inl e)
                    | Inr s' \<Rightarrow> hot_loop attr_equals s')))"

definition HeapSatisfiesHOTandKeyUpdate ::
  "(int \<Rightarrow> bool) \<Rightarrow> Bitmapset option \<Rightarrow> Bitmapset option \<Rightarrow> Bitmapset option \<Rightarrow>
   (bool \<times> bool \<times> bool) result option" where
  "HeapSatisfiesHOTandKeyUpdate attr_equals hot_attrs key_attrs id_attrs =
     (if \<not> bms_is_subset id_attrs key_attrs \<or> \<not> bms_is_subset key_attrs hot_attrs
      then Some (Inl (PANIC ''FailedAssertion''))
      else case hot_map cursor_next
         (\<lparr>attrs = hot_attrs, next_attnum = 0, unchanged = True\<rparr>,
          \<lparr>attrs = key_attrs, next_attnum = 0, unchanged = True\<rparr>,
          \<lparr>attrs = id_attrs, next_attnum = 0, unchanged = True\<rparr>) of
        Inl e \<Rightarrow> Some (Inl e)
      | Inr s \<Rightarrow>
          map_option (map_sum id (\<lambda>(hot, key, ident). (unchanged hot, unchanged key, unchanged ident)))
            (hot_loop attr_equals s))"

subsection \<open>Substitutions in relid sets\<close>

lemma offset_relid_set_image:
  assumes "\<forall>x \<in> bms_set relids. 0 \<le> int x + off"
  shows "\<exists>d. offset_relid_set relids off = Some (Inr d) \<and>
    bms_set d = (\<lambda>x. nat (int x + off)) ` bms_set relids"
  using bms.drain_shift [OF assms, of None] by (simp add: offset_relid_set_def)

lemma adjust_relid_set_member:
  assumes "0 \<le> old" and "0 \<le> new" and "nat old \<in> bms_set relids"
  shows "\<exists>d. adjust_relid_set relids old new = Inr d \<and>
    bms_set d = insert (nat new) (bms_set relids - {nat old})"
  using bms.substitute [OF assms] bms.member_iff [OF assms(1), of relids] assms(3)
  by (auto simp: adjust_relid_set_def)

subsection \<open>The cursors of the column check\<close>

text \<open>The attributes a cursor still has to look at, as members of its set.\<close>

definition pending :: "attr_cursor \<Rightarrow> nat set" where
  "pending c =
     (if next_attnum c > FirstLowInvalidHeapAttributeNumber
      then insert (nat (next_attnum c - FirstLowInvalidHeapAttributeNumber)) (bms_set (attrs c))
      else {})"

definition cursor_wf :: "attr_cursor \<Rightarrow> bool" where
  "cursor_wf c \<longleftrightarrow> 0 \<notin> bms_set (attrs c) \<and>
     (next_attnum c > FirstLowInvalidHeapAttributeNumber \<longrightarrow>
        nat (next_attnum c - FirstLowInvalidHeapAttributeNumber) \<notin> bms_set (attrs c))"

abbreviation attr_ok :: "(int \<Rightarrow> bool) \<Rightarrow> nat \<Rightarrow> bool" where
  "attr_ok eq x \<equiv> eq (int x + FirstLowInvalidHeapAttributeNumber)"

text \<open>
  What the loop keeps for the cursor of the set \<open>X\<close>: while its flag stands, every member
  no longer pending compared equal; once it has fallen, some member differs.
\<close>

definition track :: "(int \<Rightarrow> bool) \<Rightarrow> nat set \<Rightarrow> attr_cursor \<Rightarrow> bool" where
  "track eq X c \<longleftrightarrow>
     (if unchanged c then cursor_wf c \<and> pending c \<subseteq> X \<and> (\<forall>x \<in> X - pending c. attr_ok eq x)
      else \<exists>x \<in> X. \<not> attr_ok eq x)"

definition work :: "attr_cursor \<Rightarrow> nat" where
  "work c = (if unchanged c then card (pending c) else 0)"

lemma finite_pending [simp]: "finite (pending c)"
  by (simp add: pending_def)

lemma cursor_next_ok:
  assumes "0 \<notin> bms_set (attrs c)"
  shows "\<exists>d. cursor_next c = Inr d \<and> unchanged d = unchanged c \<and> cursor_wf d \<and>
    pending d = bms_set (attrs c)"
proof (cases "bms_set (attrs c) = {}")
  case True
  then obtain a where "bms_first_member (attrs c) = Inr (- 1, a)" "bms_set a = {}"
    using bms.first_empty by blast
  then show ?thesis
    using True by (simp add: cursor_next_def cursor_wf_def pending_def)
next
  case False
  let ?m = "Min (bms_set (attrs c))"
  obtain a where a: "bms_first_member (attrs c) = Inr (int ?m, a)" "bms_set a = bms_set (attrs c) - {?m}"
    using bms.first_min [OF False] by blast
  have "?m \<in> bms_set (attrs c)" using False by simp
  moreover have "0 < ?m" using calculation assms by (metis gr0I)
  ultimately show ?thesis
    using a assms by (auto simp: cursor_next_def cursor_wf_def pending_def)
qed

lemma cursor_live_pending: "cursor_live c \<longleftrightarrow> unchanged c \<and> pending c \<noteq> {}"
  by (auto simp: cursor_live_def pending_def)

lemma cursor_step:
  assumes "track eq X c" and "x > FirstLowInvalidHeapAttributeNumber"
    and "c' = (if eq x then c else cursor_mark x c)"
  shows "\<exists>d. cursor_advance x c' = Inr d \<and> track eq X d \<and> work d \<le> work c \<and>
    (unchanged c \<and> x = next_attnum c \<longrightarrow> work d < work c)"
proof (cases "unchanged c \<and> x = next_attnum c")
  case True
  let ?n = "nat (x - FirstLowInvalidHeapAttributeNumber)"
  have pend: "pending c = insert ?n (bms_set (attrs c))" "?n \<notin> bms_set (attrs c)"
    and x: "int ?n + FirstLowInvalidHeapAttributeNumber = x" and X: "?n \<in> X"
    using True assms(1,2) by (auto simp: pending_def track_def cursor_wf_def)
  then have work: "work c = Suc (card (bms_set (attrs c)))"
    using True by (simp add: work_def)
  show ?thesis
  proof (cases "eq x")
    case eq: True
    obtain d where d: "cursor_next c = Inr d" "unchanged d = unchanged c" "cursor_wf d"
        "pending d = bms_set (attrs c)"
      using cursor_next_ok [of c] assms(1) True by (auto simp: track_def cursor_wf_def)
    then have "track eq X d"
      using assms(1) True eq pend x by (auto simp: track_def)
    moreover have "work d < work c" using d True work by (simp add: work_def)
    ultimately show ?thesis
      using assms(3) eq True d(1) by (simp add: cursor_advance_def)
  next
    case False
    then have "\<not> attr_ok eq ?n" using x by metis
    with X have "\<exists>y \<in> X. \<not> attr_ok eq y" by blast
    then have "track eq X (c\<lparr>unchanged := False\<rparr>)" by (simp add: track_def)
    with False show ?thesis
      using assms(3) False True work by (simp add: cursor_mark_def cursor_advance_def work_def)
  qed
next
  case False
  then have "track eq X c'" "work c' = work c" "cursor_advance x c' = Inr c'"
    using assms(1,3)
    by (auto simp: cursor_mark_def cursor_advance_def track_def work_def)
  then show ?thesis using False by auto
qed

subsection \<open>The column check is right and ends\<close>

fun hot_track :: "(int \<Rightarrow> bool) \<Rightarrow> nat set \<Rightarrow> nat set \<Rightarrow> nat set \<Rightarrow> hot_state \<Rightarrow> bool" where
  "hot_track eq H K I (hot, key, ident) \<longleftrightarrow> track eq H hot \<and> track eq K key \<and> track eq I ident"

fun hot_work :: "hot_state \<Rightarrow> nat" where
  "hot_work (hot, key, ident) = work hot + work key + work ident"

fun hot_flags :: "hot_state \<Rightarrow> bool \<times> bool \<times> bool" where
  "hot_flags (hot, key, ident) = (unchanged hot, unchanged key, unchanged ident)"

lemma track_done: "track eq X c \<Longrightarrow> \<not> cursor_live c \<Longrightarrow> unchanged c \<longleftrightarrow> (\<forall>x \<in> X. attr_ok eq x)"
  by (auto simp: track_def cursor_live_pending split: if_splits)

lemma track_fallen: "track eq X c \<Longrightarrow> \<not> unchanged c \<Longrightarrow> \<not> (\<forall>x \<in> X. attr_ok eq x)"
  by (auto simp: track_def)

lemma hot_done:
  assumes "hot_track eq H K I s" and "hot_check_now s = None"
  shows "hot_flags s = ((\<forall>x \<in> H. attr_ok eq x), (\<forall>x \<in> K. attr_ok eq x), (\<forall>x \<in> I. attr_ok eq x))"
  using assms track_done by (cases s) (auto split: if_splits)

lemma hot_check_nowD:
  assumes "hot_check_now (hot, key, ident) = Some x"
  shows "x > FirstLowInvalidHeapAttributeNumber \<and>
    (unchanged hot \<and> x = next_attnum hot \<or> unchanged key \<and> x = next_attnum key \<or>
     unchanged ident \<and> x = next_attnum ident)"
  using assms by (auto simp: cursor_live_def split: if_splits)

lemma hot_step_ok:
  assumes "hot_track eq H K I s" and "hot_check_now s = Some x"
  shows "\<exists>t. hot_map (cursor_advance x) (if eq x then s else hot_mark x s) = Inr t \<and>
    hot_track eq H K I t \<and> hot_work t < hot_work s"
proof -
  obtain hot key ident where s: "s = (hot, key, ident)" by (cases s)
  let ?c = "\<lambda>c. if eq x then c else cursor_mark x c"
  note x = hot_check_nowD [OF assms(2) [unfolded s]]
  have tr: "track eq H hot" "track eq K key" "track eq I ident"
    using assms(1) by (simp_all add: s)
  from cursor_step [OF tr(1) conjunct1 [OF x] refl] obtain hot' where
    h: "cursor_advance x (?c hot) = Inr hot'" "track eq H hot'" "work hot' \<le> work hot"
      "unchanged hot \<and> x = next_attnum hot \<longrightarrow> work hot' < work hot" by blast
  from cursor_step [OF tr(2) conjunct1 [OF x] refl] obtain key' where
    k: "cursor_advance x (?c key) = Inr key'" "track eq K key'" "work key' \<le> work key"
      "unchanged key \<and> x = next_attnum key \<longrightarrow> work key' < work key" by blast
  from cursor_step [OF tr(3) conjunct1 [OF x] refl] obtain ident' where
    i: "cursor_advance x (?c ident) = Inr ident'" "track eq I ident'" "work ident' \<le> work ident"
      "unchanged ident \<and> x = next_attnum ident \<longrightarrow> work ident' < work ident" by blast
  have "hot_map (cursor_advance x) (if eq x then s else hot_mark x s) = Inr (hot', key', ident')"
    using h(1) k(1) i(1) by (simp add: s split: if_splits)
  moreover have "hot_work (hot', key', ident') < hot_work s"
    using x h(3,4) k(3,4) i(3,4) by (auto simp: s)
  ultimately show ?thesis using h(2) k(2) i(2) by auto
qed

lemma hot_mark_all_changed:
  assumes "hot_track eq H K I s" and "hot_check_now s = Some x" and "\<not> eq x"
    and "hot_all_changed (hot_mark x s)"
  shows "hot_flags (hot_mark x s) =
    ((\<forall>x \<in> H. attr_ok eq x), (\<forall>x \<in> K. attr_ok eq x), (\<forall>x \<in> I. attr_ok eq x))"
proof -
  obtain hot key ident where s: "s = (hot, key, ident)" by (cases s)
  have gt: "x > FirstLowInvalidHeapAttributeNumber"
    using hot_check_nowD [OF assms(2) [unfolded s]] by blast
  have fallen: "\<not> (\<forall>x \<in> X. attr_ok eq x)"
    if tr: "track eq X c" and un: "\<not> unchanged (cursor_mark x c)" for X c
  proof -
    obtain d where "cursor_advance x (cursor_mark x c) = Inr d" "track eq X d"
      using cursor_step [OF tr gt, of "cursor_mark x c"] assms(3) by auto
    moreover have "d = cursor_mark x c"
      using calculation(1) un by (simp add: cursor_advance_def)
    ultimately show ?thesis using un track_fallen by blast
  qed
  show ?thesis
    using assms(1,4) fallen by (auto simp: s)
qed

lemma hot_loop_correct:
  assumes "hot_track eq H K I s"
  shows "\<exists>t. hot_loop eq s = Some (Inr t) \<and>
    hot_flags t = ((\<forall>x \<in> H. attr_ok eq x), (\<forall>x \<in> K. attr_ok eq x), (\<forall>x \<in> I. attr_ok eq x))"
  using assms
proof (induction "hot_work s" arbitrary: s rule: less_induct)
  case less
  show ?case
  proof (cases "hot_check_now s")
    case None
    then show ?thesis
      using hot_done [OF less.prems] by (simp add: hot_loop.simps [of eq s])
  next
    case (Some x)
    let ?s = "if eq x then s else hot_mark x s"
    show ?thesis
    proof (cases "\<not> eq x \<and> hot_all_changed ?s")
      case True
      then have chg: "\<not> eq x" "hot_all_changed (hot_mark x s)" by auto
      then have "hot_loop eq s = Some (Inr (hot_mark x s))"
        using Some by (simp add: hot_loop.simps [of eq s] Let_def)
      with hot_mark_all_changed [OF less.prems Some chg] show ?thesis by simp
    next
      case False
      obtain t where t: "hot_map (cursor_advance x) ?s = Inr t" "hot_track eq H K I t"
          "hot_work t < hot_work s"
        using hot_step_ok [OF less.prems Some] by blast
      have "hot_loop eq s = hot_loop eq t"
        using False Some t(1) by (auto simp: hot_loop.simps [of eq s] Let_def)
      with less.hyps [OF t(3,2)] show ?thesis by simp
    qed
  qed
qed

lemma HOT_check_correct:
  assumes "0 \<notin> bms_set hot"
  shows "HeapSatisfiesHOTandKeyUpdate eq hot key ident =
    Some (if bms_set ident \<subseteq> bms_set key \<and> bms_set key \<subseteq> bms_set hot
      then Inr ((\<forall>x \<in> bms_set hot. attr_ok eq x), (\<forall>x \<in> bms_set key. attr_ok eq x),
               (\<forall>x \<in> bms_set ident. attr_ok eq x))
      else Inl (PANIC ''FailedAssertion''))"
proof (cases "bms_set ident \<subseteq> bms_set key \<and> bms_set key \<subseteq> bms_set hot")
  case nested: True
  then have no_zero: "0 \<notin> bms_set key" "0 \<notin> bms_set ident" using assms by auto
  have start: "\<exists>d. cursor_next \<lparr>attrs = a, next_attnum = 0, unchanged = True\<rparr> = Inr d \<and>
      track eq (bms_set a) d" if "0 \<notin> bms_set a" for a
    using cursor_next_ok [of "\<lparr>attrs = a, next_attnum = 0, unchanged = True\<rparr>"] that
    by (auto simp: track_def)
  obtain h k i where "hot_track eq (bms_set hot) (bms_set key) (bms_set ident) (h, k, i)"
    and init: "hot_map cursor_next
         (\<lparr>attrs = hot, next_attnum = 0, unchanged = True\<rparr>,
          \<lparr>attrs = key, next_attnum = 0, unchanged = True\<rparr>,
          \<lparr>attrs = ident, next_attnum = 0, unchanged = True\<rparr>) = Inr (h, k, i)"
    using start [OF assms] start [OF no_zero(1)] start [OF no_zero(2)] by auto
  then obtain t where "hot_loop eq (h, k, i) = Some (Inr t)"
    "hot_flags t = ((\<forall>x \<in> bms_set hot. attr_ok eq x), (\<forall>x \<in> bms_set key. attr_ok eq x),
               (\<forall>x \<in> bms_set ident. attr_ok eq x))"
    using hot_loop_correct by blast
  then show ?thesis
    using init nested by (cases t) (simp add: HeapSatisfiesHOTandKeyUpdate_def bms_is_subset_iff)
qed (auto simp: HeapSatisfiesHOTandKeyUpdate_def bms_is_subset_iff)

end
