(* ===== verification/HashAny.thy ===== *)
theory HashAny
  imports Bitmapset
begin

section \<open>The hash function hash_any (access/hash/hashfunc.c)\<close>

text \<open>
  Bob Jenkins' lookup3 on a key of bytes. The C code has four variants: word-wide fetches
  where the key is aligned, byte-wide ones otherwise, each for both byte orders. The model
  has all four; a word fetch \<open>ka[i]\<close> reads four bytes in the order of the machine. The
  switches fall through from the case entered to the next \<open>break\<close>, so each addition is
  made when \<open>len\<close> is at least the number of its case and, in the aligned code, below the
  case whose \<open>break\<close> stops it.
\<close>

datatype endian = LittleEndian | BigEndian

type_synonym uint32x3 = "uint32 \<times> uint32 \<times> uint32"

definition rot :: "uint32 \<Rightarrow> nat \<Rightarrow> uint32" where
  "rot x k = push_bit k x OR drop_bit (32 - k) x"

definition mix :: "uint32x3 \<Rightarrow> uint32x3" where
  "mix abc = (case abc of (a, b, c) \<Rightarrow>
     let a = a - c; a = a XOR rot c 4; c = c + b;
         b = b - a; b = b XOR rot a 6; a = a + c;
         c = c - b; c = c XOR rot b 8; b = b + a;
         a = a - c; a = a XOR rot c 16; c = c + b;
         b = b - a; b = b XOR rot a 19; a = a + c;
         c = c - b; c = c XOR rot b 4; b = b + a
     in (a, b, c))"

definition final :: "uint32x3 \<Rightarrow> uint32x3" where
  "final abc = (case abc of (a, b, c) \<Rightarrow>
     let c = c XOR b; c = c - rot b 14;
         a = a XOR c; a = a - rot c 11;
         b = b XOR a; b = b - rot a 25;
         c = c XOR b; c = c - rot b 16;
         a = a XOR c; a = a - rot c 4;
         b = b XOR a; b = b - rot a 14;
         c = c XOR b; c = c - rot b 24
     in (a, b, c))"

definition byte_shl :: "uint8 \<Rightarrow> nat \<Rightarrow> uint32" where
  "byte_shl b k = push_bit k (ucast b)"

text \<open>The four bytes of a word in memory, and the word at an aligned address.\<close>

fun word_bytes :: "endian \<Rightarrow> uint32 \<Rightarrow> uint8 list" where
  "word_bytes LittleEndian w =
     [ucast w, ucast (drop_bit 8 w), ucast (drop_bit 16 w), ucast (drop_bit 24 w)]"
| "word_bytes BigEndian w =
     [ucast (drop_bit 24 w), ucast (drop_bit 16 w), ucast (drop_bit 8 w), ucast w]"

fun fetch :: "endian \<Rightarrow> uint8 list \<Rightarrow> nat \<Rightarrow> uint32" where
  "fetch LittleEndian k i = byte_shl (k ! (4 * i)) 0 OR byte_shl (k ! (4 * i + 1)) 8 OR
     byte_shl (k ! (4 * i + 2)) 16 OR byte_shl (k ! (4 * i + 3)) 24"
| "fetch BigEndian k i = byte_shl (k ! (4 * i)) 24 OR byte_shl (k ! (4 * i + 1)) 16 OR
     byte_shl (k ! (4 * i + 2)) 8 OR byte_shl (k ! (4 * i + 3)) 0"

text \<open>The sum of four shifted bytes that the unaligned loop adds.\<close>

fun bytes_sum :: "endian \<Rightarrow> uint8 list \<Rightarrow> nat \<Rightarrow> uint32" where
  "bytes_sum LittleEndian k i = byte_shl (k ! (4 * i)) 0 + byte_shl (k ! (4 * i + 1)) 8 +
     byte_shl (k ! (4 * i + 2)) 16 + byte_shl (k ! (4 * i + 3)) 24"
| "bytes_sum BigEndian k i = byte_shl (k ! (4 * i + 3)) 0 + byte_shl (k ! (4 * i + 2)) 8 +
     byte_shl (k ! (4 * i + 1)) 16 + byte_shl (k ! (4 * i)) 24"

text \<open>\<open>while (len >= 12) { ...; mix(a, b, c); k += 12; len -= 12; }\<close>\<close>

function hash_blocks ::
  "(uint8 list \<Rightarrow> nat \<Rightarrow> uint32) \<Rightarrow> uint8 list \<Rightarrow> uint32x3 \<Rightarrow> uint8 list \<times> uint32x3" where
  "hash_blocks rd k abc =
     (if length k \<ge> 12 then
        (case abc of (a, b, c) \<Rightarrow>
           hash_blocks rd (drop 12 k) (mix (a + rd k 0, b + rd k 1, c + rd k 2)))
      else (k, abc))"
  by pat_completeness auto
termination by (relation "measure (\<lambda>(rd, k, abc). length k)") auto

declare hash_blocks.simps [simp del]

definition add_if :: "bool \<Rightarrow> uint32 \<Rightarrow> uint32 \<Rightarrow> uint32" where
  "add_if p v x = (if p then x + v else x)"

text \<open>The last 11 bytes, word-aligned code; \<open>break\<close> after \<open>case 8\<close> and after \<open>case 4\<close>.\<close>

fun tail_aligned :: "endian \<Rightarrow> uint8 list \<Rightarrow> uint32x3 \<Rightarrow> uint32x3" where
  "tail_aligned BigEndian k (a, b, c) =
     (let len = length k in
      (if len \<ge> 8 then
         (a + fetch BigEndian k 0, b + fetch BigEndian k 1,
          add_if (len \<ge> 9) (byte_shl (k ! 8) 24) (add_if (len \<ge> 10) (byte_shl (k ! 9) 16)
            (add_if (len \<ge> 11) (byte_shl (k ! 10) 8) c)))
       else if len \<ge> 4 then
         (a + fetch BigEndian k 0,
          add_if (len \<ge> 5) (byte_shl (k ! 4) 24) (add_if (len \<ge> 6) (byte_shl (k ! 5) 16)
            (add_if (len \<ge> 7) (byte_shl (k ! 6) 8) b)), c)
       else
         (add_if (len \<ge> 1) (byte_shl (k ! 0) 24) (add_if (len \<ge> 2) (byte_shl (k ! 1) 16)
            (add_if (len \<ge> 3) (byte_shl (k ! 2) 8) a)), b, c)))"
| "tail_aligned LittleEndian k (a, b, c) =
     (let len = length k in
      (if len \<ge> 8 then
         (a + fetch LittleEndian k 0, b + fetch LittleEndian k 1,
          add_if (len \<ge> 9) (byte_shl (k ! 8) 8) (add_if (len \<ge> 10) (byte_shl (k ! 9) 16)
            (add_if (len \<ge> 11) (byte_shl (k ! 10) 24) c)))
       else if len \<ge> 4 then
         (a + fetch LittleEndian k 0,
          add_if (len \<ge> 5) (byte_shl (k ! 4) 0) (add_if (len \<ge> 6) (byte_shl (k ! 5) 8)
            (add_if (len \<ge> 7) (byte_shl (k ! 6) 16) b)), c)
       else
         (add_if (len \<ge> 1) (byte_shl (k ! 0) 0) (add_if (len \<ge> 2) (byte_shl (k ! 1) 8)
            (add_if (len \<ge> 3) (byte_shl (k ! 2) 16) a)), b, c)))"

text \<open>The last 11 bytes, byte-wise code, where every case falls through to the end.\<close>

fun tail_unaligned :: "endian \<Rightarrow> uint8 list \<Rightarrow> uint32x3 \<Rightarrow> uint32x3" where
  "tail_unaligned BigEndian k (a, b, c) =
     (let len = length k;
          c = add_if (len \<ge> 11) (byte_shl (k ! 10) 8) c;
          c = add_if (len \<ge> 10) (byte_shl (k ! 9) 16) c;
          c = add_if (len \<ge> 9) (byte_shl (k ! 8) 24) c;
          b = add_if (len \<ge> 8) (byte_shl (k ! 7) 0) b;
          b = add_if (len \<ge> 7) (byte_shl (k ! 6) 8) b;
          b = add_if (len \<ge> 6) (byte_shl (k ! 5) 16) b;
          b = add_if (len \<ge> 5) (byte_shl (k ! 4) 24) b;
          a = add_if (len \<ge> 4) (byte_shl (k ! 3) 0) a;
          a = add_if (len \<ge> 3) (byte_shl (k ! 2) 8) a;
          a = add_if (len \<ge> 2) (byte_shl (k ! 1) 16) a;
          a = add_if (len \<ge> 1) (byte_shl (k ! 0) 24) a
      in (a, b, c))"
| "tail_unaligned LittleEndian k (a, b, c) =
     (let len = length k;
          c = add_if (len \<ge> 11) (byte_shl (k ! 10) 24) c;
          c = add_if (len \<ge> 10) (byte_shl (k ! 9) 16) c;
          c = add_if (len \<ge> 9) (byte_shl (k ! 8) 8) c;
          b = add_if (len \<ge> 8) (byte_shl (k ! 7) 24) b;
          b = add_if (len \<ge> 7) (byte_shl (k ! 6) 16) b;
          b = add_if (len \<ge> 6) (byte_shl (k ! 5) 8) b;
          b = add_if (len \<ge> 5) (byte_shl (k ! 4) 0) b;
          a = add_if (len \<ge> 4) (byte_shl (k ! 3) 24) a;
          a = add_if (len \<ge> 3) (byte_shl (k ! 2) 16) a;
          a = add_if (len \<ge> 2) (byte_shl (k ! 1) 8) a;
          a = add_if (len \<ge> 1) (byte_shl (k ! 0) 0) a
      in (a, b, c))"

definition hash_init :: "uint32 \<Rightarrow> uint32" where
  "hash_init len = 0x9e3779b9 + len + 3923095"

definition hash_any :: "endian \<Rightarrow> bool \<Rightarrow> uint8 list \<Rightarrow> uint32" where
  "hash_any en aligned k =
     (let h = hash_init (word_of_nat (length k));
          (k, abc) = hash_blocks (if aligned then fetch en else bytes_sum en) k (h, h, h);
          abc = (if aligned then tail_aligned en k abc else tail_unaligned en k abc);
          (a, b, c) = final abc
      in c)"

definition hash_uint32 :: "uint32 \<Rightarrow> uint32" where
  "hash_uint32 k =
     (let h = hash_init 4; (a, b, c) = final (h + k, h, h) in c)"

subsection \<open>Hashing a bitmapset\<close>

text \<open>
  \<open>for (lastword = a->nwords; --lastword >= 0;) if (a->words[lastword] != 0) break;\<close>
  gives the index of the last nonzero word plus one, 0 where there is none.
\<close>

fun strip_zeros :: "bitmapword list \<Rightarrow> nat \<Rightarrow> nat" where
  "strip_zeros ws 0 = 0"
| "strip_zeros ws (Suc n) = (if ws ! n \<noteq> 0 then Suc n else strip_zeros ws n)"

definition bms_hash_value :: "endian \<Rightarrow> Bitmapset option \<Rightarrow> uint32" where
  "bms_hash_value en a = (case a of
     None \<Rightarrow> 0
   | Some a \<Rightarrow>
       (let n = strip_zeros (words a) (nwords a)
        in if n = 0 then 0
           else hash_any en True (concat (map (word_bytes en) (take n (words a))))))"

subsection \<open>The four variants agree\<close>

lemma bit_byte_shl: "bit (byte_shl b k) n \<longleftrightarrow> k \<le> n \<and> n < 32 \<and> bit b (n - k)"
  by (auto simp: byte_shl_def bit_push_bit_iff bit_ucast_iff dest: bit_imp_le_length)

lemma bit_byte_shl_less: "bit (byte_shl b k) n \<Longrightarrow> k \<le> n \<and> n < k + 8"
  using bit_imp_le_length [of b "n - k"] by (auto simp: bit_byte_shl)

lemma byte_shl_disjoint:
  "j + 8 \<le> k \<Longrightarrow> byte_shl b j AND byte_shl c k = 0"
  "j + 8 \<le> k \<Longrightarrow> byte_shl c k AND byte_shl b j = 0"
  by (force simp: word_eq_0_iff bit_and_iff dest!: bit_byte_shl_less)+

lemma and_or_zero: "(x :: uint32) AND (y OR z) = 0 \<longleftrightarrow> x AND y = 0 \<and> x AND z = 0"
  by (auto simp: word_eq_0_iff bit_and_iff bit_or_iff)

lemma or_and_zero: "(y OR z) AND (x :: uint32) = 0 \<longleftrightarrow> y AND x = 0 \<and> z AND x = 0"
  by (auto simp: word_eq_0_iff bit_and_iff bit_or_iff)

lemma bytes_sum_or:
  "byte_shl w 0 + byte_shl x 8 + byte_shl y 16 + byte_shl z 24 =
   byte_shl w 0 OR byte_shl x 8 OR byte_shl y 16 OR byte_shl z 24"
  by (simp add: disjunctive_add_eq_or or_and_zero byte_shl_disjoint or.assoc)

lemma fetch_bytes_sum: "fetch en k i = bytes_sum en k i"
  by (cases en) (simp_all only: fetch.simps bytes_sum.simps bytes_sum_or or.commute or.left_commute)

declare fetch.simps [simp del]

lemma fetch_eq_bytes_sum: "fetch en = bytes_sum en"
  by (intro ext) (rule fetch_bytes_sum)

lemma hash_blocks_length: "length (fst (hash_blocks rd k abc)) < 12"
  by (induction rd k abc rule: hash_blocks.induct)
    (subst hash_blocks.simps, auto split: prod.split)

lemma add_if_simps [simp]: "add_if True v x = x + v" "add_if False v x = x"
  by (simp_all add: add_if_def)

lemma tail_variants:
  assumes "length k < 12"
  shows "tail_aligned en k abc = tail_unaligned en k abc"
proof -
  obtain a b c where abc: "abc = (a, b, c)" by (cases abc)
  have "set [0..<12] = {0, 1, 2, 3, 4, 5, 6, 7, 8, 9, 10, 11 :: nat}" by code_simp
  then have "length k \<in> {0, 1, 2, 3, 4, 5, 6, 7, 8, 9, 10, 11}"
    using assms by (metis atLeast_upt lessThan_iff)
  then show ?thesis
    by (cases en; elim insertE emptyE; simp add: abc fetch_bytes_sum add.assoc numeral_2_eq_2)
qed

lemma hash_any_variants: "hash_any en True k = hash_any en False k"
proof -
  have "tail_aligned en (fst r) (snd r) = tail_unaligned en (fst r) (snd r)"
    if "r = hash_blocks rd k' abc" for r rd k' abc
    using tail_variants hash_blocks_length that by blast
  then show ?thesis
    by (simp add: hash_any_def fetch_eq_bytes_sum Let_def split_beta)
qed

subsection \<open>Hashing one word\<close>

lemma bit_byte_of:
  "bit (byte_shl (ucast (drop_bit k (w :: uint32))) k) n \<longleftrightarrow> (k \<le> n \<and> n < k + 8 \<and> n < 32) \<and> bit w n"
proof (cases "k \<le> n")
  case True
  then have "k + (n - k) = n" by simp
  then show ?thesis
    unfolding bit_byte_shl bit_ucast_iff bit_drop_bit_eq comp_apply using True by auto
qed (simp add: bit_byte_shl)

lemma bit_low_byte_of:
  "bit (byte_shl (ucast (w :: uint32)) 0) n \<longleftrightarrow> n < 8 \<and> bit w n"
  using bit_byte_of [of 0 w n] by auto

lemma fetch_four:
  "fetch LittleEndian [b0, b1, b2, b3] 0 =
     byte_shl b0 0 OR byte_shl b1 8 OR byte_shl b2 16 OR byte_shl b3 24"
  "fetch BigEndian [b0, b1, b2, b3] 0 =
     byte_shl b0 24 OR byte_shl b1 16 OR byte_shl b2 8 OR byte_shl b3 0"
  by (simp_all add: fetch.simps)

lemma fetch_word_bytes: "fetch en (word_bytes en w) 0 = w"
proof (rule bit_word_eqI)
  fix n :: nat
  assume "n < LENGTH(32)"
  have bits: "bit (fetch en (word_bytes en w) 0) n \<longleftrightarrow> (n < 8 \<or> 8 \<le> n \<and> n < 8 + 8 \<and> n < 32 \<or>
      16 \<le> n \<and> n < 16 + 8 \<and> n < 32 \<or> 24 \<le> n \<and> n < 24 + 8 \<and> n < 32) \<and> bit w n"
    by (cases en; simp only: word_bytes.simps fetch_four bit_or_iff bit_byte_of bit_low_byte_of) blast+
  have "n < 8 \<or> 8 \<le> n \<and> n < 8 + 8 \<and> n < 32 \<or>
      16 \<le> n \<and> n < 16 + 8 \<and> n < 32 \<or> 24 \<le> n \<and> n < 24 + 8 \<and> n < 32"
    using \<open>n < LENGTH(32)\<close> by simp linarith
  with bits show "bit (fetch en (word_bytes en w) 0) n = bit w n" by blast
qed

lemma length_word_bytes [simp]: "length (word_bytes en w) = 4"
  by (cases en) simp_all

lemma hash_uint32_any: "hash_uint32 w = hash_any en aligned (word_bytes en w)"
proof -
  have "hash_any en True (word_bytes en w) = hash_uint32 w"
    using fetch_word_bytes [of en w]
    by (cases en) (simp_all add: hash_any_def hash_uint32_def hash_blocks.simps Let_def
        del: word_bytes.simps)
  then show ?thesis
    by (cases aligned) (simp_all add: hash_any_variants)
qed

subsection \<open>Equal sets hash equally\<close>

lemma strip_zeros_spec:
  "strip_zeros ws n \<le> n \<and> (\<forall>i. strip_zeros ws n \<le> i \<and> i < n \<longrightarrow> ws ! i = 0) \<and>
   (0 < strip_zeros ws n \<longrightarrow> ws ! (strip_zeros ws n - 1) \<noteq> 0)"
  by (induction n) (auto simp: less_Suc_eq)

definition bms_used :: "Bitmapset option \<Rightarrow> nat" where
  "bms_used a = (case a of None \<Rightarrow> 0 | Some a \<Rightarrow> strip_zeros (words a) (nwords a))"

lemma bms_used_spec:
  "(\<forall>i. bms_used a \<le> i \<longrightarrow> wordat a i = 0) \<and> (0 < bms_used a \<longrightarrow> wordat a (bms_used a - 1) \<noteq> 0)"
proof (cases a)
  case (Some a')
  then show ?thesis
    using strip_zeros_spec [of "words a'" "nwords a'"]
    by (auto simp: bms_used_def wordat_Some)
qed (simp add: bms_used_def)

lemma bms_used_cong: "bms_set a = bms_set b \<Longrightarrow> bms_used a = bms_used b"
  using bms_used_spec [of a] bms_used_spec [of b]
  by (metis bms_set_eq_iff diff_less le_add_diff_inverse less_one linorder_neqE_nat not_less
      less_imp_diff_less le_less_trans nat_less_le Suc_leI Suc_pred' bot_nat_0.not_eq_extremum Suc_diff_1
      less_Suc_eq_le)

lemma bms_hash_value_wordat:
  "bms_hash_value en a =
     (if bms_used a = 0 then 0
      else hash_any en True (concat (map (word_bytes en) (map (wordat a) [0..<bms_used a]))))"
proof (cases a)
  case (Some a')
  have "take (bms_used a) (words a') = map (wordat a) [0..<bms_used a]"
    using strip_zeros_spec [of "words a'" "nwords a'"]
    by (intro nth_equalityI) (auto simp: Some bms_used_def wordat_Some)
  then show ?thesis
    by (simp add: Some bms_hash_value_def bms_used_def Let_def)
qed (simp add: bms_hash_value_def bms_used_def)

lemma bms_hash_value_cong:
  assumes "bms_set a = bms_set b"
  shows "bms_hash_value en a = bms_hash_value en b"
proof -
  have "wordat a = wordat b" using assms by (auto simp: bms_set_eq_iff)
  with bms_used_cong [OF assms] show ?thesis by (simp add: bms_hash_value_wordat)
qed

end
