(* ===== verification/FsmPage.thy ===== *)
theory FsmPage
  imports Prelude
begin

section \<open>A page of the free space map (storage/freespace/fsmpage.c)\<close>

text \<open>
  A free-space-map page is a binary tree in an array: \<open>NonLeafNodesPerPage\<close> upper nodes,
  each to hold the larger value of its children, then the leaves, one byte per heap page.
  The last leaves of a full tree may be missing. The block size is fixed when the server is
  configured; here it is the first argument \<open>bs\<close> of every definition that needs it. Buffer
  locks and the dirty flag's write-back are outside the model: a function returns the page
  after the call and whether it changed it.
\<close>

subsection \<open>Page and navigation\<close>

record FSMPage =
  fp_next_slot :: int
  fp_nodes :: "uint8 list"

definition SizeOfPageHeader :: nat where "SizeOfPageHeader = 24"

definition NodesPerPage :: "nat \<Rightarrow> nat" where
  "NodesPerPage bs = bs - SizeOfPageHeader - 4"

definition NonLeafNodesPerPage :: "nat \<Rightarrow> nat" where
  "NonLeafNodesPerPage bs = bs div 2 - 1"

definition LeafNodesPerPage :: "nat \<Rightarrow> nat" where
  "LeafNodesPerPage bs = NodesPerPage bs - NonLeafNodesPerPage bs"

definition leftchild :: "nat \<Rightarrow> nat" where "leftchild x = 2 * x + 1"

definition parentof :: "nat \<Rightarrow> nat" where "parentof x = (x - 1) div 2"

definition rightneighbor :: "nat \<Rightarrow> nat" where
  "rightneighbor x = (let x = x + 1 in if (x + 1) AND x = 0 then parentof x else x)"

subsection \<open>fsm_rebuild_page\<close>

text \<open>The value an upper node is to have: the larger of the children that exist, or 0.\<close>

definition children_max :: "nat \<Rightarrow> uint8 list \<Rightarrow> nat \<Rightarrow> uint8" where
  "children_max bs nodes nodeno =
     (let lchild = leftchild nodeno; rchild = lchild + 1;
          newvalue = (if lchild < NodesPerPage bs then nodes ! lchild else 0)
      in if rchild < NodesPerPage bs then max newvalue (nodes ! rchild) else newvalue)"

text \<open>\<open>for (nodeno = n - 1; nodeno >= 0; nodeno--)\<close>, with the changed flag.\<close>

fun rebuild_loop :: "nat \<Rightarrow> nat \<Rightarrow> bool \<times> uint8 list \<Rightarrow> bool \<times> uint8 list" where
  "rebuild_loop bs 0 r = r"
| "rebuild_loop bs (Suc nodeno) (changed, nodes) =
     (let newvalue = children_max bs nodes nodeno
      in rebuild_loop bs nodeno
           (if nodes ! nodeno \<noteq> newvalue then (True, nodes[nodeno := newvalue])
            else (changed, nodes)))"

definition fsm_rebuild_page :: "nat \<Rightarrow> FSMPage \<Rightarrow> bool \<times> FSMPage" where
  "fsm_rebuild_page bs page =
     (let (changed, nodes) = rebuild_loop bs (NonLeafNodesPerPage bs) (False, fp_nodes page)
      in (changed, page\<lparr>fp_nodes := nodes\<rparr>))"

subsection \<open>fsm_set_avail, fsm_get_avail, fsm_get_max_avail\<close>

text \<open>The \<open>do ... while (nodeno > 0)\<close> loop that propagates a new leaf value upwards.\<close>

function propagate_up :: "nat \<Rightarrow> uint8 list \<Rightarrow> nat \<Rightarrow> uint8 list" where
  "propagate_up bs nodes nodeno =
     (let nodeno' = parentof nodeno;
          lchild = leftchild nodeno';
          rchild = lchild + 1;
          newvalue = nodes ! lchild;
          newvalue = (if rchild < NodesPerPage bs then max newvalue (nodes ! rchild) else newvalue);
          oldvalue = nodes ! nodeno'
      in if oldvalue = newvalue then nodes
         else (let nodes = nodes[nodeno' := newvalue]
               in if nodeno' > 0 then propagate_up bs nodes nodeno' else nodes))"
  by pat_completeness auto
termination
  by (relation "measure (\<lambda>(bs, nodes, nodeno). nodeno)") (auto simp: parentof_def)

declare propagate_up.simps [simp del]

definition fsm_set_avail :: "nat \<Rightarrow> FSMPage \<Rightarrow> nat \<Rightarrow> uint8 \<Rightarrow> bool \<times> FSMPage" where
  "fsm_set_avail bs page slot value =
     (let nodeno = NonLeafNodesPerPage bs + slot;
          oldvalue = fp_nodes page ! nodeno
      in if oldvalue = value \<and> value \<le> fp_nodes page ! 0 then (False, page)
         else (let nodes = propagate_up bs ((fp_nodes page)[nodeno := value]) nodeno;
                   page = page\<lparr>fp_nodes := nodes\<rparr>
               in (True, if value > nodes ! 0 then snd (fsm_rebuild_page bs page) else page)))"

definition fsm_get_avail :: "nat \<Rightarrow> FSMPage \<Rightarrow> nat \<Rightarrow> uint8" where
  "fsm_get_avail bs page slot = fp_nodes page ! (NonLeafNodesPerPage bs + slot)"

definition fsm_get_max_avail :: "FSMPage \<Rightarrow> uint8" where
  "fsm_get_max_avail page = fp_nodes page ! 0"

definition fsm_truncate_avail :: "nat \<Rightarrow> FSMPage \<Rightarrow> nat \<Rightarrow> bool \<times> FSMPage" where
  "fsm_truncate_avail bs page nslots =
     (let first = NonLeafNodesPerPage bs + nslots;
          changed = list_ex (\<lambda>i. fp_nodes page ! i \<noteq> 0) [first..<NodesPerPage bs];
          page = page\<lparr>fp_nodes := loop_upd first (NodesPerPage bs) (\<lambda>i v. 0) (fp_nodes page)\<rparr>
      in (changed, if changed then snd (fsm_rebuild_page bs page) else page))"

subsection \<open>fsm_search_avail\<close>

function climb :: "uint8 \<Rightarrow> uint8 list \<Rightarrow> nat \<Rightarrow> nat" where
  "climb minvalue nodes nodeno =
     (if nodeno > 0 then
        (if nodes ! nodeno \<ge> minvalue then nodeno
         else climb minvalue nodes (parentof (rightneighbor nodeno)))
      else nodeno)"
  by pat_completeness auto
termination
  by (relation "measure (\<lambda>(minvalue, nodes, nodeno). nodeno)")
    (auto simp: parentof_def rightneighbor_def Let_def)

text \<open>The way down; \<open>None\<close> where neither child has the promised value.\<close>

function descend :: "nat \<Rightarrow> uint8 \<Rightarrow> uint8 list \<Rightarrow> nat \<Rightarrow> nat option" where
  "descend bs minvalue nodes nodeno =
     (if nodeno < NonLeafNodesPerPage bs then
        (let childnodeno = leftchild nodeno
         in if childnodeno < NodesPerPage bs \<and> nodes ! childnodeno \<ge> minvalue
            then descend bs minvalue nodes childnodeno
            else if childnodeno + 1 < NodesPerPage bs \<and> nodes ! (childnodeno + 1) \<ge> minvalue
            then descend bs minvalue nodes (childnodeno + 1)
            else None)
      else Some nodeno)"
  by pat_completeness auto
termination
  by (relation "measure (\<lambda>(bs, minvalue, nodes, nodeno). NonLeafNodesPerPage bs - nodeno)")
    (auto simp: leftchild_def)

declare climb.simps [simp del] descend.simps [simp del]

definition search_target :: "nat \<Rightarrow> FSMPage \<Rightarrow> nat" where
  "search_target bs page =
     (let target = fp_next_slot page
      in if target < 0 \<or> target \<ge> int (LeafNodesPerPage bs) then 0 else nat target)"

text \<open>
  The search with its \<open>restart\<close>; the result is the slot or \<open>-1\<close>, the page, and whether the
  page was rebuilt (\<open>MarkBufferDirtyHint\<close>). \<open>None\<close> is a search that restarts for ever.
\<close>

partial_function (option) search_restart ::
  "nat \<Rightarrow> uint8 \<Rightarrow> bool \<Rightarrow> FSMPage \<Rightarrow> bool \<Rightarrow> (int \<times> FSMPage \<times> bool) option" where
  "search_restart bs minvalue advancenext page rebuilt =
     (if fp_nodes page ! 0 < minvalue then Some (- 1, page, rebuilt)
      else
        (let target = search_target bs page + NonLeafNodesPerPage bs;
             nodeno = climb minvalue (fp_nodes page) target
         in case descend bs minvalue (fp_nodes page) nodeno of
              None \<Rightarrow>
                search_restart bs minvalue advancenext (snd (fsm_rebuild_page bs page)) True
            | Some nodeno \<Rightarrow>
                (let slot = nodeno - NonLeafNodesPerPage bs
                 in Some (int slot,
                          page\<lparr>fp_next_slot := int slot + (if advancenext then 1 else 0)\<rparr>, rebuilt))))"

definition fsm_search_avail ::
  "nat \<Rightarrow> FSMPage \<Rightarrow> uint8 \<Rightarrow> bool \<Rightarrow> (int \<times> FSMPage \<times> bool) option" where
  "fsm_search_avail bs page minvalue advancenext =
     search_restart bs minvalue advancenext page False"

subsection \<open>Categories of free space (freespace.c)\<close>

definition FSM_CAT_STEP :: "nat \<Rightarrow> nat" where
  "FSM_CAT_STEP bs = bs div 256"

text \<open>\<open>MaxHeapTupleSize\<close>: the block less the aligned page header with one line pointer.\<close>

definition MaxFSMRequestSize :: "nat \<Rightarrow> nat" where
  "MaxFSMRequestSize bs = bs - 32"

definition fsm_space_avail_to_cat :: "nat \<Rightarrow> nat \<Rightarrow> nat" where
  "fsm_space_avail_to_cat bs avail =
     (if avail \<ge> MaxFSMRequestSize bs then 255
      else (let cat = avail div FSM_CAT_STEP bs in if cat > 254 then 254 else cat))"

definition fsm_space_cat_to_avail :: "nat \<Rightarrow> nat \<Rightarrow> nat" where
  "fsm_space_cat_to_avail bs cat =
     (if cat = 255 then MaxFSMRequestSize bs else cat * FSM_CAT_STEP bs)"

definition fsm_space_needed_to_cat :: "nat \<Rightarrow> nat \<Rightarrow> nat result" where
  "fsm_space_needed_to_cat bs needed =
     (if needed > MaxFSMRequestSize bs then Inl (ERROR ''invalid FSM request size'')
      else if needed = 0 then Inr 1
      else (let cat = (needed + FSM_CAT_STEP bs - 1) div FSM_CAT_STEP bs
            in Inr (if cat > 255 then 255 else cat)))"

subsection \<open>Addresses in the map (freespace.c)\<close>

record FSMAddress =
  level :: nat
  logpageno :: nat

definition FSM_TREE_DEPTH :: "nat \<Rightarrow> nat" where
  "FSM_TREE_DEPTH bs = (if LeafNodesPerPage bs \<ge> 1626 then 3 else 4)"

definition fsm_get_location :: "nat \<Rightarrow> nat \<Rightarrow> FSMAddress \<times> nat" where
  "fsm_get_location bs heapblk =
     (\<lparr>level = 0, logpageno = heapblk div LeafNodesPerPage bs\<rparr>, heapblk mod LeafNodesPerPage bs)"

definition fsm_get_heap_blk :: "nat \<Rightarrow> FSMAddress \<Rightarrow> nat \<Rightarrow> nat" where
  "fsm_get_heap_blk bs addr slot = logpageno addr * LeafNodesPerPage bs + slot"

subsection \<open>Rebuilding makes the tree consistent\<close>

definition page_ok :: "nat \<Rightarrow> FSMPage \<Rightarrow> bool" where
  "page_ok bs page \<longleftrightarrow> length (fp_nodes page) = NodesPerPage bs"

definition consistent :: "nat \<Rightarrow> uint8 list \<Rightarrow> bool" where
  "consistent bs nodes \<longleftrightarrow>
     list_all (\<lambda>n. nodes ! n = children_max bs nodes n) [0..<NonLeafNodesPerPage bs]"

lemma consistent_iff:
  "consistent bs nodes \<longleftrightarrow> (\<forall>n < NonLeafNodesPerPage bs. nodes ! n = children_max bs nodes n)"
  by (auto simp: consistent_def list_all_iff)

text \<open>The block sizes of the model: powers of two from 64 bytes up.\<close>

definition fsm_blcksz :: "nat \<Rightarrow> nat \<Rightarrow> bool" where
  "fsm_blcksz bs D \<longleftrightarrow> bs = 2 ^ Suc D \<and> 5 \<le> D"

lemma blcksz_sizes:
  assumes "fsm_blcksz bs D"
  shows "NonLeafNodesPerPage bs = 2 ^ D - 1" "NodesPerPage bs = 2 * 2 ^ D - 28"
    "LeafNodesPerPage bs = 2 ^ D - 27" "32 \<le> (2::nat) ^ D"
    "NonLeafNodesPerPage bs < NodesPerPage bs" "0 < NonLeafNodesPerPage bs"
proof -
  have "(2::nat) ^ 5 \<le> 2 ^ D" using assms by (intro power_increasing) (auto simp: fsm_blcksz_def)
  then show ge: "32 \<le> (2::nat) ^ D" by simp
  show nl: "NonLeafNodesPerPage bs = 2 ^ D - 1"
    using assms by (simp add: NonLeafNodesPerPage_def fsm_blcksz_def)
  show n: "NodesPerPage bs = 2 * 2 ^ D - 28"
    using assms by (simp add: NodesPerPage_def SizeOfPageHeader_def fsm_blcksz_def)
  show "LeafNodesPerPage bs = 2 ^ D - 27"
    using ge by (simp add: LeafNodesPerPage_def nl n)
  show "NonLeafNodesPerPage bs < NodesPerPage bs" "0 < NonLeafNodesPerPage bs"
    using ge by (simp_all add: nl n)
qed

lemma children_max_cong:
  assumes "\<And>i. n < i \<Longrightarrow> i < NodesPerPage bs \<Longrightarrow> nodes ! i = nodes' ! i"
  shows "children_max bs nodes n = children_max bs nodes' n"
  using assms [of "leftchild n"] assms [of "leftchild n + 1"]
  by (simp add: children_max_def leftchild_def Let_def)

lemma rebuild_loop_spec:
  assumes "rebuild_loop bs n (c, nodes) = (c', nodes')"
    and "n \<le> length nodes"
  shows "length nodes' = length nodes \<and> (\<forall>i\<ge>n. nodes' ! i = nodes ! i) \<and>
    (\<forall>i<n. nodes' ! i = children_max bs nodes' i) \<and> (c' \<longleftrightarrow> c \<or> nodes' \<noteq> nodes)"
  using assms
proof (induction n arbitrary: c nodes)
  case (Suc n)
  define mid where "mid = nodes[n := children_max bs nodes n]"
  define cm where "cm \<longleftrightarrow> c \<or> nodes ! n \<noteq> children_max bs nodes n"
  have same: "mid = nodes" if "nodes ! n = children_max bs nodes n"
    using that by (metis list_update_id mid_def)
  have run: "rebuild_loop bs n (cm, mid) = (c', nodes')"
    using Suc.prems(1) same by (cases "nodes ! n = children_max bs nodes n")
      (simp_all add: cm_def Let_def flip: mid_def)
  from Suc.IH [OF run] Suc.prems(2)
  have IH: "length nodes' = length mid" "\<And>i. n \<le> i \<Longrightarrow> nodes' ! i = mid ! i"
      "\<And>i. i < n \<Longrightarrow> nodes' ! i = children_max bs nodes' i" "c' \<longleftrightarrow> cm \<or> nodes' \<noteq> mid"
    by (auto simp: mid_def)
  have at_n: "nodes' ! n = children_max bs nodes n"
    using IH(2) [of n] Suc.prems(2) by (simp add: mid_def)
  also have "\<dots> = children_max bs nodes' n"
    by (rule children_max_cong) (use IH(2) in \<open>simp add: mid_def\<close>)
  finally have "\<forall>i < Suc n. nodes' ! i = children_max bs nodes' i"
    using IH(3) by (auto simp: less_Suc_eq)
  moreover have "c' \<longleftrightarrow> c \<or> nodes' \<noteq> nodes"
  proof (cases "nodes ! n = children_max bs nodes n")
    case True
    with same True IH(4) show ?thesis by (simp add: cm_def)
  next
    case False
    then have "nodes' \<noteq> nodes" using at_n by auto
    with False IH(4) show ?thesis by (simp add: cm_def)
  qed
  ultimately show ?case
    using IH(1,2) by (auto simp: mid_def)
qed auto

lemma fsm_rebuild_page_spec:
  assumes "page_ok bs page" and "NonLeafNodesPerPage bs \<le> NodesPerPage bs"
    and "fsm_rebuild_page bs page = (changed, page')"
  shows "page_ok bs page'" "consistent bs (fp_nodes page')" "changed \<longleftrightarrow> page' \<noteq> page"
    "fp_next_slot page' = fp_next_slot page"
    "\<And>i. NonLeafNodesPerPage bs \<le> i \<Longrightarrow> fp_nodes page' ! i = fp_nodes page ! i"
proof -
  obtain c nodes where run: "rebuild_loop bs (NonLeafNodesPerPage bs) (False, fp_nodes page) = (c, nodes)"
    by fastforce
  then have page': "page' = page\<lparr>fp_nodes := nodes\<rparr>" "changed = c"
    using assms(3) by (simp_all add: fsm_rebuild_page_def)
  note spec = rebuild_loop_spec [OF run]
  show "page_ok bs page'" "consistent bs (fp_nodes page')" "fp_next_slot page' = fp_next_slot page"
    "\<And>i. NonLeafNodesPerPage bs \<le> i \<Longrightarrow> fp_nodes page' ! i = fp_nodes page ! i"
    using spec assms(1,2) by (auto simp: page' page_ok_def consistent_iff)
  show "changed \<longleftrightarrow> page' \<noteq> page"
    using spec assms(1,2) by (cases page) (auto simp: page' page_ok_def)
qed

subsection \<open>The root of a consistent tree is its maximum\<close>

lemma parentof_less: "0 < i \<Longrightarrow> parentof i < i"
  by (simp add: parentof_def)

lemma children_of_parent: "0 < i \<Longrightarrow> i = leftchild (parentof i) \<or> i = leftchild (parentof i) + 1"
  by (auto simp: leftchild_def parentof_def)

lemma parentof_nonleaf: "0 < i \<Longrightarrow> i < NodesPerPage bs \<Longrightarrow> parentof i < NonLeafNodesPerPage bs"
  by (auto simp: parentof_def NodesPerPage_def NonLeafNodesPerPage_def SizeOfPageHeader_def)

lemma node_le_children_max:
  assumes "0 < i" and "i < NodesPerPage bs"
  shows "nodes ! i \<le> children_max bs nodes (parentof i)"
  using children_of_parent [OF assms(1)] assms(2)
  by (auto simp: children_max_def Let_def)

lemma node_le_root:
  assumes "consistent bs nodes" and "i < NodesPerPage bs"
  shows "nodes ! i \<le> nodes ! 0"
  using assms(2)
proof (induction i rule: less_induct)
  case (less i)
  show ?case
  proof (cases "i = 0")
    case False
    then have "nodes ! i \<le> nodes ! parentof i"
      using node_le_children_max [of i bs nodes] parentof_nonleaf [of i bs] less.prems assms(1)
      by (simp add: consistent_iff)
    also have "\<dots> \<le> nodes ! 0"
      using less.IH [of "parentof i"] parentof_less [of i] False less.prems by simp
    finally show ?thesis .
  qed simp
qed

subsection \<open>Setting a leaf\<close>

text \<open>All upper nodes but \<open>p\<close> are right.\<close>

definition consistent_but :: "nat \<Rightarrow> uint8 list \<Rightarrow> nat \<Rightarrow> bool" where
  "consistent_but bs nodes p \<longleftrightarrow>
     (\<forall>n < NonLeafNodesPerPage bs. n \<noteq> p \<longrightarrow> nodes ! n = children_max bs nodes n)"

lemma children_max_update:
  assumes "n \<noteq> parentof i" and "0 < i"
  shows "children_max bs (nodes[i := v]) n = children_max bs nodes n"
proof -
  have "leftchild n \<noteq> i" "leftchild n + 1 \<noteq> i"
    using assms by (auto simp: leftchild_def parentof_def)
  then show ?thesis by (simp add: children_max_def Let_def)
qed

lemma consistent_but_update:
  assumes "consistent_but bs nodes i" and "0 < i"
    and "i < NonLeafNodesPerPage bs \<longrightarrow> i < length nodes \<and> v = children_max bs nodes i"
  shows "consistent_but bs (nodes[i := v]) (parentof i)"
  unfolding consistent_but_def
proof (intro allI impI)
  fix n assume n: "n < NonLeafNodesPerPage bs" "n \<noteq> parentof i"
  have "children_max bs (nodes[i := v]) n = children_max bs nodes n"
    using n(2) assms(2) by (rule children_max_update)
  then show "nodes[i := v] ! n = children_max bs (nodes[i := v]) n"
    using assms(1,3) n(1) by (cases "n = i") (auto simp: consistent_but_def)
qed

lemma propagate_newvalue:
  assumes "0 < i" and "i < NodesPerPage bs" and "n = parentof i"
  shows "(if leftchild n + 1 < NodesPerPage bs
          then max (nodes ! leftchild n) (nodes ! (leftchild n + 1)) else nodes ! leftchild n) =
    children_max bs nodes n"
  using children_of_parent [OF assms(1)] assms(2,3) by (auto simp: children_max_def Let_def)

lemma propagate_up_step:
  assumes "0 < i" and "i < NodesPerPage bs"
  shows "propagate_up bs nodes i =
    (let p = parentof i; v = children_max bs nodes p
     in if nodes ! p = v then nodes
        else if p > 0 then propagate_up bs (nodes[p := v]) p else nodes[p := v])"
  by (subst propagate_up.simps) (simp only: Let_def propagate_newvalue [OF assms refl])

lemma propagate_up_frame:
  assumes "0 < i" and "i < NodesPerPage bs"
  shows "length (propagate_up bs nodes i) = length nodes \<and>
    (\<forall>j \<ge> NonLeafNodesPerPage bs. propagate_up bs nodes i ! j = nodes ! j)"
  using assms
proof (induction i arbitrary: nodes rule: less_induct)
  case (less i)
  let ?p = "parentof i"
  have p: "?p < i" "?p < NonLeafNodesPerPage bs" "?p < NodesPerPage bs"
    using less.prems parentof_less [of i] parentof_nonleaf [of i bs] by auto
  show ?case
  proof (cases "?p > 0")
    case True
    with less.IH [OF p(1) True p(3), of "nodes[?p := children_max bs nodes ?p]"] p(2)
    show ?thesis by (auto simp: propagate_up_step [OF less.prems] Let_def)
  next
    case False
    with p(2) show ?thesis by (auto simp: propagate_up_step [OF less.prems] Let_def)
  qed
qed

lemma propagate_up_consistent:
  assumes "0 < i" and "i < NodesPerPage bs" and "length nodes = NodesPerPage bs"
    and "consistent_but bs nodes (parentof i)"
  shows "consistent bs (propagate_up bs nodes i)"
  using assms
proof (induction i arbitrary: nodes rule: less_induct)
  case (less i)
  let ?p = "parentof i" and ?v = "children_max bs nodes (parentof i)"
  have p: "?p < i" "?p < NonLeafNodesPerPage bs" "?p < NodesPerPage bs"
    using less.prems parentof_less [of i] parentof_nonleaf [of i bs] by auto
  show ?case
  proof (cases "nodes ! ?p = ?v")
    case True
    then have "consistent bs nodes"
      using less.prems(4) by (auto simp: consistent_iff consistent_but_def)
    with True show ?thesis by (simp add: propagate_up_step [OF less.prems(1,2)] Let_def)
  next
    case changed: False
    show ?thesis
    proof (cases "?p = 0")
      case False
      then have "consistent_but bs (nodes[?p := ?v]) (parentof ?p)"
        using less.prems(3,4) p by (intro consistent_but_update) auto
      then have "consistent bs (propagate_up bs (nodes[?p := ?v]) ?p)"
        using less.IH [OF p(1)] False p(3) less.prems(3) by simp
      with changed False show ?thesis
        by (simp add: propagate_up_step [OF less.prems(1,2)] Let_def)
    next
      case True
      have "children_max bs (nodes[0 := ?v]) n = children_max bs nodes n" for n
        by (rule children_max_cong) simp
      then have "consistent bs (nodes[0 := ?v])"
        using less.prems(3,4) True p by (auto simp: consistent_iff consistent_but_def nth_list_update)
      with changed True show ?thesis
        by (simp add: propagate_up_step [OF less.prems(1,2)] Let_def)
    qed
  qed
qed

lemma fsm_set_avail_spec:
  assumes bs: "fsm_blcksz bs D" and ok: "page_ok bs page" and slot: "slot < LeafNodesPerPage bs"
    and set: "fsm_set_avail bs page slot value = (modified, page')"
  shows "page_ok bs page'" "fp_next_slot page' = fp_next_slot page"
    "fsm_get_avail bs page' slot = value"
    "\<And>j. j \<noteq> slot \<Longrightarrow> fsm_get_avail bs page' j = fsm_get_avail bs page j"
    "value \<le> fsm_get_max_avail page'" "modified \<longleftrightarrow> page' \<noteq> page"
    "consistent bs (fp_nodes page) \<Longrightarrow> consistent bs (fp_nodes page')"
proof -
  let ?n = "NonLeafNodesPerPage bs + slot"
  note sizes = blcksz_sizes [OF bs]
  have n: "0 < ?n" "?n < NodesPerPage bs" "?n < length (fp_nodes page)"
    using slot sizes ok by (auto simp: LeafNodesPerPage_def page_ok_def)
  define up where "up = propagate_up bs ((fp_nodes page)[?n := value]) ?n"
  define page1 where "page1 = page\<lparr>fp_nodes := up\<rparr>"
  have up: "length up = NodesPerPage bs"
    "\<And>j. NonLeafNodesPerPage bs \<le> j \<Longrightarrow> up ! j = (fp_nodes page)[?n := value] ! j"
    using propagate_up_frame [OF n(1,2), of "(fp_nodes page)[?n := value]"] ok
    by (auto simp: up_def page_ok_def)
  have up_cons: "consistent bs up" if "consistent bs (fp_nodes page)"
    unfolding up_def
  proof (rule propagate_up_consistent [OF n(1,2)])
    show "consistent_but bs ((fp_nodes page)[?n := value]) (parentof ?n)"
      using that n(1) by (intro consistent_but_update)
        (auto simp: consistent_but_def consistent_iff)
  qed (use ok in \<open>simp add: page_ok_def\<close>)
  have ok1: "page_ok bs page1" using up(1) by (simp add: page1_def page_ok_def)
  obtain c page2 where rb: "fsm_rebuild_page bs page1 = (c, page2)" by fastforce
  note rebuilt = fsm_rebuild_page_spec [OF ok1 less_imp_le [OF sizes(5)] rb]
  consider (same) "fp_nodes page ! ?n = value" "value \<le> fp_nodes page ! 0" "page' = page" "\<not> modified"
    | (plain) "\<not> (fp_nodes page ! ?n = value \<and> value \<le> fp_nodes page ! 0)" "value \<le> up ! 0"
        "page' = page1" modified
    | (repair) "\<not> (fp_nodes page ! ?n = value \<and> value \<le> fp_nodes page ! 0)" "up ! 0 < value"
        "page' = page2" modified
    using set rb by (auto simp: fsm_set_avail_def Let_def up_def [symmetric] page1_def split: if_splits)
  note cases = this
  have leaf: "fp_nodes page' ! j = (fp_nodes page)[?n := value] ! j" if "NonLeafNodesPerPage bs \<le> j" for j
    using cases
  proof cases
    case same
    then show ?thesis using n(3) by (cases "j = ?n") auto
  qed (use that up(2) rebuilt(5) in \<open>auto simp: page1_def\<close>)
  show "page_ok bs page'" "fp_next_slot page' = fp_next_slot page"
    using cases ok ok1 rebuilt(1,4) by (cases; auto simp: page1_def)+
  show val: "fsm_get_avail bs page' slot = value"
    using leaf [of ?n] n(3) by (simp add: fsm_get_avail_def)
  show "fsm_get_avail bs page' j = fsm_get_avail bs page j" if "j \<noteq> slot" for j
    using leaf [of "NonLeafNodesPerPage bs + j"] that by (simp add: fsm_get_avail_def)
  show root: "value \<le> fsm_get_max_avail page'"
    using cases
  proof cases
    case repair
    then show ?thesis
      using node_le_root [OF rebuilt(2) n(2)] val by (simp add: fsm_get_max_avail_def fsm_get_avail_def)
  qed (simp_all add: fsm_get_max_avail_def page1_def)
  show "modified \<longleftrightarrow> page' \<noteq> page"
    using cases val root by cases (auto simp: fsm_get_avail_def fsm_get_max_avail_def)
  show "consistent bs (fp_nodes page')" if "consistent bs (fp_nodes page)"
    using cases that up_cons rebuilt(2) by cases (auto simp: page1_def)
qed

subsection \<open>Moving right and up\<close>

lemma and_pred_power:
  assumes "2 ^ l < m" and "m \<le> 2 ^ Suc l"
  shows "m AND (m - 1) = 0 \<longleftrightarrow> m = (2::nat) ^ Suc l"
proof
  assume m: "m = 2 ^ Suc l"
  then have pred: "m - 1 = mask (Suc l)" by (simp only: mask_eq_exp_minus_1)
  show "m AND (m - 1) = 0"
    unfolding pred
    by (rule bit_eqI) (simp only: m bit_and_iff bit_exp_iff bit_mask_iff bit_0_eq bot_apply, auto)
next
  assume zero: "m AND (m - 1) = 0"
  show "m = 2 ^ Suc l"
  proof (rule ccontr)
    assume "m \<noteq> 2 ^ Suc l"
    then have "m div 2 ^ l = 1" "(m - 1) div 2 ^ l = 1"
      using assms by (auto intro!: div_nat_eqI)
    then have "bit m l" "bit (m - 1) l" by (simp_all add: bit_iff_odd)
    then have "bit (m AND (m - 1)) l" by (simp add: bit_and_iff)
    with zero show False by simp
  qed
qed

text \<open>Node numbers shifted by one: the children of \<open>y\<close> are \<open>2 y\<close> and \<open>2 y + 1\<close>.\<close>

lemma climb_target:
  assumes "2 ^ Suc l \<le> y" and "y < 2 ^ Suc (Suc l)"
  shows "parentof (rightneighbor (y - 1)) =
    (if y + 1 = 2 ^ Suc (Suc l) then 2 ^ l - 1 else (y + 1) div 2 - 1)"
proof -
  have y: "2 \<le> y" using assms(1) by (metis le_trans one_le_power one_le_numeral power_Suc nat_mult_le_cancel_disj mult.right_neutral)
  have test: "(y + 1) AND y = 0 \<longleftrightarrow> y + 1 = 2 ^ Suc (Suc l)"
    using and_pred_power [of "Suc l" "y + 1"] assms by simp
  have "rightneighbor (y - 1) = (if y + 1 = 2 ^ Suc (Suc l) then (y - 1) div 2 else y)"
    using y test by (simp add: rightneighbor_def parentof_def Let_def)
  moreover have "((y - 1) div 2 - 1) div 2 = 2 ^ l - 1" if "y + 1 = 2 ^ Suc (Suc l)"
  proof -
    have "y = 4 * 2 ^ l - 1" "0 < (2::nat) ^ l" using that by auto
    then show ?thesis by (cases "(2::nat) ^ l") auto
  qed
  moreover have "(y - 1) div 2 = (y + 1) div 2 - 1" using y by linarith
  ultimately show ?thesis by (simp add: parentof_def)
qed

subsection \<open>The leaves below a node\<close>

text \<open>
  \<open>usable bs nodes minvalue k\<close>: the \<open>k\<close>-th node (counted from 1) exists and has enough
  space. A node \<open>y\<close> of height \<open>d\<close> covers the leaves \<open>y * 2 ^ d, ..., (y + 1) * 2 ^ d - 1\<close>.
\<close>

definition usable :: "nat \<Rightarrow> uint8 list \<Rightarrow> uint8 \<Rightarrow> nat \<Rightarrow> bool" where
  "usable bs nodes minvalue k \<longleftrightarrow> k - 1 < NodesPerPage bs \<and> nodes ! (k - 1) \<ge> minvalue"

lemma usable_parent:
  assumes "consistent bs nodes" and "y - 1 < NonLeafNodesPerPage bs" and "1 \<le> y" and "0 < minvalue"
    and "NonLeafNodesPerPage bs \<le> NodesPerPage bs"
  shows "usable bs nodes minvalue y \<longleftrightarrow>
    usable bs nodes minvalue (2 * y) \<or> usable bs nodes minvalue (2 * y + 1)"
proof -
  have "nodes ! (y - 1) = children_max bs nodes (y - 1)"
    using assms(1,2) by (simp add: consistent_iff)
  moreover have "leftchild (y - 1) = 2 * y - 1" using assms(3) by (simp add: leftchild_def)
  moreover have "2 * y - 1 + 1 = 2 * y" using assms(3) by simp
  moreover have "\<not> minvalue \<le> 0" using assms(4) by simp
  ultimately show ?thesis
    using assms(2,5) by (auto simp: usable_def children_max_def Let_def le_max_iff_disj)
qed

lemma height_bound:
  assumes "y < 2 ^ (D - d + 1)" and "d \<le> D" and "0 < d"
  shows "y - 1 < 2 ^ D - (1::nat)"
proof -
  have "D - d + 1 \<le> D" using assms by simp
  then have "(2::nat) ^ (D - d + 1) \<le> 2 ^ D" by (intro power_increasing) auto
  moreover have "1 < (2::nat) ^ D" using assms by (intro one_less_power) auto
  ultimately show ?thesis using assms(1) by linarith
qed

definition covers :: "nat \<Rightarrow> nat \<Rightarrow> nat \<Rightarrow> bool" where
  "covers d y k \<longleftrightarrow> y * 2 ^ d \<le> k \<and> k < (y + 1) * 2 ^ d"

lemma covers_0 [simp]: "covers 0 y k \<longleftrightarrow> k = y"
  by (auto simp: covers_def)

lemma covers_Suc: "covers (Suc d) y k \<longleftrightarrow> covers d (2 * y) k \<or> covers d (2 * y + 1) k"
  by (auto simp: covers_def algebra_simps)

lemma usable_covers:
  assumes "fsm_blcksz bs D" and "consistent bs nodes" and "0 < minvalue" and "d \<le> D"
    and "2 ^ (D - d) \<le> y" and "y < 2 ^ (D - d + 1)"
  shows "usable bs nodes minvalue y \<longleftrightarrow> (\<exists>k. covers d y k \<and> usable bs nodes minvalue k)"
  using assms(4-)
proof (induction d arbitrary: y)
  case (Suc d)
  note sizes = blcksz_sizes [OF assms(1)]
  have D: "D - d = Suc (D - Suc d)" using Suc.prems(1) by simp
  have y: "1 \<le> y" using Suc.prems(2) by (meson le_trans one_le_power one_le_numeral)
  have "y - 1 < NonLeafNodesPerPage bs"
    using height_bound [OF Suc.prems(3,1)] by (simp add: sizes(1))
  then have "usable bs nodes minvalue y \<longleftrightarrow>
      usable bs nodes minvalue (2 * y) \<or> usable bs nodes minvalue (2 * y + 1)"
    using usable_parent [OF assms(2) _ y assms(3)] sizes(5) by simp
  also have "\<dots> \<longleftrightarrow> (\<exists>k. covers (Suc d) y k \<and> usable bs nodes minvalue k)"
    using Suc.IH [of "2 * y"] Suc.IH [of "2 * y + 1"] Suc.prems
    by (auto simp: covers_Suc D)
  finally show ?case .
qed simp

text \<open>The way down ends at the leftmost usable leaf below the node.\<close>

lemma descend_leftmost:
  assumes "fsm_blcksz bs D" and "consistent bs nodes" and "0 < minvalue" and "d \<le> D"
    and "2 ^ (D - d) \<le> y" and "y < 2 ^ (D - d + 1)" and "usable bs nodes minvalue y"
  shows "\<exists>k. descend bs minvalue nodes (y - 1) = Some (k - 1) \<and> covers d y k \<and>
    usable bs nodes minvalue k \<and> (\<forall>j<k. covers d y j \<longrightarrow> \<not> usable bs nodes minvalue j)"
  using assms(4-)
proof (induction d arbitrary: y)
  case 0
  then have "\<not> y - 1 < NonLeafNodesPerPage bs"
    using blcksz_sizes [OF assms(1)] by simp
  then show ?case
    using 0 by (subst descend.simps) auto
next
  case (Suc d)
  note sizes = blcksz_sizes [OF assms(1)]
  have D: "D - d = Suc (D - Suc d)" using Suc.prems(1) by simp
  have y: "1 \<le> y" using Suc.prems(2) by (meson le_trans one_le_power one_le_numeral)
  have nl: "y - 1 < NonLeafNodesPerPage bs"
    using height_bound [OF Suc.prems(3,1)] by (simp add: sizes(1))
  have ch: "leftchild (y - 1) = 2 * y - 1" "2 * y - 1 + 1 = 2 * y"
    using y by (simp_all add: leftchild_def)
  have step: "descend bs minvalue nodes (y - 1) =
      (if usable bs nodes minvalue (2 * y) then descend bs minvalue nodes (2 * y - 1)
       else if usable bs nodes minvalue (2 * y + 1) then descend bs minvalue nodes (2 * y + 1 - 1)
       else None)"
    using nl ch by (subst descend.simps) (simp add: usable_def Let_def)
  have lr: "2 ^ (D - d) \<le> 2 * y" "2 * y < 2 ^ (D - d + 1)" "2 ^ (D - d) \<le> 2 * y + 1"
    "2 * y + 1 < 2 ^ (D - d + 1)"
    using Suc.prems by (simp_all add: D)
  show ?case
  proof (cases "usable bs nodes minvalue (2 * y)")
    case True
    obtain k where k: "descend bs minvalue nodes (2 * y - 1) = Some (k - 1)" "covers d (2 * y) k"
        "usable bs nodes minvalue k" "\<forall>j<k. covers d (2 * y) j \<longrightarrow> \<not> usable bs nodes minvalue j"
      using Suc.IH [OF _ lr(1,2) True] Suc.prems(1) by auto
    moreover have "\<not> covers d (2 * y + 1) j" if "j < k" for j
      using that k(2) by (auto simp: covers_def algebra_simps)
    ultimately show ?thesis
      using True step by (auto simp: covers_Suc)
  next
    case False
    then have r: "usable bs nodes minvalue (2 * y + 1)"
      using usable_parent [OF assms(2) nl y assms(3)] sizes(5) Suc.prems(4) by simp
    obtain k where k: "descend bs minvalue nodes (2 * y + 1 - 1) = Some (k - 1)"
        "covers d (2 * y + 1) k" "usable bs nodes minvalue k"
        "\<forall>j<k. covers d (2 * y + 1) j \<longrightarrow> \<not> usable bs nodes minvalue j"
      using Suc.IH [OF Suc_leD [OF Suc.prems(1)] lr(3,4) r] by blast
    moreover have "\<not> usable bs nodes minvalue j" if "covers d (2 * y) j" for j
      using usable_covers [OF assms(1,2,3) _ lr(1,2)] Suc.prems(1) False that by auto
    ultimately show ?thesis
      using False step r by (auto simp: covers_Suc)
  qed
qed

subsection \<open>The search goes round the leaves from its target\<close>

text \<open>
  \<open>passed\<close> is what the climb has established when it stands at the node \<open>y\<close> of height
  \<open>d\<close>, having started at the leaf \<open>T\<close>: either it has seen every leaf from \<open>T\<close> up to the
  first one below \<open>y\<close>, or it has wrapped around, seen all from \<open>T\<close> on, and \<open>y\<close> is the
  leftmost node of its level.
\<close>

definition passed :: "nat \<Rightarrow> uint8 list \<Rightarrow> uint8 \<Rightarrow> nat \<Rightarrow> nat \<Rightarrow> nat \<Rightarrow> nat \<Rightarrow> bool" where
  "passed bs nodes minvalue D T d y \<longleftrightarrow>
     T \<le> y * 2 ^ d \<and> (\<forall>k. T \<le> k \<and> k < y * 2 ^ d \<longrightarrow> \<not> usable bs nodes minvalue k) \<or>
     y * 2 ^ d = 2 ^ D \<and> (\<forall>k. T \<le> k \<and> k < 2 ^ Suc D \<longrightarrow> \<not> usable bs nodes minvalue k)"

lemma passed_step:
  assumes level: "D - d = Suc l" "d < D" "2 ^ Suc l \<le> y" "y < 2 ^ Suc (Suc l)"
    and none: "\<And>k. covers d y k \<Longrightarrow> \<not> usable bs nodes minvalue k"
    and passed: "passed bs nodes minvalue D T d y"
    and y': "y' = (if y + 1 = 2 ^ Suc (Suc l) then 2 ^ l else (y + 1) div 2)"
  shows "passed bs nodes minvalue D T (Suc d) y'" "2 ^ l \<le> y'" "y' < 2 ^ Suc l" "y' < y"
proof -
  have D: "Suc l + d = D" "Suc (Suc l) + d = Suc D" using level(1,2) by simp_all
  have pD: "(2::nat) ^ Suc l * 2 ^ d = 2 ^ D" "(2::nat) ^ Suc (Suc l) * 2 ^ d = 2 ^ Suc D"
    using D by (metis power_add)+
  show "2 ^ l \<le> y'" "y' < 2 ^ Suc l" "y' < y"
    using level(3,4) y' by auto
  have none': "\<not> usable bs nodes minvalue k" if "y * 2 ^ d \<le> k" "k < (y + 1) * 2 ^ d" for k
    using none that by (simp add: covers_def)
  consider (wrap) "y + 1 = 2 ^ Suc (Suc l)" | (left) "even y" | (right) "odd y" "y + 1 \<noteq> 2 ^ Suc (Suc l)"
    by blast
  then show "passed bs nodes minvalue D T (Suc d) y'"
  proof cases
    case wrap
    have "(y + 1) * 2 ^ d = 2 ^ Suc D" using wrap pD(2) by metis
    moreover have "y' * 2 ^ Suc d = 2 ^ D" using wrap y' pD(1) by simp
    ultimately show ?thesis
      using passed none' unfolding passed_def by (metis not_less)
  next
    case left
    then have "y + 1 \<noteq> 2 ^ Suc (Suc l)" by (simp, presburger)
    with left have "y' = y div 2" "y = 2 * (y div 2)" using y' by auto
    then have "y' * 2 ^ Suc d = y * 2 ^ d"
      by (metis mult.assoc mult.commute power_Suc)
    then show ?thesis using passed by (simp only: passed_def)
  next
    case right
    then have "y' * 2 = y + 1" using y' by simp presburger
    then have eq: "y' * 2 ^ Suc d = (y + 1) * 2 ^ d"
      by (metis mult.assoc mult.commute power_Suc)
    have "y * 2 ^ d \<noteq> 2 ^ D"
    proof
      assume "y * 2 ^ d = 2 ^ D"
      then have "y * 2 ^ d = 2 ^ Suc l * 2 ^ d" using pD(1) by simp
      then have "y = 2 ^ Suc l" by simp
      with right(1) show False by simp
    qed
    with passed have "T \<le> y * 2 ^ d" "\<And>k. T \<le> k \<Longrightarrow> k < y * 2 ^ d \<Longrightarrow> \<not> usable bs nodes minvalue k"
      by (auto simp: passed_def)
    moreover have "y * 2 ^ d \<le> (y + 1) * 2 ^ d" by simp
    ultimately show ?thesis
      unfolding passed_def eq using none' by (meson le_trans not_less)
  qed
qed

lemma climb_finds:
  assumes bs: "fsm_blcksz bs D" and cons: "consistent bs nodes" and pos: "0 < minvalue"
    and root: "usable bs nodes minvalue 1"
  shows "d \<le> D \<Longrightarrow> 2 ^ (D - d) \<le> y \<Longrightarrow> y < 2 ^ (D - d + 1) \<Longrightarrow> y - 1 < NodesPerPage bs \<Longrightarrow>
    passed bs nodes minvalue D T d y \<Longrightarrow>
    \<exists>d' y'. climb minvalue nodes (y - 1) = y' - 1 \<and> d' \<le> D \<and> 2 ^ (D - d') \<le> y' \<and>
      y' < 2 ^ (D - d' + 1) \<and> usable bs nodes minvalue y' \<and> passed bs nodes minvalue D T d' y'"
proof (induction y arbitrary: d rule: less_induct)
  case (less y)
  note sizes = blcksz_sizes [OF bs]
  have y1: "1 \<le> y" using less.prems(2) by (meson le_trans one_le_power one_le_numeral)
  show ?case
  proof (cases "usable bs nodes minvalue y")
    case True
    then have "climb minvalue nodes (y - 1) = y - 1"
      by (subst climb.simps) (auto simp: usable_def)
    with True less.prems show ?thesis by blast
  next
    case False
    with root y1 have "1 < y" by (metis le_neq_implies_less)
    then have "d \<noteq> D" using less.prems(3) by auto
    with less.prems(1) have "d < D" by simp
    then obtain l where l: "D - d = Suc l" by (metis Suc_diff_Suc)
    then have ls: "D - Suc d = l" by simp
    have range: "2 ^ Suc l \<le> y" "y < 2 ^ Suc (Suc l)" using less.prems(2,3) l by simp_all
    define y' where "y' = (if y + 1 = 2 ^ Suc (Suc l) then 2 ^ l else (y + 1) div 2)"
    have none: "\<not> usable bs nodes minvalue k" if "covers d y k" for k
      using usable_covers [OF bs cons pos less.prems(1,2,3)] False that by blast
    note step = passed_step [OF l \<open>d < D\<close> range none less.prems(5) y'_def]
    have "climb minvalue nodes (y - 1) = climb minvalue nodes (y' - 1)"
      using \<open>1 < y\<close> False less.prems(4) climb_target [OF range]
      by (subst climb.simps) (auto simp: usable_def y'_def)
    moreover have "y' - 1 < NodesPerPage bs"
      using step(4) less.prems(4) by simp
    ultimately show ?thesis
      using less.IH [OF step(4), of "Suc d"] step \<open>d < D\<close> ls by simp
  qed
qed

definition fits :: "nat \<Rightarrow> FSMPage \<Rightarrow> uint8 \<Rightarrow> nat \<Rightarrow> bool" where
  "fits bs page minvalue j \<longleftrightarrow> j < LeafNodesPerPage bs \<and> fsm_get_avail bs page j \<ge> minvalue"

text \<open>\<open>j\<close> is the first slot that fits, going right from \<open>t\<close> and round to slot 0.\<close>

definition first_fit_from :: "nat \<Rightarrow> FSMPage \<Rightarrow> uint8 \<Rightarrow> nat \<Rightarrow> nat \<Rightarrow> bool" where
  "first_fit_from bs page minvalue t j \<longleftrightarrow>
     fits bs page minvalue j \<and>
     (if t \<le> j then \<forall>i. t \<le> i \<and> i < j \<longrightarrow> \<not> fits bs page minvalue i
      else \<forall>i. t \<le> i \<or> i < j \<longrightarrow> \<not> fits bs page minvalue i)"

lemma usable_leaf:
  assumes "fsm_blcksz bs D"
  shows "usable bs (fp_nodes page) minvalue (j + 2 ^ D) \<longleftrightarrow> fits bs page minvalue j"
proof -
  have "j + 2 ^ D - 1 = NonLeafNodesPerPage bs + j"
    using blcksz_sizes [OF assms] by simp
  moreover have "NonLeafNodesPerPage bs + j < NodesPerPage bs \<longleftrightarrow> j < LeafNodesPerPage bs"
    using blcksz_sizes(5) [OF assms] by (auto simp: LeafNodesPerPage_def)
  ultimately show ?thesis by (simp add: usable_def fits_def fsm_get_avail_def)
qed

lemma search_target_less: "fsm_blcksz bs D \<Longrightarrow> search_target bs page < LeafNodesPerPage bs"
  using blcksz_sizes [of bs D] by (auto simp: search_target_def Let_def nat_less_iff)

lemma search_pass_consistent:
  assumes bs: "fsm_blcksz bs D" and cons: "consistent bs (fp_nodes page)" and pos: "0 < minvalue"
    and root: "minvalue \<le> fp_nodes page ! 0"
  shows "\<exists>j. descend bs minvalue (fp_nodes page)
      (climb minvalue (fp_nodes page) (search_target bs page + NonLeafNodesPerPage bs)) =
        Some (NonLeafNodesPerPage bs + j) \<and>
      first_fit_from bs page minvalue (search_target bs page) j"
proof -
  let ?t = "search_target bs page" and ?u = "usable bs (fp_nodes page) minvalue"
  note sizes = blcksz_sizes [OF bs]
  define T where "T = ?t + 2 ^ D"
  have t: "?t < LeafNodesPerPage bs" using search_target_less [OF bs] .
  have T: "?t + NonLeafNodesPerPage bs = T - 1" "T - 1 < NodesPerPage bs" "2 ^ D \<le> T" "T < 2 ^ Suc D"
    using t sizes by (auto simp: T_def LeafNodesPerPage_def)
  have "?u 1" using root sizes by (simp add: usable_def)
  moreover have "passed bs (fp_nodes page) minvalue D T 0 T" by (auto simp: passed_def)
  ultimately obtain d y where y: "climb minvalue (fp_nodes page) (T - 1) = y - 1" "d \<le> D"
      "2 ^ (D - d) \<le> y" "y < 2 ^ (D - d + 1)" "?u y" "passed bs (fp_nodes page) minvalue D T d y"
    using climb_finds [OF bs cons pos, of 0 T T] T by auto
  from descend_leftmost [OF bs cons pos y(2-5)] obtain k where
    k: "descend bs minvalue (fp_nodes page) (y - 1) = Some (k - 1)" "covers d y k" "?u k"
      "\<And>j. j < k \<Longrightarrow> covers d y j \<Longrightarrow> \<not> ?u j" by blast
  have p: "(2::nat) ^ (D - d) * 2 ^ d = 2 ^ D" "(2::nat) ^ (D - d + 1) * 2 ^ d = 2 ^ Suc D"
    using y(2) by (simp_all flip: power_add)
  have lo: "2 ^ D \<le> k"
    using k(2) y(3) p(1) by (metis covers_def le_trans mult_le_mono1)
  have hi: "k < 2 ^ Suc D"
  proof -
    have "(y + 1) * 2 ^ d \<le> 2 ^ Suc D" using y(4) p(2) by (metis Suc_eq_plus1 Suc_leI mult_le_mono1)
    then show ?thesis using k(2) by (simp add: covers_def)
  qed
  define j where "j = k - 2 ^ D"
  have kj: "k = j + 2 ^ D" "k - 1 = NonLeafNodesPerPage bs + j"
    using lo sizes by (auto simp: j_def)
  have below: "\<not> ?u i" if "i < k" "y * 2 ^ d \<le> i" for i
    using k(2,4) that by (auto simp: covers_def)
  have fit: "fits bs page minvalue i \<longleftrightarrow> ?u (i + 2 ^ D)" for i
    by (simp add: usable_leaf [OF bs])
  have "first_fit_from bs page minvalue ?t j"
    unfolding first_fit_from_def
  proof (intro conjI)
    show "fits bs page minvalue j" using k(3) kj(1) by (simp add: fit)
    from y(6) show "if ?t \<le> j then \<forall>i. ?t \<le> i \<and> i < j \<longrightarrow> \<not> fits bs page minvalue i
      else \<forall>i. ?t \<le> i \<or> i < j \<longrightarrow> \<not> fits bs page minvalue i"
      unfolding passed_def
    proof
      assume *: "T \<le> y * 2 ^ d \<and> (\<forall>k. T \<le> k \<and> k < y * 2 ^ d \<longrightarrow> \<not> ?u k)"
      then have "T \<le> k" using k(2) by (auto simp: covers_def)
      then have "?t \<le> j" by (simp add: T_def kj)
      moreover have "\<not> ?u (i + 2 ^ D)" if "?t \<le> i" "i < j" for i
        using * below [of "i + 2 ^ D"] that kj(1) by (cases "i + 2 ^ D < y * 2 ^ d") (auto simp: T_def)
      ultimately show ?thesis by (auto simp: fit)
    next
      assume *: "y * 2 ^ d = 2 ^ D \<and> (\<forall>k. T \<le> k \<and> k < 2 ^ Suc D \<longrightarrow> \<not> ?u k)"
      then have "k < T" using k(3) hi not_less by blast
      then have "\<not> ?t \<le> j" by (simp add: T_def kj)
      moreover have "\<not> fits bs page minvalue i" if "?t \<le> i" for i
      proof
        assume f: "fits bs page minvalue i"
        then have "?u (i + 2 ^ D)" by (simp only: fit)
        moreover have "i + 2 ^ D < 2 ^ Suc D"
          using f sizes by (auto simp: fits_def)
        ultimately show False using * that by (auto simp: T_def)
      qed
      moreover have "\<not> ?u (i + 2 ^ D)" if "i < j" for i
        using * below [of "i + 2 ^ D"] that kj(1) by simp
      ultimately show ?thesis by (auto simp: fit)
    qed
  qed
  then show ?thesis using k(1) y(1) kj(2) T(1) by auto
qed

subsection \<open>Any page: the search is sound and ends\<close>

lemma climb_sound:
  assumes "nodes ! 0 \<ge> minvalue" and "0 < NodesPerPage bs"
  shows "i < NodesPerPage bs \<Longrightarrow> climb minvalue nodes i < NodesPerPage bs \<and>
    nodes ! climb minvalue nodes i \<ge> minvalue"
proof (induction i rule: less_induct)
  case (less i)
  have "parentof (rightneighbor i) < i" if "0 < i"
    using that by (auto simp: parentof_def rightneighbor_def Let_def)
  with less assms show ?case
    by (subst (1 2) climb.simps) (auto split: if_splits)
qed

lemma descend_sound:
  assumes "nodes ! i \<ge> minvalue" and "i < NodesPerPage bs"
    and "descend bs minvalue nodes i = Some n"
  shows "NonLeafNodesPerPage bs \<le> n \<and> n < NodesPerPage bs \<and> nodes ! n \<ge> minvalue"
  using assms
proof (induction bs minvalue nodes i rule: descend.induct)
  case (1 bs minvalue nodes i)
  from "1.prems"(3) show ?case
    by (subst (asm) descend.simps)
      (use 1 in \<open>auto simp: Let_def split: if_splits\<close>)
qed

lemma search_found:
  assumes bs: "fsm_blcksz bs D" and root: "minvalue \<le> fp_nodes page ! 0"
    and "descend bs minvalue (fp_nodes page)
      (climb minvalue (fp_nodes page) (search_target bs page + NonLeafNodesPerPage bs)) = Some n"
  shows "fits bs page minvalue (n - NonLeafNodesPerPage bs)"
proof -
  note sizes = blcksz_sizes [OF bs]
  have "search_target bs page + NonLeafNodesPerPage bs < NodesPerPage bs"
    using search_target_less [OF bs, of page] sizes by (simp add: LeafNodesPerPage_def)
  then have "NonLeafNodesPerPage bs \<le> n \<and> n < NodesPerPage bs \<and> fp_nodes page ! n \<ge> minvalue"
    using climb_sound [OF root, of bs] sizes assms(3) by (intro descend_sound) auto
  then show ?thesis by (auto simp: fits_def LeafNodesPerPage_def fsm_get_avail_def)
qed

text \<open>A slot that asks for nothing is found at once.\<close>

lemma descend_fails:
  assumes "descend bs minvalue (fp_nodes page)
    (climb minvalue (fp_nodes page) (search_target bs page + NonLeafNodesPerPage bs)) = None"
  shows "0 < minvalue"
proof (rule ccontr)
  let ?n = "climb minvalue (fp_nodes page) (search_target bs page + NonLeafNodesPerPage bs)"
  assume "\<not> 0 < minvalue"
  then have "?n = search_target bs page + NonLeafNodesPerPage bs"
    by (subst climb.simps) (simp add: word_gt_0)
  then have "descend bs minvalue (fp_nodes page) ?n \<noteq> None"
    by (subst descend.simps) simp
  with assms show False by simp
qed

text \<open>
  The nodes of the page are as they were or as one rebuild leaves them. \<open>-1\<close> comes from a
  root that promises too little, right or wrong, or from a page where no slot fits.
\<close>

definition search_result ::
  "nat \<Rightarrow> FSMPage \<Rightarrow> uint8 \<Rightarrow> bool \<Rightarrow> int \<times> FSMPage \<times> bool \<Rightarrow> bool" where
  "search_result bs page minvalue adv r = (case r of (slot, page', rebuilt) \<Rightarrow>
     page_ok bs page' \<and>
     fp_nodes page' = fp_nodes (if rebuilt then snd (fsm_rebuild_page bs page) else page) \<and>
     (slot = - 1 \<longleftrightarrow> fsm_get_max_avail page < minvalue \<or> (\<forall>j. \<not> fits bs page minvalue j)) \<and>
     (if slot = - 1 then fp_next_slot page' = fp_next_slot page
      else 0 \<le> slot \<and> fits bs page minvalue (nat slot) \<and> fp_next_slot page' = slot + of_bool adv))"

lemma no_fit_below_root:
  assumes "consistent bs (fp_nodes page)" and "fp_nodes page ! 0 < minvalue"
  shows "\<not> fits bs page minvalue j"
proof
  assume "fits bs page minvalue j"
  then have "NonLeafNodesPerPage bs + j < NodesPerPage bs"
    and le: "minvalue \<le> fp_nodes page ! (NonLeafNodesPerPage bs + j)"
    by (auto simp: fits_def fsm_get_avail_def LeafNodesPerPage_def)
  from node_le_root [OF assms(1) this(1)] le assms(2) show False by simp
qed

lemma search_found_result:
  assumes "fsm_blcksz bs D" and "page_ok bs page" and "\<not> fp_nodes page ! 0 < minvalue"
    and "descend bs minvalue (fp_nodes page)
      (climb minvalue (fp_nodes page) (search_target bs page + NonLeafNodesPerPage bs)) = Some n"
  shows "\<exists>slot page'. search_restart bs minvalue adv page rb = Some (int slot, page', rb) \<and>
    page_ok bs page' \<and> fp_nodes page' = fp_nodes page \<and> fits bs page minvalue slot \<and>
    fp_next_slot page' = int slot + of_bool adv"
  using search_found [OF assms(1) _ assms(4)] assms
  by (simp add: search_restart.simps [of bs minvalue adv page] Let_def page_ok_def)

lemma fsm_search_avail_total:
  assumes "fsm_blcksz bs D" and "page_ok bs page"
  shows "\<exists>r. fsm_search_avail bs page minvalue adv = Some r \<and> search_result bs page minvalue adv r"
proof (cases "fp_nodes page ! 0 < minvalue")
  case True
  then show ?thesis
    using assms(2)
    by (simp add: fsm_search_avail_def search_restart.simps [of bs minvalue adv page] search_result_def
        fsm_get_max_avail_def)
next
  case root: False
  let ?descend = "\<lambda>page. descend bs minvalue (fp_nodes page)
      (climb minvalue (fp_nodes page) (search_target bs page + NonLeafNodesPerPage bs))"
  show ?thesis
  proof (cases "?descend page")
    case (Some n)
    from search_found_result [OF assms root Some, of adv False]
    obtain slot page' where "fsm_search_avail bs page minvalue adv = Some (int slot, page', False)"
      "page_ok bs page'" "fp_nodes page' = fp_nodes page" "fits bs page minvalue slot"
      "fp_next_slot page' = int slot + of_bool adv"
      unfolding fsm_search_avail_def by blast
    with root show ?thesis
      by (intro exI [of _ "(int slot, page', False)"])
        (auto simp: search_result_def fsm_get_max_avail_def)
  next
    case None
    have nl: "NonLeafNodesPerPage bs \<le> NodesPerPage bs" using blcksz_sizes(5) [OF assms(1)] by simp
    obtain c page1 where rb: "fsm_rebuild_page bs page = (c, page1)" by fastforce
    note spec = fsm_rebuild_page_spec [OF assms(2) nl rb]
    have fits: "fits bs page1 minvalue j \<longleftrightarrow> fits bs page minvalue j" for j
      using spec(5) by (simp add: fits_def fsm_get_avail_def)
    have again: "fsm_search_avail bs page minvalue adv = search_restart bs minvalue adv page1 True"
      using root None rb
      by (simp add: fsm_search_avail_def search_restart.simps [of bs minvalue adv page] Let_def)
    show ?thesis
    proof (cases "fp_nodes page1 ! 0 < minvalue")
      case True
      with no_fit_below_root [OF spec(2) True] fits spec(1,4) rb show ?thesis
        by (auto simp: again search_restart.simps [of bs minvalue adv page1] search_result_def)
    next
      case False
      then obtain j where "?descend page1 = Some (NonLeafNodesPerPage bs + j)"
        using search_pass_consistent [OF assms(1) spec(2) descend_fails [OF None]] unfolding not_less by blast
      from search_found_result [OF assms(1) spec(1) False this, of adv True]
      obtain slot page' where "fsm_search_avail bs page minvalue adv = Some (int slot, page', True)"
        "page_ok bs page'" "fp_nodes page' = fp_nodes page1" "fits bs page minvalue slot"
        "fp_next_slot page' = int slot + of_bool adv"
        unfolding again fits by blast
      with root rb show ?thesis
        by (intro exI [of _ "(int slot, page', True)"])
          (auto simp: search_result_def fsm_get_max_avail_def)
    qed
  qed
qed

lemma fsm_search_avail_first_fit:
  assumes "fsm_blcksz bs D" and "page_ok bs page" and "consistent bs (fp_nodes page)"
    and "0 < minvalue"
  shows "fsm_search_avail bs page minvalue adv =
      (if \<exists>j. fits bs page minvalue j
       then Some (int (THE j. first_fit_from bs page minvalue (search_target bs page) j),
         page\<lparr>fp_next_slot := int (THE j. first_fit_from bs page minvalue (search_target bs page) j)
           + of_bool adv\<rparr>, False)
       else Some (- 1, page, False))"
proof (cases "minvalue \<le> fp_nodes page ! 0")
  case True
  then obtain j where j: "descend bs minvalue (fp_nodes page)
      (climb minvalue (fp_nodes page) (search_target bs page + NonLeafNodesPerPage bs)) =
        Some (NonLeafNodesPerPage bs + j)"
    and first: "first_fit_from bs page minvalue (search_target bs page) j"
    using search_pass_consistent [OF assms(1,3,4)] by blast
  have "i = j" if "first_fit_from bs page minvalue (search_target bs page) i" for i
    using first that unfolding first_fit_from_def by (metis (full_types) linorder_less_linear not_less)
  with first have "(THE j. first_fit_from bs page minvalue (search_target bs page) j) = j"
    by (rule the_equality)
  moreover have "fits bs page minvalue j" using first by (simp add: first_fit_from_def)
  ultimately show ?thesis
    using True j by (auto simp: fsm_search_avail_def search_restart.simps [of bs minvalue adv page] Let_def)
next
  case False
  have "fsm_get_avail bs page j \<le> fp_nodes page ! 0" if "j < LeafNodesPerPage bs" for j
    using node_le_root [OF assms(3)] that by (simp add: fsm_get_avail_def LeafNodesPerPage_def)
  then have "\<not> fits bs page minvalue j" for j
    using False by (meson fits_def le_less_trans not_le)
  moreover have "fp_nodes page ! 0 < minvalue" using False by simp
  ultimately show ?thesis
    by (simp add: fsm_search_avail_def search_restart.simps [of bs minvalue adv page])
qed

subsection \<open>Truncation and categories\<close>

lemma fsm_truncate_avail_spec:
  assumes bs: "fsm_blcksz bs D" and ok: "page_ok bs page"
    and "fsm_truncate_avail bs page nslots = (changed, page')"
  shows "page_ok bs page'"
    "j < LeafNodesPerPage bs \<Longrightarrow>
      fsm_get_avail bs page' j = (if nslots \<le> j then 0 else fsm_get_avail bs page j)"
    "consistent bs (fp_nodes page) \<Longrightarrow> consistent bs (fp_nodes page')"
proof -
  let ?f = "NonLeafNodesPerPage bs + nslots"
  note sizes = blcksz_sizes [OF bs]
  define nodes where "nodes = loop_upd ?f (NodesPerPage bs) (\<lambda>i v. 0) (fp_nodes page)"
  define page1 where "page1 = page\<lparr>fp_nodes := nodes\<rparr>"
  have ok1: "page_ok bs page1" using ok by (simp add: page1_def nodes_def page_ok_def)
  have leaf1: "fsm_get_avail bs page1 j = (if nslots \<le> j then 0 else fsm_get_avail bs page j)"
    if "j < LeafNodesPerPage bs" for j
  proof -
    have "NonLeafNodesPerPage bs + j < NodesPerPage bs"
      using that sizes(5) by (simp add: LeafNodesPerPage_def)
    then show ?thesis
      using ok by (simp add: fsm_get_avail_def page1_def nodes_def nth_loop_upd page_ok_def)
  qed
  obtain c page2 where rb: "fsm_rebuild_page bs page1 = (c, page2)" by fastforce
  note rebuilt = fsm_rebuild_page_spec [OF ok1 less_imp_le [OF sizes(5)] rb]
  have unchanged: "page1 = page" if "\<not> changed"
  proof -
    have "\<forall>i. ?f \<le> i \<and> i < NodesPerPage bs \<longrightarrow> fp_nodes page ! i = 0"
      using assms(3) that by (auto simp: fsm_truncate_avail_def Let_def list_ex_iff)
    then have "nodes = fp_nodes page"
      using ok by (intro nth_equalityI) (auto simp: nodes_def nth_loop_upd page_ok_def)
    then show ?thesis by (simp add: page1_def)
  qed
  have page': "page' = (if changed then page2 else page1)"
    using assms(3) rb by (auto simp: fsm_truncate_avail_def Let_def page1_def nodes_def)
  show "page_ok bs page'" using page' ok1 rebuilt(1) by simp
  show "j < LeafNodesPerPage bs \<Longrightarrow>
      fsm_get_avail bs page' j = (if nslots \<le> j then 0 else fsm_get_avail bs page j)"
    using page' leaf1 rebuilt(5) by (simp add: fsm_get_avail_def)
  show "consistent bs (fp_nodes page')" if "consistent bs (fp_nodes page)"
    using page' rebuilt(2) unchanged that by auto
qed

lemma category_promise:
  assumes "256 dvd bs" and "0 < bs" and "fsm_space_needed_to_cat bs needed = Inr cat"
    and "cat \<le> fsm_space_avail_to_cat bs avail"
  shows "needed \<le> avail"
proof (cases "avail \<ge> MaxFSMRequestSize bs")
  case True
  then show ?thesis using assms(3) by (auto simp: fsm_space_needed_to_cat_def split: if_splits)
next
  case False
  define s where "s = FSM_CAT_STEP bs"
  have "0 < s" using assms(1,2) by (auto simp: s_def FSM_CAT_STEP_def)
  have le: "cat \<le> avail div s" "cat \<le> 254"
    using assms(4) False by (auto simp: fsm_space_avail_to_cat_def s_def Let_def split: if_splits)
  show ?thesis
  proof (cases "needed = 0")
    case False
    then have "cat = (needed + s - 1) div s"
      using assms(3) le(2) by (auto simp: fsm_space_needed_to_cat_def s_def Let_def split: if_splits)
    then have "(needed + s - 1) div s \<le> avail div s" using le(1) by simp
    moreover have "needed \<le> (needed + s - 1) div s * s"
      using dividend_less_times_div [OF \<open>0 < s\<close>, of "needed + s - 1"] \<open>0 < s\<close>
      by (simp add: mult.commute)
    ultimately have "needed \<le> avail div s * s" by (meson le_trans mult_le_mono1)
    then show ?thesis by (meson div_times_less_eq_dividend le_trans)
  qed simp
qed

lemma fsm_location_roundtrip:
  assumes "0 < LeafNodesPerPage bs"
  shows "(case fsm_get_location bs blk of (addr, slot) \<Rightarrow>
    fsm_get_heap_blk bs addr slot = blk \<and> slot < LeafNodesPerPage bs \<and> level addr = 0)"
  using assms by (simp add: fsm_get_location_def fsm_get_heap_blk_def)

end
