(* ===== verification/Xid.thy ===== *)
theory Xid
  imports Prelude
begin

section \<open>Transaction identifiers (include/access/transam.h, transam.c)\<close>

text \<open>
  A \<open>TransactionId\<close> is an unsigned 32-bit counter that wraps around; 0, 1 and 2 are
  permanent, the others are compared modulo \<open>2 ^ 32\<close> by the sign of their difference as an
  \<open>int32\<close>. The comparison is a linear order only on a stretch of fewer than \<open>2 ^ 31\<close>
  identifiers, which the lemmas state through the distance \<open>age base\<close> from its start.
\<close>

type_synonym TransactionId = uint32

definition InvalidTransactionId :: TransactionId where "InvalidTransactionId = 0"
definition BootstrapTransactionId :: TransactionId where "BootstrapTransactionId = 1"
definition FrozenTransactionId :: TransactionId where "FrozenTransactionId = 2"
definition FirstNormalTransactionId :: TransactionId where "FirstNormalTransactionId = 3"
definition MaxTransactionId :: TransactionId where "MaxTransactionId = 0xFFFFFFFF"

lemmas xid_constants [pg_defs] = InvalidTransactionId_def BootstrapTransactionId_def
  FrozenTransactionId_def FirstNormalTransactionId_def MaxTransactionId_def

definition TransactionIdIsValid :: "TransactionId \<Rightarrow> bool" where
  "TransactionIdIsValid xid \<longleftrightarrow> xid \<noteq> InvalidTransactionId"

definition TransactionIdIsNormal :: "TransactionId \<Rightarrow> bool" where
  "TransactionIdIsNormal xid \<longleftrightarrow> xid \<ge> FirstNormalTransactionId"

definition TransactionIdAdvance :: "TransactionId \<Rightarrow> TransactionId" where
  "TransactionIdAdvance dest =
     (let dest = dest + 1
      in if dest < FirstNormalTransactionId then FirstNormalTransactionId else dest)"

text \<open>\<open>do dest--; while (dest < FirstNormalTransactionId)\<close>\<close>

function TransactionIdRetreat :: "TransactionId \<Rightarrow> TransactionId" where
  "TransactionIdRetreat dest =
     (let dest = dest - 1
      in if dest < FirstNormalTransactionId then TransactionIdRetreat dest else dest)"
  by pat_completeness auto
termination
proof (relation "measure unat")
  fix dest x :: TransactionId
  assume "x = dest - 1" and "x < FirstNormalTransactionId"
  moreover have "dest \<noteq> 0"
  proof
    assume "dest = 0"
    with calculation have "(0 :: TransactionId) - 1 < 3" by (simp add: pg_defs)
    then show False by simp
  qed
  ultimately show "(x, dest) \<in> measure unat"
    by (simp add: measure_unat)
qed simp

declare TransactionIdRetreat.simps [simp del]

text \<open>The cast to \<open>int32\<close> of the modular difference is \<open>sint\<close>.\<close>

definition NormalTransactionIdPrecedes :: "TransactionId \<Rightarrow> TransactionId \<Rightarrow> bool" where
  "NormalTransactionIdPrecedes id1 id2 \<longleftrightarrow> sint (id1 - id2) < 0"

definition NormalTransactionIdFollows :: "TransactionId \<Rightarrow> TransactionId \<Rightarrow> bool" where
  "NormalTransactionIdFollows id1 id2 \<longleftrightarrow> sint (id1 - id2) > 0"

definition TransactionIdPrecedes :: "TransactionId \<Rightarrow> TransactionId \<Rightarrow> bool" where
  "TransactionIdPrecedes id1 id2 =
     (if \<not> TransactionIdIsNormal id1 \<or> \<not> TransactionIdIsNormal id2 then id1 < id2
      else (let diff = sint (id1 - id2) in diff < 0))"

definition TransactionIdPrecedesOrEquals :: "TransactionId \<Rightarrow> TransactionId \<Rightarrow> bool" where
  "TransactionIdPrecedesOrEquals id1 id2 =
     (if \<not> TransactionIdIsNormal id1 \<or> \<not> TransactionIdIsNormal id2 then id1 \<le> id2
      else (let diff = sint (id1 - id2) in diff \<le> 0))"

definition TransactionIdFollows :: "TransactionId \<Rightarrow> TransactionId \<Rightarrow> bool" where
  "TransactionIdFollows id1 id2 =
     (if \<not> TransactionIdIsNormal id1 \<or> \<not> TransactionIdIsNormal id2 then id1 > id2
      else (let diff = sint (id1 - id2) in diff > 0))"

definition TransactionIdFollowsOrEquals :: "TransactionId \<Rightarrow> TransactionId \<Rightarrow> bool" where
  "TransactionIdFollowsOrEquals id1 id2 =
     (if \<not> TransactionIdIsNormal id1 \<or> \<not> TransactionIdIsNormal id2 then id1 \<ge> id2
      else (let diff = sint (id1 - id2) in diff \<ge> 0))"

lemmas xid_compare = TransactionIdPrecedes_def TransactionIdPrecedesOrEquals_def
  TransactionIdFollows_def TransactionIdFollowsOrEquals_def

text \<open>The scan of the children runs from the back of the array.\<close>

definition TransactionIdLatest :: "TransactionId \<Rightarrow> TransactionId list \<Rightarrow> TransactionId" where
  "TransactionIdLatest mainxid xids =
     fold (\<lambda>x result. if TransactionIdPrecedes result x then x else result) (rev xids) mainxid"

subsection \<open>The order on a stretch of identifiers\<close>

definition age :: "TransactionId \<Rightarrow> TransactionId \<Rightarrow> nat" where
  "age base x = unat (x - base)"

lemma age_inj [simp]: "age base x = age base y \<longleftrightarrow> x = y"
  by (simp add: age_def word_unat_eq_iff [symmetric])

lemma sint_diff_age:
  assumes "age base a < 2 ^ 31" and "age base b < 2 ^ 31"
  shows "sint (a - b) = int (age base a) - int (age base b)"
proof -
  define d where "d = int (age base a) - int (age base b)"
  have "a - b = word_of_int d"
    by (simp add: age_def d_def)
  then have "sint (a - b) = signed_take_bit 31 d"
    by (simp add: sint_sbintrunc')
  moreover have "- (2 ^ 31) \<le> d" "d < 2 ^ 31"
    using assms by (simp_all add: d_def)
  ultimately show ?thesis
    by (simp add: signed_take_bit_int_eq_self d_def)
qed

lemma Precedes_age:
  assumes "TransactionIdIsNormal a" and "TransactionIdIsNormal b"
    and "age base a < 2 ^ 31" and "age base b < 2 ^ 31"
  shows "TransactionIdPrecedes a b \<longleftrightarrow> age base a < age base b"
    "TransactionIdPrecedesOrEquals a b \<longleftrightarrow> age base a \<le> age base b"
    "TransactionIdFollows a b \<longleftrightarrow> age base b < age base a"
    "TransactionIdFollowsOrEquals a b \<longleftrightarrow> age base b \<le> age base a"
  using assms(1,2) by (simp_all add: xid_compare Let_def sint_diff_age [OF assms(3,4)])

text \<open>
  So on such a stretch the comparisons are a strict and a reflexive linear order, and the
  four functions are the four comparisons of that order.
\<close>

definition xid_window :: "TransactionId \<Rightarrow> TransactionId set \<Rightarrow> bool" where
  "xid_window base X \<longleftrightarrow> (\<forall>x \<in> X. TransactionIdIsNormal x \<and> age base x < 2 ^ 31)"

lemma xid_windowD:
  assumes "xid_window base X" and "x \<in> X"
  shows "TransactionIdIsNormal x" "age base x < 2 ^ 31"
  using assms by (auto simp: xid_window_def)

lemma Precedes_window:
  assumes "xid_window base X" and "a \<in> X" and "b \<in> X"
  shows "TransactionIdPrecedes a b \<longleftrightarrow> age base a < age base b"
    "TransactionIdPrecedesOrEquals a b \<longleftrightarrow> age base a \<le> age base b"
    "TransactionIdFollows a b \<longleftrightarrow> age base b < age base a"
    "TransactionIdFollowsOrEquals a b \<longleftrightarrow> age base b \<le> age base a"
  using assms by (auto simp: xid_window_def Precedes_age)

lemma fold_latest:
  assumes "xid_window base (insert m (set xs))"
  shows "fold (\<lambda>x r. if TransactionIdPrecedes r x then x else r) xs m \<in> insert m (set xs) \<and>
    (\<forall>x \<in> insert m (set xs).
       age base x \<le> age base (fold (\<lambda>x r. if TransactionIdPrecedes r x then x else r) xs m))"
  using assms
proof (induction xs arbitrary: m)
  case (Cons x xs)
  define m' where "m' = (if TransactionIdPrecedes m x then x else m)"
  have "TransactionIdPrecedes m x \<longleftrightarrow> age base m < age base x"
    using Precedes_window [OF Cons.prems, of m x] by simp
  then have "age base m \<le> age base m'" "age base x \<le> age base m'"
    by (auto simp: m'_def)
  moreover have "m' \<in> {m, x}" by (simp add: m'_def)
  moreover have "xid_window base (insert m' (set xs))"
    using Cons.prems \<open>m' \<in> {m, x}\<close> by (auto simp: xid_window_def)
  ultimately show ?case
    using Cons.IH [of m'] unfolding m'_def [symmetric]
    by (auto simp: m'_def [symmetric] intro: order_trans)
qed simp

lemma TransactionIdLatest_max:
  assumes "xid_window base (insert xid (set xids))"
  shows "TransactionIdLatest xid xids \<in> insert xid (set xids)"
    "x \<in> insert xid (set xids) \<Longrightarrow>
      TransactionIdPrecedesOrEquals x (TransactionIdLatest xid xids)"
proof -
  note latest = fold_latest [of base xid "rev xids"]
  show mem: "TransactionIdLatest xid xids \<in> insert xid (set xids)"
    using latest assms by (simp add: TransactionIdLatest_def)
  assume x: "x \<in> insert xid (set xids)"
  then have "age base x \<le> age base (TransactionIdLatest xid xids)"
    using latest assms by (auto simp: TransactionIdLatest_def)
  then show "TransactionIdPrecedesOrEquals x (TransactionIdLatest xid xids)"
    using Precedes_window(2) [OF assms x mem] by simp
qed

subsection \<open>Stepping forward and back\<close>

lemma Advance_normal: "TransactionIdIsNormal (TransactionIdAdvance xid)"
  by (simp add: TransactionIdAdvance_def TransactionIdIsNormal_def Let_def not_less)

lemma Advance_cases:
  assumes "TransactionIdIsNormal xid"
  shows "TransactionIdAdvance xid = (if xid = - 1 then 3 else xid + 1)"
proof (cases "xid = - 1")
  case False
  then have "unat (xid + 1) = unat xid + 1"
    using unatSuc [of xid] by (metis Suc_eq_plus1 add.commute add_eq_0_iff)
  with False assms show ?thesis
    by (simp add: TransactionIdAdvance_def TransactionIdIsNormal_def pg_defs
        word_less_nat_alt word_le_nat_alt)
qed (simp add: TransactionIdAdvance_def pg_defs)

lemma Retreat_Advance:
  assumes "TransactionIdIsNormal xid"
  shows "TransactionIdRetreat (TransactionIdAdvance xid) = xid"
proof (cases "xid = - 1")
  case False
  then show ?thesis
    using assms
    by (subst TransactionIdRetreat.simps)
      (simp add: Advance_cases TransactionIdIsNormal_def not_less [symmetric])
next
  case True
  have "TransactionIdRetreat 3 = - 1"
    by (simp add: TransactionIdRetreat.simps [of 3] TransactionIdRetreat.simps [of 2]
        TransactionIdRetreat.simps [of 1] TransactionIdRetreat.simps [of 0] pg_defs)
  with True assms show ?thesis
    by (simp add: Advance_cases)
qed

lemma Advance_Follows:
  assumes "TransactionIdIsNormal xid"
  shows "TransactionIdPrecedes xid (TransactionIdAdvance xid)"
  using assms Advance_normal [of xid]
  by (simp add: TransactionIdPrecedes_def Advance_cases)

lemma Advance_younger:
  assumes "TransactionIdIsNormal x" and "age base x < 2 ^ 31"
  shows "age base x < age base (TransactionIdAdvance x)"
proof -
  have e: "unat ((x - base) + 4) = unat (x - base) + 4" "unat ((x - base) + 1) = unat (x - base) + 1"
    using assms(2) by (simp_all add: unat_plus_if' age_def)
  have "TransactionIdAdvance x - base = (x - base) + 4 \<or> TransactionIdAdvance x - base = (x - base) + 1"
    using assms(1) by (auto simp: Advance_cases)
  then have "age base (TransactionIdAdvance x) = age base x + 4 \<or> age base (TransactionIdAdvance x) = age base x + 1"
    unfolding age_def using e by metis
  then show ?thesis by linarith
qed

subsection \<open>Walking back to older transactions\<close>

lemma sint_negative: "sint (w :: uint32) < 0 \<longleftrightarrow> 2 ^ 31 \<le> unat w"
proof -
  define k where "k = uint w"
  have "sint w = (k + 2 ^ 31) mod 2 ^ 32 - 2 ^ 31"
    using int_word_sint [where 'a = 32, of k] by (simp add: k_def)
  moreover have "0 \<le> k" "k < 2 ^ 32"
    using unsigned_less [of w, where 'a = int] by (simp_all add: k_def)
  moreover have "2 ^ 31 \<le> unat w \<longleftrightarrow> 2 ^ 31 \<le> k"
  proof -
    have "k = int (unat w)" by (simp add: k_def)
    moreover have "(2 :: int) ^ 31 = int (2 ^ 31)" by simp
    ultimately show ?thesis by (simp only: zle_int)
  qed
  moreover have "(k + 2 ^ 31) mod 2 ^ 32 = (if k < 2 ^ 31 then k + 2 ^ 31 else k - 2 ^ 31)"
    using calculation(2,3) by (simp add: mod_pos_pos_trivial mod_pos_geq)
  ultimately show ?thesis by auto
qed

lemma not_Precedes_iff_age:
  assumes "TransactionIdIsNormal x" and "TransactionIdIsNormal xmin"
  shows "\<not> TransactionIdPrecedes x xmin \<longleftrightarrow> age xmin x < 2 ^ 31"
  using assms sint_negative [of "x - xmin"] by (auto simp: TransactionIdPrecedes_def age_def)

text \<open>How far a walk from \<open>x\<close> to ever older transactions can still go before \<open>xmin\<close>.\<close>

definition walk_measure :: "TransactionId \<Rightarrow> TransactionId \<Rightarrow> nat" where
  "walk_measure xmin x =
     (if TransactionIdIsNormal x \<and> \<not> TransactionIdPrecedes x xmin then age xmin x + 1 else 0)"

lemma walk_measure_decreases:
  assumes "TransactionIdIsNormal xmin" and "TransactionIdIsNormal x"
    and "\<not> TransactionIdPrecedes x xmin" and "TransactionIdPrecedes p x"
  shows "walk_measure xmin p < walk_measure xmin x"
proof (cases "TransactionIdIsNormal p \<and> \<not> TransactionIdPrecedes p xmin")
  case True
  then have "age xmin p < age xmin x"
    using assms Precedes_age(1) [of p x xmin] not_Precedes_iff_age [of x xmin]
      not_Precedes_iff_age [of p xmin] by simp
  with True assms show ?thesis by (simp add: walk_measure_def)
qed (use assms in \<open>auto simp: walk_measure_def\<close>)

end
