(* ===== verification/Htup.thy ===== *)
theory Htup
  imports Xid
begin

section \<open>Heap tuple headers (include/access/htup_details.h) and combo command ids\<close>

text \<open>
  The visibility fields of a tuple header with its 16 flag bits, the accessor macros, and
  combocid.c: when one transaction inserts and deletes the same tuple, one 32-bit field has
  to stand for two command ids, through a table that the backend keeps.
\<close>

type_synonym CommandId = uint32

record HeapTupleHeader =
  t_xmin :: TransactionId
  t_xmax :: TransactionId
  t_field3 :: uint32
  t_infomask :: uint16

definition HEAP_XMAX_KEYSHR_LOCK :: uint16 where "HEAP_XMAX_KEYSHR_LOCK = 0x0010"
definition HEAP_COMBOCID :: uint16 where "HEAP_COMBOCID = 0x0020"
definition HEAP_XMAX_EXCL_LOCK :: uint16 where "HEAP_XMAX_EXCL_LOCK = 0x0040"
definition HEAP_XMAX_LOCK_ONLY :: uint16 where "HEAP_XMAX_LOCK_ONLY = 0x0080"
definition HEAP_XMAX_SHR_LOCK :: uint16 where
  "HEAP_XMAX_SHR_LOCK = HEAP_XMAX_EXCL_LOCK OR HEAP_XMAX_KEYSHR_LOCK"
definition HEAP_LOCK_MASK :: uint16 where
  "HEAP_LOCK_MASK = HEAP_XMAX_SHR_LOCK OR HEAP_XMAX_EXCL_LOCK OR HEAP_XMAX_KEYSHR_LOCK"
definition HEAP_XMIN_COMMITTED :: uint16 where "HEAP_XMIN_COMMITTED = 0x0100"
definition HEAP_XMIN_INVALID :: uint16 where "HEAP_XMIN_INVALID = 0x0200"
definition HEAP_XMIN_FROZEN :: uint16 where
  "HEAP_XMIN_FROZEN = HEAP_XMIN_COMMITTED OR HEAP_XMIN_INVALID"
definition HEAP_XMAX_COMMITTED :: uint16 where "HEAP_XMAX_COMMITTED = 0x0400"
definition HEAP_XMAX_INVALID :: uint16 where "HEAP_XMAX_INVALID = 0x0800"
definition HEAP_XMAX_IS_MULTI :: uint16 where "HEAP_XMAX_IS_MULTI = 0x1000"
definition HEAP_MOVED_OFF :: uint16 where "HEAP_MOVED_OFF = 0x4000"
definition HEAP_MOVED_IN :: uint16 where "HEAP_MOVED_IN = 0x8000"
definition HEAP_MOVED :: uint16 where "HEAP_MOVED = HEAP_MOVED_OFF OR HEAP_MOVED_IN"

lemmas heap_flags = HEAP_XMAX_KEYSHR_LOCK_def HEAP_COMBOCID_def HEAP_XMAX_EXCL_LOCK_def
  HEAP_XMAX_LOCK_ONLY_def HEAP_XMAX_SHR_LOCK_def HEAP_LOCK_MASK_def HEAP_XMIN_COMMITTED_def
  HEAP_XMIN_INVALID_def HEAP_XMIN_FROZEN_def HEAP_XMAX_COMMITTED_def HEAP_XMAX_INVALID_def
  HEAP_XMAX_IS_MULTI_def HEAP_MOVED_OFF_def HEAP_MOVED_IN_def HEAP_MOVED_def

text \<open>The test \<open>tuple->t_infomask & flag\<close>.\<close>

definition has :: "HeapTupleHeader \<Rightarrow> uint16 \<Rightarrow> bool" where
  "has t flag \<longleftrightarrow> t_infomask t AND flag \<noteq> 0"

definition HEAP_XMAX_IS_LOCKED_ONLY :: "uint16 \<Rightarrow> bool" where
  "HEAP_XMAX_IS_LOCKED_ONLY infomask \<longleftrightarrow>
     infomask AND HEAP_XMAX_LOCK_ONLY \<noteq> 0 \<or>
     infomask AND (HEAP_XMAX_IS_MULTI OR HEAP_LOCK_MASK) = HEAP_XMAX_EXCL_LOCK"

definition HeapTupleHeaderXminCommitted :: "HeapTupleHeader \<Rightarrow> bool" where
  "HeapTupleHeaderXminCommitted t \<longleftrightarrow> has t HEAP_XMIN_COMMITTED"

definition HeapTupleHeaderXminInvalid :: "HeapTupleHeader \<Rightarrow> bool" where
  "HeapTupleHeaderXminInvalid t \<longleftrightarrow>
     t_infomask t AND (HEAP_XMIN_COMMITTED OR HEAP_XMIN_INVALID) = HEAP_XMIN_INVALID"

definition HeapTupleHeaderXminFrozen :: "HeapTupleHeader \<Rightarrow> bool" where
  "HeapTupleHeaderXminFrozen t \<longleftrightarrow> t_infomask t AND HEAP_XMIN_FROZEN = HEAP_XMIN_FROZEN"

definition HeapTupleHeaderGetXvac :: "HeapTupleHeader \<Rightarrow> TransactionId" where
  "HeapTupleHeaderGetXvac t = (if has t HEAP_MOVED then t_field3 t else InvalidTransactionId)"

subsection \<open>Combo command ids (utils/time/combocid.c)\<close>

text \<open>
  The table grows by one entry for each new pair; the hash table that finds the number of a
  pair again is the map \<open>comboHash\<close>.
\<close>

record combo_state =
  comboCids :: "(CommandId \<times> CommandId) list"
  comboHash :: "CommandId \<times> CommandId \<Rightarrow> CommandId option"

definition no_combo :: combo_state where
  "no_combo = \<lparr>comboCids = [], comboHash = (\<lambda>_. None)\<rparr>"

definition GetComboCommandId ::
  "CommandId \<Rightarrow> CommandId \<Rightarrow> combo_state \<Rightarrow> CommandId \<times> combo_state" where
  "GetComboCommandId cmin cmax s =
     (case comboHash s (cmin, cmax) of
        Some combocid \<Rightarrow> (combocid, s)
      | None \<Rightarrow>
          (let combocid = word_of_nat (length (comboCids s))
           in (combocid, \<lparr>comboCids = comboCids s @ [(cmin, cmax)],
                          comboHash = (comboHash s)((cmin, cmax) := Some combocid)\<rparr>)))"

definition GetRealCmin :: "combo_state \<Rightarrow> CommandId \<Rightarrow> CommandId" where
  "GetRealCmin s combocid = fst (comboCids s ! unat combocid)"

definition GetRealCmax :: "combo_state \<Rightarrow> CommandId \<Rightarrow> CommandId" where
  "GetRealCmax s combocid = snd (comboCids s ! unat combocid)"

definition HeapTupleHeaderGetCmin :: "combo_state \<Rightarrow> HeapTupleHeader \<Rightarrow> CommandId" where
  "HeapTupleHeaderGetCmin s t =
     (if has t HEAP_COMBOCID then GetRealCmin s (t_field3 t) else t_field3 t)"

definition HeapTupleHeaderGetCmax :: "combo_state \<Rightarrow> HeapTupleHeader \<Rightarrow> CommandId" where
  "HeapTupleHeaderGetCmax s t =
     (if has t HEAP_COMBOCID then GetRealCmax s (t_field3 t) else t_field3 t)"

definition HeapTupleHeaderSetCmin :: "CommandId \<Rightarrow> HeapTupleHeader \<Rightarrow> HeapTupleHeader" where
  "HeapTupleHeaderSetCmin cid t =
     t\<lparr>t_field3 := cid, t_infomask := t_infomask t AND NOT HEAP_COMBOCID\<rparr>"

definition HeapTupleHeaderSetCmax :: "CommandId \<Rightarrow> bool \<Rightarrow> HeapTupleHeader \<Rightarrow> HeapTupleHeader" where
  "HeapTupleHeaderSetCmax cid iscombo t =
     (let t = t\<lparr>t_field3 := cid\<rparr>
      in if iscombo then t\<lparr>t_infomask := t_infomask t OR HEAP_COMBOCID\<rparr>
         else t\<lparr>t_infomask := t_infomask t AND NOT HEAP_COMBOCID\<rparr>)"

text \<open>\<open>is_current\<close> is \<open>TransactionIdIsCurrentTransactionId\<close>.\<close>

definition HeapTupleHeaderAdjustCmax ::
  "(TransactionId \<Rightarrow> bool) \<Rightarrow> HeapTupleHeader \<Rightarrow> CommandId \<Rightarrow> combo_state \<Rightarrow>
   CommandId \<times> bool \<times> combo_state" where
  "HeapTupleHeaderAdjustCmax is_current t cmax s =
     (if \<not> HeapTupleHeaderXminCommitted t \<and> is_current (t_xmin t)
      then (let cmin = HeapTupleHeaderGetCmin s t;
                (cid, s) = GetComboCommandId cmin cmax s
            in (cid, True, s))
      else (cmax, False, s))"

subsection \<open>Flags under an added hint bit\<close>

definition add_flag :: "uint16 \<Rightarrow> HeapTupleHeader \<Rightarrow> HeapTupleHeader" where
  "add_flag b t = t\<lparr>t_infomask := t_infomask t OR b\<rparr>"

lemma add_flag_fields [simp]:
  "t_xmin (add_flag b t) = t_xmin t" "t_xmax (add_flag b t) = t_xmax t"
  "t_field3 (add_flag b t) = t_field3 t" "t_infomask (add_flag b t) = t_infomask t OR b"
  by (simp_all add: add_flag_def)

lemma has_add_flag: "has (add_flag b t) f \<longleftrightarrow> has t f \<or> b AND f \<noteq> 0"
  by (auto simp: has_def word_neq_0_iff bit_and_iff bit_or_iff)

text \<open>How the four hint bits meet the flags the visibility rules look at.\<close>

lemma flag_table [simp]:
  "HEAP_XMIN_COMMITTED AND HEAP_XMIN_COMMITTED \<noteq> 0" "HEAP_XMIN_COMMITTED AND HEAP_XMIN_INVALID = 0"
  "HEAP_XMIN_COMMITTED AND HEAP_XMAX_COMMITTED = 0" "HEAP_XMIN_COMMITTED AND HEAP_XMAX_INVALID = 0"
  "HEAP_XMIN_COMMITTED AND HEAP_XMAX_IS_MULTI = 0" "HEAP_XMIN_COMMITTED AND HEAP_MOVED_OFF = 0"
  "HEAP_XMIN_COMMITTED AND HEAP_MOVED_IN = 0" "HEAP_XMIN_COMMITTED AND HEAP_MOVED = 0"
  "HEAP_XMIN_COMMITTED AND HEAP_COMBOCID = 0"
  "HEAP_XMIN_INVALID AND HEAP_XMIN_COMMITTED = 0" "HEAP_XMIN_INVALID AND HEAP_XMIN_INVALID \<noteq> 0"
  "HEAP_XMIN_INVALID AND HEAP_XMAX_COMMITTED = 0" "HEAP_XMIN_INVALID AND HEAP_XMAX_INVALID = 0"
  "HEAP_XMIN_INVALID AND HEAP_XMAX_IS_MULTI = 0" "HEAP_XMIN_INVALID AND HEAP_MOVED_OFF = 0"
  "HEAP_XMIN_INVALID AND HEAP_MOVED_IN = 0" "HEAP_XMIN_INVALID AND HEAP_MOVED = 0"
  "HEAP_XMIN_INVALID AND HEAP_COMBOCID = 0"
  "HEAP_XMAX_COMMITTED AND HEAP_XMIN_COMMITTED = 0" "HEAP_XMAX_COMMITTED AND HEAP_XMIN_INVALID = 0"
  "HEAP_XMAX_COMMITTED AND HEAP_XMAX_COMMITTED \<noteq> 0" "HEAP_XMAX_COMMITTED AND HEAP_XMAX_INVALID = 0"
  "HEAP_XMAX_COMMITTED AND HEAP_XMAX_IS_MULTI = 0" "HEAP_XMAX_COMMITTED AND HEAP_MOVED_OFF = 0"
  "HEAP_XMAX_COMMITTED AND HEAP_MOVED_IN = 0" "HEAP_XMAX_COMMITTED AND HEAP_MOVED = 0"
  "HEAP_XMAX_COMMITTED AND HEAP_COMBOCID = 0"
  "HEAP_XMAX_INVALID AND HEAP_XMIN_COMMITTED = 0" "HEAP_XMAX_INVALID AND HEAP_XMIN_INVALID = 0"
  "HEAP_XMAX_INVALID AND HEAP_XMAX_COMMITTED = 0" "HEAP_XMAX_INVALID AND HEAP_XMAX_INVALID \<noteq> 0"
  "HEAP_XMAX_INVALID AND HEAP_XMAX_IS_MULTI = 0" "HEAP_XMAX_INVALID AND HEAP_MOVED_OFF = 0"
  "HEAP_XMAX_INVALID AND HEAP_MOVED_IN = 0" "HEAP_XMAX_INVALID AND HEAP_MOVED = 0"
  "HEAP_XMAX_INVALID AND HEAP_COMBOCID = 0"
  by (simp_all add: heap_flags)

text \<open>A flag is one bit of the mask.\<close>

lemma and_two_flags:
  assumes "i \<noteq> j" and "i < 16" and "j < 16"
  shows "w AND (2 ^ i OR 2 ^ j) = 2 ^ j \<longleftrightarrow> bit w j \<and> \<not> bit (w :: uint16) i"
proof
  assume eq: "w AND (2 ^ i OR 2 ^ j) = 2 ^ j"
  have "bit (w AND (2 ^ i OR 2 ^ j)) n \<longleftrightarrow> bit w n \<and> (n = i \<or> n = j)" for n
    using assms by (auto simp: bit_and_iff bit_or_iff)
  then have "bit w n \<and> (n = i \<or> n = j) \<longleftrightarrow> n = j" for n
    using assms by (simp add: eq)
  from this [of i] this [of j] assms(1) show "bit w j \<and> \<not> bit w i" by auto
next
  assume "bit w j \<and> \<not> bit w i"
  then show "w AND (2 ^ i OR 2 ^ j) = 2 ^ j"
    using assms by (intro bit_word_eqI) (auto simp: bit_and_iff bit_or_iff)
qed

lemma and_both_flags:
  assumes "i < 16" and "j < 16"
  shows "w AND (2 ^ i OR 2 ^ j) = 2 ^ i OR 2 ^ j \<longleftrightarrow> bit w i \<and> bit (w :: uint16) j"
proof
  assume eq: "w AND (2 ^ i OR 2 ^ j) = 2 ^ i OR 2 ^ j"
  have "bit (w AND (2 ^ i OR 2 ^ j)) n \<longleftrightarrow> bit w n \<and> (n = i \<or> n = j)" for n
    using assms by (auto simp: bit_and_iff bit_or_iff)
  then have "bit w n \<and> (n = i \<or> n = j) \<longleftrightarrow> n = i \<or> n = j" for n
    using assms by (auto simp: eq bit_or_iff)
  from this [of i] this [of j] show "bit w i \<and> bit w j" by auto
next
  assume "bit w i \<and> bit w j"
  then show "w AND (2 ^ i OR 2 ^ j) = 2 ^ i OR 2 ^ j"
    using assms by (intro bit_word_eqI) (auto simp: bit_and_iff bit_or_iff)
qed

lemma and_flag: "w AND 2 ^ k \<noteq> 0 \<longleftrightarrow> bit (w :: uint16) k"
  by (auto simp: word_neq_0_iff bit_and_iff dest: bit_imp_le_length)

lemma flag_bits:
  "HEAP_XMIN_COMMITTED = 2 ^ 8" "HEAP_XMIN_INVALID = 2 ^ 9" "HEAP_XMAX_COMMITTED = 2 ^ 10"
  "HEAP_XMAX_INVALID = 2 ^ 11"
  by (simp_all add: heap_flags)

lemma XminInvalid_iff:
  "HeapTupleHeaderXminInvalid t \<longleftrightarrow> has t HEAP_XMIN_INVALID \<and> \<not> has t HEAP_XMIN_COMMITTED"
  unfolding HeapTupleHeaderXminInvalid_def has_def flag_bits and_flag
  by (rule and_two_flags) simp_all

lemma XminFrozen_iff:
  "HeapTupleHeaderXminFrozen t \<longleftrightarrow> has t HEAP_XMIN_COMMITTED \<and> has t HEAP_XMIN_INVALID"
  unfolding HeapTupleHeaderXminFrozen_def HEAP_XMIN_FROZEN_def has_def flag_bits and_flag
  by (rule and_both_flags) simp_all

lemma LOCKED_ONLY_add_flag [simp]:
  assumes "b \<in> {HEAP_XMIN_COMMITTED, HEAP_XMIN_INVALID, HEAP_XMAX_COMMITTED, HEAP_XMAX_INVALID}"
  shows "HEAP_XMAX_IS_LOCKED_ONLY (m OR b) = HEAP_XMAX_IS_LOCKED_ONLY m"
proof -
  have "b AND HEAP_XMAX_LOCK_ONLY = 0" "b AND (HEAP_XMAX_IS_MULTI OR HEAP_LOCK_MASK) = 0"
    using assms by (auto simp: heap_flags)
  moreover have "b AND f = 0 \<Longrightarrow> (m OR b) AND f = m AND f" for f
    by (simp only: bit.conj_disj_distrib2 or.right_neutral)
  ultimately have "(m OR b) AND HEAP_XMAX_LOCK_ONLY = m AND HEAP_XMAX_LOCK_ONLY"
    "(m OR b) AND (HEAP_XMAX_IS_MULTI OR HEAP_LOCK_MASK) = m AND (HEAP_XMAX_IS_MULTI OR HEAP_LOCK_MASK)"
    by blast+
  then show ?thesis by (simp add: HEAP_XMAX_IS_LOCKED_ONLY_def)
qed

subsection \<open>Combo command ids give both command ids back\<close>

definition combo_ok :: "combo_state \<Rightarrow> bool" where
  "combo_ok s \<longleftrightarrow> length (comboCids s) < 2 ^ 32 \<and>
     (\<forall>p c. comboHash s p = Some c \<longrightarrow> unat c < length (comboCids s) \<and> comboCids s ! unat c = p)"

lemma no_combo_ok: "combo_ok no_combo"
  by (simp add: combo_ok_def no_combo_def)

lemma GetComboCommandId_ok:
  assumes "combo_ok s" and "length (comboCids s) + 1 < 2 ^ 32"
    and "GetComboCommandId cmin cmax s = (c, s')"
  shows "combo_ok s'" "GetRealCmin s' c = cmin" "GetRealCmax s' c = cmax"
    "unat d < length (comboCids s) \<Longrightarrow> GetRealCmin s' d = GetRealCmin s d \<and> GetRealCmax s' d = GetRealCmax s d"
    "length (comboCids s') \<le> length (comboCids s) + 1"
    "GetComboCommandId cmin cmax s' = (c, s')"
proof -
  have n: "unat (word_of_nat (length (comboCids s)) :: uint32) = length (comboCids s)"
    using assms(2) by (simp add: unat_of_nat)
  show "combo_ok s'" "GetRealCmin s' c = cmin" "GetRealCmax s' c = cmax"
    "unat d < length (comboCids s) \<Longrightarrow> GetRealCmin s' d = GetRealCmin s d \<and> GetRealCmax s' d = GetRealCmax s d"
    "length (comboCids s') \<le> length (comboCids s) + 1" "GetComboCommandId cmin cmax s' = (c, s')"
    using assms n
    by (auto simp: GetComboCommandId_def combo_ok_def GetRealCmin_def GetRealCmax_def Let_def nth_append
        split: option.splits if_splits) (blast intro: less_SucI)+
qed

end
