(* ===== verification/XidLog.thy ===== *)
theory XidLog
  imports Xid
begin

section \<open>Logs with one entry for each transaction\<close>

text \<open>
  What pg_clog (a status for each transaction) and pg_subtrans (a parent for each transaction)
  have in common for their callers: storing an entry changes that entry and no other one. A
  log may refuse to downgrade an entry; \<open>settle log new old\<close> is the value that a store of
  \<open>new\<close> over \<open>old\<close> leaves.
\<close>

definition apply_writes ::
  "('v \<Rightarrow> 'v \<Rightarrow> 'v) \<Rightarrow> (TransactionId \<times> 'v) list \<Rightarrow> (TransactionId \<Rightarrow> 'v) \<Rightarrow> TransactionId \<Rightarrow> 'v" where
  "apply_writes st ws f = fold (\<lambda>(x, v) f. f(x := st v (f x))) ws f"

lemma apply_writes_Nil [simp]: "apply_writes st [] f = f"
  by (simp add: apply_writes_def)

lemma apply_writes_Cons [simp]:
  "apply_writes st ((x, v) # ws) f = apply_writes st ws (f(x := st v (f x)))"
  by (simp add: apply_writes_def)

lemma apply_writes_append:
  "apply_writes st (ws @ vs) f = apply_writes st vs (apply_writes st ws f)"
  by (simp add: apply_writes_def)

lemma apply_writes_other: "x \<notin> fst ` set ws \<Longrightarrow> apply_writes st ws f x = f x"
  by (induction ws arbitrary: f) auto

text \<open>A predicate that every write to \<open>x\<close> keeps holds of the entry of \<open>x\<close> after all of them.\<close>

lemma apply_writes_keep:
  assumes "P (f x)" and "\<And>v old. (x, v) \<in> set ws \<Longrightarrow> P old \<Longrightarrow> P (st v old)"
  shows "P (apply_writes st ws f x)"
  using assms
proof (induction ws arbitrary: f)
  case (Cons w ws)
  obtain y v where w: "w = (y, v)" by (cases w)
  have "P ((f(y := st v (f y))) x)"
    using Cons.prems w by auto
  moreover have "\<And>v old. (x, v) \<in> set ws \<Longrightarrow> P old \<Longrightarrow> P (st v old)"
    using Cons.prems(2) by simp
  ultimately show ?case
    using Cons.IH [of "f(y := st v (f y))"] unfolding w apply_writes_Cons by blast
qed simp

text \<open>Writing the same value over a list of entries.\<close>

lemma apply_writes_map:
  assumes "\<And>old. st v (st v old) = st v old"
  shows "apply_writes st (map (\<lambda>x. (x, v)) xs) f y = (if y \<in> set xs then st v (f y) else f y)"
  using assms by (induction xs arbitrary: f) auto

locale xid_log =
  fixes wf :: "'s \<Rightarrow> bool"
    and covers :: "'s \<Rightarrow> TransactionId \<Rightarrow> bool"
    and valid :: "'v \<Rightarrow> bool"
    and lookup :: "'s \<Rightarrow> TransactionId \<Rightarrow> 'v"
    and settle :: "'s \<Rightarrow> 'v \<Rightarrow> 'v \<Rightarrow> 'v"
    and store :: "TransactionId \<times> 'v \<Rightarrow> 's \<Rightarrow> 's result"
  assumes store_ok: "wf s \<Longrightarrow> covers s x \<Longrightarrow> valid v \<Longrightarrow>
      \<exists>s'. store (x, v) s = Inr s' \<and> wf s' \<and> (\<forall>y. covers s y \<longrightarrow> covers s' y) \<and>
        settle s' = settle s \<and> lookup s' = (lookup s)(x := settle s v (lookup s x))"
begin

lemma writes_ok:
  assumes "wf s" and "\<And>x v. (x, v) \<in> set ws \<Longrightarrow> covers s x \<and> valid v"
  shows "\<exists>s'. foldM store ws s = Inr s' \<and> wf s' \<and> (\<forall>y. covers s y \<longrightarrow> covers s' y) \<and>
    settle s' = settle s \<and> lookup s' = apply_writes (settle s) ws (lookup s)"
  using assms
proof (induction ws arbitrary: s)
  case (Cons w ws)
  obtain x v where w: "w = (x, v)" by (cases w)
  obtain s1 where s1: "store (x, v) s = Inr s1" "wf s1" "\<forall>y. covers s y \<longrightarrow> covers s1 y"
    "settle s1 = settle s" "lookup s1 = (lookup s)(x := settle s v (lookup s x))"
    using store_ok [OF Cons.prems(1), of x v] Cons.prems(2) [of x v] w by auto
  have "\<exists>s'. foldM store ws s1 = Inr s' \<and> wf s' \<and> (\<forall>y. covers s1 y \<longrightarrow> covers s' y) \<and>
    settle s' = settle s1 \<and> lookup s' = apply_writes (settle s1) ws (lookup s1)"
    using s1(2,3) Cons.prems(2) by (intro Cons.IH) auto
  then show ?case using s1 w by auto
qed simp

lemma writes_settled:
  assumes "wf s" and "\<And>x. x \<in> set xs \<Longrightarrow> covers s x" and "valid v"
    and "\<And>old. settle s v old = v"
  shows "\<exists>s'. foldM store (map (\<lambda>x. (x, v)) xs) s = Inr s' \<and> wf s' \<and>
    (\<forall>y. lookup s' y = (if y \<in> set xs then v else lookup s y))"
proof -
  have "\<And>x w. (x, w) \<in> set (map (\<lambda>x. (x, v)) xs) \<Longrightarrow> covers s x \<and> valid w"
    using assms(2,3) by auto
  from writes_ok [where ws = "map (\<lambda>x. (x, v)) xs", OF assms(1) this] show ?thesis
    using assms(4) by (auto simp: apply_writes_map)
qed

end

end
