(* ===== verification/Clog.thy ===== *)
theory Clog
  imports XidLog
begin

section \<open>The commit log (access/transam/clog.c)\<close>

text \<open>
  Two status bits for each transaction, four transactions in a byte, \<open>BLCKSZ\<close> bytes in a
  page; the block size is the first argument \<open>bs\<close> of the definitions. The model has the
  pages by number; the buffer slots of slru.c that hold them between reads and writes are
  transparent, except that reading a page that does not exist is an error, or gives zeroes
  during recovery. A page carries the LSN of the latest asynchronous commit of each group of
  32 transactions. \<open>CLogControlLock\<close> makes a call of \<open>TransactionIdSetPageStatus\<close> one step;
  the theorems also look at the states between its single writes, because the page may be
  written out at any of them.
\<close>

type_synonym XLogRecPtr = uint64
type_synonym XidStatus = uint8

definition InvalidXLogRecPtr :: XLogRecPtr where "InvalidXLogRecPtr = 0"

definition TRANSACTION_STATUS_IN_PROGRESS :: XidStatus where "TRANSACTION_STATUS_IN_PROGRESS = 0"
definition TRANSACTION_STATUS_COMMITTED :: XidStatus where "TRANSACTION_STATUS_COMMITTED = 1"
definition TRANSACTION_STATUS_ABORTED :: XidStatus where "TRANSACTION_STATUS_ABORTED = 2"
definition TRANSACTION_STATUS_SUB_COMMITTED :: XidStatus where "TRANSACTION_STATUS_SUB_COMMITTED = 3"

lemmas status_defs [pg_defs] = TRANSACTION_STATUS_IN_PROGRESS_def TRANSACTION_STATUS_COMMITTED_def
  TRANSACTION_STATUS_ABORTED_def TRANSACTION_STATUS_SUB_COMMITTED_def InvalidXLogRecPtr_def

definition CLOG_XACTS_PER_PAGE :: "nat \<Rightarrow> nat" where "CLOG_XACTS_PER_PAGE bs = bs * 4"
definition CLOG_LSNS_PER_PAGE :: "nat \<Rightarrow> nat" where
  "CLOG_LSNS_PER_PAGE bs = CLOG_XACTS_PER_PAGE bs div 32"

definition TransactionIdToPage :: "nat \<Rightarrow> TransactionId \<Rightarrow> nat" where
  "TransactionIdToPage bs xid = unat xid div CLOG_XACTS_PER_PAGE bs"
definition TransactionIdToPgIndex :: "nat \<Rightarrow> TransactionId \<Rightarrow> nat" where
  "TransactionIdToPgIndex bs xid = unat xid mod CLOG_XACTS_PER_PAGE bs"
definition TransactionIdToByte :: "nat \<Rightarrow> TransactionId \<Rightarrow> nat" where
  "TransactionIdToByte bs xid = TransactionIdToPgIndex bs xid div 4"
definition TransactionIdToBIndex :: "TransactionId \<Rightarrow> nat" where
  "TransactionIdToBIndex xid = unat xid mod 4"

text \<open>The index of the group within its page.\<close>

definition GetLSNIndex :: "nat \<Rightarrow> TransactionId \<Rightarrow> nat" where
  "GetLSNIndex bs xid = (unat xid mod CLOG_XACTS_PER_PAGE bs) div 32"

record clog_page =
  page_buffer :: "uint8 list"
  group_lsn :: "XLogRecPtr list"

record clog =
  pages :: "nat \<Rightarrow> clog_page option"
  InRecovery :: bool

definition zero_page :: "nat \<Rightarrow> clog_page" where
  "zero_page bs =
     \<lparr>page_buffer = replicate bs 0, group_lsn = replicate (CLOG_LSNS_PER_PAGE bs) InvalidXLogRecPtr\<rparr>"

definition SimpleLruReadPage :: "nat \<Rightarrow> nat \<Rightarrow> clog \<Rightarrow> clog_page result" where
  "SimpleLruReadPage bs pageno c = (case pages c pageno of
     Some p \<Rightarrow> Inr p
   | None \<Rightarrow> if InRecovery c then Inr (zero_page bs)
             else Inl (ERROR ''could not access status of transaction''))"

definition TransactionIdSetStatusBit ::
  "nat \<Rightarrow> bool \<Rightarrow> TransactionId \<Rightarrow> XidStatus \<Rightarrow> XLogRecPtr \<Rightarrow> clog_page \<Rightarrow> clog_page" where
  "TransactionIdSetStatusBit bs in_recovery xid status lsn p =
     (let byteno = TransactionIdToByte bs xid;
          bshift = TransactionIdToBIndex xid * 2;
          byteval = page_buffer p ! byteno;
          curval = drop_bit bshift byteval AND 3
      in if in_recovery \<and> status = TRANSACTION_STATUS_SUB_COMMITTED \<and>
            curval = TRANSACTION_STATUS_COMMITTED then p
         else
           (let byteval = byteval AND NOT (push_bit bshift 3);
                byteval = byteval OR push_bit bshift status;
                p = p\<lparr>page_buffer := (page_buffer p)[byteno := byteval]\<rparr>
            in if lsn \<noteq> InvalidXLogRecPtr
               then (let lsnindex = GetLSNIndex bs xid
                     in if group_lsn p ! lsnindex < lsn
                        then p\<lparr>group_lsn := (group_lsn p)[lsnindex := lsn]\<rparr> else p)
               else p))"

text \<open>
  The functions that set a tree are given by the states of the log that they pass through:
  each of the definitions ending in \<open>_run\<close> returns the log after every single call of
  \<open>TransactionIdSetStatusBit\<close>, in order, and the log at the end. The names of the code stand
  for the end alone.
\<close>

definition set_bit_run ::
  "nat \<Rightarrow> bool \<Rightarrow> XLogRecPtr \<Rightarrow> TransactionId \<Rightarrow> XidStatus \<Rightarrow>
     clog_page list \<times> clog_page \<Rightarrow> clog_page list \<times> clog_page" where
  "set_bit_run bs in_recovery lsn xid status run =
     (let p = TransactionIdSetStatusBit bs in_recovery xid status lsn (snd run) in (fst run @ [p], p))"

definition TransactionIdSetPageStatus_run ::
  "nat \<Rightarrow> TransactionId \<Rightarrow> TransactionId list \<Rightarrow> XidStatus \<Rightarrow> XLogRecPtr \<Rightarrow> nat \<Rightarrow> clog \<Rightarrow>
     (clog list \<times> clog) result"
where
  "TransactionIdSetPageStatus_run bs xid subxids status lsn pageno c =
     (case SimpleLruReadPage bs pageno c of
        Inl e \<Rightarrow> Inl e
      | Inr p \<Rightarrow>
          (let set_bit = set_bit_run bs (InRecovery c) lsn;
               run = ([], p);
               run = (if TransactionIdIsValid xid
                      then (let run = (if status = TRANSACTION_STATUS_COMMITTED
                                       then fold (\<lambda>x. set_bit x TRANSACTION_STATUS_SUB_COMMITTED) subxids run
                                       else run)
                            in set_bit xid status run)
                      else run);
               run = fold (\<lambda>x. set_bit x status) subxids run;
               with_page = (\<lambda>p. c\<lparr>pages := (pages c)(pageno := Some p)\<rparr>)
           in Inr (map with_page (fst run), with_page (snd run))))"

definition TransactionIdSetPageStatus ::
  "nat \<Rightarrow> TransactionId \<Rightarrow> TransactionId list \<Rightarrow> XidStatus \<Rightarrow> XLogRecPtr \<Rightarrow> nat \<Rightarrow> clog \<Rightarrow> clog result"
where
  "TransactionIdSetPageStatus bs xid subxids status lsn pageno c =
     map_sum id snd (TransactionIdSetPageStatus_run bs xid subxids status lsn pageno c)"

text \<open>One call after another: the states of the second follow those of the first.\<close>

definition then_run ::
  "(clog list \<times> clog) result \<Rightarrow> (clog \<Rightarrow> (clog list \<times> clog) result) \<Rightarrow> (clog list \<times> clog) result" where
  "then_run r f = (case r of
     Inl e \<Rightarrow> Inl e
   | Inr (cs, c) \<Rightarrow> (case f c of Inl e \<Rightarrow> Inl e | Inr (ds, d) \<Rightarrow> Inr (cs @ ds, d)))"

text \<open>
  At the head of the outer loop \<open>offset = i\<close>; the inner loop counts the entries on the page.
  The page of \<open>subxids[offset]\<close> is computed after the last entry too, where nothing uses it.
\<close>

function set_status_loop_run ::
  "nat \<Rightarrow> TransactionId list \<Rightarrow> XidStatus \<Rightarrow> XLogRecPtr \<Rightarrow> nat \<Rightarrow> nat \<Rightarrow> clog \<Rightarrow>
     (clog list \<times> clog) result" where
  "set_status_loop_run bs subxids status lsn pageno i c =
     (if i < length subxids
      then (let on_page = takeWhile (\<lambda>x. TransactionIdToPage bs x = pageno) (drop i subxids);
                i' = i + length on_page
            in then_run (TransactionIdSetPageStatus_run bs InvalidTransactionId on_page status lsn pageno c)
                 (\<lambda>c. set_status_loop_run bs subxids status lsn (TransactionIdToPage bs (subxids ! i')) i' c))
      else Inr ([], c))"
  by pat_completeness auto
termination
proof (relation "measures [\<lambda>(bs, subxids, status, lsn, pageno, i, c). length subxids - i,
    \<lambda>(bs, subxids, status, lsn, pageno, i, c). of_bool (TransactionIdToPage bs (subxids ! i) \<noteq> pageno)]")
qed (auto simp: Cons_nth_drop_Suc [symmetric])

declare set_status_loop_run.simps [simp del]

definition set_status_by_pages_run ::
  "nat \<Rightarrow> TransactionId list \<Rightarrow> XidStatus \<Rightarrow> XLogRecPtr \<Rightarrow> clog \<Rightarrow> (clog list \<times> clog) result" where
  "set_status_by_pages_run bs subxids status lsn c =
     set_status_loop_run bs subxids status lsn (TransactionIdToPage bs (subxids ! 0)) 0 c"

definition TransactionIdSetTreeStatus_run ::
  "nat \<Rightarrow> TransactionId \<Rightarrow> TransactionId list \<Rightarrow> XidStatus \<Rightarrow> XLogRecPtr \<Rightarrow> clog \<Rightarrow>
     (clog list \<times> clog) result" where
  "TransactionIdSetTreeStatus_run bs xid subxids status lsn c =
     (let pageno = TransactionIdToPage bs xid;
          on_first_page = takeWhile (\<lambda>x. TransactionIdToPage bs x = pageno) subxids;
          i = length on_first_page
      in if i = length subxids
         then TransactionIdSetPageStatus_run bs xid subxids status lsn pageno c
         else
           then_run
             (then_run
               (if status = TRANSACTION_STATUS_COMMITTED
                then set_status_by_pages_run bs (drop i subxids) TRANSACTION_STATUS_SUB_COMMITTED lsn c
                else Inr ([], c))
               (TransactionIdSetPageStatus_run bs xid on_first_page status lsn pageno))
             (set_status_by_pages_run bs (drop i subxids) status lsn))"

definition TransactionIdSetTreeStatus ::
  "nat \<Rightarrow> TransactionId \<Rightarrow> TransactionId list \<Rightarrow> XidStatus \<Rightarrow> XLogRecPtr \<Rightarrow> clog \<Rightarrow> clog result" where
  "TransactionIdSetTreeStatus bs xid subxids status lsn c =
     map_sum id snd (TransactionIdSetTreeStatus_run bs xid subxids status lsn c)"

definition TransactionIdGetStatus ::
  "nat \<Rightarrow> TransactionId \<Rightarrow> clog \<Rightarrow> (XidStatus \<times> XLogRecPtr) result" where
  "TransactionIdGetStatus bs xid c =
     (case SimpleLruReadPage bs (TransactionIdToPage bs xid) c of
        Inl e \<Rightarrow> Inl e
      | Inr p \<Rightarrow>
          (let status = drop_bit (TransactionIdToBIndex xid * 2)
                          (page_buffer p ! TransactionIdToByte bs xid) AND 3
           in Inr (status, group_lsn p ! GetLSNIndex bs xid)))"

subsection \<open>The status bits of a page\<close>

definition slot_status :: "nat \<Rightarrow> clog_page \<Rightarrow> TransactionId \<Rightarrow> XidStatus" where
  "slot_status bs p xid =
     drop_bit (TransactionIdToBIndex xid * 2) (page_buffer p ! TransactionIdToByte bs xid) AND 3"

definition wf_page :: "nat \<Rightarrow> clog_page \<Rightarrow> bool" where
  "wf_page bs p \<longleftrightarrow> length (page_buffer p) = bs \<and> length (group_lsn p) = CLOG_LSNS_PER_PAGE bs"

definition valid_status :: "XidStatus \<Rightarrow> bool" where
  "valid_status s \<longleftrightarrow> s AND 3 = s"

definition keep_committed :: "bool \<Rightarrow> XidStatus \<Rightarrow> XidStatus \<Rightarrow> XidStatus" where
  "keep_committed in_recovery s old =
     (if in_recovery \<and> s = TRANSACTION_STATUS_SUB_COMMITTED \<and> old = TRANSACTION_STATUS_COMMITTED
      then old else s)"

lemma bit_three: "bit (3 :: uint8) n \<longleftrightarrow> n < 2"
proof -
  have "(3 :: uint8) = mask 2" by (simp add: mask_eq_exp_minus_1)
  then show ?thesis unfolding \<open>3 = mask 2\<close> bit_mask_iff by auto
qed

lemma bit_valid_status: "valid_status s \<Longrightarrow> bit s n \<Longrightarrow> n < 2"
  by (metis valid_status_def bit_and_iff bit_three)

text \<open>The byte after the two bits number \<open>k\<close> are overwritten.\<close>

definition put_status :: "nat \<Rightarrow> XidStatus \<Rightarrow> uint8 \<Rightarrow> uint8" where
  "put_status k s w = (w AND NOT (push_bit (k * 2) 3)) OR push_bit (k * 2) s"

lemma bit_put_status:
  assumes "k < 4" and "valid_status s"
  shows "bit (put_status k s w) n \<longleftrightarrow> n < 8 \<and> (if n div 2 = k then bit s (n mod 2) else bit w n)"
proof (cases "n < 8")
  case True
  have "bit (push_bit (k * 2) 3 :: uint8) n \<longleftrightarrow> n div 2 = k"
    using True assms(1) by (auto simp: bit_push_bit_iff bit_three simp del: bit_numeral_word_iff)
  moreover have "bit (push_bit (k * 2) s) n \<longleftrightarrow> n div 2 = k \<and> bit s (n mod 2)"
  proof
    assume "bit (push_bit (k * 2) s) n"
    then have n: "k * 2 \<le> n" "bit s (n - k * 2)" by (auto simp: bit_push_bit_iff)
    with bit_valid_status [OF assms(2)] have "n - k * 2 < 2" by blast
    with n show "n div 2 = k \<and> bit s (n mod 2)"
      by (metis add_diff_inverse_nat div_mult_self3 div_less add_0_right mod_less mod_mult_self3
          not_le numeral_2_eq_2 zero_neq_numeral)
  next
    assume "n div 2 = k \<and> bit s (n mod 2)"
    then show "bit (push_bit (k * 2) s) n"
      using True by (auto simp: bit_push_bit_iff minus_div_mult_eq_mod)
  qed
  ultimately show ?thesis
    using True by (auto simp: put_status_def bit_or_iff bit_and_iff bit_not_iff)
qed (auto dest: bit_imp_le_length)

lemma two_bits:
  assumes "k < 4" and "j < 4" and "valid_status s"
  shows "drop_bit (j * 2) (put_status k s w) AND 3 = (if j = k then s else drop_bit (j * 2) w AND 3)"
proof (rule bit_word_eqI)
  fix n
  have "bit (drop_bit (j * 2) (put_status k s w) AND 3) n \<longleftrightarrow>
      n < 2 \<and> (if j = k then bit s n else bit w (j * 2 + n))"
    using assms
    by (cases "n < 2") (auto simp: bit_and_iff bit_three bit_drop_bit_eq bit_put_status
        simp del: bit_numeral_word_iff)
  then show "bit (drop_bit (j * 2) (put_status k s w) AND 3) n =
      bit (if j = k then s else drop_bit (j * 2) w AND 3) n"
    using bit_valid_status [OF assms(3), of n]
    by (auto simp: bit_and_iff bit_three bit_drop_bit_eq simp del: bit_numeral_word_iff)
qed

text \<open>Page number, byte and position in the byte determine the transaction.\<close>

lemma same_slot:
  assumes "TransactionIdToPage bs x = TransactionIdToPage bs y"
    and "TransactionIdToByte bs x = TransactionIdToByte bs y"
    and "TransactionIdToBIndex x = TransactionIdToBIndex y"
  shows "x = y"
proof -
  have "unat v = bs * 4 * (unat v div (bs * 4)) + 4 * (unat v mod (bs * 4) div 4) + unat v mod 4"
    for v :: TransactionId
  proof -
    have "unat v mod 4 = unat v mod (bs * 4) mod 4" by (simp add: mod_mod_cancel)
    then have "4 * (unat v mod (bs * 4) div 4) + unat v mod 4 = unat v mod (bs * 4)" by simp
    then show ?thesis by (metis add.assoc mult_div_mod_eq)
  qed
  from this [of x] this [of y] have "unat x = unat y"
    using assms by (simp add: TransactionIdToPage_def TransactionIdToByte_def
        TransactionIdToPgIndex_def TransactionIdToBIndex_def CLOG_XACTS_PER_PAGE_def)
  then show ?thesis by (simp add: word_unat_eq_iff)
qed

lemma byte_in_page: "0 < bs \<Longrightarrow> TransactionIdToByte bs xid < bs"
  by (simp add: TransactionIdToByte_def TransactionIdToPgIndex_def CLOG_XACTS_PER_PAGE_def
      less_mult_imp_div_less)

lemma BIndex_less: "TransactionIdToBIndex xid < 4"
  by (simp add: TransactionIdToBIndex_def)

lemma group_in_page:
  assumes "8 dvd bs" and "0 < bs"
  shows "GetLSNIndex bs xid < CLOG_LSNS_PER_PAGE bs"
proof -
  obtain k where bs: "bs = 8 * k" using assms(1) by (rule dvdE)
  then have "unat xid mod (bs * 4) < k * 32"
    using assms(2) mod_less_divisor [of "bs * 4" "unat xid"] by (simp add: mult.commute)
  then have "unat xid mod (bs * 4) div 32 < k" by (rule less_mult_imp_div_less)
  then show ?thesis
    by (simp add: GetLSNIndex_def CLOG_LSNS_PER_PAGE_def CLOG_XACTS_PER_PAGE_def bs)
qed

lemma SetStatusBit_wf [pg_inv]:
  "wf_page bs p \<Longrightarrow> wf_page bs (TransactionIdSetStatusBit bs r x s lsn p)"
  by (simp add: wf_page_def TransactionIdSetStatusBit_def Let_def)

lemma SetStatusBit_buffer:
  "page_buffer (TransactionIdSetStatusBit bs r x s lsn p) =
     (if r \<and> s = TRANSACTION_STATUS_SUB_COMMITTED \<and> slot_status bs p x = TRANSACTION_STATUS_COMMITTED
      then page_buffer p
      else (page_buffer p)[TransactionIdToByte bs x :=
        put_status (TransactionIdToBIndex x) s (page_buffer p ! TransactionIdToByte bs x)])"
  by (simp add: TransactionIdSetStatusBit_def slot_status_def put_status_def Let_def)

lemma SetStatusBit_status [pg_abs]:
  assumes "0 < bs" and "wf_page bs p" and "valid_status s"
    and "TransactionIdToPage bs y = TransactionIdToPage bs x"
  shows "slot_status bs (TransactionIdSetStatusBit bs r x s lsn p) y =
    (if y = x then keep_committed r s (slot_status bs p x) else slot_status bs p y)"
proof (cases "r \<and> s = TRANSACTION_STATUS_SUB_COMMITTED \<and>
    slot_status bs p x = TRANSACTION_STATUS_COMMITTED")
  case True
  then have "TransactionIdSetStatusBit bs r x s lsn p = p"
    by (simp add: TransactionIdSetStatusBit_def slot_status_def)
  with True show ?thesis by (simp add: keep_committed_def)
next
  case False
  let ?b = "TransactionIdToByte bs" and ?i = TransactionIdToBIndex
  have "slot_status bs (TransactionIdSetStatusBit bs r x s lsn p) y =
      (if ?b y = ?b x then drop_bit (?i y * 2) (put_status (?i x) s (page_buffer p ! ?b x)) AND 3
       else slot_status bs p y)"
    using False byte_in_page [OF assms(1), of x] assms(2)
    by (auto simp: slot_status_def [of bs _ y] SetStatusBit_buffer wf_page_def)
  with False show ?thesis
    using same_slot [OF assms(4)]
    by (auto simp: two_bits [OF BIndex_less BIndex_less assms(3)] keep_committed_def slot_status_def
        split: if_splits)
qed

lemma SetStatusBit_lsn [pg_abs]:
  assumes "8 dvd bs" and "0 < bs" and "wf_page bs p" and "j < CLOG_LSNS_PER_PAGE bs"
    and "\<not> (r \<and> s = TRANSACTION_STATUS_SUB_COMMITTED \<and>
          slot_status bs p x = TRANSACTION_STATUS_COMMITTED)"
  shows "group_lsn (TransactionIdSetStatusBit bs r x s lsn p) ! j =
    (if j = GetLSNIndex bs x then max lsn (group_lsn p ! j) else group_lsn p ! j)"
  using assms group_in_page [OF assms(1,2), of x]
  by (auto simp: TransactionIdSetStatusBit_def slot_status_def Let_def wf_page_def max_def
      InvalidXLogRecPtr_def nth_list_update)

subsection \<open>Setting a tree as a sequence of single writes\<close>

text \<open>
  \<open>clog_write\<close> is one call of \<open>TransactionIdSetStatusBit\<close> on its page. The functions above
  are sequences of such writes: \<open>page_writes\<close> those of a page, \<open>tree_writes\<close> those of a tree.
\<close>

definition clog_write ::
  "nat \<Rightarrow> XLogRecPtr \<Rightarrow> TransactionId \<times> XidStatus \<Rightarrow> clog \<Rightarrow> clog result" where
  "clog_write bs lsn w c =
     (case SimpleLruReadPage bs (TransactionIdToPage bs (fst w)) c of
        Inl e \<Rightarrow> Inl e
      | Inr p \<Rightarrow> Inr (c\<lparr>pages := (pages c)(TransactionIdToPage bs (fst w) :=
          Some (TransactionIdSetStatusBit bs (InRecovery c) (fst w) (snd w) lsn p))\<rparr>))"

definition page_writes ::
  "TransactionId \<Rightarrow> TransactionId list \<Rightarrow> XidStatus \<Rightarrow> (TransactionId \<times> XidStatus) list" where
  "page_writes xid subxids status =
     (if TransactionIdIsValid xid
      then (if status = TRANSACTION_STATUS_COMMITTED
            then map (\<lambda>x. (x, TRANSACTION_STATUS_SUB_COMMITTED)) subxids else []) @ [(xid, status)]
      else []) @ map (\<lambda>x. (x, status)) subxids"

definition tree_writes ::
  "nat \<Rightarrow> TransactionId \<Rightarrow> TransactionId list \<Rightarrow> XidStatus \<Rightarrow> (TransactionId \<times> XidStatus) list" where
  "tree_writes bs xid subxids status =
     (let on_first_page = takeWhile (\<lambda>x. TransactionIdToPage bs x = TransactionIdToPage bs xid) subxids;
          rest = drop (length on_first_page) subxids
      in (if status = TRANSACTION_STATUS_COMMITTED
          then map (\<lambda>x. (x, TRANSACTION_STATUS_SUB_COMMITTED)) rest else []) @
         page_writes xid on_first_page status @ map (\<lambda>x. (x, status)) rest)"

lemma foldM_append:
  "foldM f (xs @ ys) r = (case foldM f xs r of Inl e \<Rightarrow> Inl e | Inr r' \<Rightarrow> foldM f ys r')"
  by (induction xs arbitrary: r) (auto split: sum.splits)

text \<open>\<open>write_run\<close> keeps the states between the writes.\<close>

fun write_run ::
  "nat \<Rightarrow> XLogRecPtr \<Rightarrow> (TransactionId \<times> XidStatus) list \<Rightarrow> clog \<Rightarrow> (clog list \<times> clog) result" where
  "write_run bs lsn [] c = Inr ([], c)"
| "write_run bs lsn (w # ws) c = (case clog_write bs lsn w c of
     Inl e \<Rightarrow> Inl e
   | Inr d \<Rightarrow> then_run (Inr ([d], d)) (write_run bs lsn ws))"

lemma then_run_simps [simp]:
  "then_run (Inl e) f = Inl e"
  "then_run (Inr (cs, c)) f = (case f c of Inl e \<Rightarrow> Inl e | Inr (ds, d) \<Rightarrow> Inr (cs @ ds, d))"
  by (simp_all add: then_run_def)

lemma then_run_assoc: "then_run (then_run r f) g = then_run r (\<lambda>c. then_run (f c) g)"
  by (auto simp: then_run_def split: sum.splits)

lemma then_run_Nil: "then_run (Inr ([], c)) f = f c"
  by (auto split: sum.splits)

lemma write_run_append:
  "write_run bs lsn (xs @ ys) c = then_run (write_run bs lsn xs c) (write_run bs lsn ys)"
  by (induction xs arbitrary: c) (auto split: sum.splits)

lemma write_run_final: "map_sum id snd (write_run bs lsn ws c) = foldM (clog_write bs lsn) ws c"
proof (induction ws arbitrary: c)
  case (Cons w ws)
  show ?case
    by (cases "clog_write bs lsn w c")
      (auto simp: Cons.IH [symmetric] then_run_def split: sum.splits)
qed simp

text \<open>The states of a run are those after the prefixes of its writes.\<close>

lemma write_run_states:
  assumes "write_run bs lsn ws c = Inr (cs, c')"
  shows "length cs = length ws \<and> c' = (c # cs) ! length ws \<and>
    (\<forall>k \<le> length ws. foldM (clog_write bs lsn) (take k ws) c = Inr ((c # cs) ! k))"
  using assms
proof (induction ws arbitrary: c cs)
  case (Cons w ws)
  obtain d ds where d: "clog_write bs lsn w c = Inr d" "write_run bs lsn ws d = Inr (ds, c')"
    "cs = d # ds"
    using Cons.prems by (auto split: sum.splits prod.splits)
  have IH: "length ds = length ws" "c' = (d # ds) ! length ws"
    "\<And>k. k \<le> length ws \<Longrightarrow> foldM (clog_write bs lsn) (take k ws) d = Inr ((d # ds) ! k)"
    using Cons.IH [OF d(2)] by auto
  have "foldM (clog_write bs lsn) (take k (w # ws)) c = Inr ((c # cs) ! k)"
    if "k \<le> length (w # ws)" for k
    using that d(1,3) IH(3) by (cases k) auto
  with IH(1,2) d(3) show ?case by simp
qed simp

lemma set_bit_run_pair:
  "set_bit_run bs r lsn x v (ps, p) =
     (ps @ [TransactionIdSetStatusBit bs r x v lsn p], TransactionIdSetStatusBit bs r x v lsn p)"
  by (simp add: set_bit_run_def Let_def)

lemma fold_set_bit_run:
  "fold (\<lambda>w. set_bit_run bs r lsn (fst w) (snd w)) ws (ps, p) =
     (let run = fold (\<lambda>w. set_bit_run bs r lsn (fst w) (snd w)) ws ([], p) in (ps @ fst run, snd run))"
proof (induction ws arbitrary: ps p)
  case (Cons w ws)
  let ?p = "TransactionIdSetStatusBit bs r (fst w) (snd w) lsn p"
  show ?case
    using Cons.IH [of "ps @ [?p]" ?p] Cons.IH [of "[?p]" ?p] by (simp add: set_bit_run_pair Let_def del: fun_upd_apply)
qed (simp add: Let_def)

lemma write_run_on_page:
  assumes "\<And>w. w \<in> set ws \<Longrightarrow> TransactionIdToPage bs (fst w) = pageno"
  shows "write_run bs lsn ws (c\<lparr>pages := (pages c)(pageno := Some p)\<rparr>) =
    (let run = fold (\<lambda>w. set_bit_run bs (InRecovery c) lsn (fst w) (snd w)) ws ([], p);
         with_page = (\<lambda>p. c\<lparr>pages := (pages c)(pageno := Some p)\<rparr>)
     in Inr (map with_page (fst run), with_page (snd run)))"
  using assms
proof (induction ws arbitrary: p)
  case (Cons w ws)
  let ?p = "TransactionIdSetStatusBit bs (InRecovery c) (fst w) (snd w) lsn p"
  have "clog_write bs lsn w (c\<lparr>pages := (pages c)(pageno := Some p)\<rparr>) =
      Inr (c\<lparr>pages := (pages c)(pageno := Some ?p)\<rparr>)"
    using Cons.prems [of w] by (auto simp: clog_write_def SimpleLruReadPage_def)
  then show ?case
    using Cons.IH [of ?p] Cons.prems
      fold_set_bit_run [of bs "InRecovery c" lsn ws "[?p]" ?p]
    by (simp add: set_bit_run_pair Let_def del: fun_upd_apply)
qed (simp add: Let_def)

lemma write_run_from_page:
  assumes "\<And>w. w \<in> set ws \<Longrightarrow> TransactionIdToPage bs (fst w) = pageno" and "ws \<noteq> []"
  shows "write_run bs lsn ws c =
    (case SimpleLruReadPage bs pageno c of
       Inl e \<Rightarrow> Inl e
     | Inr p \<Rightarrow> (let run = fold (\<lambda>w. set_bit_run bs (InRecovery c) lsn (fst w) (snd w)) ws ([], p);
                    with_page = (\<lambda>p. c\<lparr>pages := (pages c)(pageno := Some p)\<rparr>)
                in Inr (map with_page (fst run), with_page (snd run))))"
proof (cases "SimpleLruReadPage bs pageno c")
  case (Inl e)
  then show ?thesis using assms by (cases ws) (auto simp: clog_write_def)
next
  case (Inr p)
  obtain w ws' where ws: "ws = w # ws'" using assms(2) by (cases ws) auto
  let ?p = "TransactionIdSetStatusBit bs (InRecovery c) (fst w) (snd w) lsn p"
  have "clog_write bs lsn w c = Inr (c\<lparr>pages := (pages c)(pageno := Some ?p)\<rparr>)"
    using assms(1) ws Inr by (auto simp: clog_write_def)
  then show ?thesis
    using Inr assms(1) ws write_run_on_page [of ws' bs pageno lsn c ?p]
      fold_set_bit_run [of bs "InRecovery c" lsn ws' "[?p]" ?p]
    by (simp add: set_bit_run_pair Let_def del: fun_upd_apply)
qed

lemma SetPageStatus_run:
  assumes "TransactionIdIsValid xid \<Longrightarrow> TransactionIdToPage bs xid = pageno"
    and "\<And>x. x \<in> set subxids \<Longrightarrow> TransactionIdToPage bs x = pageno"
    and "TransactionIdIsValid xid \<or> subxids \<noteq> []"
  shows "TransactionIdSetPageStatus_run bs xid subxids status lsn pageno c =
    write_run bs lsn (page_writes xid subxids status) c"
proof -
  let ?fold = "fold (\<lambda>w. set_bit_run bs (InRecovery c) lsn (fst w) (snd w))"
  have writes: "(let run = ([], p);
       run = (if TransactionIdIsValid xid
              then (let run = (if status = TRANSACTION_STATUS_COMMITTED
                       then fold (\<lambda>x. set_bit_run bs (InRecovery c) lsn x TRANSACTION_STATUS_SUB_COMMITTED)
                         subxids run
                       else run)
                    in set_bit_run bs (InRecovery c) lsn xid status run)
              else run)
     in fold (\<lambda>x. set_bit_run bs (InRecovery c) lsn x status) subxids run) =
     ?fold (page_writes xid subxids status) ([], p)" for p
    by (simp add: page_writes_def fold_map comp_def Let_def)
  have "write_run bs lsn (page_writes xid subxids status) c =
    (case SimpleLruReadPage bs pageno c of
       Inl e \<Rightarrow> Inl e
     | Inr p \<Rightarrow> (let run = ?fold (page_writes xid subxids status) ([], p);
                    with_page = (\<lambda>p. c\<lparr>pages := (pages c)(pageno := Some p)\<rparr>)
                in Inr (map with_page (fst run), with_page (snd run))))"
    using assms by (intro write_run_from_page) (auto simp: page_writes_def split: if_splits)
  then show ?thesis
    unfolding TransactionIdSetPageStatus_run_def Let_def writes [unfolded Let_def] by simp
qed

lemma set_status_loop_run_writes:
  assumes "i < length subxids \<Longrightarrow> pageno = TransactionIdToPage bs (subxids ! i)"
  shows "set_status_loop_run bs subxids status lsn pageno i c =
    write_run bs lsn (map (\<lambda>x. (x, status)) (drop i subxids)) c"
  using assms
proof (induction "length subxids - i" arbitrary: i pageno c rule: less_induct)
  case less
  show ?case
  proof (cases "i < length subxids")
    case True
    define on_page where
      "on_page = takeWhile (\<lambda>x. TransactionIdToPage bs x = pageno) (drop i subxids)"
    define i' where "i' = i + length on_page"
    have "on_page \<noteq> []"
      using True less.prems by (simp add: on_page_def Cons_nth_drop_Suc [symmetric])
    then have less_i': "length subxids - i' < length subxids - i"
      using True unfolding i'_def length_greater_0_conv [symmetric] by linarith
    have "drop i subxids = on_page @ drop i' subxids"
      by (metis on_page_def i'_def dropWhile_eq_drop drop_drop add.commute takeWhile_dropWhile_id)
    then have split: "map (\<lambda>x. (x, status)) (drop i subxids) =
        page_writes InvalidTransactionId on_page status @ map (\<lambda>x. (x, status)) (drop i' subxids)"
      by (simp add: page_writes_def TransactionIdIsValid_def)
    have "TransactionIdSetPageStatus_run bs InvalidTransactionId on_page status lsn pageno c =
        write_run bs lsn (page_writes InvalidTransactionId on_page status) c"
      using \<open>on_page \<noteq> []\<close>
      by (intro SetPageStatus_run)
        (auto simp: on_page_def TransactionIdIsValid_def dest: set_takeWhileD)
    moreover have "set_status_loop_run bs subxids status lsn (TransactionIdToPage bs (subxids ! i')) i' =
        write_run bs lsn (map (\<lambda>x. (x, status)) (drop i' subxids))"
      by (rule ext, rule less.hyps [OF less_i']) simp
    ultimately show ?thesis
      using True unfolding split write_run_append
      by (simp add: set_status_loop_run.simps [of bs subxids status lsn pageno i c]
          on_page_def [symmetric] i'_def Let_def)
  qed (simp add: set_status_loop_run.simps)
qed

lemma set_status_by_pages_run_writes:
  "set_status_by_pages_run bs subxids status lsn =
     write_run bs lsn (map (\<lambda>x. (x, status)) subxids)"
  using set_status_loop_run_writes [of 0 subxids] by (simp add: set_status_by_pages_run_def fun_eq_iff)

lemma SetTreeStatus_run:
  assumes "TransactionIdIsValid xid"
  shows "TransactionIdSetTreeStatus_run bs xid subxids status lsn c =
    write_run bs lsn (tree_writes bs xid subxids status) c"
proof -
  define first where
    "first = takeWhile (\<lambda>x. TransactionIdToPage bs x = TransactionIdToPage bs xid) subxids"
  have on_page: "TransactionIdSetPageStatus_run bs xid first s lsn (TransactionIdToPage bs xid) =
      write_run bs lsn (page_writes xid first s)" for s
    using assms by (intro ext SetPageStatus_run) (auto simp: first_def dest: set_takeWhileD)
  show ?thesis
  proof (cases "length first = length subxids")
    case True
    then have "first = subxids"
      unfolding first_def by (metis append_eq_conv_conj take_all_iff order_refl takeWhile_dropWhile_id)
    then show ?thesis
      using on_page unfolding TransactionIdSetTreeStatus_run_def tree_writes_def
      by (simp add: first_def [symmetric] Let_def)
  next
    case False
    then show ?thesis
      unfolding TransactionIdSetTreeStatus_run_def tree_writes_def
      by (cases "status = TRANSACTION_STATUS_COMMITTED")
        (simp_all add: first_def [symmetric] Let_def on_page set_status_by_pages_run_writes
          write_run_append [abs_def] then_run_assoc then_run_Nil del: then_run_simps(2))
  qed
qed

lemma SetTreeStatus_writes:
  assumes "TransactionIdIsValid xid"
  shows "TransactionIdSetTreeStatus bs xid subxids status lsn c =
    foldM (clog_write bs lsn) (tree_writes bs xid subxids status) c"
  by (simp add: TransactionIdSetTreeStatus_def SetTreeStatus_run [OF assms] write_run_final)

subsection \<open>The log as a map from transactions to statuses\<close>

definition wf_clog :: "nat \<Rightarrow> clog \<Rightarrow> bool" where
  "wf_clog bs c \<longleftrightarrow> 0 < bs \<and> 8 dvd bs \<and> (\<forall>n p. pages c n = Some p \<longrightarrow> wf_page bs p)"

definition clog_covers :: "nat \<Rightarrow> clog \<Rightarrow> TransactionId \<Rightarrow> bool" where
  "clog_covers bs c xid \<longleftrightarrow> pages c (TransactionIdToPage bs xid) \<noteq> None \<or> InRecovery c"

definition xid_status :: "nat \<Rightarrow> clog \<Rightarrow> TransactionId \<Rightarrow> XidStatus" where
  "xid_status bs c xid = (case pages c (TransactionIdToPage bs xid) of
     None \<Rightarrow> TRANSACTION_STATUS_IN_PROGRESS | Some p \<Rightarrow> slot_status bs p xid)"

definition xid_lsn :: "nat \<Rightarrow> clog \<Rightarrow> TransactionId \<Rightarrow> XLogRecPtr" where
  "xid_lsn bs c xid = (case pages c (TransactionIdToPage bs xid) of
     None \<Rightarrow> InvalidXLogRecPtr | Some p \<Rightarrow> group_lsn p ! GetLSNIndex bs xid)"

lemma zero_page_wf [pg_inv]: "wf_page bs (zero_page bs)"
  by (simp add: wf_page_def zero_page_def)

lemma zero_page_status:
  "0 < bs \<Longrightarrow> slot_status bs (zero_page bs) xid = TRANSACTION_STATUS_IN_PROGRESS"
  by (simp add: slot_status_def zero_page_def byte_in_page pg_defs)

lemma zero_page_lsn:
  "8 dvd bs \<Longrightarrow> 0 < bs \<Longrightarrow> group_lsn (zero_page bs) ! GetLSNIndex bs xid = InvalidXLogRecPtr"
  by (simp add: zero_page_def group_in_page)

lemma ReadPage_covers:
  assumes "wf_clog bs c" and "clog_covers bs c xid"
  shows "\<exists>p. SimpleLruReadPage bs (TransactionIdToPage bs xid) c = Inr p \<and> wf_page bs p \<and>
    (\<forall>y. TransactionIdToPage bs y = TransactionIdToPage bs xid \<longrightarrow>
       slot_status bs p y = xid_status bs c y \<and>
       group_lsn p ! GetLSNIndex bs y = xid_lsn bs c y)"
proof (cases "pages c (TransactionIdToPage bs xid)")
  case None
  then show ?thesis
    using assms
    by (auto simp: SimpleLruReadPage_def clog_covers_def xid_status_def xid_lsn_def wf_clog_def
        zero_page_wf zero_page_status zero_page_lsn)
qed (use assms in \<open>auto simp: SimpleLruReadPage_def xid_status_def xid_lsn_def wf_clog_def\<close>)

lemma GetStatus_covers:
  assumes "wf_clog bs c" and "clog_covers bs c xid"
  shows "TransactionIdGetStatus bs xid c = Inr (xid_status bs c xid, xid_lsn bs c xid)"
  using ReadPage_covers [OF assms]
  by (auto simp: TransactionIdGetStatus_def slot_status_def)

lemma clog_write_ok:
  assumes "wf_clog bs c" and "clog_covers bs c x" and "valid_status v"
  shows "\<exists>c'. clog_write bs lsn (x, v) c = Inr c' \<and> wf_clog bs c' \<and> InRecovery c' = InRecovery c \<and>
    (\<forall>y. clog_covers bs c y \<longrightarrow> clog_covers bs c' y) \<and>
    xid_status bs c' = (xid_status bs c)(x := keep_committed (InRecovery c) v (xid_status bs c x)) \<and>
    (\<forall>y. xid_lsn bs c y \<le> xid_lsn bs c' y) \<and>
    (v \<noteq> TRANSACTION_STATUS_SUB_COMMITTED \<longrightarrow> lsn \<le> xid_lsn bs c' x)"
proof -
  let ?n = "TransactionIdToPage bs x"
  obtain p where p: "SimpleLruReadPage bs ?n c = Inr p" "wf_page bs p"
    "\<And>y. TransactionIdToPage bs y = ?n \<Longrightarrow> slot_status bs p y = xid_status bs c y"
    "\<And>y. TransactionIdToPage bs y = ?n \<Longrightarrow> group_lsn p ! GetLSNIndex bs y = xid_lsn bs c y"
    using ReadPage_covers [OF assms(1,2)] by auto
  define p' where "p' = TransactionIdSetStatusBit bs (InRecovery c) x v lsn p"
  define c' where "c' = c\<lparr>pages := (pages c)(?n := Some p')\<rparr>"
  have bs: "0 < bs" "8 dvd bs" using assms(1) by (auto simp: wf_clog_def)
  have "clog_write bs lsn (x, v) c = Inr c'"
    by (simp add: clog_write_def p c'_def p'_def)
  moreover have "wf_clog bs c'"
    using assms(1) SetStatusBit_wf [OF p(2)] by (auto simp: wf_clog_def c'_def p'_def)
  moreover have "xid_status bs c' y =
      ((xid_status bs c)(x := keep_committed (InRecovery c) v (xid_status bs c x))) y" for y
  proof (cases "TransactionIdToPage bs y = ?n")
    case True
    then have "xid_status bs c' y = slot_status bs p' y"
      by (simp add: xid_status_def c'_def)
    then show ?thesis
      using SetStatusBit_status [OF bs(1) p(2) assms(3) True] p(3) [OF True] p(3) [of x]
      by (simp add: p'_def)
  qed (auto simp: xid_status_def c'_def)
  moreover have "xid_lsn bs c y \<le> xid_lsn bs c' y" for y
  proof (cases "TransactionIdToPage bs y = ?n")
    case True
    have "group_lsn p ! GetLSNIndex bs y \<le> group_lsn p' ! GetLSNIndex bs y"
      using group_in_page [OF bs(2,1), of y] group_in_page [OF bs(2,1), of x] p(2)
      by (auto simp: p'_def TransactionIdSetStatusBit_def Let_def wf_page_def nth_list_update)
    moreover have "xid_lsn bs c' y = group_lsn p' ! GetLSNIndex bs y"
      using True by (simp add: xid_lsn_def c'_def)
    ultimately show ?thesis using p(4) [OF True] by simp
  qed (simp add: xid_lsn_def c'_def)
  moreover have "lsn \<le> xid_lsn bs c' x" if "v \<noteq> TRANSACTION_STATUS_SUB_COMMITTED"
    using SetStatusBit_lsn [OF bs(2,1) p(2) group_in_page [OF bs(2,1)],
        of "InRecovery c" v x lsn x] that
    by (auto simp: xid_lsn_def c'_def p'_def)
  moreover have "InRecovery c' = InRecovery c" "clog_covers bs c y \<longrightarrow> clog_covers bs c' y" for y
    by (auto simp: c'_def clog_covers_def)
  ultimately show ?thesis by blast
qed

interpretation clog_log: xid_log "wf_clog bs" "clog_covers bs" valid_status "xid_status bs"
    "\<lambda>c. keep_committed (InRecovery c)" "clog_write bs lsn" for bs lsn
proof unfold_locales
  fix c x v
  assume "wf_clog bs c" "clog_covers bs c x" "valid_status v"
  then obtain c' where "clog_write bs lsn (x, v) c = Inr c'" "wf_clog bs c'"
    "InRecovery c' = InRecovery c" "\<forall>y. clog_covers bs c y \<longrightarrow> clog_covers bs c' y"
    "xid_status bs c' = (xid_status bs c)(x := keep_committed (InRecovery c) v (xid_status bs c x))"
    using clog_write_ok by meson
  then show "\<exists>c'. clog_write bs lsn (x, v) c = Inr c' \<and> wf_clog bs c' \<and>
      (\<forall>y. clog_covers bs c y \<longrightarrow> clog_covers bs c' y) \<and>
      keep_committed (InRecovery c') = keep_committed (InRecovery c) \<and>
      xid_status bs c' = (xid_status bs c)(x := keep_committed (InRecovery c) v (xid_status bs c x))"
    by simp
qed

lemma clog_writes_lsn:
  assumes "wf_clog bs c" and "\<And>x v. (x, v) \<in> set ws \<Longrightarrow> clog_covers bs c x \<and> valid_status v"
    and "foldM (clog_write bs lsn) ws c = Inr c'"
  shows "xid_lsn bs c y \<le> xid_lsn bs c' y"
    and "(x, v) \<in> set ws \<Longrightarrow> v \<noteq> TRANSACTION_STATUS_SUB_COMMITTED \<Longrightarrow> lsn \<le> xid_lsn bs c' x"
proof -
  have "xid_lsn bs c y \<le> xid_lsn bs c' y \<and>
      (\<forall>(x, v) \<in> set ws. v \<noteq> TRANSACTION_STATUS_SUB_COMMITTED \<longrightarrow> lsn \<le> xid_lsn bs c' x)" for y
    using assms
  proof (induction ws arbitrary: c y)
    case (Cons w ws)
    obtain x v where w: "w = (x, v)" by (cases w)
    from clog_write_ok [of bs c x v lsn] Cons.prems(1,2) w
    obtain c1 where c1: "clog_write bs lsn (x, v) c = Inr c1" "wf_clog bs c1"
      "\<And>y. clog_covers bs c y \<Longrightarrow> clog_covers bs c1 y" "\<And>y. xid_lsn bs c y \<le> xid_lsn bs c1 y"
      "v \<noteq> TRANSACTION_STATUS_SUB_COMMITTED \<Longrightarrow> lsn \<le> xid_lsn bs c1 x"
      by (metis list.set_intros(1))
    have rest: "foldM (clog_write bs lsn) ws c1 = Inr c'"
      using Cons.prems(3) c1(1) w by simp
    have IH: "xid_lsn bs c1 y \<le> xid_lsn bs c' y \<and>
        (\<forall>(x, v) \<in> set ws. v \<noteq> TRANSACTION_STATUS_SUB_COMMITTED \<longrightarrow> lsn \<le> xid_lsn bs c' x)" for y
      using Cons.prems(2) c1(2,3) rest by (intro Cons.IH) auto
    show ?case
      using IH [of y] IH [of x] c1(4) [of y] c1(5) w by (auto intro: order_trans)
  qed simp
  then show "xid_lsn bs c y \<le> xid_lsn bs c' y"
    "(x, v) \<in> set ws \<Longrightarrow> v \<noteq> TRANSACTION_STATUS_SUB_COMMITTED \<Longrightarrow> lsn \<le> xid_lsn bs c' x"
    by auto
qed

subsection \<open>The result of setting a tree\<close>

lemma keep_committed_other:
  "s \<noteq> TRANSACTION_STATUS_SUB_COMMITTED \<Longrightarrow> keep_committed r s old = s"
  by (simp add: keep_committed_def)

lemma tree_writes_shape:
  assumes "TransactionIdIsValid xid"
  obtains pre subs where
    "tree_writes bs xid subxids status =
       map (\<lambda>x. (x, TRANSACTION_STATUS_SUB_COMMITTED)) pre @ (xid, status) # map (\<lambda>x. (x, status)) subs"
    "set subs = set subxids"
    "set pre = (if status = TRANSACTION_STATUS_COMMITTED then set subxids else {})"
proof -
  define first where
    "first = takeWhile (\<lambda>x. TransactionIdToPage bs x = TransactionIdToPage bs xid) subxids"
  define rest where "rest = drop (length first) subxids"
  have "subxids = first @ rest"
    unfolding first_def rest_def by (metis dropWhile_eq_drop takeWhile_dropWhile_id)
  moreover have "tree_writes bs xid subxids status =
      map (\<lambda>x. (x, TRANSACTION_STATUS_SUB_COMMITTED))
        (if status = TRANSACTION_STATUS_COMMITTED then rest @ first else []) @
      (xid, status) # map (\<lambda>x. (x, status)) (first @ rest)"
    using assms
    by (simp add: tree_writes_def page_writes_def Let_def first_def [symmetric] rest_def [symmetric])
  ultimately show ?thesis
    by (intro that [of "if status = TRANSACTION_STATUS_COMMITTED then rest @ first else []"
          "first @ rest"]) auto
qed

definition final_status :: "XidStatus \<Rightarrow> bool" where
  "final_status s \<longleftrightarrow> s = TRANSACTION_STATUS_COMMITTED \<or> s = TRANSACTION_STATUS_ABORTED"

lemma final_status_simps:
  assumes "final_status s"
  shows "valid_status s" "s \<noteq> TRANSACTION_STATUS_SUB_COMMITTED" "s \<noteq> TRANSACTION_STATUS_IN_PROGRESS"
  using assms by (auto simp: final_status_def valid_status_def pg_defs)

lemma valid_SUB_COMMITTED: "valid_status TRANSACTION_STATUS_SUB_COMMITTED"
  by (simp add: valid_status_def pg_defs)

lemma apply_tree_writes:
  assumes "TransactionIdIsValid xid" and "final_status s"
  shows "apply_writes (keep_committed r) (tree_writes bs xid subxids s) f y =
    (if y \<in> insert xid (set subxids) then s else f y)"
proof -
  obtain pre subs where shape: "tree_writes bs xid subxids s =
       map (\<lambda>x. (x, TRANSACTION_STATUS_SUB_COMMITTED)) pre @ (xid, s) # map (\<lambda>x. (x, s)) subs"
    "set subs = set subxids" "set pre = (if s = TRANSACTION_STATUS_COMMITTED then set subxids else {})"
    by (rule tree_writes_shape [OF assms(1)])
  have "keep_committed r s old = s" for old
    using final_status_simps(2) [OF assms(2)] by (rule keep_committed_other)
  moreover have "y \<notin> set subxids \<Longrightarrow>
      apply_writes (keep_committed r) (map (\<lambda>x. (x, TRANSACTION_STATUS_SUB_COMMITTED)) pre) f y = f y"
    using shape(3) by (intro apply_writes_other) (auto split: if_splits)
  ultimately show ?thesis
    by (simp add: shape(1,2) apply_writes_append apply_writes_map)
qed

lemma tree_writes_in:
  assumes "TransactionIdIsValid xid" and "final_status s"
  shows "(x, v) \<in> set (tree_writes bs xid subxids s) \<Longrightarrow>
      x \<in> insert xid (set subxids) \<and> valid_status v"
    and "x \<in> insert xid (set subxids) \<Longrightarrow> (x, s) \<in> set (tree_writes bs xid subxids s)"
proof -
  obtain pre subs where shape: "tree_writes bs xid subxids s =
       map (\<lambda>x. (x, TRANSACTION_STATUS_SUB_COMMITTED)) pre @ (xid, s) # map (\<lambda>x. (x, s)) subs"
    "set subs = set subxids" "set pre = (if s = TRANSACTION_STATUS_COMMITTED then set subxids else {})"
    by (rule tree_writes_shape [OF assms(1)])
  show "(x, v) \<in> set (tree_writes bs xid subxids s) \<Longrightarrow>
      x \<in> insert xid (set subxids) \<and> valid_status v"
    using shape(2,3) final_status_simps(1) [OF assms(2)] valid_SUB_COMMITTED
    by (auto simp: shape(1) split: if_splits)
  show "x \<in> insert xid (set subxids) \<Longrightarrow> (x, s) \<in> set (tree_writes bs xid subxids s)"
    using shape(2) by (auto simp: shape(1))
qed

lemma SetTreeStatus_final:
  assumes "wf_clog bs c" and "TransactionIdIsValid xid" and "final_status s"
    and "\<And>x. x \<in> insert xid (set subxids) \<Longrightarrow> clog_covers bs c x"
  shows "\<exists>c'. TransactionIdSetTreeStatus bs xid subxids s lsn c = Inr c' \<and> wf_clog bs c' \<and>
    (\<forall>y. clog_covers bs c y \<longrightarrow> clog_covers bs c' y) \<and>
    (\<forall>y. xid_status bs c' y = (if y \<in> insert xid (set subxids) then s else xid_status bs c y)) \<and>
    (\<forall>y. xid_lsn bs c y \<le> xid_lsn bs c' y) \<and>
    (\<forall>x \<in> insert xid (set subxids). lsn \<le> xid_lsn bs c' x)"
proof -
  let ?ws = "tree_writes bs xid subxids s"
  have ok: "\<And>x v. (x, v) \<in> set ?ws \<Longrightarrow> clog_covers bs c x \<and> valid_status v"
    using tree_writes_in(1) [OF assms(2,3)] assms(4) by meson
  from clog_log.writes_ok [where ws = ?ws, OF assms(1) ok]
  obtain c' where c': "foldM (clog_write bs lsn) ?ws c = Inr c'" "wf_clog bs c'"
    "\<forall>y. clog_covers bs c y \<longrightarrow> clog_covers bs c' y"
    "xid_status bs c' = apply_writes (keep_committed (InRecovery c)) ?ws (xid_status bs c)"
    by blast
  have "xid_lsn bs c y \<le> xid_lsn bs c' y" for y
    by (rule clog_writes_lsn(1) [OF assms(1) ok c'(1)])
  moreover have "lsn \<le> xid_lsn bs c' x" if "x \<in> insert xid (set subxids)" for x
    using clog_writes_lsn(2) [OF assms(1) ok c'(1)] final_status_simps(2) [OF assms(3)]
      tree_writes_in(2) [OF assms(2,3) that] by blast
  ultimately show ?thesis
    using c'(1-3) by (simp add: SetTreeStatus_writes [OF assms(2)] c'(4) apply_tree_writes [OF assms(2,3)])
qed

end
