(* ===== verification/Subtrans.thy ===== *)
theory Subtrans
  imports XidLog
begin

section \<open>The parents of subtransactions (access/transam/subtrans.c)\<close>

text \<open>
  One parent for each transaction, four bytes each, in pages of \<open>BLCKSZ\<close> bytes; as in
  clog.c the buffer slots are transparent, a missing page is an error or zeroes during
  recovery. The walk up to the topmost transaction is a loop that a cycle of parents would
  make endless; \<open>None\<close> is that case.
\<close>

record subtrans =
  parent_pages :: "nat \<Rightarrow> TransactionId list option"
  recovering :: bool

definition SUBTRANS_XACTS_PER_PAGE :: "nat \<Rightarrow> nat" where
  "SUBTRANS_XACTS_PER_PAGE bs = bs div 4"

definition SubTransToPage :: "nat \<Rightarrow> TransactionId \<Rightarrow> nat" where
  "SubTransToPage bs xid = unat xid div SUBTRANS_XACTS_PER_PAGE bs"

definition TransactionIdToEntry :: "nat \<Rightarrow> TransactionId \<Rightarrow> nat" where
  "TransactionIdToEntry bs xid = unat xid mod SUBTRANS_XACTS_PER_PAGE bs"

definition SubTransReadPage :: "nat \<Rightarrow> nat \<Rightarrow> subtrans \<Rightarrow> TransactionId list result" where
  "SubTransReadPage bs pageno s = (case parent_pages s pageno of
     Some p \<Rightarrow> Inr p
   | None \<Rightarrow> if recovering s then Inr (replicate (SUBTRANS_XACTS_PER_PAGE bs) InvalidTransactionId)
             else Inl (ERROR ''could not access status of transaction''))"

definition SubTransSetParent ::
  "nat \<Rightarrow> TransactionId \<Rightarrow> TransactionId \<Rightarrow> subtrans \<Rightarrow> subtrans result" where
  "SubTransSetParent bs xid parent s =
     (let pageno = SubTransToPage bs xid; entryno = TransactionIdToEntry bs xid
      in case SubTransReadPage bs pageno s of
           Inl e \<Rightarrow> Inl e
         | Inr p \<Rightarrow> Inr (s\<lparr>parent_pages := (parent_pages s)(pageno := Some (p[entryno := parent]))\<rparr>))"

definition SubTransGetParent :: "nat \<Rightarrow> TransactionId \<Rightarrow> subtrans \<Rightarrow> TransactionId result" where
  "SubTransGetParent bs xid s =
     (let pageno = SubTransToPage bs xid; entryno = TransactionIdToEntry bs xid
      in if \<not> TransactionIdIsNormal xid then Inr InvalidTransactionId
         else (case SubTransReadPage bs pageno s of Inl e \<Rightarrow> Inl e | Inr p \<Rightarrow> Inr (p ! entryno)))"

partial_function (option) topmost_loop ::
  "nat \<Rightarrow> TransactionId \<Rightarrow> subtrans \<Rightarrow> TransactionId \<Rightarrow> TransactionId \<Rightarrow> TransactionId result option" where
  "topmost_loop bs xmin s parentXid previousXid =
     (if TransactionIdIsValid parentXid
      then (let previousXid = parentXid
            in if TransactionIdPrecedes parentXid xmin then Some (Inr previousXid)
               else (case SubTransGetParent bs parentXid s of
                       Inl e \<Rightarrow> Some (Inl e)
                     | Inr parentXid \<Rightarrow> topmost_loop bs xmin s parentXid previousXid))
      else Some (Inr previousXid))"

definition SubTransGetTopmostTransaction ::
  "nat \<Rightarrow> TransactionId \<Rightarrow> TransactionId \<Rightarrow> subtrans \<Rightarrow> TransactionId result option" where
  "SubTransGetTopmostTransaction bs xmin xid s = topmost_loop bs xmin s xid xid"

subsection \<open>The log as a map from transactions to parents\<close>

definition wf_subtrans :: "nat \<Rightarrow> subtrans \<Rightarrow> bool" where
  "wf_subtrans bs s \<longleftrightarrow> 4 \<le> bs \<and>
     (\<forall>n p. parent_pages s n = Some p \<longrightarrow> length p = SUBTRANS_XACTS_PER_PAGE bs)"

definition subtrans_covers :: "nat \<Rightarrow> subtrans \<Rightarrow> TransactionId \<Rightarrow> bool" where
  "subtrans_covers bs s xid \<longleftrightarrow> parent_pages s (SubTransToPage bs xid) \<noteq> None \<or> recovering s"

definition parent_of :: "nat \<Rightarrow> subtrans \<Rightarrow> TransactionId \<Rightarrow> TransactionId" where
  "parent_of bs s xid = (case parent_pages s (SubTransToPage bs xid) of
     None \<Rightarrow> InvalidTransactionId | Some p \<Rightarrow> p ! TransactionIdToEntry bs xid)"

lemma entry_in_page: "4 \<le> bs \<Longrightarrow> TransactionIdToEntry bs xid < SUBTRANS_XACTS_PER_PAGE bs"
  by (simp add: TransactionIdToEntry_def SUBTRANS_XACTS_PER_PAGE_def div_greater_zero_iff)

lemma same_entry:
  assumes "SubTransToPage bs x = SubTransToPage bs y"
    and "TransactionIdToEntry bs x = TransactionIdToEntry bs y"
  shows "x = y"
proof -
  have "unat x = unat y"
    using assms unfolding SubTransToPage_def TransactionIdToEntry_def by (metis mult_div_mod_eq)
  then show ?thesis by (simp add: word_unat_eq_iff)
qed

lemma SubTransReadPage_covers:
  assumes "wf_subtrans bs s" and "subtrans_covers bs s x"
  shows "\<exists>p. SubTransReadPage bs (SubTransToPage bs x) s = Inr p \<and>
    length p = SUBTRANS_XACTS_PER_PAGE bs \<and>
    (\<forall>y. SubTransToPage bs y = SubTransToPage bs x \<longrightarrow> p ! TransactionIdToEntry bs y = parent_of bs s y)"
  using assms
  by (auto simp: SubTransReadPage_def subtrans_covers_def wf_subtrans_def parent_of_def entry_in_page
      split: option.splits)

lemma GetParent_covers:
  assumes "wf_subtrans bs s" and "subtrans_covers bs s x" and "TransactionIdIsNormal x"
  shows "SubTransGetParent bs x s = Inr (parent_of bs s x)"
  using SubTransReadPage_covers [OF assms(1,2)] assms(3) by (auto simp: SubTransGetParent_def)

lemma SetParent_ok:
  assumes "wf_subtrans bs s" and "subtrans_covers bs s x"
  shows "\<exists>s'. SubTransSetParent bs x v s = Inr s' \<and> wf_subtrans bs s' \<and>
    (\<forall>y. subtrans_covers bs s y \<longrightarrow> subtrans_covers bs s' y) \<and>
    parent_of bs s' = (parent_of bs s)(x := v)"
proof -
  let ?n = "SubTransToPage bs x"
  obtain p where p: "SubTransReadPage bs ?n s = Inr p" "length p = SUBTRANS_XACTS_PER_PAGE bs"
    "\<And>y. SubTransToPage bs y = ?n \<Longrightarrow> p ! TransactionIdToEntry bs y = parent_of bs s y"
    using SubTransReadPage_covers [OF assms] by auto
  define s' where
    "s' = s\<lparr>parent_pages := (parent_pages s)(?n := Some (p[TransactionIdToEntry bs x := v]))\<rparr>"
  have bs: "4 \<le> bs" using assms(1) by (simp add: wf_subtrans_def)
  have "parent_of bs s' y = ((parent_of bs s)(x := v)) y" for y
  proof (cases "SubTransToPage bs y = ?n")
    case True
    then have "parent_of bs s' y = p[TransactionIdToEntry bs x := v] ! TransactionIdToEntry bs y"
      by (simp add: parent_of_def s'_def)
    then show ?thesis
      using p(3) [OF True] same_entry [OF True] entry_in_page [OF bs, of x] p(2)
      by (auto simp: nth_list_update)
  qed (auto simp: parent_of_def s'_def)
  moreover have "SubTransSetParent bs x v s = Inr s'"
    by (simp add: SubTransSetParent_def p s'_def)
  moreover have "wf_subtrans bs s'"
    using assms(1) p(2) by (auto simp: wf_subtrans_def s'_def)
  moreover have "\<forall>y. subtrans_covers bs s y \<longrightarrow> subtrans_covers bs s' y"
    by (simp add: subtrans_covers_def s'_def)
  ultimately show ?thesis by blast
qed

interpretation subtrans_log: xid_log "wf_subtrans bs" "subtrans_covers bs" "\<lambda>_. True"
    "parent_of bs" "\<lambda>_ v _. v" "\<lambda>(x, v). SubTransSetParent bs x v" for bs
  using SetParent_ok by unfold_locales simp

subsection \<open>Walking up to the topmost transaction\<close>

text \<open>
  The transactions a walk can come to: each one not older than \<open>xmin\<close> has its page, and a
  parent among them that is older than itself, as \<open>AssignTransactionId\<close> makes sure of.
\<close>

definition parents_ok :: "nat \<Rightarrow> subtrans \<Rightarrow> TransactionId \<Rightarrow> TransactionId set \<Rightarrow> bool" where
  "parents_ok bs s xmin X \<longleftrightarrow>
     wf_subtrans bs s \<and> TransactionIdIsNormal xmin \<and>
     (\<forall>x \<in> X. TransactionIdIsNormal x \<and> \<not> TransactionIdPrecedes x xmin \<longrightarrow>
        subtrans_covers bs s x \<and>
        (parent_of bs s x \<noteq> InvalidTransactionId \<longrightarrow>
           parent_of bs s x \<in> X \<and> TransactionIdPrecedes (parent_of bs s x) x))"

lemma parents_okD:
  assumes "parents_ok bs s xmin X" and "x \<in> X" and "TransactionIdIsNormal x"
    and "\<not> TransactionIdPrecedes x xmin"
  shows "SubTransGetParent bs x s = Inr (parent_of bs s x)"
    "parent_of bs s x \<noteq> InvalidTransactionId \<Longrightarrow> parent_of bs s x \<in> X"
    "parent_of bs s x \<noteq> InvalidTransactionId \<Longrightarrow>
      walk_measure xmin (parent_of bs s x) < walk_measure xmin x"
  using assms by (auto simp: parents_ok_def GetParent_covers walk_measure_decreases)

definition walk_ends :: "nat \<Rightarrow> subtrans \<Rightarrow> TransactionId \<Rightarrow> TransactionId \<Rightarrow> bool" where
  "walk_ends bs s xmin r \<longleftrightarrow> TransactionIdPrecedes r xmin \<or> \<not> TransactionIdIsNormal r \<or>
     parent_of bs s r = InvalidTransactionId"

lemma topmost_loop_ok:
  assumes "parents_ok bs s xmin X" and "x \<in> X" and "TransactionIdIsValid x"
  shows "\<exists>r. topmost_loop bs xmin s x prev = Some (Inr r) \<and>
    (\<lambda>a b. b = parent_of bs s a)\<^sup>*\<^sup>* x r \<and> walk_ends bs s xmin r"
  using assms(2,3)
proof (induction "walk_measure xmin x" arbitrary: x prev rule: less_induct)
  case less
  note step = topmost_loop.simps [of bs xmin s x prev]
  show ?case
  proof (cases "TransactionIdPrecedes x xmin \<or> \<not> TransactionIdIsNormal x")
    case True
    moreover have "topmost_loop bs xmin s InvalidTransactionId x = Some (Inr x)"
      by (simp add: topmost_loop.simps TransactionIdIsValid_def)
    ultimately show ?thesis
      using less.prems(2) by (auto simp: step walk_ends_def SubTransGetParent_def)
  next
    case False
    then have get: "SubTransGetParent bs x s = Inr (parent_of bs s x)"
      using parents_okD(1) [OF assms(1) less.prems(1)] by blast
    show ?thesis
    proof (cases "parent_of bs s x = InvalidTransactionId")
      case True
      moreover have "topmost_loop bs xmin s InvalidTransactionId x = Some (Inr x)"
        by (simp add: topmost_loop.simps TransactionIdIsValid_def)
      ultimately show ?thesis
        using False less.prems(2) get by (auto simp: step walk_ends_def)
    next
      case parent: False
      have "\<exists>r. topmost_loop bs xmin s (parent_of bs s x) x = Some (Inr r) \<and>
          (\<lambda>a b. b = parent_of bs s a)\<^sup>*\<^sup>* (parent_of bs s x) r \<and> walk_ends bs s xmin r"
        using parents_okD(2,3) [OF assms(1) less.prems(1)] False parent
        by (intro less.hyps) (auto simp: TransactionIdIsValid_def)
      then show ?thesis
        using False less.prems(2) get
        by (auto simp: step intro: converse_rtranclp_into_rtranclp)
    qed
  qed
qed

end
