(* ===== verification/Transam.thy ===== *)
theory Transam
  imports Clog Subtrans
begin

section \<open>Did a transaction commit or abort? (access/transam/transam.c)\<close>

text \<open>
  A backend sees the two logs and its own \<open>TransactionXmin\<close>, and keeps a single-item cache
  of the last final status it fetched. The recursion to the parent of a subcommitted
  transaction would not end on a cycle of parents: \<open>None\<close> is that case. The warnings about
  missing pg_subtrans entries are not modelled, the answers given with them are.
\<close>

record backend =
  pg_clog :: clog
  pg_subtrans :: subtrans
  TransactionXmin :: TransactionId
  cachedFetchXid :: TransactionId
  cachedFetchXidStatus :: XidStatus
  cachedCommitLSN :: XLogRecPtr

definition TransactionLogFetch :: "nat \<Rightarrow> TransactionId \<Rightarrow> backend \<Rightarrow> (XidStatus \<times> backend) result" where
  "TransactionLogFetch bs xid b =
     (if xid = cachedFetchXid b then Inr (cachedFetchXidStatus b, b)
      else if \<not> TransactionIdIsNormal xid then
        (if xid = BootstrapTransactionId then Inr (TRANSACTION_STATUS_COMMITTED, b)
         else if xid = FrozenTransactionId then Inr (TRANSACTION_STATUS_COMMITTED, b)
         else Inr (TRANSACTION_STATUS_ABORTED, b))
      else
        (case TransactionIdGetStatus bs xid (pg_clog b) of
           Inl e \<Rightarrow> Inl e
         | Inr (xidstatus, xidlsn) \<Rightarrow>
             Inr (xidstatus,
               if xidstatus \<noteq> TRANSACTION_STATUS_IN_PROGRESS \<and>
                  xidstatus \<noteq> TRANSACTION_STATUS_SUB_COMMITTED
               then b\<lparr>cachedFetchXid := xid, cachedFetchXidStatus := xidstatus,
                     cachedCommitLSN := xidlsn\<rparr>
               else b)))"

partial_function (option) TransactionIdDidCommit ::
  "nat \<Rightarrow> TransactionId \<Rightarrow> backend \<Rightarrow> (bool \<times> backend) result option" where
  "TransactionIdDidCommit bs xid b =
     (case TransactionLogFetch bs xid b of
        Inl e \<Rightarrow> Some (Inl e)
      | Inr r \<Rightarrow>
          (if fst r = TRANSACTION_STATUS_COMMITTED then Some (Inr (True, snd r))
           else if fst r = TRANSACTION_STATUS_SUB_COMMITTED then
             (if TransactionIdPrecedes xid (TransactionXmin (snd r)) then Some (Inr (False, snd r))
              else (case SubTransGetParent bs xid (pg_subtrans (snd r)) of
                      Inl e \<Rightarrow> Some (Inl e)
                    | Inr parentXid \<Rightarrow>
                        (if \<not> TransactionIdIsValid parentXid then Some (Inr (False, snd r))
                         else TransactionIdDidCommit bs parentXid (snd r))))
           else Some (Inr (False, snd r))))"

partial_function (option) TransactionIdDidAbort ::
  "nat \<Rightarrow> TransactionId \<Rightarrow> backend \<Rightarrow> (bool \<times> backend) result option" where
  "TransactionIdDidAbort bs xid b =
     (case TransactionLogFetch bs xid b of
        Inl e \<Rightarrow> Some (Inl e)
      | Inr r \<Rightarrow>
          (if fst r = TRANSACTION_STATUS_ABORTED then Some (Inr (True, snd r))
           else if fst r = TRANSACTION_STATUS_SUB_COMMITTED then
             (if TransactionIdPrecedes xid (TransactionXmin (snd r)) then Some (Inr (True, snd r))
              else (case SubTransGetParent bs xid (pg_subtrans (snd r)) of
                      Inl e \<Rightarrow> Some (Inl e)
                    | Inr parentXid \<Rightarrow>
                        (if \<not> TransactionIdIsValid parentXid then Some (Inr (True, snd r))
                         else TransactionIdDidAbort bs parentXid (snd r))))
           else Some (Inr (False, snd r))))"

definition TransactionIdIsKnownCompleted :: "TransactionId \<Rightarrow> backend \<Rightarrow> bool" where
  "TransactionIdIsKnownCompleted xid b \<longleftrightarrow> xid = cachedFetchXid b"

definition TransactionIdCommitTree ::
  "nat \<Rightarrow> TransactionId \<Rightarrow> TransactionId list \<Rightarrow> clog \<Rightarrow> clog result" where
  "TransactionIdCommitTree bs xid xids =
     TransactionIdSetTreeStatus bs xid xids TRANSACTION_STATUS_COMMITTED InvalidXLogRecPtr"

definition TransactionIdAsyncCommitTree ::
  "nat \<Rightarrow> TransactionId \<Rightarrow> TransactionId list \<Rightarrow> XLogRecPtr \<Rightarrow> clog \<Rightarrow> clog result" where
  "TransactionIdAsyncCommitTree bs xid xids lsn =
     TransactionIdSetTreeStatus bs xid xids TRANSACTION_STATUS_COMMITTED lsn"

definition TransactionIdAbortTree ::
  "nat \<Rightarrow> TransactionId \<Rightarrow> TransactionId list \<Rightarrow> clog \<Rightarrow> clog result" where
  "TransactionIdAbortTree bs xid xids =
     TransactionIdSetTreeStatus bs xid xids TRANSACTION_STATUS_ABORTED InvalidXLogRecPtr"

definition TransactionIdGetCommitLSN :: "nat \<Rightarrow> TransactionId \<Rightarrow> backend \<Rightarrow> XLogRecPtr result" where
  "TransactionIdGetCommitLSN bs xid b =
     (if xid = cachedFetchXid b then Inr (cachedCommitLSN b)
      else if \<not> TransactionIdIsNormal xid then Inr InvalidXLogRecPtr
      else (case TransactionIdGetStatus bs xid (pg_clog b) of
              Inl e \<Rightarrow> Inl e | Inr (status, lsn) \<Rightarrow> Inr lsn))"

subsection \<open>What a transaction's final state is\<close>

text \<open>
  The status a fetch means to return, and the two verdicts defined by the rules of the
  commit log: a subcommitted transaction shares its parent's fate, and one that nobody can
  finish any more (it is older than every running transaction, or its parent is not known)
  is aborted.
\<close>

definition logged_status :: "nat \<Rightarrow> backend \<Rightarrow> TransactionId \<Rightarrow> XidStatus" where
  "logged_status bs b xid =
     (if TransactionIdIsNormal xid then xid_status bs (pg_clog b) xid
      else if xid = BootstrapTransactionId \<or> xid = FrozenTransactionId
      then TRANSACTION_STATUS_COMMITTED else TRANSACTION_STATUS_ABORTED)"

inductive committed ::
  "(TransactionId \<Rightarrow> XidStatus) \<Rightarrow> (TransactionId \<Rightarrow> TransactionId) \<Rightarrow> TransactionId \<Rightarrow> TransactionId \<Rightarrow> bool"
  for st parent xmin where
  committed_self: "st x = TRANSACTION_STATUS_COMMITTED \<Longrightarrow> committed st parent xmin x"
| committed_parent: "st x = TRANSACTION_STATUS_SUB_COMMITTED \<Longrightarrow> \<not> TransactionIdPrecedes x xmin \<Longrightarrow>
    parent x \<noteq> InvalidTransactionId \<Longrightarrow> committed st parent xmin (parent x) \<Longrightarrow>
    committed st parent xmin x"

inductive aborted ::
  "(TransactionId \<Rightarrow> XidStatus) \<Rightarrow> (TransactionId \<Rightarrow> TransactionId) \<Rightarrow> TransactionId \<Rightarrow> TransactionId \<Rightarrow> bool"
  for st parent xmin where
  aborted_self: "st x = TRANSACTION_STATUS_ABORTED \<Longrightarrow> aborted st parent xmin x"
| aborted_crashed: "st x = TRANSACTION_STATUS_SUB_COMMITTED \<Longrightarrow>
    TransactionIdPrecedes x xmin \<or> parent x = InvalidTransactionId \<Longrightarrow> aborted st parent xmin x"
| aborted_parent: "st x = TRANSACTION_STATUS_SUB_COMMITTED \<Longrightarrow> \<not> TransactionIdPrecedes x xmin \<Longrightarrow>
    parent x \<noteq> InvalidTransactionId \<Longrightarrow> aborted st parent xmin (parent x) \<Longrightarrow>
    aborted st parent xmin x"

inductive_simps committed_iff: "committed st parent xmin x"
inductive_simps aborted_iff: "aborted st parent xmin x"

lemma status_distinct [simp]:
  "TRANSACTION_STATUS_COMMITTED \<noteq> TRANSACTION_STATUS_SUB_COMMITTED"
  "TRANSACTION_STATUS_SUB_COMMITTED \<noteq> TRANSACTION_STATUS_COMMITTED"
  "TRANSACTION_STATUS_ABORTED \<noteq> TRANSACTION_STATUS_SUB_COMMITTED"
  "TRANSACTION_STATUS_SUB_COMMITTED \<noteq> TRANSACTION_STATUS_ABORTED"
  "TRANSACTION_STATUS_COMMITTED \<noteq> TRANSACTION_STATUS_ABORTED"
  "TRANSACTION_STATUS_ABORTED \<noteq> TRANSACTION_STATUS_COMMITTED"
  "TRANSACTION_STATUS_IN_PROGRESS \<noteq> TRANSACTION_STATUS_COMMITTED"
  "TRANSACTION_STATUS_IN_PROGRESS \<noteq> TRANSACTION_STATUS_ABORTED"
  "TRANSACTION_STATUS_IN_PROGRESS \<noteq> TRANSACTION_STATUS_SUB_COMMITTED"
  "TRANSACTION_STATUS_SUB_COMMITTED \<noteq> TRANSACTION_STATUS_IN_PROGRESS"
  "TRANSACTION_STATUS_COMMITTED \<noteq> TRANSACTION_STATUS_IN_PROGRESS"
  "TRANSACTION_STATUS_ABORTED \<noteq> TRANSACTION_STATUS_IN_PROGRESS"
  by (simp_all add: pg_defs)

lemma committed_not_aborted: "committed st parent xmin x \<Longrightarrow> \<not> aborted st parent xmin x"
proof (induction rule: committed.induct)
  case (committed_self x)
  show ?case
  proof
    assume "aborted st parent xmin x"
    then show False using committed_self by cases simp_all
  qed
next
  case (committed_parent x)
  show ?case
  proof
    assume "aborted st parent xmin x"
    then show False using committed_parent by cases simp_all
  qed
qed

subsection \<open>The two tests answer by the verdicts, and the cache is never wrong\<close>

definition cache_ok :: "nat \<Rightarrow> backend \<Rightarrow> bool" where
  "cache_ok bs b \<longleftrightarrow> (cachedFetchXid b = InvalidTransactionId \<or>
     TransactionIdIsNormal (cachedFetchXid b) \<and> final_status (cachedFetchXidStatus b) \<and>
     xid_status bs (pg_clog b) (cachedFetchXid b) = cachedFetchXidStatus b)"

definition same_logs :: "backend \<Rightarrow> backend \<Rightarrow> bool" where
  "same_logs b b' \<longleftrightarrow> pg_clog b' = pg_clog b \<and> pg_subtrans b' = pg_subtrans b \<and>
     TransactionXmin b' = TransactionXmin b"

lemma same_logs_refl [simp]: "same_logs b b"
  and same_logs_trans: "same_logs a b \<Longrightarrow> same_logs b c \<Longrightarrow> same_logs a c"
  by (auto simp: same_logs_def)

definition logs_ok :: "nat \<Rightarrow> backend \<Rightarrow> TransactionId set \<Rightarrow> bool" where
  "logs_ok bs b X \<longleftrightarrow> wf_clog bs (pg_clog b) \<and>
     parents_ok bs (pg_subtrans b) (TransactionXmin b) X \<and>
     (\<forall>x \<in> X. TransactionIdIsNormal x \<longrightarrow> clog_covers bs (pg_clog b) x)"

lemma same_logs_cong:
  assumes "same_logs b b'"
  shows "logs_ok bs b' X = logs_ok bs b X" "logged_status bs b' = logged_status bs b"
  using assms by (auto simp: same_logs_def logs_ok_def logged_status_def fun_eq_iff)

lemma slot_status_cases: "slot_status bs p x \<in> {0, 1, 2, 3}"
proof -
  have "w AND 3 \<in> {0, 1, 2, 3}" for w :: uint8
  proof -
    have "(3 :: uint8) = mask 2" by (simp add: mask_eq_exp_minus_1)
    then have "w AND 3 = take_bit 2 w" by (simp add: take_bit_eq_mask)
    then have "unat (w AND 3) < 4"
      using take_bit_nat_less_exp [of 2 "unat w"] by (simp add: unsigned_take_bit_eq)
    then have "unat (w AND 3) \<in> {0, 1, 2, 3}" by auto
    moreover have "k \<in> {0, 1, 2, 3} \<Longrightarrow> (word_of_nat k :: uint8) \<in> {0, 1, 2, 3}" for k
      by auto
    ultimately show ?thesis by (metis of_nat_unat ucast_id)
  qed
  then show ?thesis by (simp add: slot_status_def)
qed

lemma xid_status_cases:
  "xid_status bs c x = TRANSACTION_STATUS_IN_PROGRESS \<or>
   xid_status bs c x = TRANSACTION_STATUS_SUB_COMMITTED \<or> final_status (xid_status bs c x)"
  using slot_status_cases
  by (auto simp: xid_status_def final_status_def pg_defs split: option.splits)

lemma TransactionLogFetch_ok:
  assumes "logs_ok bs b X" and "cache_ok bs b" and "x \<in> X" and "TransactionIdIsValid x"
  shows "\<exists>b'. TransactionLogFetch bs x b = Inr (logged_status bs b x, b') \<and>
    same_logs b b' \<and> cache_ok bs b'"
proof (cases "x = cachedFetchXid b \<or> \<not> TransactionIdIsNormal x")
  case True
  then show ?thesis
    using assms(2,4)
    by (auto simp: TransactionLogFetch_def cache_ok_def logged_status_def TransactionIdIsValid_def)
next
  case False
  then have "TransactionIdGetStatus bs x (pg_clog b) =
      Inr (xid_status bs (pg_clog b) x, xid_lsn bs (pg_clog b) x)"
    using assms(1,3) by (intro GetStatus_covers) (auto simp: logs_ok_def)
  then show ?thesis
    using False assms(2) xid_status_cases [of bs "pg_clog b" x]
    by (auto simp: TransactionLogFetch_def logged_status_def same_logs_def cache_ok_def)
qed

lemma DidCommit_ok:
  assumes "logs_ok bs b X" and "cache_ok bs b" and "x \<in> X" and "TransactionIdIsValid x"
  shows "\<exists>b'. TransactionIdDidCommit bs x b =
      Some (Inr (committed (logged_status bs b) (parent_of bs (pg_subtrans b)) (TransactionXmin b) x, b')) \<and>
    same_logs b b' \<and> cache_ok bs b'"
  using assms
proof (induction "walk_measure (TransactionXmin b) x" arbitrary: x b rule: less_induct)
  case less
  let ?st = "logged_status bs b" and ?par = "parent_of bs (pg_subtrans b)"
  obtain b1 where b1: "TransactionLogFetch bs x b = Inr (?st x, b1)" "same_logs b b1" "cache_ok bs b1"
    using TransactionLogFetch_ok [OF less.prems] by auto
  note step = TransactionIdDidCommit.simps [of bs x b]
  have xmin: "TransactionXmin b1 = TransactionXmin b" "pg_subtrans b1 = pg_subtrans b"
    using b1(2) by (simp_all add: same_logs_def)
  show ?case
  proof (cases "?st x = TRANSACTION_STATUS_SUB_COMMITTED \<and> \<not> TransactionIdPrecedes x (TransactionXmin b)")
    case False
    then show ?thesis
      using b1 by (auto simp: step xmin committed_iff [of ?st ?par "TransactionXmin b" x])
  next
    case True
    then have normal: "TransactionIdIsNormal x"
      by (auto simp: logged_status_def split: if_splits)
    have pok: "parents_ok bs (pg_subtrans b) (TransactionXmin b) X"
      using less.prems(1) by (simp add: logs_ok_def)
    note parent = parents_okD [OF pok less.prems(3) normal]
    show ?thesis
    proof (cases "?par x = InvalidTransactionId")
      case none: True
      then show ?thesis
        using True b1 parent(1)
        by (auto simp: step xmin TransactionIdIsValid_def committed_iff [of ?st ?par "TransactionXmin b" x])
    next
      case False
      obtain b2 where b2: "TransactionIdDidCommit bs (?par x) b1 =
          Some (Inr (committed ?st ?par (TransactionXmin b) (?par x), b2))" "same_logs b1 b2" "cache_ok bs b2"
        using less.hyps [of b1 "?par x"] parent(2,3) True False less.prems(1) b1
        by (auto simp: xmin same_logs_cong [OF b1(2)] TransactionIdIsValid_def)
      then show ?thesis
        using True False b1 parent(1) same_logs_trans [OF b1(2) b2(2)]
        by (auto simp: step xmin TransactionIdIsValid_def committed_iff [of ?st ?par "TransactionXmin b" x])
    qed
  qed
qed

lemma DidAbort_ok:
  assumes "logs_ok bs b X" and "cache_ok bs b" and "x \<in> X" and "TransactionIdIsValid x"
  shows "\<exists>b'. TransactionIdDidAbort bs x b =
      Some (Inr (aborted (logged_status bs b) (parent_of bs (pg_subtrans b)) (TransactionXmin b) x, b')) \<and>
    same_logs b b' \<and> cache_ok bs b'"
  using assms
proof (induction "walk_measure (TransactionXmin b) x" arbitrary: x b rule: less_induct)
  case less
  let ?st = "logged_status bs b" and ?par = "parent_of bs (pg_subtrans b)"
  obtain b1 where b1: "TransactionLogFetch bs x b = Inr (?st x, b1)" "same_logs b b1" "cache_ok bs b1"
    using TransactionLogFetch_ok [OF less.prems] by auto
  note step = TransactionIdDidAbort.simps [of bs x b]
  have xmin: "TransactionXmin b1 = TransactionXmin b" "pg_subtrans b1 = pg_subtrans b"
    using b1(2) by (simp_all add: same_logs_def)
  show ?case
  proof (cases "?st x = TRANSACTION_STATUS_SUB_COMMITTED \<and> \<not> TransactionIdPrecedes x (TransactionXmin b)")
    case False
    then show ?thesis
      using b1 by (auto simp: step xmin aborted_iff [of ?st ?par "TransactionXmin b" x])
  next
    case True
    then have normal: "TransactionIdIsNormal x"
      by (auto simp: logged_status_def split: if_splits)
    have pok: "parents_ok bs (pg_subtrans b) (TransactionXmin b) X"
      using less.prems(1) by (simp add: logs_ok_def)
    note parent = parents_okD [OF pok less.prems(3) normal]
    show ?thesis
    proof (cases "?par x = InvalidTransactionId")
      case none: True
      then show ?thesis
        using True b1 parent(1)
        by (auto simp: step xmin TransactionIdIsValid_def aborted_iff [of ?st ?par "TransactionXmin b" x])
    next
      case False
      obtain b2 where b2: "TransactionIdDidAbort bs (?par x) b1 =
          Some (Inr (aborted ?st ?par (TransactionXmin b) (?par x), b2))" "same_logs b1 b2" "cache_ok bs b2"
        using less.hyps [of b1 "?par x"] parent(2,3) True False less.prems(1) b1
        by (auto simp: xmin same_logs_cong [OF b1(2)] TransactionIdIsValid_def)
      then show ?thesis
        using True False b1 parent(1) same_logs_trans [OF b1(2) b2(2)]
        by (auto simp: step xmin TransactionIdIsValid_def aborted_iff [of ?st ?par "TransactionXmin b" x])
    qed
  qed
qed

subsection \<open>A commit is atomic for every observer\<close>

lemma not_committed_tree:
  assumes "committed st parent xmin x" and "x \<in> T"
    and "\<And>t. t \<in> T \<Longrightarrow> st t \<noteq> TRANSACTION_STATUS_COMMITTED"
    and "\<And>t. t \<in> T \<Longrightarrow> st t = TRANSACTION_STATUS_SUB_COMMITTED \<Longrightarrow> parent t \<in> T"
  shows False
  using assms(1,2) by (induction rule: committed.induct) (use assms(3,4) in auto)

lemma committed_tree:
  assumes "st xid = TRANSACTION_STATUS_COMMITTED" and "TransactionIdIsNormal xmin"
    and "\<And>s. s \<in> S \<Longrightarrow> st s = TRANSACTION_STATUS_COMMITTED \<or> st s = TRANSACTION_STATUS_SUB_COMMITTED"
    and "\<And>s. s \<in> S \<Longrightarrow> TransactionIdIsNormal s \<and> \<not> TransactionIdPrecedes s xmin \<and>
      parent s \<in> insert xid S \<and> parent s \<noteq> InvalidTransactionId \<and> TransactionIdPrecedes (parent s) s"
    and "x \<in> insert xid S"
  shows "committed st parent xmin x"
  using assms(5)
proof (induction "walk_measure xmin x" arbitrary: x rule: less_induct)
  case less
  show ?case
  proof (cases "st x = TRANSACTION_STATUS_COMMITTED")
    case True
    then show ?thesis by (rule committed_self)
  next
    case False
    then have "x \<in> S" using assms(1) less.prems by auto
    then have "committed st parent xmin (parent x)"
      using assms(4) [of x] walk_measure_decreases [OF assms(2)] by (intro less.hyps) auto
    moreover have "st x = TRANSACTION_STATUS_SUB_COMMITTED"
      using False assms(3) [OF \<open>x \<in> S\<close>] by simp
    ultimately show ?thesis
      using assms(4) [OF \<open>x \<in> S\<close>] committed_parent by blast
  qed
qed

text \<open>The tree is undecided: nothing in it has a final status, and \<open>xid\<close> is its top.\<close>

definition undecided :: "nat \<Rightarrow> clog \<Rightarrow> TransactionId \<Rightarrow> TransactionId set \<Rightarrow> bool" where
  "undecided bs c xid subs \<longleftrightarrow>
     xid \<notin> subs \<and> xid_status bs c xid = TRANSACTION_STATUS_IN_PROGRESS \<and>
     (\<forall>x \<in> subs. xid_status bs c x = TRANSACTION_STATUS_IN_PROGRESS \<or>
        xid_status bs c x = TRANSACTION_STATUS_SUB_COMMITTED)"

lemma keep_SUB_undecided:
  "old \<noteq> TRANSACTION_STATUS_COMMITTED \<Longrightarrow>
     keep_committed r TRANSACTION_STATUS_SUB_COMMITTED old = TRANSACTION_STATUS_SUB_COMMITTED"
  by (simp add: keep_committed_def)

lemma tree_prefix_status:
  assumes "undecided bs c xid (set subxids)" and "TransactionIdIsValid xid"
  obtains m where "m < length (tree_writes bs xid subxids TRANSACTION_STATUS_COMMITTED)"
    and "\<And>k st. st = apply_writes (keep_committed r)
        (take k (tree_writes bs xid subxids TRANSACTION_STATUS_COMMITTED)) (xid_status bs c) \<Longrightarrow>
      (if m < k
       then st xid = TRANSACTION_STATUS_COMMITTED \<and> (\<forall>x \<in> set subxids.
         st x = TRANSACTION_STATUS_COMMITTED \<or> st x = TRANSACTION_STATUS_SUB_COMMITTED)
       else st xid = TRANSACTION_STATUS_IN_PROGRESS \<and> (\<forall>x \<in> set subxids.
         st x = TRANSACTION_STATUS_IN_PROGRESS \<or> st x = TRANSACTION_STATUS_SUB_COMMITTED))"
proof -
  let ?C = TRANSACTION_STATUS_COMMITTED and ?S = TRANSACTION_STATUS_SUB_COMMITTED
  obtain pre subs where shape: "tree_writes bs xid subxids ?C =
      map (\<lambda>x. (x, ?S)) pre @ (xid, ?C) # map (\<lambda>x. (x, ?C)) subs"
    "set subs = set subxids" "set pre = (if ?C = ?C then set subxids else {})"
    by (rule tree_writes_shape [OF assms(2)])
  let ?f = "xid_status bs c" and ?ap = "apply_writes (keep_committed r)"
  have pre_writes: "?ap (map (\<lambda>x. (x, ?S)) ys) ?f x =
      (if x \<in> set ys then keep_committed r ?S (?f x) else ?f x)" for ys x
    by (rule apply_writes_map) (simp add: keep_committed_def)
  have f: "xid \<notin> set subxids" "?f xid = TRANSACTION_STATUS_IN_PROGRESS"
    "\<And>x. x \<in> set subxids \<Longrightarrow> ?f x = TRANSACTION_STATUS_IN_PROGRESS \<or> ?f x = ?S"
    using assms(1) by (auto simp: undecided_def)
  have sub: "?ap (map (\<lambda>x. (x, ?S)) ys) ?f x = (if x \<in> set ys then ?S else ?f x)"
    if "x \<in> set subxids" for ys x
    using f(3) [OF that] unfolding pre_writes by (auto simp: keep_SUB_undecided)
  show ?thesis
  proof (rule that [of "length pre"])
    show "length pre < length (tree_writes bs xid subxids ?C)" by (simp add: shape(1))
  next
    fix k st
    assume st: "st = ?ap (take k (tree_writes bs xid subxids ?C)) ?f"
    show "if length pre < k
       then st xid = ?C \<and> (\<forall>x \<in> set subxids. st x = ?C \<or> st x = ?S)
       else st xid = TRANSACTION_STATUS_IN_PROGRESS \<and>
         (\<forall>x \<in> set subxids. st x = TRANSACTION_STATUS_IN_PROGRESS \<or> st x = ?S)"
    proof (cases "length pre < k")
      case True
      then obtain j where "k = Suc (length pre + j)" using less_iff_Suc_add by auto
      then have "st = ?ap (map (\<lambda>x. (x, ?C)) (take j subs)) ((?ap (map (\<lambda>x. (x, ?S)) pre) ?f)(xid := ?C))"
        by (simp add: st shape(1) take_map apply_writes_append keep_committed_other)
      then have "st x = (if x \<in> set (take j subs) then ?C
          else ((?ap (map (\<lambda>x. (x, ?S)) pre) ?f)(xid := ?C)) x)" for x
        by (simp add: apply_writes_map keep_committed_other)
      moreover have "?ap (map (\<lambda>x. (x, ?S)) pre) ?f x = ?S" if "x \<in> set subxids" for x
        using sub [OF that] that shape(3) by simp
      ultimately show ?thesis using True f(1) by auto
    next
      case False
      then have "st = ?ap (map (\<lambda>x. (x, ?S)) (take k pre)) ?f"
        by (simp add: st shape(1) take_map)
      moreover have "set (take k pre) \<subseteq> set subxids"
        using set_take_subset [of k pre] shape(3) by simp
      moreover have "?ap (map (\<lambda>x. (x, ?S)) (take k pre)) ?f xid = ?f xid"
        using calculation(2) f(1) unfolding pre_writes by auto
      ultimately show ?thesis
        using False f sub [of _ "take k pre"] by auto
    qed
  qed
qed

text \<open>The tree hangs together in pg_subtrans, as seen by an observer with \<open>xmin\<close>.\<close>

definition linked_tree ::
  "nat \<Rightarrow> subtrans \<Rightarrow> TransactionId \<Rightarrow> TransactionId \<Rightarrow> TransactionId set \<Rightarrow> bool" where
  "linked_tree bs s xmin xid subs \<longleftrightarrow>
     TransactionIdIsNormal xid \<and> parents_ok bs s xmin (insert xid subs) \<and>
     (\<forall>x \<in> subs. TransactionIdIsNormal x \<and> \<not> TransactionIdPrecedes x xmin \<and>
        parent_of bs s x \<in> insert xid subs)"

lemma normal_valid: "TransactionIdIsNormal x \<Longrightarrow> TransactionIdIsValid x"
  by (auto simp: TransactionIdIsNormal_def TransactionIdIsValid_def pg_defs)

definition observes :: "nat \<Rightarrow> clog \<Rightarrow> subtrans \<Rightarrow> TransactionId \<Rightarrow> backend \<Rightarrow> bool" where
  "observes bs c s xmin ob \<longleftrightarrow> pg_clog ob = c \<and> pg_subtrans ob = s \<and> TransactionXmin ob = xmin \<and>
     cache_ok bs ob"

lemma linked_tree_logs_ok:
  assumes "linked_tree bs s xmin xid subs" and "wf_clog bs c"
    and "\<And>x. x \<in> insert xid subs \<Longrightarrow> clog_covers bs c x" and "observes bs c s xmin ob"
  shows "logs_ok bs ob (insert xid subs)"
  using assms by (auto simp: logs_ok_def linked_tree_def observes_def)

lemma observer_verdict:
  assumes tree: "linked_tree bs s xmin xid subs" and "wf_clog bs c"
    and "\<And>x. x \<in> insert xid subs \<Longrightarrow> clog_covers bs c x" and "observes bs c s xmin ob"
    and t: "t \<in> insert xid subs"
    and st: "if done
      then xid_status bs c xid = TRANSACTION_STATUS_COMMITTED \<and> (\<forall>x \<in> subs.
        xid_status bs c x = TRANSACTION_STATUS_COMMITTED \<or>
        xid_status bs c x = TRANSACTION_STATUS_SUB_COMMITTED)
      else xid_status bs c xid = TRANSACTION_STATUS_IN_PROGRESS \<and> (\<forall>x \<in> subs.
        xid_status bs c x = TRANSACTION_STATUS_IN_PROGRESS \<or>
        xid_status bs c x = TRANSACTION_STATUS_SUB_COMMITTED)"
  shows "\<exists>ob'. TransactionIdDidCommit bs t ob = Some (Inr (done, ob'))"
proof -
  let ?T = "insert xid subs" and ?par = "parent_of bs s"
  have normal: "x \<in> ?T \<Longrightarrow> TransactionIdIsNormal x" for x
    using tree by (auto simp: linked_tree_def)
  have ob: "pg_clog ob = c" "pg_subtrans ob = s" "TransactionXmin ob = xmin" "cache_ok bs ob"
    using assms(4) by (auto simp: observes_def)
  have status: "x \<in> ?T \<Longrightarrow> logged_status bs ob x = xid_status bs c x" for x
    using normal ob by (simp add: logged_status_def)
  have parents: "x \<in> subs \<Longrightarrow> TransactionIdIsNormal x \<and> \<not> TransactionIdPrecedes x xmin \<and>
      ?par x \<in> ?T \<and> ?par x \<noteq> InvalidTransactionId \<and> TransactionIdPrecedes (?par x) x" for x
    using tree normal [of "?par x"] normal_valid [of "?par x"]
    by (auto simp: linked_tree_def parents_ok_def TransactionIdIsValid_def)
  have "committed (logged_status bs ob) ?par xmin t = done"
  proof (cases "done")
    case True
    have "TransactionIdIsNormal xmin" using tree by (simp add: linked_tree_def parents_ok_def)
    moreover have "logged_status bs ob xid = TRANSACTION_STATUS_COMMITTED"
      using st True status [of xid] by simp
    moreover have "logged_status bs ob x = TRANSACTION_STATUS_COMMITTED \<or>
        logged_status bs ob x = TRANSACTION_STATUS_SUB_COMMITTED" if "x \<in> subs" for x
      using st True status [of x] that by simp
    ultimately have "committed (logged_status bs ob) ?par xmin t"
      by (intro committed_tree [where S = subs and xid = xid, OF _ _ _ parents t])
    with True show ?thesis by simp
  next
    case False
    have "logged_status bs ob x \<noteq> TRANSACTION_STATUS_COMMITTED" if "x \<in> ?T" for x
      using st False status [OF that] that by auto
    moreover have "?par x \<in> ?T"
      if "x \<in> ?T" "logged_status bs ob x = TRANSACTION_STATUS_SUB_COMMITTED" for x
      using st False status [OF that(1)] that parents [of x] by auto
    ultimately show ?thesis
      using False not_committed_tree [of "logged_status bs ob" ?par xmin t ?T] t by blast
  qed
  moreover have "logs_ok bs ob ?T"
    by (rule linked_tree_logs_ok [OF tree assms(2-4)])
  ultimately show ?thesis
    using DidCommit_ok [of bs ob ?T t] ob t normal normal_valid by auto
qed

lemma commit_tree_atomic:
  assumes tree: "linked_tree bs s xmin xid (set subxids)" and wf: "wf_clog bs c"
    and covers: "\<And>x. x \<in> insert xid (set subxids) \<Longrightarrow> clog_covers bs c x"
    and "undecided bs c xid (set subxids)"
  shows "\<exists>m < length (tree_writes bs xid subxids TRANSACTION_STATUS_COMMITTED). \<forall>k. \<exists>c'.
    foldM (clog_write bs lsn) (take k (tree_writes bs xid subxids TRANSACTION_STATUS_COMMITTED)) c
      = Inr c' \<and>
    (\<forall>ob. observes bs c' s xmin ob \<longrightarrow> (\<forall>t \<in> insert xid (set subxids).
       \<exists>ob'. TransactionIdDidCommit bs t ob = Some (Inr (m < k, ob'))))"
proof -
  let ?ws = "tree_writes bs xid subxids TRANSACTION_STATUS_COMMITTED"
  let ?st = "\<lambda>k. apply_writes (keep_committed (InRecovery c)) (take k ?ws) (xid_status bs c)"
  have valid: "TransactionIdIsValid xid"
    using tree normal_valid by (auto simp: linked_tree_def)
  obtain m where m: "m < length ?ws"
    "\<And>k. if m < k
       then ?st k xid = TRANSACTION_STATUS_COMMITTED \<and> (\<forall>x \<in> set subxids.
         ?st k x = TRANSACTION_STATUS_COMMITTED \<or> ?st k x = TRANSACTION_STATUS_SUB_COMMITTED)
       else ?st k xid = TRANSACTION_STATUS_IN_PROGRESS \<and> (\<forall>x \<in> set subxids.
         ?st k x = TRANSACTION_STATUS_IN_PROGRESS \<or> ?st k x = TRANSACTION_STATUS_SUB_COMMITTED)"
    using tree_prefix_status [OF assms(4) valid] by metis
  have "\<exists>c'. foldM (clog_write bs lsn) (take k ?ws) c = Inr c' \<and>
      (\<forall>ob. observes bs c' s xmin ob \<longrightarrow> (\<forall>t \<in> insert xid (set subxids).
         \<exists>ob'. TransactionIdDidCommit bs t ob = Some (Inr (m < k, ob'))))" for k
  proof -
    have fin: "final_status TRANSACTION_STATUS_COMMITTED" by (simp add: final_status_def)
    have ok: "\<And>x v. (x, v) \<in> set (take k ?ws) \<Longrightarrow> clog_covers bs c x \<and> valid_status v"
      using tree_writes_in(1) [OF valid fin] covers by (meson in_set_takeD)
    obtain c' where c': "foldM (clog_write bs lsn) (take k ?ws) c = Inr c'" "wf_clog bs c'"
      "\<forall>y. clog_covers bs c y \<longrightarrow> clog_covers bs c' y" "xid_status bs c' = ?st k"
      using clog_log.writes_ok [where ws = "take k ?ws", OF wf ok] by blast
    have "\<exists>ob'. TransactionIdDidCommit bs t ob = Some (Inr (m < k, ob'))"
      if "observes bs c' s xmin ob" "t \<in> insert xid (set subxids)" for ob t
      using m(2) [of k] c'(3) covers
      by (intro observer_verdict [OF tree c'(2) _ that]) (auto simp: c'(4))
    with c'(1) show ?thesis by blast
  qed
  with m(1) show ?thesis by blast
qed

text \<open>The same for the states that the run of the code goes through.\<close>

lemma commit_run_atomic:
  assumes "linked_tree bs s xmin xid (set subxids)" and "wf_clog bs c"
    and "\<And>x. x \<in> insert xid (set subxids) \<Longrightarrow> clog_covers bs c x"
    and "undecided bs c xid (set subxids)"
  shows "\<exists>cs c'. TransactionIdSetTreeStatus_run bs xid subxids TRANSACTION_STATUS_COMMITTED lsn c =
      Inr (cs, c') \<and> (c # cs) ! length cs = c' \<and>
    (\<exists>m < length cs. \<forall>k \<le> length cs. \<forall>ob. observes bs ((c # cs) ! k) s xmin ob \<longrightarrow>
       (\<forall>t \<in> insert xid (set subxids). \<exists>ob'. TransactionIdDidCommit bs t ob = Some (Inr (m < k, ob'))))"
proof -
  let ?ws = "tree_writes bs xid subxids TRANSACTION_STATUS_COMMITTED"
  from commit_tree_atomic [OF assms]
  obtain m where m: "m < length ?ws"
    "\<And>k. \<exists>c'. foldM (clog_write bs lsn) (take k ?ws) c = Inr c' \<and>
       (\<forall>ob. observes bs c' s xmin ob \<longrightarrow> (\<forall>t \<in> insert xid (set subxids).
          \<exists>ob'. TransactionIdDidCommit bs t ob = Some (Inr (m < k, ob'))))"
    by blast
  obtain d where d: "foldM (clog_write bs lsn) ?ws c = Inr d"
    using m(2) [of "length ?ws"] by auto
  then obtain cs c' where run: "write_run bs lsn ?ws c = Inr (cs, c')"
    using write_run_final [of bs lsn ?ws c] by (cases "write_run bs lsn ?ws c") auto
  note st = write_run_states [OF run]
  have "TransactionIdIsValid xid"
    using assms(1) normal_valid by (simp add: linked_tree_def)
  moreover have "\<forall>ob. observes bs ((c # cs) ! k) s xmin ob \<longrightarrow> (\<forall>t \<in> insert xid (set subxids).
      \<exists>ob'. TransactionIdDidCommit bs t ob = Some (Inr (m < k, ob')))" if "k \<le> length cs" for k
    using m(2) [of k] st that by auto
  ultimately show ?thesis
    using run m(1) st by (auto simp: SetTreeStatus_run)
qed

end
