(* ===== verification/Tqual.thy ===== *)
theory Tqual
  imports Htup Transam
begin

section \<open>Tuple visibility (utils/time/tqual.c)\<close>

text \<open>
  The functions that decide whether a tuple is visible. What they ask of the rest of the
  server is the environment record: which transactions are the backend's own or in
  progress, which have committed, where a commit record is and whether it still has to be
  flushed, the members of multixacts, the combo command ids. A function returns its answer
  and the tuple header with the hint bits it set.
\<close>

subsection \<open>The environment\<close>

record xact_env =
  IsCurrent :: "TransactionId \<Rightarrow> bool"
  IsInProgress :: "TransactionId \<Rightarrow> bool"
  DidCommit :: "TransactionId \<Rightarrow> bool"
  CommitLSN :: "TransactionId \<Rightarrow> XLogRecPtr"
  XLogNeedsFlush :: "XLogRecPtr \<Rightarrow> bool"
  BufferIsPermanent :: bool
  MultiUpdateXid :: "TransactionId \<Rightarrow> TransactionId"
  MultiIsRunning :: "TransactionId \<Rightarrow> bool"
  MultiRunsElsewhere :: "TransactionId \<Rightarrow> bool"
  GetTopmost :: "TransactionId \<Rightarrow> TransactionId"
  combos :: combo_state

record Snapshot =
  snap_xmin :: TransactionId
  snap_xmax :: TransactionId
  snap_xip :: "TransactionId list"
  snap_subxip :: "TransactionId list"
  suboverflowed :: bool
  takenDuringRecovery :: bool
  snap_curcid :: CommandId

datatype HTSU_Result =
    HeapTupleMayBeUpdated
  | HeapTupleInvisible
  | HeapTupleSelfUpdated
  | HeapTupleUpdated
  | HeapTupleBeingUpdated

datatype HTSV_Result =
    HEAPTUPLE_DEAD
  | HEAPTUPLE_LIVE
  | HEAPTUPLE_RECENTLY_DEAD
  | HEAPTUPLE_INSERT_IN_PROGRESS
  | HEAPTUPLE_DELETE_IN_PROGRESS

definition SetHintBits ::
  "xact_env \<Rightarrow> uint16 \<Rightarrow> TransactionId \<Rightarrow> HeapTupleHeader \<Rightarrow> HeapTupleHeader" where
  "SetHintBits e infomask xid t =
     (if TransactionIdIsValid xid \<and> XLogNeedsFlush e (CommitLSN e xid) \<and> BufferIsPermanent e then t
      else add_flag infomask t)"

definition HeapTupleGetUpdateXid :: "xact_env \<Rightarrow> HeapTupleHeader \<Rightarrow> TransactionId" where
  "HeapTupleGetUpdateXid e t = MultiUpdateXid e (t_xmax t)"

definition HeapTupleHeaderGetUpdateXid :: "xact_env \<Rightarrow> HeapTupleHeader \<Rightarrow> TransactionId" where
  "HeapTupleHeaderGetUpdateXid e t =
     (if \<not> has t HEAP_XMAX_INVALID \<and> has t HEAP_XMAX_IS_MULTI \<and> \<not> has t HEAP_XMAX_LOCK_ONLY
      then HeapTupleGetUpdateXid e t else t_xmax t)"

abbreviation locked_only :: "HeapTupleHeader \<Rightarrow> bool" where
  "locked_only t \<equiv> HEAP_XMAX_IS_LOCKED_ONLY (t_infomask t)"

definition XidInMVCCSnapshot :: "xact_env \<Rightarrow> TransactionId \<Rightarrow> Snapshot \<Rightarrow> bool" where
  "XidInMVCCSnapshot e xid snapshot =
     (if TransactionIdPrecedes xid (snap_xmin snapshot) then False
      else if TransactionIdFollowsOrEquals xid (snap_xmax snapshot) then True
      else if \<not> takenDuringRecovery snapshot then
        (if \<not> suboverflowed snapshot then
           (if list_ex (\<lambda>x. xid = x) (snap_subxip snapshot) then True
            else list_ex (\<lambda>x. xid = x) (snap_xip snapshot))
         else
           (let xid = GetTopmost e xid
            in if TransactionIdPrecedes xid (snap_xmin snapshot) then False
               else list_ex (\<lambda>x. xid = x) (snap_xip snapshot)))
      else if suboverflowed snapshot then
        (let xid = GetTopmost e xid
         in if TransactionIdPrecedes xid (snap_xmin snapshot) then False
            else list_ex (\<lambda>x. xid = x) (snap_subxip snapshot))
      else list_ex (\<lambda>x. xid = x) (snap_subxip snapshot))"

definition HeapTupleHeaderIsOnlyLocked :: "xact_env \<Rightarrow> HeapTupleHeader \<Rightarrow> bool" where
  "HeapTupleHeaderIsOnlyLocked e t =
     (if has t HEAP_XMAX_INVALID then True
      else if has t HEAP_XMAX_LOCK_ONLY then True
      else if \<not> TransactionIdIsValid (t_xmax t) then True
      else if \<not> has t HEAP_XMAX_IS_MULTI then False
      else (let xmax = HeapTupleGetUpdateXid e t
            in if IsCurrent e xmax then False
               else if IsInProgress e xmax then False
               else if DidCommit e xmax then False
               else True))"

subsection \<open>The inserting transaction\<close>

text \<open>
  A check of xmin ends the function with an answer and the tuple, \<open>Inl\<close>, or lets it go on
  to xmax, \<open>Inr\<close>. Tuples moved by an old-style VACUUM are treated alike by all functions
  but \<open>HeapTupleSatisfiesVacuum\<close>; \<open>invis\<close> is the function's answer for an invisible tuple.
\<close>

type_synonym 'r step = "('r \<times> HeapTupleHeader) + HeapTupleHeader"

definition moved_off_check :: "xact_env \<Rightarrow> 'r \<Rightarrow> HeapTupleHeader \<Rightarrow> 'r step" where
  "moved_off_check e invis t =
     (let xvac = HeapTupleHeaderGetXvac t
      in if IsCurrent e xvac then Inl (invis, t)
         else if \<not> IsInProgress e xvac then
           (if DidCommit e xvac
            then Inl (invis, SetHintBits e HEAP_XMIN_INVALID InvalidTransactionId t)
            else Inr (SetHintBits e HEAP_XMIN_COMMITTED InvalidTransactionId t))
         else Inr t)"

definition moved_in_check :: "xact_env \<Rightarrow> 'r \<Rightarrow> HeapTupleHeader \<Rightarrow> 'r step" where
  "moved_in_check e invis t =
     (let xvac = HeapTupleHeaderGetXvac t
      in if \<not> IsCurrent e xvac then
           (if IsInProgress e xvac then Inl (invis, t)
            else if DidCommit e xvac
            then Inr (SetHintBits e HEAP_XMIN_COMMITTED InvalidTransactionId t)
            else Inl (invis, SetHintBits e HEAP_XMIN_INVALID InvalidTransactionId t))
         else Inr t)"

text \<open>
  The last branches for a transaction that is not the backend's own: \<open>running\<close> is the answer
  while it is in progress.
\<close>

definition other_xmin_check :: "xact_env \<Rightarrow> 'r \<Rightarrow> 'r \<Rightarrow> HeapTupleHeader \<Rightarrow> 'r step" where
  "other_xmin_check e running invis t =
     (if IsInProgress e (t_xmin t) then Inl (running, t)
      else if DidCommit e (t_xmin t)
      then Inr (SetHintBits e HEAP_XMIN_COMMITTED (t_xmin t) t)
      else Inl (invis, SetHintBits e HEAP_XMIN_INVALID InvalidTransactionId t))"

subsection \<open>HeapTupleSatisfiesSelf\<close>

text \<open>The branch for a tuple that the backend's own transaction inserted.\<close>

definition Self_own :: "xact_env \<Rightarrow> HeapTupleHeader \<Rightarrow> bool \<times> HeapTupleHeader" where
  "Self_own e t =
     (if has t HEAP_XMAX_INVALID then (True, t)
      else if locked_only t then (True, t)
      else if has t HEAP_XMAX_IS_MULTI then
        (let xmax = HeapTupleGetUpdateXid e t
         in if \<not> IsCurrent e xmax then (True, t) else (False, t))
      else if \<not> IsCurrent e (t_xmax t)
      then (True, SetHintBits e HEAP_XMAX_INVALID InvalidTransactionId t)
      else (False, t))"

definition Self_xmin :: "xact_env \<Rightarrow> HeapTupleHeader \<Rightarrow> bool step" where
  "Self_xmin e t =
     (if \<not> HeapTupleHeaderXminCommitted t then
        (if HeapTupleHeaderXminInvalid t then Inl (False, t)
         else if has t HEAP_MOVED_OFF then moved_off_check e False t
         else if has t HEAP_MOVED_IN then moved_in_check e False t
         else if IsCurrent e (t_xmin t) then Inl (Self_own e t)
         else other_xmin_check e False False t)
      else Inr t)"

definition Self_xmax :: "xact_env \<Rightarrow> HeapTupleHeader \<Rightarrow> bool \<times> HeapTupleHeader" where
  "Self_xmax e t =
     (if has t HEAP_XMAX_INVALID then (True, t)
      else if has t HEAP_XMAX_COMMITTED then (if locked_only t then (True, t) else (False, t))
      else if has t HEAP_XMAX_IS_MULTI then
        (if locked_only t then (True, t)
         else (let xmax = HeapTupleGetUpdateXid e t
               in if IsCurrent e xmax then (False, t)
                  else if IsInProgress e xmax then (True, t)
                  else if DidCommit e xmax then (False, t)
                  else (True, t)))
      else if IsCurrent e (t_xmax t) then (if locked_only t then (True, t) else (False, t))
      else if IsInProgress e (t_xmax t) then (True, t)
      else if \<not> DidCommit e (t_xmax t)
      then (True, SetHintBits e HEAP_XMAX_INVALID InvalidTransactionId t)
      else if locked_only t then (True, SetHintBits e HEAP_XMAX_INVALID InvalidTransactionId t)
      else (False, SetHintBits e HEAP_XMAX_COMMITTED (t_xmax t) t))"

definition HeapTupleSatisfiesSelf :: "xact_env \<Rightarrow> HeapTupleHeader \<Rightarrow> bool \<times> HeapTupleHeader" where
  "HeapTupleSatisfiesSelf e t =
     (case Self_xmin e t of Inl r \<Rightarrow> r | Inr t \<Rightarrow> Self_xmax e t)"

definition HeapTupleSatisfiesAny :: "HeapTupleHeader \<Rightarrow> bool \<times> HeapTupleHeader" where
  "HeapTupleSatisfiesAny t = (True, t)"

definition HeapTupleSatisfiesToast :: "xact_env \<Rightarrow> HeapTupleHeader \<Rightarrow> bool \<times> HeapTupleHeader" where
  "HeapTupleSatisfiesToast e t =
     (let r = (if \<not> HeapTupleHeaderXminCommitted t then
                 (if HeapTupleHeaderXminInvalid t then Inl (False, t)
                  else if has t HEAP_MOVED_OFF then moved_off_check e False t
                  else if has t HEAP_MOVED_IN then moved_in_check e False t
                  else Inr t)
               else Inr t)
      in case r of Inl r \<Rightarrow> r | Inr t \<Rightarrow> (True, t))"

subsection \<open>HeapTupleSatisfiesUpdate\<close>

definition Update_own :: "xact_env \<Rightarrow> CommandId \<Rightarrow> HeapTupleHeader \<Rightarrow> HTSU_Result \<times> HeapTupleHeader" where
  "Update_own e curcid t =
     (if HeapTupleHeaderGetCmin (combos e) t \<ge> curcid then (HeapTupleInvisible, t)
      else if has t HEAP_XMAX_INVALID then (HeapTupleMayBeUpdated, t)
      else if locked_only t then
        (let xmax = t_xmax t
         in if has t HEAP_XMAX_IS_MULTI then
              (if MultiRunsElsewhere e xmax then (HeapTupleBeingUpdated, t)
               else (HeapTupleMayBeUpdated, t))
            else if \<not> IsInProgress e xmax then (HeapTupleMayBeUpdated, t)
            else if \<not> IsCurrent e xmax then (HeapTupleBeingUpdated, t)
            else (HeapTupleMayBeUpdated, t))
      else if has t HEAP_XMAX_IS_MULTI then
        (let xmax = HeapTupleGetUpdateXid e t
         in if \<not> IsCurrent e xmax then
              (if MultiRunsElsewhere e (t_xmax t) then (HeapTupleBeingUpdated, t)
               else (HeapTupleMayBeUpdated, t))
            else if HeapTupleHeaderGetCmax (combos e) t \<ge> curcid then (HeapTupleSelfUpdated, t)
            else (HeapTupleInvisible, t))
      else if \<not> IsCurrent e (t_xmax t)
      then (HeapTupleMayBeUpdated, SetHintBits e HEAP_XMAX_INVALID InvalidTransactionId t)
      else if HeapTupleHeaderGetCmax (combos e) t \<ge> curcid then (HeapTupleSelfUpdated, t)
      else (HeapTupleInvisible, t))"

definition Update_xmin :: "xact_env \<Rightarrow> CommandId \<Rightarrow> HeapTupleHeader \<Rightarrow> HTSU_Result step" where
  "Update_xmin e curcid t =
     (if \<not> HeapTupleHeaderXminCommitted t then
        (if HeapTupleHeaderXminInvalid t then Inl (HeapTupleInvisible, t)
         else if has t HEAP_MOVED_OFF then moved_off_check e HeapTupleInvisible t
         else if has t HEAP_MOVED_IN then moved_in_check e HeapTupleInvisible t
         else if IsCurrent e (t_xmin t) then Inl (Update_own e curcid t)
         else other_xmin_check e HeapTupleInvisible HeapTupleInvisible t)
      else Inr t)"

definition Update_multi :: "xact_env \<Rightarrow> CommandId \<Rightarrow> HeapTupleHeader \<Rightarrow> HTSU_Result \<times> HeapTupleHeader" where
  "Update_multi e curcid t =
     (if locked_only t then
        (if has t (HEAP_XMAX_EXCL_LOCK OR HEAP_XMAX_KEYSHR_LOCK) \<and> MultiIsRunning e (t_xmax t)
         then (HeapTupleBeingUpdated, t)
         else (HeapTupleMayBeUpdated, SetHintBits e HEAP_XMAX_INVALID InvalidTransactionId t))
      else
        (let xmax = HeapTupleGetUpdateXid e t
         in if IsCurrent e xmax then
              (if HeapTupleHeaderGetCmax (combos e) t \<ge> curcid then (HeapTupleSelfUpdated, t)
               else (HeapTupleInvisible, t))
            else if IsInProgress e xmax then (HeapTupleBeingUpdated, t)
            else if DidCommit e xmax then (HeapTupleUpdated, t)
            else if \<not> MultiIsRunning e (t_xmax t)
            then (HeapTupleMayBeUpdated, SetHintBits e HEAP_XMAX_INVALID InvalidTransactionId t)
            else (HeapTupleBeingUpdated, t)))"

definition Update_xmax :: "xact_env \<Rightarrow> CommandId \<Rightarrow> HeapTupleHeader \<Rightarrow> HTSU_Result \<times> HeapTupleHeader" where
  "Update_xmax e curcid t =
     (if has t HEAP_XMAX_INVALID then (HeapTupleMayBeUpdated, t)
      else if has t HEAP_XMAX_COMMITTED then
        (if locked_only t then (HeapTupleMayBeUpdated, t) else (HeapTupleUpdated, t))
      else if has t HEAP_XMAX_IS_MULTI then Update_multi e curcid t
      else if IsCurrent e (t_xmax t) then
        (if locked_only t then (HeapTupleMayBeUpdated, t)
         else if HeapTupleHeaderGetCmax (combos e) t \<ge> curcid then (HeapTupleSelfUpdated, t)
         else (HeapTupleInvisible, t))
      else if IsInProgress e (t_xmax t) then (HeapTupleBeingUpdated, t)
      else if \<not> DidCommit e (t_xmax t)
      then (HeapTupleMayBeUpdated, SetHintBits e HEAP_XMAX_INVALID InvalidTransactionId t)
      else if locked_only t
      then (HeapTupleMayBeUpdated, SetHintBits e HEAP_XMAX_INVALID InvalidTransactionId t)
      else (HeapTupleUpdated, SetHintBits e HEAP_XMAX_COMMITTED (t_xmax t) t))"

definition HeapTupleSatisfiesUpdate ::
  "xact_env \<Rightarrow> CommandId \<Rightarrow> HeapTupleHeader \<Rightarrow> HTSU_Result \<times> HeapTupleHeader" where
  "HeapTupleSatisfiesUpdate e curcid t =
     (case Update_xmin e curcid t of Inl r \<Rightarrow> r | Inr t \<Rightarrow> Update_xmax e curcid t)"

subsection \<open>HeapTupleSatisfiesDirty\<close>

text \<open>
  The snapshot is an output: its \<open>xmin\<close> and \<open>xmax\<close> name the transactions in progress that
  inserted or deleted the tuple.
\<close>

definition Dirty_xmin ::
  "xact_env \<Rightarrow> Snapshot \<Rightarrow> HeapTupleHeader \<Rightarrow> (bool \<times> Snapshot) step" where
  "Dirty_xmin e snapshot t =
     (if \<not> HeapTupleHeaderXminCommitted t then
        (if HeapTupleHeaderXminInvalid t then Inl ((False, snapshot), t)
         else if has t HEAP_MOVED_OFF then moved_off_check e (False, snapshot) t
         else if has t HEAP_MOVED_IN then moved_in_check e (False, snapshot) t
         else if IsCurrent e (t_xmin t)
         then Inl ((fst (Self_own e t), snapshot), snd (Self_own e t))
         else other_xmin_check e (True, snapshot\<lparr>snap_xmin := t_xmin t\<rparr>) (False, snapshot) t)
      else Inr t)"

definition Dirty_xmax ::
  "xact_env \<Rightarrow> Snapshot \<Rightarrow> HeapTupleHeader \<Rightarrow> (bool \<times> Snapshot) \<times> HeapTupleHeader" where
  "Dirty_xmax e snapshot t =
     (if has t HEAP_XMAX_INVALID then ((True, snapshot), t)
      else if has t HEAP_XMAX_COMMITTED then
        (if locked_only t then ((True, snapshot), t) else ((False, snapshot), t))
      else if has t HEAP_XMAX_IS_MULTI then
        (if locked_only t then ((True, snapshot), t)
         else (let xmax = HeapTupleGetUpdateXid e t
               in if IsCurrent e xmax then ((False, snapshot), t)
                  else if IsInProgress e xmax then ((True, snapshot\<lparr>snap_xmax := xmax\<rparr>), t)
                  else if DidCommit e xmax then ((False, snapshot), t)
                  else ((True, snapshot), t)))
      else if IsCurrent e (t_xmax t) then
        (if locked_only t then ((True, snapshot), t) else ((False, snapshot), t))
      else if IsInProgress e (t_xmax t) then
        ((True, if \<not> locked_only t then snapshot\<lparr>snap_xmax := t_xmax t\<rparr> else snapshot), t)
      else if \<not> DidCommit e (t_xmax t)
      then ((True, snapshot), SetHintBits e HEAP_XMAX_INVALID InvalidTransactionId t)
      else if locked_only t
      then ((True, snapshot), SetHintBits e HEAP_XMAX_INVALID InvalidTransactionId t)
      else ((False, snapshot), SetHintBits e HEAP_XMAX_COMMITTED (t_xmax t) t))"

definition HeapTupleSatisfiesDirty ::
  "xact_env \<Rightarrow> Snapshot \<Rightarrow> HeapTupleHeader \<Rightarrow> (bool \<times> Snapshot) \<times> HeapTupleHeader" where
  "HeapTupleSatisfiesDirty e snapshot t =
     (let snapshot = snapshot\<lparr>snap_xmin := InvalidTransactionId, snap_xmax := InvalidTransactionId\<rparr>
      in case Dirty_xmin e snapshot t of Inl r \<Rightarrow> r | Inr t \<Rightarrow> Dirty_xmax e snapshot t)"

subsection \<open>HeapTupleSatisfiesMVCC\<close>

definition MVCC_own ::
  "xact_env \<Rightarrow> Snapshot \<Rightarrow> HeapTupleHeader \<Rightarrow> bool \<times> HeapTupleHeader" where
  "MVCC_own e snapshot t =
     (if HeapTupleHeaderGetCmin (combos e) t \<ge> snap_curcid snapshot then (False, t)
      else if has t HEAP_XMAX_INVALID then (True, t)
      else if locked_only t then (True, t)
      else if has t HEAP_XMAX_IS_MULTI then
        (let xmax = HeapTupleGetUpdateXid e t
         in if \<not> IsCurrent e xmax then (True, t)
            else if HeapTupleHeaderGetCmax (combos e) t \<ge> snap_curcid snapshot then (True, t)
            else (False, t))
      else if \<not> IsCurrent e (t_xmax t)
      then (True, SetHintBits e HEAP_XMAX_INVALID InvalidTransactionId t)
      else if HeapTupleHeaderGetCmax (combos e) t \<ge> snap_curcid snapshot then (True, t)
      else (False, t))"

definition MVCC_xmin :: "xact_env \<Rightarrow> Snapshot \<Rightarrow> HeapTupleHeader \<Rightarrow> bool step" where
  "MVCC_xmin e snapshot t =
     (if \<not> HeapTupleHeaderXminCommitted t then
        (if HeapTupleHeaderXminInvalid t then Inl (False, t)
         else if has t HEAP_MOVED_OFF then moved_off_check e False t
         else if has t HEAP_MOVED_IN then moved_in_check e False t
         else if IsCurrent e (t_xmin t) then Inl (MVCC_own e snapshot t)
         else other_xmin_check e False False t)
      else Inr t)"

definition MVCC_xmax ::
  "xact_env \<Rightarrow> Snapshot \<Rightarrow> HeapTupleHeader \<Rightarrow> bool \<times> HeapTupleHeader" where
  "MVCC_xmax e snapshot t =
     (if \<not> HeapTupleHeaderXminFrozen t \<and> XidInMVCCSnapshot e (t_xmin t) snapshot then (False, t)
      else if has t HEAP_XMAX_INVALID then (True, t)
      else if locked_only t then (True, t)
      else if has t HEAP_XMAX_IS_MULTI then
        (let xmax = HeapTupleGetUpdateXid e t
         in if IsCurrent e xmax then
              (if HeapTupleHeaderGetCmax (combos e) t \<ge> snap_curcid snapshot then (True, t)
               else (False, t))
            else if IsInProgress e xmax then (True, t)
            else if DidCommit e xmax then
              (if XidInMVCCSnapshot e xmax snapshot then (True, t) else (False, t))
            else (True, t))
      else
        (let r = (if \<not> has t HEAP_XMAX_COMMITTED then
                    (if IsCurrent e (t_xmax t) then
                       Inl (if HeapTupleHeaderGetCmax (combos e) t \<ge> snap_curcid snapshot
                            then (True, t) else (False, t))
                     else if IsInProgress e (t_xmax t) then Inl (True, t)
                     else if \<not> DidCommit e (t_xmax t)
                     then Inl (True, SetHintBits e HEAP_XMAX_INVALID InvalidTransactionId t)
                     else Inr (SetHintBits e HEAP_XMAX_COMMITTED (t_xmax t) t))
                  else Inr t)
         in case r of
              Inl r \<Rightarrow> r
            | Inr t \<Rightarrow> (if XidInMVCCSnapshot e (t_xmax t) snapshot then (True, t) else (False, t))))"

definition HeapTupleSatisfiesMVCC ::
  "xact_env \<Rightarrow> Snapshot \<Rightarrow> HeapTupleHeader \<Rightarrow> bool \<times> HeapTupleHeader" where
  "HeapTupleSatisfiesMVCC e snapshot t =
     (case MVCC_xmin e snapshot t of Inl r \<Rightarrow> r | Inr t \<Rightarrow> MVCC_xmax e snapshot t)"

subsection \<open>HeapTupleSatisfiesVacuum and HeapTupleIsSurelyDead\<close>

definition Vacuum_own :: "xact_env \<Rightarrow> HeapTupleHeader \<Rightarrow> HTSV_Result \<times> HeapTupleHeader" where
  "Vacuum_own e t =
     (if has t HEAP_XMAX_INVALID then (HEAPTUPLE_INSERT_IN_PROGRESS, t)
      else if locked_only t \<or> HeapTupleHeaderIsOnlyLocked e t then (HEAPTUPLE_INSERT_IN_PROGRESS, t)
      else if IsCurrent e (HeapTupleHeaderGetUpdateXid e t) then (HEAPTUPLE_DELETE_IN_PROGRESS, t)
      else (HEAPTUPLE_INSERT_IN_PROGRESS, t))"

definition Vacuum_xmin :: "xact_env \<Rightarrow> HeapTupleHeader \<Rightarrow> HTSV_Result step" where
  "Vacuum_xmin e t =
     (if \<not> HeapTupleHeaderXminCommitted t then
        (if HeapTupleHeaderXminInvalid t then Inl (HEAPTUPLE_DEAD, t)
         else if has t HEAP_MOVED_OFF then
           (let xvac = HeapTupleHeaderGetXvac t
            in if IsCurrent e xvac then Inl (HEAPTUPLE_DELETE_IN_PROGRESS, t)
               else if IsInProgress e xvac then Inl (HEAPTUPLE_DELETE_IN_PROGRESS, t)
               else if DidCommit e xvac
               then Inl (HEAPTUPLE_DEAD, SetHintBits e HEAP_XMIN_INVALID InvalidTransactionId t)
               else Inr (SetHintBits e HEAP_XMIN_COMMITTED InvalidTransactionId t))
         else if has t HEAP_MOVED_IN then
           (let xvac = HeapTupleHeaderGetXvac t
            in if IsCurrent e xvac then Inl (HEAPTUPLE_INSERT_IN_PROGRESS, t)
               else if IsInProgress e xvac then Inl (HEAPTUPLE_INSERT_IN_PROGRESS, t)
               else if DidCommit e xvac
               then Inr (SetHintBits e HEAP_XMIN_COMMITTED InvalidTransactionId t)
               else Inl (HEAPTUPLE_DEAD, SetHintBits e HEAP_XMIN_INVALID InvalidTransactionId t))
         else if IsCurrent e (t_xmin t) then Inl (Vacuum_own e t)
         else other_xmin_check e HEAPTUPLE_INSERT_IN_PROGRESS HEAPTUPLE_DEAD t)
      else Inr t)"

definition Vacuum_locked :: "xact_env \<Rightarrow> HeapTupleHeader \<Rightarrow> HTSV_Result \<times> HeapTupleHeader" where
  "Vacuum_locked e t =
     (if \<not> has t HEAP_XMAX_COMMITTED then
        (if has t HEAP_XMAX_IS_MULTI then
           (if has t (HEAP_XMAX_EXCL_LOCK OR HEAP_XMAX_KEYSHR_LOCK) \<and> MultiIsRunning e (t_xmax t)
            then (HEAPTUPLE_LIVE, t)
            else (HEAPTUPLE_LIVE, SetHintBits e HEAP_XMAX_INVALID InvalidTransactionId t))
         else if IsInProgress e (t_xmax t) then (HEAPTUPLE_LIVE, t)
         else (HEAPTUPLE_LIVE, SetHintBits e HEAP_XMAX_INVALID InvalidTransactionId t))
      else (HEAPTUPLE_LIVE, t))"

definition Vacuum_multi ::
  "xact_env \<Rightarrow> TransactionId \<Rightarrow> HeapTupleHeader \<Rightarrow> HTSV_Result \<times> HeapTupleHeader" where
  "Vacuum_multi e OldestXmin t =
     (if MultiIsRunning e (t_xmax t) then
        (let xmax = HeapTupleGetUpdateXid e t
         in if IsInProgress e xmax then (HEAPTUPLE_DELETE_IN_PROGRESS, t)
            else if DidCommit e xmax then (HEAPTUPLE_RECENTLY_DEAD, t)
            else (HEAPTUPLE_LIVE, t))
      else
        (let xmax = HeapTupleGetUpdateXid e t
         in if DidCommit e xmax then
              (if \<not> TransactionIdPrecedes xmax OldestXmin then (HEAPTUPLE_RECENTLY_DEAD, t)
               else (HEAPTUPLE_DEAD, t))
            else (HEAPTUPLE_LIVE, SetHintBits e HEAP_XMAX_INVALID InvalidTransactionId t)))"

definition Vacuum_xmax ::
  "xact_env \<Rightarrow> TransactionId \<Rightarrow> HeapTupleHeader \<Rightarrow> HTSV_Result \<times> HeapTupleHeader" where
  "Vacuum_xmax e OldestXmin t =
     (if has t HEAP_XMAX_INVALID then (HEAPTUPLE_LIVE, t)
      else if locked_only t then Vacuum_locked e t
      else if has t HEAP_XMAX_IS_MULTI then Vacuum_multi e OldestXmin t
      else
        (let r = (if \<not> has t HEAP_XMAX_COMMITTED then
                    (if IsInProgress e (t_xmax t) then Inl (HEAPTUPLE_DELETE_IN_PROGRESS, t)
                     else if DidCommit e (t_xmax t)
                     then Inr (SetHintBits e HEAP_XMAX_COMMITTED (t_xmax t) t)
                     else Inl (HEAPTUPLE_LIVE, SetHintBits e HEAP_XMAX_INVALID InvalidTransactionId t))
                  else Inr t)
         in case r of
              Inl r \<Rightarrow> r
            | Inr t \<Rightarrow> (if \<not> TransactionIdPrecedes (t_xmax t) OldestXmin then (HEAPTUPLE_RECENTLY_DEAD, t)
                        else (HEAPTUPLE_DEAD, t))))"

definition HeapTupleSatisfiesVacuum ::
  "xact_env \<Rightarrow> TransactionId \<Rightarrow> HeapTupleHeader \<Rightarrow> HTSV_Result \<times> HeapTupleHeader" where
  "HeapTupleSatisfiesVacuum e OldestXmin t =
     (case Vacuum_xmin e t of Inl r \<Rightarrow> r | Inr t \<Rightarrow> Vacuum_xmax e OldestXmin t)"

definition HeapTupleIsSurelyDead :: "HeapTupleHeader \<Rightarrow> TransactionId \<Rightarrow> bool" where
  "HeapTupleIsSurelyDead t OldestXmin =
     (if \<not> HeapTupleHeaderXminCommitted t then HeapTupleHeaderXminInvalid t
      else if has t HEAP_XMAX_INVALID then False
      else if locked_only t then False
      else if has t HEAP_XMAX_IS_MULTI then False
      else if \<not> has t HEAP_XMAX_COMMITTED then False
      else TransactionIdPrecedes (t_xmax t) OldestXmin)"

end
