(* ===== verification/Visibility.thy ===== *)
theory Visibility
  imports Tqual
begin

section \<open>What visibility means, and that hint bits never change it\<close>

text \<open>
  The specification looks at the transactions and at the tuple's xmin, xmax, lock and move
  flags, never at the four hint bits. The locale \<open>xact_world\<close> holds the laws the visibility
  functions rely on; inside it, every function of tqual.c is shown to answer by the
  specification and to set only true, durable hints. Hint setting is the step relation
  \<open>hint_step\<close>.
\<close>

subsection \<open>Settled and defunct transactions\<close>

definition settled :: "xact_env \<Rightarrow> TransactionId \<Rightarrow> bool" where
  "settled e x \<longleftrightarrow> DidCommit e x \<and> \<not> IsInProgress e x \<and> \<not> IsCurrent e x"

definition defunct :: "xact_env \<Rightarrow> TransactionId \<Rightarrow> bool" where
  "defunct e x \<longleftrightarrow> \<not> DidCommit e x \<and> \<not> IsInProgress e x \<and> \<not> IsCurrent e x"

definition durable :: "xact_env \<Rightarrow> TransactionId \<Rightarrow> bool" where
  "durable e x \<longleftrightarrow> \<not> XLogNeedsFlush e (CommitLSN e x) \<or> \<not> BufferIsPermanent e"

lemma settled_not_defunct: "settled e x \<Longrightarrow> \<not> defunct e x"
  by (simp add: settled_def defunct_def)

subsection \<open>Inserter and deleter of a tuple\<close>

abbreviation moved_off :: "HeapTupleHeader \<Rightarrow> bool" where
  "moved_off t \<equiv> has t HEAP_MOVED_OFF"

abbreviation moved_in :: "HeapTupleHeader \<Rightarrow> bool" where
  "moved_in t \<equiv> has t HEAP_MOVED_IN"

definition frozen :: "HeapTupleHeader \<Rightarrow> bool" where
  "frozen t \<longleftrightarrow> HeapTupleHeaderXminFrozen t"

text \<open>The tuple is the work of the backend's own, unfinished transaction.\<close>

definition own :: "xact_env \<Rightarrow> HeapTupleHeader \<Rightarrow> bool" where
  "own e t \<longleftrightarrow> \<not> frozen t \<and> \<not> moved_off t \<and> \<not> moved_in t \<and> IsCurrent e (t_xmin t)"

definition inserter_settled :: "xact_env \<Rightarrow> HeapTupleHeader \<Rightarrow> bool" where
  "inserter_settled e t \<longleftrightarrow>
     (if moved_off t then defunct e (HeapTupleHeaderGetXvac t)
      else if moved_in t then settled e (HeapTupleHeaderGetXvac t)
      else settled e (t_xmin t))"

definition inserter_defunct :: "xact_env \<Rightarrow> HeapTupleHeader \<Rightarrow> bool" where
  "inserter_defunct e t \<longleftrightarrow>
     (if moved_off t then settled e (HeapTupleHeaderGetXvac t)
      else if moved_in t then defunct e (HeapTupleHeaderGetXvac t)
      else defunct e (t_xmin t))"

text \<open>The tuple of another transaction counts as inserted.\<close>

definition inserted :: "xact_env \<Rightarrow> HeapTupleHeader \<Rightarrow> bool" where
  "inserted e t \<longleftrightarrow> frozen t \<or>
     (if moved_off t then \<not> IsCurrent e (HeapTupleHeaderGetXvac t) \<and>
        (IsInProgress e (HeapTupleHeaderGetXvac t) \<or> \<not> DidCommit e (HeapTupleHeaderGetXvac t))
      else if moved_in t
      then IsCurrent e (HeapTupleHeaderGetXvac t) \<or> settled e (HeapTupleHeaderGetXvac t)
      else settled e (t_xmin t))"

text \<open>Another transaction is inserting the tuple.\<close>

definition inserting :: "xact_env \<Rightarrow> HeapTupleHeader \<Rightarrow> bool" where
  "inserting e t \<longleftrightarrow> \<not> frozen t \<and> \<not> moved_off t \<and> \<not> moved_in t \<and>
     \<not> IsCurrent e (t_xmin t) \<and> IsInProgress e (t_xmin t)"

definition deleter :: "xact_env \<Rightarrow> HeapTupleHeader \<Rightarrow> TransactionId option" where
  "deleter e t =
     (if locked_only t then None
      else Some (if has t HEAP_XMAX_IS_MULTI then MultiUpdateXid e (t_xmax t) else t_xmax t))"

text \<open>Some transaction that xmax stands for, deleter or locker, is in progress.\<close>

definition xmax_running :: "xact_env \<Rightarrow> HeapTupleHeader \<Rightarrow> bool" where
  "xmax_running e t \<longleftrightarrow>
     (if has t HEAP_XMAX_IS_MULTI then MultiIsRunning e (t_xmax t) else IsInProgress e (t_xmax t))"

subsection \<open>True hints\<close>

text \<open>What the hint bits of a stored tuple are allowed to say.\<close>

definition hints_true :: "xact_env \<Rightarrow> HeapTupleHeader \<Rightarrow> bool" where
  "hints_true e t \<longleftrightarrow>
     (has t HEAP_XMIN_COMMITTED \<and> \<not> has t HEAP_XMIN_INVALID \<longrightarrow> inserter_settled e t) \<and>
     (has t HEAP_XMIN_INVALID \<and> \<not> has t HEAP_XMIN_COMMITTED \<longrightarrow> inserter_defunct e t) \<and>
     (has t HEAP_XMAX_INVALID \<longrightarrow>
        \<not> xmax_running e t \<and> (\<forall>d \<in> set_option (deleter e t). defunct e d)) \<and>
     (has t HEAP_XMAX_COMMITTED \<longrightarrow> \<not> xmax_running e t \<and>
        (locked_only t \<or> \<not> has t HEAP_XMAX_IS_MULTI \<and> settled e (t_xmax t)))"

text \<open>
  A tuple that an unfinished transaction of this backend inserted can only have been deleted
  by that transaction: a deleter that is not current any more was rolled back.
\<close>

definition own_deleter_ok :: "xact_env \<Rightarrow> HeapTupleHeader \<Rightarrow> bool" where
  "own_deleter_ok e t \<longleftrightarrow>
     (own e t \<longrightarrow> (\<forall>d \<in> set_option (deleter e t). IsCurrent e d \<or> defunct e d))"

text \<open>
  A multixact number is valid, and one without a lock strength bit, left by a release before
  9.3, has no member running.
\<close>

definition multi_ok :: "xact_env \<Rightarrow> HeapTupleHeader \<Rightarrow> bool" where
  "multi_ok e t \<longleftrightarrow> (has t HEAP_XMAX_IS_MULTI \<longrightarrow> TransactionIdIsValid (t_xmax t) \<and>
     (locked_only t \<and> MultiIsRunning e (t_xmax t) \<longrightarrow>
        has t (HEAP_XMAX_EXCL_LOCK OR HEAP_XMAX_KEYSHR_LOCK)))"

definition tuple_ok :: "xact_env \<Rightarrow> HeapTupleHeader \<Rightarrow> bool" where
  "tuple_ok e t \<longleftrightarrow> hints_true e t \<and> own_deleter_ok e t \<and> multi_ok e t"

text \<open>One hint set by a reader, with what has to be known for it.\<close>

inductive hint_step :: "xact_env \<Rightarrow> HeapTupleHeader \<Rightarrow> HeapTupleHeader \<Rightarrow> bool" for e where
  hint_xmin_committed: "\<not> has t HEAP_XMIN_INVALID \<Longrightarrow> inserter_settled e t \<Longrightarrow>
    (moved_off t \<or> moved_in t \<or> durable e (t_xmin t)) \<Longrightarrow>
    hint_step e t (add_flag HEAP_XMIN_COMMITTED t)"
| hint_xmin_invalid: "\<not> has t HEAP_XMIN_COMMITTED \<Longrightarrow> inserter_defunct e t \<Longrightarrow>
    hint_step e t (add_flag HEAP_XMIN_INVALID t)"
| hint_xmax_invalid: "\<not> xmax_running e t \<Longrightarrow> (\<And>d. deleter e t = Some d \<Longrightarrow> defunct e d) \<Longrightarrow>
    hint_step e t (add_flag HEAP_XMAX_INVALID t)"
| hint_xmax_committed: "\<not> locked_only t \<Longrightarrow> \<not> has t HEAP_XMAX_IS_MULTI \<Longrightarrow> settled e (t_xmax t) \<Longrightarrow>
    durable e (t_xmax t) \<Longrightarrow> hint_step e t (add_flag HEAP_XMAX_COMMITTED t)"

inductive_cases hint_stepE: "hint_step e t t'"

abbreviation hint_steps :: "xact_env \<Rightarrow> HeapTupleHeader \<Rightarrow> HeapTupleHeader \<Rightarrow> bool" where
  "hint_steps e \<equiv> (hint_step e)\<^sup>*\<^sup>*"

definition hint_bits :: "uint16 set" where
  "hint_bits = {HEAP_XMIN_COMMITTED, HEAP_XMIN_INVALID, HEAP_XMAX_COMMITTED, HEAP_XMAX_INVALID}"

lemma add_hint_has [simp]:
  assumes "b \<in> hint_bits" and "f \<in> {HEAP_MOVED_OFF, HEAP_MOVED_IN, HEAP_MOVED, HEAP_XMAX_IS_MULTI, HEAP_COMBOCID,
    HEAP_XMAX_EXCL_LOCK OR HEAP_XMAX_KEYSHR_LOCK}"
  shows "has (add_flag b t) f = has t f"
  using assms by (auto simp: has_add_flag hint_bits_def) (simp_all add: heap_flags)

lemma add_hint_GetXvac [simp]:
  "b \<in> hint_bits \<Longrightarrow> HeapTupleHeaderGetXvac (add_flag b t) = HeapTupleHeaderGetXvac t"
  by (simp add: HeapTupleHeaderGetXvac_def)

lemma add_hint_transparent [simp]:
  assumes "b \<in> hint_bits"
  shows "inserter_settled e (add_flag b t) = inserter_settled e t"
    "inserter_defunct e (add_flag b t) = inserter_defunct e t"
    "locked_only (add_flag b t) = locked_only t"
    "deleter e (add_flag b t) = deleter e t"
    "xmax_running e (add_flag b t) = xmax_running e t"
    "multi_ok e (add_flag b t) = multi_ok e t"
    "HeapTupleHeaderGetCmin s (add_flag b t) = HeapTupleHeaderGetCmin s t"
    "HeapTupleHeaderGetCmax s (add_flag b t) = HeapTupleHeaderGetCmax s t"
proof -
  show l: "locked_only (add_flag b t) = locked_only t"
    using assms by (simp add: hint_bits_def)
  show "inserter_settled e (add_flag b t) = inserter_settled e t"
    "inserter_defunct e (add_flag b t) = inserter_defunct e t"
    "deleter e (add_flag b t) = deleter e t"
    "xmax_running e (add_flag b t) = xmax_running e t"
    "multi_ok e (add_flag b t) = multi_ok e t"
    "HeapTupleHeaderGetCmin s (add_flag b t) = HeapTupleHeaderGetCmin s t"
    "HeapTupleHeaderGetCmax s (add_flag b t) = HeapTupleHeaderGetCmax s t"
    using assms l
    by (simp_all add: inserter_settled_def inserter_defunct_def deleter_def xmax_running_def multi_ok_def
        HeapTupleHeaderGetCmin_def HeapTupleHeaderGetCmax_def)
qed

lemma hint_step_flag:
  "hint_step e t t' \<Longrightarrow> \<exists>b \<in> hint_bits. t' = add_flag b t \<and> frozen t' = frozen t"
  by (erule hint_stepE)
    (auto simp: hint_bits_def frozen_def XminFrozen_iff has_add_flag)

lemma hint_step_same:
  assumes "hint_step e t t'"
  shows "own e t' = own e t" "inserted e t' = inserted e t" "inserting e t' = inserting e t"
    "deleter e t' = deleter e t" "t_xmin t' = t_xmin t" "t_xmax t' = t_xmax t" "frozen t' = frozen t"
    "HeapTupleHeaderGetCmin s t' = HeapTupleHeaderGetCmin s t"
    "HeapTupleHeaderGetCmax s t' = HeapTupleHeaderGetCmax s t"
    "locked_only t' = locked_only t" "has t' HEAP_XMAX_IS_MULTI = has t HEAP_XMAX_IS_MULTI"
    "multi_ok e t' = multi_ok e t"
proof -
  obtain b where b: "b \<in> hint_bits" "t' = add_flag b t" "frozen t' = frozen t"
    using hint_step_flag [OF assms] by blast
  show "frozen t' = frozen t" by (rule b(3))
  show "own e t' = own e t" "inserted e t' = inserted e t" "inserting e t' = inserting e t"
    "deleter e t' = deleter e t" "t_xmin t' = t_xmin t" "t_xmax t' = t_xmax t"
    "HeapTupleHeaderGetCmin s t' = HeapTupleHeaderGetCmin s t"
    "HeapTupleHeaderGetCmax s t' = HeapTupleHeaderGetCmax s t"
    "locked_only t' = locked_only t" "has t' HEAP_XMAX_IS_MULTI = has t HEAP_XMAX_IS_MULTI"
    "multi_ok e t' = multi_ok e t"
    using b by (simp_all add: own_def inserted_def inserting_def del: add_flag_fields(4))
qed

text \<open>The steps keep hints true and everything the specification looks at.\<close>

lemma settled_xmax_idle:
  "settled e (t_xmax t) \<Longrightarrow> \<not> has t HEAP_XMAX_IS_MULTI \<Longrightarrow> \<not> xmax_running e t"
  by (simp add: settled_def xmax_running_def)

lemma hint_step_true:
  assumes "hint_step e t t'" and "hints_true e t"
  shows "hints_true e t'"
  using assms
  by (cases rule: hint_step.cases)
    (auto simp: hints_true_def has_add_flag hint_bits_def deleter_def settled_xmax_idle)

lemma hint_steps_same:
  assumes "hint_steps e t t'"
  shows "own e t' = own e t \<and> inserted e t' = inserted e t \<and> inserting e t' = inserting e t \<and>
    deleter e t' = deleter e t \<and> t_xmin t' = t_xmin t \<and> t_xmax t' = t_xmax t \<and> frozen t' = frozen t \<and>
    HeapTupleHeaderGetCmin s t' = HeapTupleHeaderGetCmin s t \<and>
    HeapTupleHeaderGetCmax s t' = HeapTupleHeaderGetCmax s t \<and>
    locked_only t' = locked_only t \<and> has t' HEAP_XMAX_IS_MULTI = has t HEAP_XMAX_IS_MULTI"
  using assms by induction (simp_all add: hint_step_same)

lemma hint_step_ok:
  assumes "hint_step e t t'" and "tuple_ok e t"
  shows "tuple_ok e t'"
  using assms(2) hint_step_true [OF assms(1)]
  by (simp add: tuple_ok_def own_deleter_ok_def hint_step_same [OF assms(1)])

lemma hint_steps_ok: "hint_steps e t t' \<Longrightarrow> tuple_ok e t \<Longrightarrow> tuple_ok e t'"
  by (induction rule: rtranclp_induct) (blast intro: hint_step_ok)+

subsection \<open>The laws of the environment\<close>

text \<open>
  What the visibility functions rely on: a backend's own transactions are in progress, the
  invalid identifier is neither in progress nor committed, and a multixact that is not
  running has no updater in progress.
\<close>

locale xact_world =
  fixes e :: xact_env
  assumes current_running: "IsCurrent e x \<Longrightarrow> IsInProgress e x"
    and invalid_idle: "\<not> IsInProgress e InvalidTransactionId"
    and invalid_not_committed: "\<not> DidCommit e InvalidTransactionId"
    and idle_multi: "\<not> MultiIsRunning e m \<Longrightarrow> \<not> IsInProgress e (MultiUpdateXid e m)"
    and remote_member: "MultiRunsElsewhere e m \<Longrightarrow> MultiIsRunning e m"

lemma SetHintBits_steps:
  assumes "x = InvalidTransactionId \<or> durable e x \<Longrightarrow> hint_step e t (add_flag b t)"
  shows "hint_steps e t (SetHintBits e b x t)"
  using assms by (auto simp: SetHintBits_def durable_def TransactionIdIsValid_def)

text \<open>The shape all checks of xmin share but the one of \<open>HeapTupleSatisfiesVacuum\<close>.\<close>

definition xmin_check ::
  "xact_env \<Rightarrow> (HeapTupleHeader \<Rightarrow> 'r \<times> HeapTupleHeader) \<Rightarrow> 'r \<Rightarrow> 'r \<Rightarrow> HeapTupleHeader \<Rightarrow> 'r step" where
  "xmin_check e own_answer running invis t =
     (if \<not> HeapTupleHeaderXminCommitted t then
        (if HeapTupleHeaderXminInvalid t then Inl (invis, t)
         else if has t HEAP_MOVED_OFF then moved_off_check e invis t
         else if has t HEAP_MOVED_IN then moved_in_check e invis t
         else if IsCurrent e (t_xmin t) then Inl (own_answer t)
         else other_xmin_check e running invis t)
      else Inr t)"

lemmas xmin_checks = Self_xmin_def Update_xmin_def Dirty_xmin_def MVCC_xmin_def

lemma xmin_check_eqs:
  "Self_xmin e t = xmin_check e (Self_own e) False False t"
  "Update_xmin e cid t = xmin_check e (Update_own e cid) HeapTupleInvisible HeapTupleInvisible t"
  "Dirty_xmin e s t = xmin_check e (\<lambda>t. ((fst (Self_own e t), s), snd (Self_own e t)))
     (True, s\<lparr>snap_xmin := t_xmin t\<rparr>) (False, s) t"
  "MVCC_xmin e s t = xmin_check e (MVCC_own e s) False False t"
  by (simp_all add: xmin_checks xmin_check_def)

text \<open>
  An inserter check that ends or goes on: \<open>ends\<close> and \<open>goes_on\<close> say what is known in each
  case.
\<close>

definition answers :: "('r step) \<Rightarrow> ('r \<Rightarrow> HeapTupleHeader \<Rightarrow> bool) \<Rightarrow> (HeapTupleHeader \<Rightarrow> bool) \<Rightarrow> bool" where
  "answers s ends goes_on \<longleftrightarrow> (case s of Inl (r, t) \<Rightarrow> ends r t | Inr t \<Rightarrow> goes_on t)"

lemma answers_simps [simp]:
  "answers (Inl a) P Q \<longleftrightarrow> P (fst a) (snd a)" "answers (Inr t) P Q \<longleftrightarrow> Q t"
  "answers (if c then s1 else s2) P Q \<longleftrightarrow> (if c then answers s1 P Q else answers s2 P Q)"
  by (simp_all add: answers_def split: prod.splits)

lemma answersD:
  assumes "answers s P Q"
  shows "s = Inl (r, t) \<Longrightarrow> P r t" "s = Inr t \<Longrightarrow> Q t"
  using assms by (auto simp: answers_def)

context xact_world
begin

lemma not_current: "\<not> IsInProgress e x \<Longrightarrow> \<not> IsCurrent e x"
  using current_running by blast

text \<open>The hints the functions set, each in the situation it is set in.\<close>

lemma xmin_committed_moved:
  assumes "moved_off t \<or> moved_in t" and "\<not> has t HEAP_XMIN_INVALID" and "inserter_settled e t"
  shows "hint_steps e t (SetHintBits e HEAP_XMIN_COMMITTED x t)"
  using assms by (intro SetHintBits_steps hint_xmin_committed) auto

lemma xmin_committed:
  assumes "\<not> has t HEAP_XMIN_INVALID" and "inserter_settled e t"
    and "settled e (t_xmin t)"
  shows "hint_steps e t (SetHintBits e HEAP_XMIN_COMMITTED (t_xmin t) t)"
  using assms invalid_not_committed
  by (intro SetHintBits_steps hint_xmin_committed) (auto simp: settled_def)

lemma xmin_invalid:
  assumes "\<not> has t HEAP_XMIN_COMMITTED" and "inserter_defunct e t"
  shows "hint_steps e t (SetHintBits e HEAP_XMIN_INVALID x t)"
  using assms by (intro SetHintBits_steps hint_xmin_invalid)

lemma xmax_invalid:
  assumes "\<not> xmax_running e t" and "\<And>d. deleter e t = Some d \<Longrightarrow> defunct e d"
  shows "hint_steps e t (SetHintBits e HEAP_XMAX_INVALID x t)"
  using assms by (intro SetHintBits_steps hint_xmax_invalid) auto

lemma xmax_committed:
  assumes "\<not> locked_only t" and "\<not> has t HEAP_XMAX_IS_MULTI" and "settled e (t_xmax t)"
  shows "hint_steps e t (SetHintBits e HEAP_XMAX_COMMITTED (t_xmax t) t)"
  using assms invalid_not_committed
  by (intro SetHintBits_steps hint_xmax_committed) (auto simp: settled_def)

lemma xmin_check_answers:
  assumes true: "hints_true e t"
  shows "answers (xmin_check e own_answer running invis t)
    (\<lambda>r t'. own e t \<and> (r, t') = own_answer t \<or>
       \<not> own e t \<and> \<not> inserted e t \<and> hint_steps e t t' \<and> r = (if inserting e t then running else invis))
    (\<lambda>t'. \<not> own e t \<and> inserted e t \<and> hint_steps e t t')"
proof (cases "has t HEAP_XMIN_COMMITTED")
  case True
  show ?thesis
  proof (cases "has t HEAP_XMIN_INVALID")
    case frz: True
    then show ?thesis
      using True by (simp add: xmin_check_def HeapTupleHeaderXminCommitted_def own_def inserted_def
          frozen_def XminFrozen_iff)
  next
    case False
    then have "inserter_settled e t" using true True by (simp add: hints_true_def)
    then show ?thesis
      using True False not_current
      by (auto simp: xmin_check_def HeapTupleHeaderXminCommitted_def own_def inserted_def
          frozen_def XminFrozen_iff inserter_settled_def settled_def defunct_def split: if_splits)
  qed
next
  case nc: False
  then have nf: "\<not> frozen t" by (simp add: frozen_def XminFrozen_iff)
  show ?thesis
  proof (cases "has t HEAP_XMIN_INVALID")
    case True
    then have "inserter_defunct e t" using true nc by (simp add: hints_true_def)
    then show ?thesis
      using True nc nf not_current
      by (auto simp: xmin_check_def HeapTupleHeaderXminCommitted_def XminInvalid_iff own_def
          inserted_def inserting_def inserter_defunct_def settled_def defunct_def split: if_splits)
  next
    case False
    note facts = xmin_check_def HeapTupleHeaderXminCommitted_def XminInvalid_iff own_def
      inserted_def inserting_def
    note sets = xmin_committed_moved xmin_committed xmin_invalid
    show ?thesis
    proof (cases "moved_off t \<or> moved_in t")
      case True
      then show ?thesis
        using nc False nf not_current [of "HeapTupleHeaderGetXvac t"]
        by (auto simp: facts Let_def moved_off_check_def moved_in_check_def settled_def defunct_def
            inserter_settled_def inserter_defunct_def intro!: sets)
    next
      case stay: False
      then show ?thesis
        using nc False nf not_current [of "t_xmin t"]
        by (auto simp: facts other_xmin_check_def settled_def defunct_def
            inserter_settled_def inserter_defunct_def intro!: sets)
    qed
  qed
qed

end

subsection \<open>The specifications\<close>

definition deleter_in :: "xact_env \<Rightarrow> HeapTupleHeader \<Rightarrow> (TransactionId \<Rightarrow> bool) \<Rightarrow> bool" where
  "deleter_in e t P \<longleftrightarrow> (\<exists>d \<in> set_option (deleter e t). P d)"

definition self_visible :: "xact_env \<Rightarrow> HeapTupleHeader \<Rightarrow> bool" where
  "self_visible e t \<longleftrightarrow> (own e t \<or> inserted e t) \<and> \<not> deleter_in e t (\<lambda>d. IsCurrent e d \<or> settled e d)"

definition dirty_visible :: "xact_env \<Rightarrow> HeapTupleHeader \<Rightarrow> bool" where
  "dirty_visible e t \<longleftrightarrow> inserting e t \<or> self_visible e t"

definition dirty_xmin :: "xact_env \<Rightarrow> HeapTupleHeader \<Rightarrow> TransactionId" where
  "dirty_xmin e t = (if inserting e t then t_xmin t else InvalidTransactionId)"

definition dirty_xmax :: "xact_env \<Rightarrow> HeapTupleHeader \<Rightarrow> TransactionId" where
  "dirty_xmax e t =
     (if own e t \<or> \<not> inserted e t then InvalidTransactionId
      else (case deleter e t of None \<Rightarrow> InvalidTransactionId
            | Some d \<Rightarrow> if IsInProgress e d \<and> \<not> IsCurrent e d then d else InvalidTransactionId))"

definition snapshot_sees_insert :: "xact_env \<Rightarrow> Snapshot \<Rightarrow> HeapTupleHeader \<Rightarrow> bool" where
  "snapshot_sees_insert e s t \<longleftrightarrow>
     (if own e t then HeapTupleHeaderGetCmin (combos e) t < snap_curcid s
      else inserted e t \<and> (frozen t \<or> \<not> XidInMVCCSnapshot e (t_xmin t) s))"

definition snapshot_sees_delete :: "xact_env \<Rightarrow> Snapshot \<Rightarrow> HeapTupleHeader \<Rightarrow> bool" where
  "snapshot_sees_delete e s t \<longleftrightarrow>
     deleter_in e t (\<lambda>d. if IsCurrent e d then HeapTupleHeaderGetCmax (combos e) t < snap_curcid s
       else settled e d \<and> \<not> XidInMVCCSnapshot e d s)"

definition mvcc_visible :: "xact_env \<Rightarrow> Snapshot \<Rightarrow> HeapTupleHeader \<Rightarrow> bool" where
  "mvcc_visible e s t \<longleftrightarrow> snapshot_sees_insert e s t \<and> \<not> snapshot_sees_delete e s t"

text \<open>Somebody else still holds a lock on the tuple, or is changing it.\<close>

definition foreign_lock :: "xact_env \<Rightarrow> HeapTupleHeader \<Rightarrow> bool" where
  "foreign_lock e t \<longleftrightarrow>
     (if has t HEAP_XMAX_IS_MULTI
      then (if own e t then MultiRunsElsewhere e (t_xmax t)
            else MultiIsRunning e (t_xmax t))
      else IsInProgress e (t_xmax t) \<and> \<not> IsCurrent e (t_xmax t))"

definition update_result :: "xact_env \<Rightarrow> CommandId \<Rightarrow> HeapTupleHeader \<Rightarrow> HTSU_Result" where
  "update_result e cid t =
     (if \<not> own e t \<and> \<not> inserted e t then HeapTupleInvisible
      else if own e t \<and> HeapTupleHeaderGetCmin (combos e) t \<ge> cid then HeapTupleInvisible
      else if deleter_in e t (IsCurrent e) then
        (if HeapTupleHeaderGetCmax (combos e) t \<ge> cid then HeapTupleSelfUpdated else HeapTupleInvisible)
      else if deleter_in e t (settled e) then HeapTupleUpdated
      else if foreign_lock e t then HeapTupleBeingUpdated
      else HeapTupleMayBeUpdated)"

definition vacuum_result :: "xact_env \<Rightarrow> TransactionId \<Rightarrow> HeapTupleHeader \<Rightarrow> HTSV_Result" where
  "vacuum_result e OldestXmin t =
     (if \<not> frozen t \<and> (moved_off t \<or> moved_in t) \<and> IsInProgress e (HeapTupleHeaderGetXvac t)
      then (if moved_off t then HEAPTUPLE_DELETE_IN_PROGRESS else HEAPTUPLE_INSERT_IN_PROGRESS)
      else if own e t then
        (if deleter_in e t (IsCurrent e) then HEAPTUPLE_DELETE_IN_PROGRESS
         else HEAPTUPLE_INSERT_IN_PROGRESS)
      else if inserting e t then HEAPTUPLE_INSERT_IN_PROGRESS
      else if \<not> inserted e t then HEAPTUPLE_DEAD
      else if deleter_in e t (IsInProgress e) then HEAPTUPLE_DELETE_IN_PROGRESS
      else if \<not> deleter_in e t (settled e) then HEAPTUPLE_LIVE
      else if has t HEAP_XMAX_IS_MULTI \<and> MultiIsRunning e (t_xmax t) then HEAPTUPLE_RECENTLY_DEAD
      else if deleter_in e t (\<lambda>d. TransactionIdPrecedes d OldestXmin) then HEAPTUPLE_DEAD
      else HEAPTUPLE_RECENTLY_DEAD)"

text \<open>What VACUUM thinks of a tuple whose inserter is done.\<close>

definition vacuum_deleter :: "xact_env \<Rightarrow> TransactionId \<Rightarrow> HeapTupleHeader \<Rightarrow> HTSV_Result" where
  "vacuum_deleter e OldestXmin t =
     (if deleter_in e t (IsInProgress e) then HEAPTUPLE_DELETE_IN_PROGRESS
      else if \<not> deleter_in e t (settled e) then HEAPTUPLE_LIVE
      else if has t HEAP_XMAX_IS_MULTI \<and> MultiIsRunning e (t_xmax t) then HEAPTUPLE_RECENTLY_DEAD
      else if deleter_in e t (\<lambda>d. TransactionIdPrecedes d OldestXmin) then HEAPTUPLE_DEAD
      else HEAPTUPLE_RECENTLY_DEAD)"

lemma deleter_in_same: "deleter e t' = deleter e t \<Longrightarrow> deleter_in e t' P = deleter_in e t P"
  by (simp add: deleter_in_def)

lemma specs_same:
  assumes "hint_steps e t t'"
  shows "self_visible e t' = self_visible e t"
    "dirty_visible e t' = dirty_visible e t"
    "mvcc_visible e s t' = mvcc_visible e s t"
    "snapshot_sees_delete e s t' = snapshot_sees_delete e s t"
    "foreign_lock e t' = foreign_lock e t" "update_result e cid t' = update_result e cid t"
proof -
  note same = hint_steps_same [OF assms, of "combos e"]
  then have d: "deleter_in e t' P = deleter_in e t P" for P
    by (simp add: deleter_in_def)
  show "self_visible e t' = self_visible e t"
    "dirty_visible e t' = dirty_visible e t"
    "mvcc_visible e s t' = mvcc_visible e s t"
    "snapshot_sees_delete e s t' = snapshot_sees_delete e s t"
    "foreign_lock e t' = foreign_lock e t" "update_result e cid t' = update_result e cid t"
    using same d
    by (simp_all add: self_visible_def dirty_visible_def mvcc_visible_def snapshot_sees_insert_def
        snapshot_sees_delete_def foreign_lock_def update_result_def)
qed

text \<open>What the four hint bits and the xmax fields have to say on the deleter.\<close>

lemma deleter_in_simps:
  "locked_only t \<Longrightarrow> \<not> deleter_in e t P"
  "\<not> locked_only t \<Longrightarrow> has t HEAP_XMAX_IS_MULTI \<Longrightarrow> deleter_in e t P \<longleftrightarrow> P (MultiUpdateXid e (t_xmax t))"
  "\<not> locked_only t \<Longrightarrow> \<not> has t HEAP_XMAX_IS_MULTI \<Longrightarrow> deleter_in e t P \<longleftrightarrow> P (t_xmax t)"
  by (simp_all add: deleter_in_def deleter_def)

context xact_world
begin

lemma tuple_ok_locked:
  assumes "tuple_ok e t" and "locked_only t"
  shows "deleter e t = None" "deleter_in e t P = False"
    "has t HEAP_XMAX_INVALID \<or> has t HEAP_XMAX_COMMITTED \<Longrightarrow> \<not> xmax_running e t"
  using assms by (auto simp: tuple_ok_def hints_true_def deleter_def deleter_in_def)

lemma tuple_ok_multi:
  assumes "tuple_ok e t" and "\<not> locked_only t" and "has t HEAP_XMAX_IS_MULTI"
  shows "deleter e t = Some (MultiUpdateXid e (t_xmax t))"
    "deleter_in e t P = P (MultiUpdateXid e (t_xmax t))"
    "\<not> has t HEAP_XMAX_COMMITTED"
    "has t HEAP_XMAX_INVALID \<Longrightarrow> \<not> MultiIsRunning e (t_xmax t) \<and>
       \<not> IsCurrent e (MultiUpdateXid e (t_xmax t)) \<and> \<not> IsInProgress e (MultiUpdateXid e (t_xmax t)) \<and>
       \<not> DidCommit e (MultiUpdateXid e (t_xmax t))"
    "own e t \<Longrightarrow> IsCurrent e (MultiUpdateXid e (t_xmax t)) \<or> defunct e (MultiUpdateXid e (t_xmax t))"
  using assms
  by (auto simp: tuple_ok_def hints_true_def deleter_def deleter_in_def xmax_running_def defunct_def
      own_deleter_ok_def)

lemma tuple_ok_plain:
  assumes "tuple_ok e t" and "\<not> locked_only t" and "\<not> has t HEAP_XMAX_IS_MULTI"
  shows "deleter e t = Some (t_xmax t)" "deleter_in e t P = P (t_xmax t)"
    "has t HEAP_XMAX_COMMITTED \<Longrightarrow> DidCommit e (t_xmax t) \<and> \<not> IsInProgress e (t_xmax t) \<and>
       \<not> IsCurrent e (t_xmax t)"
    "has t HEAP_XMAX_INVALID \<Longrightarrow> \<not> DidCommit e (t_xmax t) \<and> \<not> IsInProgress e (t_xmax t) \<and>
       \<not> IsCurrent e (t_xmax t)"
    "own e t \<Longrightarrow> IsCurrent e (t_xmax t) \<or> defunct e (t_xmax t)"
  using assms
  by (auto simp: tuple_ok_def hints_true_def deleter_def deleter_in_def xmax_running_def defunct_def
      settled_def own_deleter_ok_def)

lemmas status_defs' = settled_def defunct_def

lemma Self_own_ok:
  assumes "tuple_ok e t" and "own e t"
  shows "fst (Self_own e t) = self_visible e t \<and> hint_steps e t (snd (Self_own e t))"
proof -
  have v: "self_visible e t \<longleftrightarrow> \<not> deleter_in e t (\<lambda>d. IsCurrent e d \<or> settled e d)"
    using assms(2) by (simp add: self_visible_def)
  consider "locked_only t" | "\<not> locked_only t" "has t HEAP_XMAX_IS_MULTI"
    | "\<not> locked_only t" "\<not> has t HEAP_XMAX_IS_MULTI" by blast
  then show ?thesis
  proof cases
    case 1
    then show ?thesis by (simp add: v Self_own_def tuple_ok_locked [OF assms(1)])
  next
    case 2
    note facts = tuple_ok_multi [OF assms(1) 2]
    show ?thesis
      using 2 facts(4) facts(5) [OF assms(2)]
      by (auto simp: v Self_own_def facts(2) HeapTupleGetUpdateXid_def status_defs' Let_def)
  next
    case 3
    note facts = tuple_ok_plain [OF assms(1) 3]
    show ?thesis
      using 3 facts(4) facts(5) [OF assms(2)]
      by (auto simp: v Self_own_def facts(1,2) status_defs' xmax_running_def intro!: xmax_invalid)
  qed
qed

lemma MVCC_own_ok:
  assumes "tuple_ok e t" and "own e t"
  shows "fst (MVCC_own e s t) = mvcc_visible e s t \<and> hint_steps e t (snd (MVCC_own e s t))"
proof -
  have v: "mvcc_visible e s t \<longleftrightarrow> HeapTupleHeaderGetCmin (combos e) t < snap_curcid s \<and>
    \<not> snapshot_sees_delete e s t"
    using assms(2) by (simp add: mvcc_visible_def snapshot_sees_insert_def)
  note v = v [unfolded snapshot_sees_delete_def]
  consider "locked_only t" | "\<not> locked_only t" "has t HEAP_XMAX_IS_MULTI"
    | "\<not> locked_only t" "\<not> has t HEAP_XMAX_IS_MULTI" by blast
  then show ?thesis
  proof cases
    case 1
    then show ?thesis by (simp add: v MVCC_own_def tuple_ok_locked [OF assms(1)] not_le not_less)
  next
    case 2
    note facts = tuple_ok_multi [OF assms(1) 2]
    show ?thesis
      using 2 facts(4) facts(5) [OF assms(2)]
      by (auto simp: v MVCC_own_def facts(2) HeapTupleGetUpdateXid_def status_defs' Let_def not_le)
  next
    case 3
    note facts = tuple_ok_plain [OF assms(1) 3]
    show ?thesis
      using 3 facts(4) facts(5) [OF assms(2)]
      by (auto simp: v MVCC_own_def facts(1,2) status_defs' xmax_running_def not_le intro!: xmax_invalid)
  qed
qed

lemma multi_lockers:
  assumes "tuple_ok e t" and "has t HEAP_XMAX_IS_MULTI"
  shows "locked_only t \<Longrightarrow> MultiIsRunning e (t_xmax t) \<Longrightarrow>
    has t (HEAP_XMAX_EXCL_LOCK OR HEAP_XMAX_KEYSHR_LOCK)"
    "TransactionIdIsValid (t_xmax t)"
  using assms by (auto simp: tuple_ok_def multi_ok_def)

lemma Update_own_ok:
  assumes "tuple_ok e t" and "own e t"
  shows "fst (Update_own e cid t) = update_result e cid t \<and> hint_steps e t (snd (Update_own e cid t))"
proof (cases "HeapTupleHeaderGetCmin (combos e) t \<ge> cid")
  case True
  then show ?thesis using assms(2) by (simp add: Update_own_def update_result_def)
next
  case False
  have v: "update_result e cid t = (if deleter_in e t (IsCurrent e)
      then (if HeapTupleHeaderGetCmax (combos e) t \<ge> cid then HeapTupleSelfUpdated else HeapTupleInvisible)
      else if deleter_in e t (settled e) then HeapTupleUpdated
      else if foreign_lock e t then HeapTupleBeingUpdated else HeapTupleMayBeUpdated)"
    using assms(2) False by (simp add: update_result_def)
  consider "locked_only t" | "\<not> locked_only t" "has t HEAP_XMAX_IS_MULTI"
    | "\<not> locked_only t" "\<not> has t HEAP_XMAX_IS_MULTI" by blast
  then show ?thesis
  proof cases
    case 1
    note facts = tuple_ok_locked [OF assms(1) 1]
    show ?thesis
      using False assms(2) 1 facts(3) remote_member [of "t_xmax t"]
      by (auto simp: v Update_own_def facts(2) foreign_lock_def xmax_running_def Let_def)
  next
    case 2
    note facts = tuple_ok_multi [OF assms(1) 2]
    show ?thesis
      using False assms(2) 2 facts(4) facts(5) [OF assms(2)] remote_member [of "t_xmax t"]
      by (auto simp: v Update_own_def facts(2) foreign_lock_def HeapTupleGetUpdateXid_def
          status_defs' Let_def)
  next
    case 3
    note facts = tuple_ok_plain [OF assms(1) 3]
    show ?thesis
      using False assms(2) 3 facts(4) facts(5) [OF assms(2)]
      by (auto simp: v Update_own_def facts(1,2) foreign_lock_def status_defs' xmax_running_def
          intro!: xmax_invalid)
  qed
qed

subsection \<open>The checks of xmax\<close>

lemma Self_xmax_ok:
  assumes "tuple_ok e t" and "\<not> own e t" and "inserted e t"
  shows "fst (Self_xmax e t) = self_visible e t \<and> hint_steps e t (snd (Self_xmax e t))"
proof -
  have v: "self_visible e t \<longleftrightarrow> \<not> deleter_in e t (\<lambda>d. IsCurrent e d \<or> settled e d)"
    using assms(3) by (simp add: self_visible_def)
  consider "locked_only t" | "\<not> locked_only t" "has t HEAP_XMAX_IS_MULTI"
    | "\<not> locked_only t" "\<not> has t HEAP_XMAX_IS_MULTI" by blast
  then show ?thesis
  proof cases
    case 1
    then show ?thesis
      using not_current [of "t_xmax t"]
      by (auto simp: v Self_xmax_def tuple_ok_locked [OF assms(1)] xmax_running_def intro!: xmax_invalid)
  next
    case 2
    note facts = tuple_ok_multi [OF assms(1) 2]
    show ?thesis
      using 2 facts(3,4)
      by (auto simp: v Self_xmax_def facts(2) HeapTupleGetUpdateXid_def status_defs' Let_def)
  next
    case 3
    note facts = tuple_ok_plain [OF assms(1) 3]
    show ?thesis
      using 3 facts(3,4)
      by (auto simp: v Self_xmax_def facts(1,2) status_defs' xmax_running_def
          intro!: xmax_invalid xmax_committed)
  qed
qed

lemma Dirty_xmax_ok:
  assumes "tuple_ok e t" and "\<not> own e t" and "inserted e t"
  shows "fst (Dirty_xmax e s t) = (self_visible e t,
      if dirty_xmax e t = InvalidTransactionId then s else s\<lparr>snap_xmax := dirty_xmax e t\<rparr>) \<and>
    hint_steps e t (snd (Dirty_xmax e s t))"
proof -
  have v: "self_visible e t \<longleftrightarrow> \<not> deleter_in e t (\<lambda>d. IsCurrent e d \<or> settled e d)"
    using assms(3) by (simp add: self_visible_def)
  note x = dirty_xmax_def
  consider "locked_only t" | "\<not> locked_only t" "has t HEAP_XMAX_IS_MULTI"
    | "\<not> locked_only t" "\<not> has t HEAP_XMAX_IS_MULTI" by blast
  then show ?thesis
  proof cases
    case 1
    then show ?thesis
      using not_current [of "t_xmax t"] assms
      by (auto simp: v x Dirty_xmax_def tuple_ok_locked [OF assms(1)] xmax_running_def
          intro!: xmax_invalid)
  next
    case 2
    note facts = tuple_ok_multi [OF assms(1) 2]
    show ?thesis
      using 2 facts(3,4) assms invalid_idle invalid_not_committed
      by (auto simp: v x Dirty_xmax_def facts(1,2) HeapTupleGetUpdateXid_def status_defs' Let_def)
  next
    case 3
    note facts = tuple_ok_plain [OF assms(1) 3]
    show ?thesis
      using 3 facts(3,4) assms invalid_idle invalid_not_committed
      by (auto simp: v x Dirty_xmax_def facts(1,2) status_defs' xmax_running_def
          intro!: xmax_invalid xmax_committed)
  qed
qed

lemma MVCC_xmax_ok:
  assumes "tuple_ok e t" and "\<not> own e t" and "inserted e t"
  shows "fst (MVCC_xmax e s t) = mvcc_visible e s t \<and> hint_steps e t (snd (MVCC_xmax e s t))"
proof (cases "frozen t \<or> \<not> XidInMVCCSnapshot e (t_xmin t) s")
  case False
  then show ?thesis
    using assms by (simp add: MVCC_xmax_def mvcc_visible_def snapshot_sees_insert_def frozen_def)
next
  case True
  then have v: "mvcc_visible e s t \<longleftrightarrow> \<not> snapshot_sees_delete e s t"
    using assms(2,3) by (simp add: mvcc_visible_def snapshot_sees_insert_def)
  note v = v [unfolded snapshot_sees_delete_def]
  have f: "\<not> (\<not> HeapTupleHeaderXminFrozen t \<and> XidInMVCCSnapshot e (t_xmin t) s)"
    using True by (simp add: frozen_def)
  consider "locked_only t" | "\<not> locked_only t" "has t HEAP_XMAX_IS_MULTI"
    | "\<not> locked_only t" "\<not> has t HEAP_XMAX_IS_MULTI" by blast
  then show ?thesis
  proof cases
    case 1
    then show ?thesis
      using f by (simp add: v MVCC_xmax_def tuple_ok_locked [OF assms(1)])
  next
    case 2
    note facts = tuple_ok_multi [OF assms(1) 2]
    show ?thesis
      using 2 f facts(4)
      by (auto simp: v MVCC_xmax_def facts(2) HeapTupleGetUpdateXid_def status_defs' Let_def not_le)
  next
    case 3
    note facts = tuple_ok_plain [OF assms(1) 3]
    have same: "t_xmax (SetHintBits e b x t) = t_xmax t" for b x by (simp add: SetHintBits_def)
    show ?thesis
      using 3 f facts(3,4) current_running [of "t_xmax t"]
      by (auto simp: v MVCC_xmax_def facts(1,2) status_defs' xmax_running_def Let_def same not_le
          intro!: xmax_invalid xmax_committed)
  qed
qed

lemma Update_multi_ok:
  assumes "tuple_ok e t" and "\<not> own e t" and "inserted e t"
    and "has t HEAP_XMAX_IS_MULTI" and "\<not> has t HEAP_XMAX_INVALID" and "\<not> has t HEAP_XMAX_COMMITTED"
  shows "fst (Update_multi e cid t) = update_result e cid t \<and> hint_steps e t (snd (Update_multi e cid t))"
proof (cases "locked_only t")
  case True
  then show ?thesis
    using assms multi_lockers(1) [OF assms(1,4)]
    by (auto simp: Update_multi_def update_result_def tuple_ok_locked [OF assms(1)] foreign_lock_def
        xmax_running_def intro!: xmax_invalid)
next
  case False
  note facts = tuple_ok_multi [OF assms(1) False assms(4)]
  show ?thesis
    using assms False idle_multi [of "t_xmax t"]
    by (auto simp: Update_multi_def update_result_def facts(1,2) foreign_lock_def Let_def
        HeapTupleGetUpdateXid_def status_defs' xmax_running_def intro!: xmax_invalid)
qed

lemma Update_xmax_ok:
  assumes "tuple_ok e t" and "\<not> own e t" and "inserted e t"
  shows "fst (Update_xmax e cid t) = update_result e cid t \<and> hint_steps e t (snd (Update_xmax e cid t))"
proof -
  have v: "update_result e cid t = (if deleter_in e t (IsCurrent e)
      then (if HeapTupleHeaderGetCmax (combos e) t \<ge> cid then HeapTupleSelfUpdated else HeapTupleInvisible)
      else if deleter_in e t (settled e) then HeapTupleUpdated
      else if foreign_lock e t then HeapTupleBeingUpdated else HeapTupleMayBeUpdated)"
    using assms by (simp add: update_result_def)
  consider "locked_only t" | "\<not> locked_only t" "has t HEAP_XMAX_IS_MULTI"
    | "\<not> locked_only t" "\<not> has t HEAP_XMAX_IS_MULTI" by blast
  then show ?thesis
  proof cases
    case 1
    note facts = tuple_ok_locked [OF assms(1) 1]
    show ?thesis
      using 1 facts(3) assms(2) not_current [of "t_xmax t"] Update_multi_ok [OF assms]
      by (auto simp: v Update_xmax_def facts(1,2) foreign_lock_def xmax_running_def
          intro!: xmax_invalid)
  next
    case 2
    note facts = tuple_ok_multi [OF assms(1) 2]
    show ?thesis
    proof (cases "has t HEAP_XMAX_INVALID")
      case True
      then show ?thesis
        using facts(4) assms(2) 2 by (simp add: v Update_xmax_def facts(2) status_defs' foreign_lock_def)
    next
      case False
      then show ?thesis
        using Update_multi_ok [OF assms 2(2) False facts(3)] facts(3) 2 by (simp add: Update_xmax_def)
    qed
  next
    case 3
    note facts = tuple_ok_plain [OF assms(1) 3]
    show ?thesis
      using 3 facts(3,4) assms(2) not_current [of "t_xmax t"]
      by (auto simp: v Update_xmax_def facts(1,2) foreign_lock_def status_defs' xmax_running_def
          intro!: xmax_invalid xmax_committed)
  qed
qed

subsection \<open>The functions answer by the specification\<close>

lemma tuple_ok_true: "tuple_ok e t \<Longrightarrow> hints_true e t"
  by (simp add: tuple_ok_def)

text \<open>After xmin was checked, the tuple is the same one for the check of xmax.\<close>

lemma after_xmin:
  assumes "tuple_ok e t" and "\<not> own e t" and "inserted e t" and "hint_steps e t t1"
  shows "tuple_ok e t1" "\<not> own e t1" "inserted e t1"
  using assms hint_steps_ok [OF assms(4,1)] hint_steps_same [OF assms(4)] by simp_all

lemma satisfies_answers:
  assumes ok: "tuple_ok e t"
    and own: "own e t \<Longrightarrow> fst (own_answer t) = want \<and> hint_steps e t (snd (own_answer t))"
    and away: "\<not> own e t \<Longrightarrow> \<not> inserted e t \<Longrightarrow> (if inserting e t then running else invis) = want"
    and rest: "\<And>t1. \<not> own e t \<Longrightarrow> inserted e t \<Longrightarrow> hint_steps e t t1 \<Longrightarrow>
      fst (xmax t1) = want \<and> hint_steps e t1 (snd (xmax t1))"
  shows "fst (case xmin_check e own_answer running invis t of Inl r \<Rightarrow> r | Inr t \<Rightarrow> xmax t) = want \<and>
    hint_steps e t (snd (case xmin_check e own_answer running invis t of Inl r \<Rightarrow> r | Inr t \<Rightarrow> xmax t))"
proof (cases "xmin_check e own_answer running invis t")
  case (Inl p)
  obtain r t' where p: "p = (r, t')" by (cases p)
  from answersD(1) [OF xmin_check_answers [OF tuple_ok_true [OF ok]] Inl [unfolded p]]
  show ?thesis using own away by (auto simp: Inl p) (metis fst_conv snd_conv)+
next
  case (Inr t1)
  from answersD(2) [OF xmin_check_answers [OF tuple_ok_true [OF ok]] Inr]
  have f: "\<not> own e t" "inserted e t" "hint_steps e t t1" by auto
  then show ?thesis using rest [OF f] by (auto simp: Inr)
qed

lemma Self_correct:
  assumes "tuple_ok e t"
  shows "fst (HeapTupleSatisfiesSelf e t) = self_visible e t \<and>
    hint_steps e t (snd (HeapTupleSatisfiesSelf e t))"
  unfolding HeapTupleSatisfiesSelf_def xmin_check_eqs
proof (rule satisfies_answers [OF assms])
  fix t1 assume t1: "\<not> own e t" "inserted e t" "hint_steps e t t1"
  from Self_xmax_ok [OF after_xmin [OF assms t1]] specs_same(1) [OF t1(3)]
  show "fst (Self_xmax e t1) = self_visible e t \<and> hint_steps e t1 (snd (Self_xmax e t1))" by simp
qed (use Self_own_ok [OF assms] in \<open>auto simp: self_visible_def\<close>)

lemma MVCC_correct:
  assumes "tuple_ok e t"
  shows "fst (HeapTupleSatisfiesMVCC e s t) = mvcc_visible e s t \<and>
    hint_steps e t (snd (HeapTupleSatisfiesMVCC e s t))"
  unfolding HeapTupleSatisfiesMVCC_def xmin_check_eqs
proof (rule satisfies_answers [OF assms])
  fix t1 assume t1: "\<not> own e t" "inserted e t" "hint_steps e t t1"
  from MVCC_xmax_ok [OF after_xmin [OF assms t1]] specs_same(3) [OF t1(3)]
  show "fst (MVCC_xmax e s t1) = mvcc_visible e s t \<and> hint_steps e t1 (snd (MVCC_xmax e s t1))"
    by simp
qed (use MVCC_own_ok [OF assms] in \<open>auto simp: mvcc_visible_def snapshot_sees_insert_def\<close>)

lemma Update_correct:
  assumes "tuple_ok e t"
  shows "fst (HeapTupleSatisfiesUpdate e cid t) = update_result e cid t \<and>
    hint_steps e t (snd (HeapTupleSatisfiesUpdate e cid t))"
  unfolding HeapTupleSatisfiesUpdate_def xmin_check_eqs
proof (rule satisfies_answers [OF assms])
  fix t1 assume t1: "\<not> own e t" "inserted e t" "hint_steps e t t1"
  from Update_xmax_ok [OF after_xmin [OF assms t1]] specs_same(6) [OF t1(3)]
  show "fst (Update_xmax e cid t1) = update_result e cid t \<and>
    hint_steps e t1 (snd (Update_xmax e cid t1))" by simp
qed (use Update_own_ok [OF assms] in \<open>auto simp: update_result_def\<close>)

lemma not_inserting: "own e t \<or> inserted e t \<Longrightarrow> \<not> inserting e t"
  by (auto simp: own_def inserted_def inserting_def settled_def)

lemma Dirty_correct:
  fixes s :: Snapshot
  assumes "tuple_ok e t"
  shows "fst (HeapTupleSatisfiesDirty e s t) =
      (dirty_visible e t, s\<lparr>snap_xmin := dirty_xmin e t, snap_xmax := dirty_xmax e t\<rparr>) \<and>
    hint_steps e t (snd (HeapTupleSatisfiesDirty e s t))"
proof -
  define s0 where "s0 = s\<lparr>snap_xmin := InvalidTransactionId, snap_xmax := InvalidTransactionId\<rparr>"
  let ?want = "(dirty_visible e t, s\<lparr>snap_xmin := dirty_xmin e t, snap_xmax := dirty_xmax e t\<rparr>)"
  have "fst (case Dirty_xmin e s0 t of Inl r \<Rightarrow> r | Inr t \<Rightarrow> Dirty_xmax e s0 t) = ?want \<and>
    hint_steps e t (snd (case Dirty_xmin e s0 t of Inl r \<Rightarrow> r | Inr t \<Rightarrow> Dirty_xmax e s0 t))"
    unfolding xmin_check_eqs
  proof (rule satisfies_answers [OF assms])
    assume o: "own e t"
    then have "dirty_visible e t = self_visible e t" "dirty_xmin e t = InvalidTransactionId"
      "dirty_xmax e t = InvalidTransactionId"
      using not_inserting by (auto simp: dirty_visible_def dirty_xmin_def dirty_xmax_def)
    then show "fst ((fst (Self_own e t), s0), snd (Self_own e t)) = ?want \<and>
      hint_steps e t (snd ((fst (Self_own e t), s0), snd (Self_own e t)))"
      using Self_own_ok [OF assms o] by (simp add: s0_def)
  next
    assume "\<not> own e t" "\<not> inserted e t"
    then show "(if inserting e t then (True, s0\<lparr>snap_xmin := t_xmin t\<rparr>) else (False, s0)) = ?want"
      by (simp add: dirty_visible_def dirty_xmin_def dirty_xmax_def self_visible_def s0_def)
  next
    fix t1 assume t1: "\<not> own e t" "inserted e t" "hint_steps e t t1"
    have "dirty_xmax e t1 = dirty_xmax e t"
      using hint_steps_same [OF t1(3)] by (simp add: dirty_xmax_def)
    moreover have "dirty_visible e t = self_visible e t" "dirty_xmin e t = InvalidTransactionId"
      using not_inserting t1(2) by (auto simp: dirty_visible_def dirty_xmin_def)
    ultimately show "fst (Dirty_xmax e s0 t1) = ?want \<and> hint_steps e t1 (snd (Dirty_xmax e s0 t1))"
      using Dirty_xmax_ok [OF after_xmin [OF assms t1], of s0] specs_same(1) [OF t1(3)]
      by (auto simp: s0_def split: if_splits)
  qed
  then show ?thesis by (simp only: HeapTupleSatisfiesDirty_def s0_def Let_def)
qed

lemma Toast_correct:
  assumes "tuple_ok e t"
  shows "fst (HeapTupleSatisfiesToast e t) =
      (if moved_off t \<or> moved_in t then inserted e t else \<not> HeapTupleHeaderXminInvalid t) \<and>
    hint_steps e t (snd (HeapTupleSatisfiesToast e t))"
proof (cases "moved_off t \<or> moved_in t")
  case True
  then have t: "HeapTupleSatisfiesToast e t =
    (case xmin_check e (\<lambda>t. (True, t)) True False t of Inl r \<Rightarrow> r | Inr t \<Rightarrow> (True, t))"
    by (auto simp: HeapTupleSatisfiesToast_def xmin_check_def)
  have n: "\<not> own e t" "\<not> inserting e t" using True by (auto simp: own_def inserting_def)
  have "fst (HeapTupleSatisfiesToast e t) = inserted e t \<and>
    hint_steps e t (snd (HeapTupleSatisfiesToast e t))"
    unfolding t by (rule satisfies_answers [OF assms]) (use n in auto)
  then show ?thesis using True by simp
next
  case False
  then show ?thesis
    by (auto simp: HeapTupleSatisfiesToast_def XminInvalid_iff HeapTupleHeaderXminCommitted_def)
qed

subsection \<open>VACUUM\<close>

lemma deleter_running:
  "tuple_ok e t \<Longrightarrow> deleter_in e t (IsInProgress e) \<Longrightarrow> xmax_running e t"
  using idle_multi by (auto simp: deleter_in_def deleter_def xmax_running_def split: if_splits)

lemma Vacuum_own_ok:
  assumes "tuple_ok e t" and "own e t"
  shows "fst (Vacuum_own e t) = vacuum_result e ox t \<and> hint_steps e t (snd (Vacuum_own e t))"
proof -
  have m: "\<not> moved_off t" "\<not> moved_in t" using assms(2) by (simp_all add: own_def)
  have v: "vacuum_result e ox t =
    (if deleter_in e t (IsCurrent e) then HEAPTUPLE_DELETE_IN_PROGRESS else HEAPTUPLE_INSERT_IN_PROGRESS)"
    using assms(2) m by (simp add: vacuum_result_def)
  have lo: "\<not> locked_only t \<Longrightarrow> \<not> has t HEAP_XMAX_LOCK_ONLY"
    by (simp add: HEAP_XMAX_IS_LOCKED_ONLY_def has_def)
  consider "locked_only t" | "\<not> locked_only t" "has t HEAP_XMAX_IS_MULTI"
    | "\<not> locked_only t" "\<not> has t HEAP_XMAX_IS_MULTI" by blast
  then show ?thesis
  proof cases
    case 1
    then show ?thesis by (simp add: v Vacuum_own_def tuple_ok_locked [OF assms(1)])
  next
    case 2
    note facts = tuple_ok_multi [OF assms(1) 2]
    show ?thesis
      using 2 lo facts(4) facts(5) [OF assms(2)] multi_lockers(2) [OF assms(1) 2(2)]
        current_running
      by (auto simp: v Vacuum_own_def facts(2) HeapTupleHeaderIsOnlyLocked_def Let_def status_defs'
          HeapTupleHeaderGetUpdateXid_def HeapTupleGetUpdateXid_def)
  next
    case 3
    note facts = tuple_ok_plain [OF assms(1) 3]
    show ?thesis
      using 3 lo facts(4) facts(5) [OF assms(2)] invalid_idle not_current [of InvalidTransactionId]
      by (auto simp: v Vacuum_own_def facts(2) HeapTupleHeaderIsOnlyLocked_def status_defs'
          HeapTupleHeaderGetUpdateXid_def TransactionIdIsValid_def)
  qed
qed

lemma Vacuum_locked_ok:
  assumes "tuple_ok e t" and "locked_only t"
  shows "fst (Vacuum_locked e t) = HEAPTUPLE_LIVE \<and> hint_steps e t (snd (Vacuum_locked e t))"
  using assms multi_lockers(1) [OF assms(1)]
  by (auto simp: Vacuum_locked_def tuple_ok_locked [OF assms] xmax_running_def
      intro!: xmax_invalid split: if_splits)

lemma Vacuum_multi_ok:
  assumes "tuple_ok e t" and "\<not> locked_only t" and "has t HEAP_XMAX_IS_MULTI"
  shows "fst (Vacuum_multi e ox t) = vacuum_deleter e ox t \<and> hint_steps e t (snd (Vacuum_multi e ox t))"
proof -
  note facts = tuple_ok_multi [OF assms]
  show ?thesis
    using assms(3) current_running [of "MultiUpdateXid e (t_xmax t)"] idle_multi [of "t_xmax t"]
    by (auto simp: Vacuum_multi_def vacuum_deleter_def facts(1,2) HeapTupleGetUpdateXid_def Let_def
        status_defs' xmax_running_def intro!: xmax_invalid)
qed

lemma Vacuum_xmax_ok:
  assumes "tuple_ok e t"
  shows "fst (Vacuum_xmax e ox t) = vacuum_deleter e ox t \<and> hint_steps e t (snd (Vacuum_xmax e ox t))"
proof -
  consider "locked_only t" | "\<not> locked_only t" "has t HEAP_XMAX_IS_MULTI"
    | "\<not> locked_only t" "\<not> has t HEAP_XMAX_IS_MULTI" by blast
  then show ?thesis
  proof cases
    case 1
    then show ?thesis
      using Vacuum_locked_ok [OF assms 1]
      by (simp add: Vacuum_xmax_def vacuum_deleter_def tuple_ok_locked [OF assms])
  next
    case 2
    note facts = tuple_ok_multi [OF assms 2]
    show ?thesis
    proof (cases "has t HEAP_XMAX_INVALID")
      case True
      then show ?thesis
        using facts(4) by (simp add: Vacuum_xmax_def vacuum_deleter_def facts(2) status_defs')
    next
      case False
      then show ?thesis using Vacuum_multi_ok [OF assms 2] 2 by (simp add: Vacuum_xmax_def)
    qed
  next
    case 3
    note facts = tuple_ok_plain [OF assms 3]
    have same: "t_xmax (SetHintBits e b x t) = t_xmax t" for b x by (simp add: SetHintBits_def)
    show ?thesis
      using 3 facts(3,4) current_running [of "t_xmax t"]
      by (auto simp: Vacuum_xmax_def vacuum_deleter_def facts(1,2) status_defs' xmax_running_def Let_def
          same intro!: xmax_invalid xmax_committed)
  qed
qed

lemma vacuum_deleter_same:
  assumes "hint_steps e t t1"
  shows "vacuum_deleter e ox t1 = vacuum_deleter e ox t"
  using hint_steps_same [OF assms] by (simp add: vacuum_deleter_def deleter_in_def)

lemma Vacuum_stayed:
  assumes "tuple_ok e t" and m: "\<not> moved_off t" "\<not> moved_in t"
  shows "fst (HeapTupleSatisfiesVacuum e ox t) = vacuum_result e ox t \<and>
    hint_steps e t (snd (HeapTupleSatisfiesVacuum e ox t))"
proof -
  have x: "Vacuum_xmin e t = xmin_check e (Vacuum_own e) HEAPTUPLE_INSERT_IN_PROGRESS HEAPTUPLE_DEAD t"
    using m by (simp add: Vacuum_xmin_def xmin_check_def)
  show ?thesis
    unfolding HeapTupleSatisfiesVacuum_def x
  proof (rule satisfies_answers [OF assms(1)])
    fix t1 assume t1: "\<not> own e t" "inserted e t" "hint_steps e t t1"
    have "vacuum_result e ox t = vacuum_deleter e ox t"
      using t1 m not_inserting by (simp add: vacuum_result_def vacuum_deleter_def)
    with Vacuum_xmax_ok [OF after_xmin(1) [OF assms(1) t1]] vacuum_deleter_same [OF t1(3)]
    show "fst (Vacuum_xmax e ox t1) = vacuum_result e ox t \<and> hint_steps e t1 (snd (Vacuum_xmax e ox t1))"
      by simp
  qed (use Vacuum_own_ok [OF assms(1)] m in \<open>auto simp: vacuum_result_def\<close>)
qed

lemma Vacuum_moved_answers:
  assumes true: "hints_true e t" and m: "moved_off t \<or> moved_in t"
  shows "answers (Vacuum_xmin e t)
    (\<lambda>r t'. hint_steps e t t' \<and> r = vacuum_result e ox t)
    (\<lambda>t'. hint_steps e t t' \<and> vacuum_result e ox t = vacuum_deleter e ox t)"
proof -
  define xvac where "xvac = HeapTupleHeaderGetXvac t"
  have n: "\<not> own e t" "\<not> inserting e t" using m by (auto simp: own_def inserting_def)
  have v: "vacuum_result e ox t =
    (if \<not> frozen t \<and> IsInProgress e xvac
     then (if moved_off t then HEAPTUPLE_DELETE_IN_PROGRESS else HEAPTUPLE_INSERT_IN_PROGRESS)
     else if \<not> inserted e t then HEAPTUPLE_DEAD else vacuum_deleter e ox t)"
    using m n by (simp add: vacuum_result_def vacuum_deleter_def xvac_def)
  consider "has t HEAP_XMIN_COMMITTED" "has t HEAP_XMIN_INVALID"
    | "has t HEAP_XMIN_COMMITTED" "\<not> has t HEAP_XMIN_INVALID"
    | "\<not> has t HEAP_XMIN_COMMITTED" "has t HEAP_XMIN_INVALID"
    | "\<not> has t HEAP_XMIN_COMMITTED" "\<not> has t HEAP_XMIN_INVALID" by blast
  then show ?thesis
  proof cases
    case 1
    then show ?thesis
      by (simp add: v Vacuum_xmin_def HeapTupleHeaderXminCommitted_def frozen_def XminFrozen_iff inserted_def)
  next
    case 2
    then have "inserter_settled e t" using true by (simp add: hints_true_def)
    with 2 m show ?thesis
      by (auto simp: v Vacuum_xmin_def HeapTupleHeaderXminCommitted_def inserted_def
          inserter_settled_def status_defs' xvac_def)
  next
    case 3
    then have "inserter_defunct e t" using true by (simp add: hints_true_def)
    with 3 m show ?thesis
      by (auto simp: v Vacuum_xmin_def HeapTupleHeaderXminCommitted_def XminInvalid_iff inserted_def
          inserter_defunct_def status_defs' xvac_def frozen_def XminFrozen_iff)
  next
    case 4
    with m current_running [of xvac] show ?thesis
      by (auto simp: v Vacuum_xmin_def HeapTupleHeaderXminCommitted_def XminInvalid_iff inserted_def
          inserter_defunct_def inserter_settled_def status_defs' xvac_def frozen_def XminFrozen_iff
          Let_def intro!: xmin_committed_moved xmin_invalid)
  qed
qed

lemma Vacuum_correct:
  assumes "tuple_ok e t"
  shows "fst (HeapTupleSatisfiesVacuum e ox t) = vacuum_result e ox t \<and>
    hint_steps e t (snd (HeapTupleSatisfiesVacuum e ox t))"
proof (cases "moved_off t \<or> moved_in t")
  case True
  note a = Vacuum_moved_answers [OF tuple_ok_true [OF assms] True, of ox]
  show ?thesis
  proof (cases "Vacuum_xmin e t")
    case (Inl p)
    then show ?thesis using a by (simp add: HeapTupleSatisfiesVacuum_def)
  next
    case (Inr t1)
    then have s: "hint_steps e t t1" and v: "vacuum_result e ox t = vacuum_deleter e ox t"
      using a by simp_all
    from Vacuum_xmax_ok [OF hint_steps_ok [OF s assms], of ox]
    have x: "fst (Vacuum_xmax e ox t1) = vacuum_deleter e ox t1"
      and h: "hint_steps e t1 (snd (Vacuum_xmax e ox t1))" by simp_all
    show ?thesis
      using rtranclp_trans [OF s h] x v vacuum_deleter_same [OF s]
      by (simp add: HeapTupleSatisfiesVacuum_def Inr)
  qed
next
  case False
  then show ?thesis using Vacuum_stayed [OF assms] by simp
qed

text \<open>The quick test that reads only hint bits agrees with VACUUM.\<close>

lemma SurelyDead_vacuum:
  assumes "tuple_ok e t" and "HeapTupleIsSurelyDead t ox"
  shows "vacuum_result e ox t = HEAPTUPLE_DEAD"
proof (cases "has t HEAP_XMIN_COMMITTED")
  case False
  then have "has t HEAP_XMIN_INVALID"
    using assms(2) by (simp add: HeapTupleIsSurelyDead_def HeapTupleHeaderXminCommitted_def XminInvalid_iff)
  then have "inserter_defunct e t"
    using False tuple_ok_true [OF assms(1)] by (simp add: hints_true_def)
  moreover have "\<not> frozen t" using False by (simp add: frozen_def XminFrozen_iff)
  ultimately have "\<not> own e t" "\<not> inserting e t" "\<not> inserted e t"
    "\<not> ((moved_off t \<or> moved_in t) \<and> IsInProgress e (HeapTupleHeaderGetXvac t))"
    by (auto simp: inserter_defunct_def status_defs' own_def inserting_def inserted_def
        split: if_splits)
  then show ?thesis by (auto simp: vacuum_result_def)
next
  case True
  then have x: "\<not> has t HEAP_XMAX_INVALID" "\<not> locked_only t" "\<not> has t HEAP_XMAX_IS_MULTI"
    "has t HEAP_XMAX_COMMITTED" "TransactionIdPrecedes (t_xmax t) ox"
    using assms(2)
    by (auto simp: HeapTupleIsSurelyDead_def HeapTupleHeaderXminCommitted_def split: if_splits)
  note facts = tuple_ok_plain [OF assms(1) x(2,3)]
  have i: "inserted e t" "\<not> own e t" "\<not> inserting e t"
    "frozen t \<or> \<not> (moved_off t \<or> moved_in t) \<or> \<not> IsInProgress e (HeapTupleHeaderGetXvac t)"
    using True tuple_ok_true [OF assms(1)]
    by (auto simp: hints_true_def inserted_def own_def inserting_def inserter_settled_def status_defs'
        frozen_def XminFrozen_iff split: if_splits)
  show ?thesis
    using i x facts(3) [OF x(4)] by (auto simp: vacuum_result_def facts(2) status_defs')
qed

end

subsection \<open>Dead tuples are invisible to every backend\<close>

text \<open>Two backends see the same transactions, apart from which of them are their own.\<close>

definition same_world :: "xact_env \<Rightarrow> xact_env \<Rightarrow> bool" where
  "same_world e e' \<longleftrightarrow> DidCommit e' = DidCommit e \<and> IsInProgress e' = IsInProgress e \<and>
     MultiUpdateXid e' = MultiUpdateXid e"

lemma vacuum_dead_invisible:
  assumes "xact_world e" and "xact_world e'" and "same_world e e'"
    and dead: "vacuum_result e ox t = HEAPTUPLE_DEAD"
    and old: "\<And>x. deleter e' t = Some x \<Longrightarrow> settled e' x \<Longrightarrow> TransactionIdPrecedes x ox \<Longrightarrow>
      \<not> XidInMVCCSnapshot e' x s"
  shows "\<not> mvcc_visible e' s t"
proof -
  have cur: "IsCurrent e x \<Longrightarrow> IsInProgress e x" "IsCurrent e' x \<Longrightarrow> IsInProgress e x" for x
    using xact_world.current_running [OF assms(1)] xact_world.current_running [OF assms(2)] assms(3)
    by (auto simp: same_world_def)
  have same: "DidCommit e' = DidCommit e" "IsInProgress e' = IsInProgress e" "deleter e' t = deleter e t"
    using assms(3) by (auto simp: same_world_def deleter_def)
  show ?thesis
  proof (cases "inserted e t \<or> own e t \<or> inserting e t")
    case False
    then have "\<not> own e' t" "\<not> inserted e' t"
      using dead cur same
      by (auto simp: vacuum_result_def own_def inserted_def inserting_def settled_def split: if_splits)
    then show ?thesis by (simp add: mvcc_visible_def snapshot_sees_insert_def)
  next
    case True
    then obtain d where d: "deleter e t = Some d" "settled e d" "TransactionIdPrecedes d ox"
      using dead by (auto simp: vacuum_result_def deleter_in_def split: if_splits)
    moreover have "settled e' d"
      using d(2) cur by (auto simp: settled_def same)
    moreover have "deleter e' t = Some d" using d(1) same(3) by simp
    ultimately have "snapshot_sees_delete e' s t"
      using old same by (auto simp: snapshot_sees_delete_def deleter_in_def settled_def)
    then show ?thesis by (simp add: mvcc_visible_def)
  qed
qed

subsection \<open>Commit hints wait for the commit record\<close>

lemma hint_steps_durable:
  assumes "hint_steps e t t'"
  shows "(has t' HEAP_XMIN_COMMITTED \<and> \<not> has t HEAP_XMIN_COMMITTED \<longrightarrow>
      moved_off t \<or> moved_in t \<or> durable e (t_xmin t)) \<and>
    (has t' HEAP_XMAX_COMMITTED \<and> \<not> has t HEAP_XMAX_COMMITTED \<longrightarrow> durable e (t_xmax t))"
  using assms
proof induction
  case base
  then show ?case by simp
next
  case (step t1 t2)
  have "(has t2 HEAP_XMIN_COMMITTED \<longrightarrow>
      has t1 HEAP_XMIN_COMMITTED \<or> moved_off t1 \<or> moved_in t1 \<or> durable e (t_xmin t1)) \<and>
    (has t2 HEAP_XMAX_COMMITTED \<longrightarrow> has t1 HEAP_XMAX_COMMITTED \<or> durable e (t_xmax t1)) "
    using step.hyps(2) by (cases rule: hint_step.cases) (auto simp: has_add_flag)
  moreover have "moved_off t1 = moved_off t" "moved_in t1 = moved_in t"
    using step.hyps(1) by (induction, simp_all) (metis add_hint_has hint_step_flag insertCI)+
  ultimately show ?case
    using step.IH hint_steps_same [OF step.hyps(1)] by auto
qed

end
