(* ===== verification/KnownAssigned.thy ===== *)
theory KnownAssigned
  imports Xid
begin

section \<open>Known-assigned transactions of a standby (storage/ipc/procarray.c)\<close>

text \<open>
  During recovery the running transactions of the primary are kept in a sorted array with
  gaps: \<open>KnownAssignedXids\<close> holds the identifiers, \<open>KnownAssignedXidsValid\<close> says which slots
  between tail and head are in use. The abstraction is the list \<open>known_list\<close> of the valid
  entries; each operation is shown to be an operation on that list. Indexes are never
  negative but in the binary search. The array bounds and the order of the entries are the
  invariant \<open>wf_known\<close>.
\<close>

record known =
  KnownAssignedXids :: "TransactionId list"
  KnownAssignedXidsValid :: "bool list"
  maxKnownAssignedXids :: nat
  numKnownAssignedXids :: int
  tailKnownAssignedXids :: nat
  headKnownAssignedXids :: nat

subsection \<open>The operations\<close>

definition compress_step ::
  "nat \<Rightarrow> nat \<times> TransactionId list \<times> bool list \<Rightarrow> nat \<times> TransactionId list \<times> bool list" where
  "compress_step i s =
     (case s of (compress_index, xids, valid) \<Rightarrow>
        if valid ! i
        then (compress_index + 1, xids[compress_index := xids ! i], valid[compress_index := True])
        else (compress_index, xids, valid))"

text \<open>\<open>maxprocs\<close> is \<open>PROCARRAY_MAXPROCS\<close>, from the configuration.\<close>

definition KnownAssignedXidsCompress :: "nat \<Rightarrow> bool \<Rightarrow> known \<Rightarrow> known" where
  "KnownAssignedXidsCompress maxprocs force s =
     (let head = headKnownAssignedXids s; tail = tailKnownAssignedXids s;
          nelements = int head - int tail
      in if \<not> force \<and> (nelements < 4 * int maxprocs \<or> nelements < 2 * numKnownAssignedXids s) then s
         else (case fold compress_step [tail..<head]
                      (0, KnownAssignedXids s, KnownAssignedXidsValid s) of
                 (compress_index, xids, valid) \<Rightarrow>
                   s\<lparr>KnownAssignedXids := xids, KnownAssignedXidsValid := valid,
                     tailKnownAssignedXids := 0, headKnownAssignedXids := compress_index\<rparr>))"

text \<open>The slow count of the slots that an insertion across the wrap point needs.\<close>

partial_function (option) count_xids :: "TransactionId \<Rightarrow> TransactionId \<Rightarrow> nat \<Rightarrow> nat option" where
  "count_xids next_xid to_xid nxids =
     (if TransactionIdPrecedes next_xid to_xid
      then count_xids (TransactionIdAdvance next_xid) to_xid (nxids + 1) else Some nxids)"

primrec insert_xids ::
  "nat \<Rightarrow> TransactionId \<Rightarrow> nat \<times> TransactionId list \<times> bool list \<Rightarrow> nat \<times> TransactionId list \<times> bool list"
where
  "insert_xids 0 next_xid s = s"
| "insert_xids (Suc n) next_xid s =
     (case s of (head, xids, valid) \<Rightarrow>
        insert_xids n (TransactionIdAdvance next_xid)
          (head + 1, xids[head := next_xid], valid[head := True]))"

definition KnownAssignedXidsAdd ::
  "nat \<Rightarrow> TransactionId \<Rightarrow> TransactionId \<Rightarrow> known \<Rightarrow> known result" where
  "KnownAssignedXidsAdd maxprocs from_xid to_xid s =
     (case (if to_xid \<ge> from_xid then Some (unat (to_xid - from_xid) + 1)
            else count_xids from_xid to_xid 1) of
        None \<Rightarrow> Inl LOOP
      | Some nxids \<Rightarrow>
          (let head = headKnownAssignedXids s; tail = tailKnownAssignedXids s
           in if head > tail \<and> TransactionIdFollowsOrEquals (KnownAssignedXids s ! (head - 1)) from_xid
              then Inl (ERROR ''out-of-order XID insertion in KnownAssignedXids'')
              else
                (let s = (if head + nxids > maxKnownAssignedXids s
                          then KnownAssignedXidsCompress maxprocs True s else s);
                     head = headKnownAssignedXids s
                 in if head + nxids > maxKnownAssignedXids s
                    then Inl (ERROR ''too many KnownAssignedXids'')
                    else (case insert_xids nxids from_xid
                                 (head, KnownAssignedXids s, KnownAssignedXidsValid s) of
                            (head, xids, valid) \<Rightarrow>
                              Inr (s\<lparr>KnownAssignedXids := xids, KnownAssignedXidsValid := valid,
                                     numKnownAssignedXids := numKnownAssignedXids s + int nxids,
                                     headKnownAssignedXids := head\<rparr>)))))"

function search_loop :: "TransactionId list \<Rightarrow> TransactionId \<Rightarrow> int \<Rightarrow> int \<Rightarrow> int" where
  "search_loop xids xid first lst =
     (if first \<le> lst then
        (let mid_index = (first + lst) div 2; mid_xid = xids ! nat mid_index
         in if xid = mid_xid then mid_index
            else if TransactionIdPrecedes xid mid_xid
            then search_loop xids xid first (mid_index - 1)
            else search_loop xids xid (mid_index + 1) lst)
      else - 1)"
  by pat_completeness auto
termination by (relation "measure (\<lambda>(xids, xid, first, lst). nat (lst - first + 1))") auto

declare search_loop.simps [simp del]

text \<open>\<open>while (tail < head && !KnownAssignedXidsValid[tail]) tail++;\<close>\<close>

function skip_invalid :: "bool list \<Rightarrow> nat \<Rightarrow> nat \<Rightarrow> nat" where
  "skip_invalid valid tail head =
     (if tail < head \<and> \<not> valid ! tail then skip_invalid valid (tail + 1) head else tail)"
  by pat_completeness auto
termination by (relation "measure (\<lambda>(valid, tail, head). head - tail)") auto

declare skip_invalid.simps [simp del]

definition set_tail :: "nat \<Rightarrow> nat \<Rightarrow> known \<Rightarrow> known" where
  "set_tail tail head s =
     (if tail \<ge> head then s\<lparr>headKnownAssignedXids := 0, tailKnownAssignedXids := 0\<rparr>
      else s\<lparr>tailKnownAssignedXids := tail\<rparr>)"

definition KnownAssignedXidsSearch :: "TransactionId \<Rightarrow> bool \<Rightarrow> known \<Rightarrow> bool \<times> known" where
  "KnownAssignedXidsSearch xid remove s =
     (let tail = tailKnownAssignedXids s; head = headKnownAssignedXids s;
          result_index = search_loop (KnownAssignedXids s) xid (int tail) (int head - 1)
      in if result_index < 0 then (False, s)
         else if \<not> KnownAssignedXidsValid s ! nat result_index then (False, s)
         else if remove then
           (let valid = (KnownAssignedXidsValid s)[nat result_index := False];
                s = s\<lparr>KnownAssignedXidsValid := valid,
                      numKnownAssignedXids := numKnownAssignedXids s - 1\<rparr>
            in if result_index = int tail
               then (True, set_tail (skip_invalid valid (tail + 1) head) head s)
               else (True, s))
         else (True, s))"

definition KnownAssignedXidExists :: "TransactionId \<Rightarrow> known \<Rightarrow> bool" where
  "KnownAssignedXidExists xid s = fst (KnownAssignedXidsSearch xid False s)"

definition KnownAssignedXidsRemove :: "TransactionId \<Rightarrow> known \<Rightarrow> known" where
  "KnownAssignedXidsRemove xid s = snd (KnownAssignedXidsSearch xid True s)"

definition KnownAssignedXidsRemoveTree ::
  "nat \<Rightarrow> TransactionId \<Rightarrow> TransactionId list \<Rightarrow> known \<Rightarrow> known" where
  "KnownAssignedXidsRemoveTree maxprocs xid subxids s =
     (let s = (if TransactionIdIsValid xid then KnownAssignedXidsRemove xid s else s);
          s = fold KnownAssignedXidsRemove subxids s
      in KnownAssignedXidsCompress maxprocs False s)"

text \<open>
  \<open>prepared\<close> is \<open>StandbyTransactionIdIsPrepared\<close>. The scan stops at the first valid entry
  that is not older than \<open>removeXid\<close>.
\<close>

fun prune_loop ::
  "(TransactionId \<Rightarrow> bool) \<Rightarrow> TransactionId \<Rightarrow> TransactionId list \<Rightarrow> nat list \<Rightarrow> bool list \<times> int \<Rightarrow>
   bool list \<times> int" where
  "prune_loop prepared removeXid xids [] s = s"
| "prune_loop prepared removeXid xids (i # is) (valid, count) =
     (if valid ! i then
        (if TransactionIdFollowsOrEquals (xids ! i) removeXid then (valid, count)
         else if \<not> prepared (xids ! i)
         then prune_loop prepared removeXid xids is (valid[i := False], count + 1)
         else prune_loop prepared removeXid xids is (valid, count))
      else prune_loop prepared removeXid xids is (valid, count))"

definition KnownAssignedXidsRemovePreceding ::
  "nat \<Rightarrow> (TransactionId \<Rightarrow> bool) \<Rightarrow> TransactionId \<Rightarrow> known \<Rightarrow> known" where
  "KnownAssignedXidsRemovePreceding maxprocs prepared removeXid s =
     (if \<not> TransactionIdIsValid removeXid
      then s\<lparr>numKnownAssignedXids := 0, headKnownAssignedXids := 0, tailKnownAssignedXids := 0\<rparr>
      else
        (let tail = tailKnownAssignedXids s; head = headKnownAssignedXids s;
             (valid, count) = prune_loop prepared removeXid (KnownAssignedXids s) [tail..<head]
                                (KnownAssignedXidsValid s, 0);
             s = s\<lparr>KnownAssignedXidsValid := valid,
                   numKnownAssignedXids := numKnownAssignedXids s - count\<rparr>;
             s = set_tail (skip_invalid valid tail head) head s
         in KnownAssignedXidsCompress maxprocs False s))"

fun get_loop ::
  "TransactionId \<Rightarrow> TransactionId list \<Rightarrow> bool list \<Rightarrow> nat list \<Rightarrow> TransactionId list \<times> TransactionId \<Rightarrow>
   TransactionId list \<times> TransactionId" where
  "get_loop xmax xids valid [] s = s"
| "get_loop xmax xids valid (i # is) (xarray, xmin) =
     (if valid ! i then
        (let knownXid = xids ! i;
             xmin = (if xarray = [] \<and> TransactionIdPrecedes knownXid xmin then knownXid else xmin)
         in if TransactionIdIsValid xmax \<and> TransactionIdFollowsOrEquals knownXid xmax
            then (xarray, xmin)
            else get_loop xmax xids valid is (xarray @ [knownXid], xmin))
      else get_loop xmax xids valid is (xarray, xmin))"

definition KnownAssignedXidsGetAndSetXmin ::
  "TransactionId \<Rightarrow> TransactionId \<Rightarrow> known \<Rightarrow> TransactionId list \<times> TransactionId" where
  "KnownAssignedXidsGetAndSetXmin xmin xmax s =
     get_loop xmax (KnownAssignedXids s) (KnownAssignedXidsValid s)
       [tailKnownAssignedXids s..<headKnownAssignedXids s] ([], xmin)"

definition KnownAssignedXidsGet :: "TransactionId \<Rightarrow> known \<Rightarrow> TransactionId list" where
  "KnownAssignedXidsGet xmax s = fst (KnownAssignedXidsGetAndSetXmin InvalidTransactionId xmax s)"

definition KnownAssignedXidsGetOldestXmin :: "known \<Rightarrow> TransactionId" where
  "KnownAssignedXidsGetOldestXmin s =
     (case find (\<lambda>i. KnownAssignedXidsValid s ! i)
             [tailKnownAssignedXids s..<headKnownAssignedXids s] of
        Some i \<Rightarrow> KnownAssignedXids s ! i
      | None \<Rightarrow> InvalidTransactionId)"

definition KnownAssignedXidsReset :: "known \<Rightarrow> known" where
  "KnownAssignedXidsReset s =
     s\<lparr>numKnownAssignedXids := 0, tailKnownAssignedXids := 0, headKnownAssignedXids := 0\<rparr>"

subsection \<open>The abstraction and the invariant\<close>

definition slots_list :: "TransactionId list \<Rightarrow> bool list \<Rightarrow> nat list \<Rightarrow> TransactionId list" where
  "slots_list xids valid is = map (\<lambda>i. xids ! i) (filter (\<lambda>i. valid ! i) is)"

definition known_list :: "known \<Rightarrow> TransactionId list" where
  "known_list s = slots_list (KnownAssignedXids s) (KnownAssignedXidsValid s)
     [tailKnownAssignedXids s..<headKnownAssignedXids s]"

text \<open>The entries between tail and head, valid or not, are in transaction order from \<open>base\<close>.\<close>

definition xids_ordered :: "TransactionId \<Rightarrow> TransactionId list \<Rightarrow> nat \<Rightarrow> nat \<Rightarrow> bool" where
  "xids_ordered base xids lo hi \<longleftrightarrow>
     (\<forall>i. lo \<le> i \<and> i < hi \<longrightarrow> TransactionIdIsNormal (xids ! i) \<and> age base (xids ! i) < 2 ^ 31) \<and>
     (\<forall>i j. lo \<le> i \<and> i < j \<and> j < hi \<longrightarrow> age base (xids ! i) < age base (xids ! j))"

definition wf_known :: "TransactionId \<Rightarrow> known \<Rightarrow> bool" where
  "wf_known base s \<longleftrightarrow>
     length (KnownAssignedXids s) = maxKnownAssignedXids s \<and>
     length (KnownAssignedXidsValid s) = maxKnownAssignedXids s \<and>
     tailKnownAssignedXids s \<le> headKnownAssignedXids s \<and>
     headKnownAssignedXids s \<le> maxKnownAssignedXids s \<and>
     numKnownAssignedXids s = int (length (known_list s)) \<and>
     xids_ordered base (KnownAssignedXids s) (tailKnownAssignedXids s) (headKnownAssignedXids s)"

lemma wf_knownD:
  assumes "wf_known base s"
  shows "length (KnownAssignedXids s) = maxKnownAssignedXids s"
    "length (KnownAssignedXidsValid s) = maxKnownAssignedXids s"
    "tailKnownAssignedXids s \<le> headKnownAssignedXids s"
    "headKnownAssignedXids s \<le> maxKnownAssignedXids s"
    "numKnownAssignedXids s = int (length (known_list s))"
    "xids_ordered base (KnownAssignedXids s) (tailKnownAssignedXids s) (headKnownAssignedXids s)"
  using assms by (simp_all add: wf_known_def)

lemma orderedD:
  assumes "xids_ordered base xids lo hi"
  shows "lo \<le> i \<Longrightarrow> i < hi \<Longrightarrow> TransactionIdIsNormal (xids ! i) \<and> age base (xids ! i) < 2 ^ 31"
    "lo \<le> i \<Longrightarrow> i < j \<Longrightarrow> j < hi \<Longrightarrow> age base (xids ! i) < age base (xids ! j)"
    "lo \<le> i \<Longrightarrow> i < hi \<Longrightarrow> lo \<le> j \<Longrightarrow> j < hi \<Longrightarrow> xids ! i = xids ! j \<longleftrightarrow> i = j"
  using assms by (auto simp: xids_ordered_def) (metis linorder_neqE_nat nat_less_le)

lemma slots_list_simps [simp]:
  "slots_list xids valid [] = []"
  "slots_list xids valid (is @ js) = slots_list xids valid is @ slots_list xids valid js"
  "slots_list xids valid (i # is) =
     (if valid ! i then xids ! i # slots_list xids valid is else slots_list xids valid is)"
  by (simp_all add: slots_list_def)

lemma slots_list_cong:
  "(\<And>i. i \<in> set is \<Longrightarrow> valid' ! i = valid ! i \<and> (valid ! i \<longrightarrow> xids' ! i = xids ! i)) \<Longrightarrow>
    slots_list xids' valid' is = slots_list xids valid is"
  by (induction "is") auto

lemma length_slots: "length (slots_list xids valid is) \<le> length is"
  by (simp add: slots_list_def)

text \<open>The list is in strictly increasing order, without repetitions.\<close>

lemma slots_list_sorted:
  assumes "xids_ordered base xids lo hi"
  shows "sorted_wrt (\<lambda>x y. age base x < age base y) (slots_list xids valid [lo..<hi])"
proof -
  have "sorted_wrt (\<lambda>i j. age base (xids ! i) < age base (xids ! j)) (filter (\<lambda>i. valid ! i) [lo..<hi])"
    by (rule sorted_wrt_mono_rel [OF _ sorted_wrt_filter [OF strict_sorted_iff [THEN iffD2]]])
      (auto intro: orderedD(2) [OF assms])
  then show ?thesis by (simp add: slots_list_def sorted_wrt_map)
qed

lemma known_list_sorted:
  assumes "wf_known base s"
  shows "sorted_wrt (\<lambda>x y. age base x < age base y) (known_list s)"
  using slots_list_sorted [OF wf_knownD(6) [OF assms]] by (simp add: known_list_def)

lemma known_list_window:
  assumes "wf_known base s"
  shows "xid_window base (set (known_list s))"
  using orderedD(1) [OF wf_knownD(6) [OF assms]]
  by (auto simp: xid_window_def known_list_def slots_list_def)

lemma known_list_distinct: "wf_known base s \<Longrightarrow> distinct (known_list s)"
  using known_list_sorted [of base s] by (auto simp: distinct_conv_nth sorted_wrt_iff_nth_less)
    (metis linorder_neqE_nat nat_less_le)

subsection \<open>Compression\<close>

lemma compress_fold:
  assumes "lo \<le> hi" and "hi \<le> length xids" and "length valid = length xids"
    and "fold compress_step [lo..<hi] (0, xids, valid) = (c, xids', valid')"
  shows "c = length (slots_list xids valid [lo..<hi]) \<and> length xids' = length xids \<and>
    length valid' = length valid \<and>
    (\<forall>k < c. xids' ! k = slots_list xids valid [lo..<hi] ! k \<and> valid' ! k) \<and>
    (\<forall>k. c \<le> k \<longrightarrow> xids' ! k = xids ! k \<and> valid' ! k = valid ! k)"
  using assms
proof (induction hi arbitrary: c xids' valid')
  case (Suc hi)
  show ?case
  proof (cases "lo \<le> hi")
    case False
    then show ?thesis using Suc.prems by simp
  next
    case True
    obtain c1 xids1 valid1 where f: "fold compress_step [lo..<hi] (0, xids, valid) = (c1, xids1, valid1)"
      by (cases "fold compress_step [lo..<hi] (0, xids, valid)")
    note IH = Suc.IH [OF True _ Suc.prems(3) f]
    have h: "hi < length xids" using Suc.prems by simp
    have c1: "c1 \<le> hi - lo"
      using IH h length_slots [of xids valid "[lo..<hi]"] by simp
    have step: "compress_step hi (c1, xids1, valid1) = (c, xids', valid')"
      using Suc.prems(4) True f by simp
    have at: "valid1 ! hi = valid ! hi" "xids1 ! hi = xids ! hi"
      using IH h c1 by auto
    have lt: "length (slots_list xids valid [lo..<hi]) < length valid"
      using length_slots [of xids valid "[lo..<hi]"] h Suc.prems(3) by simp
    show ?thesis
      using IH h c1 True step at lt
      by (auto simp: compress_step_def nth_append nth_list_update less_Suc_eq split: if_splits)
  qed
qed simp

lemma slots_list_full:
  "(\<And>i. i \<in> set is \<Longrightarrow> valid ! i) \<Longrightarrow> slots_list xids valid is = map (\<lambda>i. xids ! i) is"
  by (simp add: slots_list_def)

lemma Compress_list:
  assumes wf: "wf_known base s"
  shows "known_list (KnownAssignedXidsCompress maxprocs force s) = known_list s"
    "wf_known base (KnownAssignedXidsCompress maxprocs force s)"
    "force \<Longrightarrow> headKnownAssignedXids (KnownAssignedXidsCompress maxprocs force s) = length (known_list s) \<and>
       tailKnownAssignedXids (KnownAssignedXidsCompress maxprocs force s) = 0"
    "maxKnownAssignedXids (KnownAssignedXidsCompress maxprocs force s) = maxKnownAssignedXids s"
proof -
  note w = wf_knownD [OF wf]
  let ?l = "known_list s"
  obtain c xids valid where f: "fold compress_step [tailKnownAssignedXids s..<headKnownAssignedXids s]
      (0, KnownAssignedXids s, KnownAssignedXidsValid s) = (c, xids, valid)"
    by (cases "fold compress_step [tailKnownAssignedXids s..<headKnownAssignedXids s]
      (0, KnownAssignedXids s, KnownAssignedXidsValid s)")
  define s' where "s' = s\<lparr>KnownAssignedXids := xids, KnownAssignedXidsValid := valid,
    tailKnownAssignedXids := 0, headKnownAssignedXids := c\<rparr>"
  from compress_fold [OF w(3) _ _ f] w(1,2,4)
  have c: "c = length ?l" "length xids = maxKnownAssignedXids s" "length valid = maxKnownAssignedXids s"
    "\<And>k. k < c \<Longrightarrow> xids ! k = ?l ! k \<and> valid ! k"
    by (auto simp: known_list_def)
  have "length ?l \<le> headKnownAssignedXids s - tailKnownAssignedXids s"
    unfolding known_list_def
    by (rule order_trans [OF length_slots]) simp
  then have cmax: "c \<le> maxKnownAssignedXids s"
    using c(1) w(3,4) by linarith
  have "known_list s' = slots_list xids valid [0..<c]"
    unfolding known_list_def by (simp add: s'_def)
  also have "\<dots> = map (\<lambda>i. xids ! i) [0..<c]"
    by (rule slots_list_full) (simp add: c)
  also have "\<dots> = ?l"
    by (rule nth_equalityI) (simp_all add: c)
  finally have l: "known_list s' = ?l" .
  have "xids_ordered base xids 0 c"
    unfolding xids_ordered_def
    using c known_list_sorted [OF wf] known_list_window [OF wf]
    by (auto simp: sorted_wrt_iff_nth_less xid_window_def)
  then have wf': "wf_known base s'"
    using c cmax w(5) l by (simp add: wf_known_def) (simp add: s'_def)
  have cases: "KnownAssignedXidsCompress maxprocs force s = s' \<or>
    \<not> force \<and> KnownAssignedXidsCompress maxprocs force s = s"
    by (auto simp: KnownAssignedXidsCompress_def Let_def f s'_def)
  show "known_list (KnownAssignedXidsCompress maxprocs force s) = ?l"
    "wf_known base (KnownAssignedXidsCompress maxprocs force s)"
    "maxKnownAssignedXids (KnownAssignedXidsCompress maxprocs force s) = maxKnownAssignedXids s"
    using cases l wf' wf by (auto simp: s'_def)
  show "force \<Longrightarrow> headKnownAssignedXids (KnownAssignedXidsCompress maxprocs force s) = length ?l \<and>
       tailKnownAssignedXids (KnownAssignedXidsCompress maxprocs force s) = 0"
    using cases c(1) by (auto simp: s'_def)
qed

subsection \<open>Search and removal\<close>

lemma search_loop_ok:
  assumes "xids_ordered base xids lo hi" and "int lo \<le> first" and "lst < int hi"
  shows "search_loop xids xid first lst = - 1 \<and> (\<forall>k. first \<le> int k \<and> int k \<le> lst \<longrightarrow> xids ! k \<noteq> xid) \<or>
    (\<exists>k. search_loop xids xid first lst = int k \<and> lo \<le> k \<and> k < hi \<and> xids ! k = xid)"
  using assms
proof (induction xids xid first lst rule: search_loop.induct)
  case (1 xids xid first lst)
  show ?case
  proof (cases "first \<le> lst")
    case False
    then show ?thesis by (auto simp: search_loop.simps)
  next
    case True
    define mid where "mid = (first + lst) div 2"
    define m where "m = nat mid"
    have mid: "first \<le> mid" "mid \<le> lst" "mid = int m" "lo \<le> m" "m < hi"
      using True "1.prems" by (auto simp: mid_def m_def)
    note nth_m = orderedD(1) [OF "1.prems"(1) mid(4,5)]
    have below: "xids ! k \<noteq> xid" if "TransactionIdPrecedes xid (xids ! m)" "int m \<le> int k" "int k \<le> lst" for k
    proof
      assume eq: "xids ! k = xid"
      have k: "lo \<le> k" "k < hi" using that mid "1.prems" by auto
      have "age base (xids ! k) < age base (xids ! m)"
        using that(1) eq Precedes_age(1) [of xid "xids ! m" base] orderedD(1) [OF "1.prems"(1) k] nth_m
        by simp
      then show False
        using orderedD(2) [OF "1.prems"(1) mid(4), of k] that(2) k by (cases "k = m") auto
    qed
    have above: "xids ! k \<noteq> xid" if "xid \<noteq> xids ! m" "\<not> TransactionIdPrecedes xid (xids ! m)"
      "first \<le> int k" "int k \<le> int m" for k
    proof
      assume eq: "xids ! k = xid"
      have k: "lo \<le> k" "k < hi" using that mid "1.prems" by auto
      have "\<not> age base (xids ! k) < age base (xids ! m)"
        using that(2) eq Precedes_age(1) [of xid "xids ! m" base] orderedD(1) [OF "1.prems"(1) k] nth_m
        by simp
      moreover have "k < m" using that(1,4) eq by (cases "k = m") auto
      ultimately show False
        using orderedD(2) [OF "1.prems"(1) k(1), of m] mid(5) by auto
    qed
    show ?thesis
    proof (cases "xid = xids ! m")
      case eq: True
      have "search_loop xids xid first lst = int m"
        using True eq mid by (subst search_loop.simps) (simp add: mid_def m_def)
      then show ?thesis using mid eq by auto
    next
      case ne: False
      show ?thesis
      proof (cases "TransactionIdPrecedes xid (xids ! m)")
        case p: True
        have r: "search_loop xids xid first lst = search_loop xids xid first (mid - 1)"
          using True ne p by (subst search_loop.simps) (simp add: mid_def m_def)
        have "mid - 1 < int hi" using mid by simp
        note IH = "1.IH"(1) [OF True mid_def refl _ _ "1.prems"(1,2) this]
        have "xids ! k \<noteq> xid" if "\<forall>k. first \<le> int k \<and> int k \<le> mid - 1 \<longrightarrow> xids ! k \<noteq> xid"
          "first \<le> int k" "int k \<le> lst" for k
          using that below [OF p] mid(3) by (cases "int k \<le> mid - 1") auto
        then show ?thesis unfolding r using IH ne p m_def by auto
      next
        case p: False
        have r: "search_loop xids xid first lst = search_loop xids xid (mid + 1) lst"
          using True ne p by (subst search_loop.simps) (simp add: mid_def m_def)
        have "int lo \<le> mid + 1" using mid by simp
        note IH = "1.IH"(2) [OF True mid_def refl _ _ "1.prems"(1) this "1.prems"(3)]
        have "xids ! k \<noteq> xid" if "\<forall>k. mid + 1 \<le> int k \<and> int k \<le> lst \<longrightarrow> xids ! k \<noteq> xid"
          "first \<le> int k" "int k \<le> lst" for k
          using that above [OF ne p] mid(3) by (cases "mid + 1 \<le> int k") auto
        then show ?thesis unfolding r using IH ne p m_def by auto
      qed
    qed
  qed
qed

text \<open>Dropping invalid slots at the tail does not change the list.\<close>

lemma skip_invalid_list:
  assumes "tail \<le> head"
  shows "tail \<le> skip_invalid valid tail head" "skip_invalid valid tail head \<le> head"
    "slots_list xids valid [skip_invalid valid tail head..<head] = slots_list xids valid [tail..<head]"
  using assms
proof (induction valid tail head rule: skip_invalid.induct)
  case (1 valid tail head)
  {
    case 1
    then show ?case using "1.IH" by (subst skip_invalid.simps) auto
  next
    case 2
    then show ?case using "1.IH" by (subst skip_invalid.simps) auto
  next
    case 3
    then show ?case
      using "1.IH"(3) upt_conv_Cons [of tail head] by (subst skip_invalid.simps) auto
  }
qed

lemma ordered_sub: "xids_ordered base xids lo hi \<Longrightarrow> lo \<le> lo' \<Longrightarrow> xids_ordered base xids lo' hi"
  by (auto simp: xids_ordered_def)

lemma set_tail_list:
  assumes "tailKnownAssignedXids s \<le> tail" and "tail \<le> headKnownAssignedXids s"
    and "slots_list (KnownAssignedXids s) (KnownAssignedXidsValid s) [tail..<headKnownAssignedXids s] =
      known_list s"
    and "wf_known base s"
  shows "known_list (set_tail tail (headKnownAssignedXids s) s) = known_list s"
    "wf_known base (set_tail tail (headKnownAssignedXids s) s)"
proof -
  have empty: "known_list s = []" if "headKnownAssignedXids s \<le> tail"
    using assms(3) that by simp
  then show l: "known_list (set_tail tail (headKnownAssignedXids s) s) = known_list s"
    using assms(3) by (auto simp: set_tail_def known_list_def)
  have "xids_ordered base (KnownAssignedXids s) tail (headKnownAssignedXids s)"
    using ordered_sub [OF wf_knownD(6) [OF assms(4)] assms(1)] .
  then show "wf_known base (set_tail tail (headKnownAssignedXids s) s)"
    using assms l
    by (auto simp: wf_known_def set_tail_def xids_ordered_def)
qed

text \<open>Marking slots invalid removes their entries from the list.\<close>

lemma invalidate_list:
  assumes "xids_ordered base xids lo hi" and "lo \<le> r" and "r < hi" and "hi \<le> length valid"
  shows "slots_list xids (valid[r := False]) [lo..<hi] =
    filter (\<lambda>x. x \<noteq> xids ! r) (slots_list xids valid [lo..<hi])"
proof -
  have "filter (\<lambda>i. valid[r := False] ! i) [lo..<hi] =
      filter (\<lambda>i. xids ! i \<noteq> xids ! r) (filter (\<lambda>i. valid ! i) [lo..<hi])"
    unfolding filter_filter
    by (rule filter_cong) (use assms orderedD(3) [OF assms(1)] in \<open>auto simp: nth_list_update\<close>)
  then show ?thesis by (simp add: slots_list_def filter_map o_def)
qed

lemma length_filter_neq:
  "distinct xs \<Longrightarrow> x \<in> set xs \<Longrightarrow> length (filter (\<lambda>y. y \<noteq> x) xs) = length xs - 1"
  using distinct_remove1_removeAll [of xs x] length_remove1 [of x xs] removeAll_filter_not_eq [of x]
  by (simp add: eq_commute [of x])

lemma Search_list:
  assumes wf: "wf_known base s"
  shows "fst (KnownAssignedXidsSearch xid remove s) \<longleftrightarrow> xid \<in> set (known_list s)"
    "known_list (snd (KnownAssignedXidsSearch xid remove s)) =
      (if remove then filter (\<lambda>x. x \<noteq> xid) (known_list s) else known_list s)"
    "wf_known base (snd (KnownAssignedXidsSearch xid remove s))"
proof -
  note w = wf_knownD [OF wf]
  let ?lo = "tailKnownAssignedXids s" and ?hi = "headKnownAssignedXids s"
  let ?r = "search_loop (KnownAssignedXids s) xid (int ?lo) (int ?hi - 1)"
  let ?n = "KnownAssignedXidsSearch xid remove s"
  have mem: "xid \<in> set (known_list s) \<longleftrightarrow>
      (\<exists>k. ?lo \<le> k \<and> k < ?hi \<and> KnownAssignedXidsValid s ! k \<and> KnownAssignedXids s ! k = xid)"
    by (auto simp: known_list_def slots_list_def)
  have "?r = - 1 \<and> (\<forall>k. int ?lo \<le> int k \<and> int k \<le> int ?hi - 1 \<longrightarrow> KnownAssignedXids s ! k \<noteq> xid) \<or>
    (\<exists>k. ?r = int k \<and> ?lo \<le> k \<and> k < ?hi \<and> KnownAssignedXids s ! k = xid)"
    by (rule search_loop_ok [OF w(6)]) simp_all
  then consider "?r = - 1" "\<And>k. ?lo \<le> k \<Longrightarrow> k < ?hi \<Longrightarrow> KnownAssignedXids s ! k \<noteq> xid"
    | k where "?r = int k" "?lo \<le> k" "k < ?hi" "KnownAssignedXids s ! k = xid"
    by force
  then have "(fst ?n \<longleftrightarrow> xid \<in> set (known_list s)) \<and>
    known_list (snd ?n) = (if remove then filter (\<lambda>x. x \<noteq> xid) (known_list s) else known_list s) \<and>
    wf_known base (snd ?n)"
  proof cases
    case 1
    then have n: "xid \<notin> set (known_list s)" using mem by blast
    then have "filter (\<lambda>x. x \<noteq> xid) (known_list s) = known_list s" by (auto simp: filter_id_conv)
    with 1 n wf show ?thesis by (simp add: KnownAssignedXidsSearch_def Let_def)
  next
    case k: 2
    then have v: "KnownAssignedXidsValid s ! k \<longleftrightarrow> xid \<in> set (known_list s)"
      unfolding mem using orderedD(3) [OF w(6)] by blast
    show ?thesis
    proof (cases "KnownAssignedXidsValid s ! k \<and> remove")
      case False
      then show ?thesis
        using k v wf
        by (auto simp: KnownAssignedXidsSearch_def Let_def filter_id_conv intro!: filter_True [symmetric])
    next
      case True
      define valid where "valid = (KnownAssignedXidsValid s)[k := False]"
      define s1 where "s1 = s\<lparr>KnownAssignedXidsValid := valid,
        numKnownAssignedXids := numKnownAssignedXids s - 1\<rparr>"
      have l1: "known_list s1 = filter (\<lambda>x. x \<noteq> xid) (known_list s)"
        using invalidate_list [OF w(6) k(2,3), of "KnownAssignedXidsValid s"] w(2,4) k(4)
        by (simp add: known_list_def s1_def valid_def)
      have "known_list s \<noteq> []" using v True by auto
      then have len: "int (length (filter (\<lambda>x. x \<noteq> xid) (known_list s))) = numKnownAssignedXids s - 1"
        using length_filter_neq [OF known_list_distinct [OF wf]] v True w(5)
        by (cases "known_list s") simp_all
      have wf1: "wf_known base s1"
        using w l1 len by (simp add: wf_known_def) (simp add: s1_def valid_def)
      have f: "tailKnownAssignedXids s1 = ?lo" "headKnownAssignedXids s1 = ?hi"
        "KnownAssignedXidsValid s1 = valid" "KnownAssignedXids s1 = KnownAssignedXids s"
        by (simp_all add: s1_def)
      have n: "?n = (True, if k = ?lo then set_tail (skip_invalid valid (?lo + 1) ?hi) ?hi s1 else s1)"
        using k True by (simp add: KnownAssignedXidsSearch_def Let_def valid_def s1_def)
      show ?thesis
      proof (cases "k = ?lo")
        case False
        then show ?thesis using n wf1 l1 v True by simp
      next
        case lo: True
        have "slots_list (KnownAssignedXids s1) valid [?lo + 1..<?hi] = known_list s1"
          using k(3) lo w(2,4) upt_conv_Cons [of ?lo ?hi]
          by (simp add: known_list_def f) (simp add: valid_def)
        then have t: "slots_list (KnownAssignedXids s1) valid
            [skip_invalid valid (?lo + 1) ?hi..<?hi] = known_list s1"
          using skip_invalid_list(3) [of "?lo + 1" ?hi] k(3) lo by simp
        have b: "?lo \<le> skip_invalid valid (?lo + 1) ?hi" "skip_invalid valid (?lo + 1) ?hi \<le> ?hi"
          using skip_invalid_list(1,2) [of "?lo + 1" ?hi valid] k(3) lo by simp_all
        from set_tail_list [of s1, OF _ _ _ wf1, unfolded f, OF b t [unfolded f]]
        show ?thesis using n lo l1 v True by simp
      qed
    qed
  qed
  then show "fst ?n \<longleftrightarrow> xid \<in> set (known_list s)"
    "known_list (snd ?n) = (if remove then filter (\<lambda>x. x \<noteq> xid) (known_list s) else known_list s)"
    "wf_known base (snd ?n)" by blast+
qed

lemma Remove_list:
  assumes "wf_known base s"
  shows "known_list (KnownAssignedXidsRemove xid s) = filter (\<lambda>x. x \<noteq> xid) (known_list s)"
    "wf_known base (KnownAssignedXidsRemove xid s)"
  using Search_list(2,3) [OF assms, of xid True] by (simp_all add: KnownAssignedXidsRemove_def)

lemma RemoveTree_list:
  assumes "wf_known base s"
  shows "known_list (KnownAssignedXidsRemoveTree maxprocs xid subxids s) =
      filter (\<lambda>x. x \<noteq> xid \<and> x \<notin> set subxids) (known_list s)"
    "wf_known base (KnownAssignedXidsRemoveTree maxprocs xid subxids s)"
proof -
  have fold: "known_list (fold KnownAssignedXidsRemove subxids s) = filter (\<lambda>x. x \<notin> set subxids) (known_list s) \<and>
    wf_known base (fold KnownAssignedXidsRemove subxids s)" if "wf_known base s" for s
    using that
  proof (induction subxids arbitrary: s)
    case (Cons y ys)
    then show ?case
      using Cons.IH [OF Remove_list(2) [OF Cons.prems]]
      by (simp add: Remove_list(1))
  qed simp
  define s1 where "s1 = (if TransactionIdIsValid xid then KnownAssignedXidsRemove xid s else s)"
  have "\<not> TransactionIdIsValid xid \<Longrightarrow> x \<in> set (known_list s) \<Longrightarrow> x \<noteq> xid" for x
    using known_list_window [OF assms]
    by (auto simp: xid_window_def TransactionIdIsValid_def TransactionIdIsNormal_def xid_constants)
  then have s1: "known_list s1 = filter (\<lambda>x. x \<noteq> xid) (known_list s)" "wf_known base s1"
    using assms Remove_list [OF assms] by (auto simp: s1_def filter_id_conv intro!: filter_True [symmetric])
  show "known_list (KnownAssignedXidsRemoveTree maxprocs xid subxids s) =
      filter (\<lambda>x. x \<noteq> xid \<and> x \<notin> set subxids) (known_list s)"
    "wf_known base (KnownAssignedXidsRemoveTree maxprocs xid subxids s)"
    using fold [OF s1(2)] s1(1) Compress_list(1,2) [of base "fold KnownAssignedXidsRemove subxids s1"]
    by (simp_all add: KnownAssignedXidsRemoveTree_def Let_def s1_def [symmetric])
qed

subsection \<open>Pruning\<close>

lemma prune_loop_ok:
  assumes "xids_ordered base xids lo hi" and "hi \<le> length valid"
    and "TransactionIdIsNormal x" and "age base x < 2 ^ 31"
    and "prune_loop prepared x xids [lo..<hi] (valid, n) = (valid', n')"
  shows "length valid' = length valid \<and>
    slots_list xids valid' [lo..<hi] =
      filter (\<lambda>y. \<not> TransactionIdPrecedes y x \<or> prepared y) (slots_list xids valid [lo..<hi]) \<and>
    n' + int (length (slots_list xids valid' [lo..<hi])) = n + int (length (slots_list xids valid [lo..<hi])) \<and>
    (\<forall>i. i < lo \<longrightarrow> valid' ! i = valid ! i)"
  using assms
proof (induction "hi - lo" arbitrary: lo valid n)
  case 0
  then show ?case by simp
next
  case (Suc m)
  then have lt: "lo < hi" by simp
  note up = upt_conv_Cons [OF lt]
  note ord = Suc.prems(1)
  have ord': "xids_ordered base xids (Suc lo) hi" using ordered_sub [OF ord] by simp
  have cmp: "TransactionIdPrecedes (xids ! i) x \<longleftrightarrow> age base (xids ! i) < age base x"
    "TransactionIdFollowsOrEquals (xids ! i) x \<longleftrightarrow> age base x \<le> age base (xids ! i)"
    if "lo \<le> i" "i < hi" for i
    using orderedD(1) [OF ord that] Suc.prems(3,4) by (simp_all add: Precedes_age)
  note IH = Suc.hyps(1) [OF _ ord' _ Suc.prems(3,4)]
  have m: "m = hi - Suc lo" using Suc.hyps(2) by simp
  show ?case
  proof (cases "valid ! lo \<and> TransactionIdFollowsOrEquals (xids ! lo) x")
    case True
    have "\<not> TransactionIdPrecedes (xids ! i) x" if "lo \<le> i" "i < hi" for i
      using cmp(1) [OF that] cmp(2) [of lo] True lt orderedD(2) [OF ord _ _ that(2), of lo] that(1)
      by (cases "i = lo") auto
    then have "filter (\<lambda>y. \<not> TransactionIdPrecedes y x \<or> prepared y) (slots_list xids valid [lo..<hi]) =
        slots_list xids valid [lo..<hi]"
      by (auto simp: filter_id_conv slots_list_def)
    moreover have "valid' = valid" "n' = n" using True Suc.prems(5) by (simp_all add: up)
    ultimately show ?thesis by simp
  next
    case stop: False
    show ?thesis
    proof (cases "valid ! lo \<and> \<not> prepared (xids ! lo)")
      case True
      then have r: "prune_loop prepared x xids [Suc lo..<hi] (valid[lo := False], n + 1) = (valid', n')"
        using Suc.prems(5) stop by (simp add: up)
      have p: "TransactionIdPrecedes (xids ! lo) x" using True stop cmp [of lo] lt by auto
      have same: "slots_list xids (valid[lo := False]) [Suc lo..<hi] = slots_list xids valid [Suc lo..<hi]"
        by (rule slots_list_cong) auto
      have inv: "\<not> valid' ! lo"
        using IH [OF m _ r] Suc.prems(2) lt by simp
      show ?thesis
        using IH [OF m _ r] Suc.prems(2) True p same inv by (auto simp: up)
    next
      case False
      then have r: "prune_loop prepared x xids [Suc lo..<hi] (valid, n) = (valid', n')"
        using Suc.prems(5) stop by (cases "valid ! lo") (simp_all add: up)
      show ?thesis
        using IH [OF m Suc.prems(2) r] False by (auto simp: up)
    qed
  qed
qed

lemma prune_parts:
  assumes wf: "wf_known base s" and x: "TransactionIdIsNormal x" "age base x < 2 ^ 31"
  obtains s1 t where "KnownAssignedXidsRemovePreceding maxprocs prepared x s =
      KnownAssignedXidsCompress maxprocs False (set_tail t (headKnownAssignedXids s1) s1)"
    and "wf_known base (set_tail t (headKnownAssignedXids s1) s1)" "tailKnownAssignedXids s1 \<le> t"
    and "KnownAssignedXids s1 = KnownAssignedXids s" "tailKnownAssignedXids s1 = tailKnownAssignedXids s"
    and "headKnownAssignedXids s1 = headKnownAssignedXids s"
    and "known_list (set_tail t (headKnownAssignedXids s1) s1) =
      filter (\<lambda>y. \<not> TransactionIdPrecedes y x \<or> prepared y) (known_list s)"
proof -
  note w = wf_knownD [OF wf]
  obtain valid n where p: "prune_loop prepared x (KnownAssignedXids s)
      [tailKnownAssignedXids s..<headKnownAssignedXids s] (KnownAssignedXidsValid s, 0) = (valid, n)"
    by (cases "prune_loop prepared x (KnownAssignedXids s)
      [tailKnownAssignedXids s..<headKnownAssignedXids s] (KnownAssignedXidsValid s, 0)")
  have "headKnownAssignedXids s \<le> length (KnownAssignedXidsValid s)" using w by simp
  note pr = prune_loop_ok [OF w(6) this x p]
  define s1 where "s1 = s\<lparr>KnownAssignedXidsValid := valid, numKnownAssignedXids := numKnownAssignedXids s - n\<rparr>"
  have l1: "known_list s1 = filter (\<lambda>y. \<not> TransactionIdPrecedes y x \<or> prepared y) (known_list s)"
    using pr w by (simp add: known_list_def s1_def)
  have wf1: "wf_known base s1"
  proof -
    have "n + int (length (slots_list (KnownAssignedXids s) valid
        [tailKnownAssignedXids s..<headKnownAssignedXids s])) = 0 + int (length (known_list s))"
      using pr w(2,4) unfolding known_list_def by blast
    then have "numKnownAssignedXids s - n = int (length (known_list s1))"
      using w(5) by (simp add: known_list_def s1_def)
    then show ?thesis using w pr by (simp add: wf_known_def) (simp add: s1_def)
  qed
  define t where "t = skip_invalid valid (tailKnownAssignedXids s) (headKnownAssignedXids s)"
  have t: "tailKnownAssignedXids s1 \<le> t" "t \<le> headKnownAssignedXids s1"
    "slots_list (KnownAssignedXids s1) (KnownAssignedXidsValid s1) [t..<headKnownAssignedXids s1] = known_list s1"
    using skip_invalid_list(1,2) [OF w(3), of valid] skip_invalid_list(3) [OF w(3), of "KnownAssignedXids s" valid]
    by (simp_all add: t_def known_list_def s1_def)
  have "TransactionIdIsValid x"
    using x(1) by (auto simp: TransactionIdIsValid_def TransactionIdIsNormal_def xid_constants)
  then have r: "KnownAssignedXidsRemovePreceding maxprocs prepared x s =
      KnownAssignedXidsCompress maxprocs False (set_tail t (headKnownAssignedXids s1) s1)"
    by (simp add: KnownAssignedXidsRemovePreceding_def Let_def p s1_def t_def)
  show ?thesis
    using that [OF r set_tail_list(2) [OF t wf1] t(1)] set_tail_list(1) [OF t wf1] l1
    by (simp add: s1_def)
qed

lemma RemovePreceding_list:
  assumes "wf_known base s" and "TransactionIdIsNormal x" and "age base x < 2 ^ 31"
  shows "known_list (KnownAssignedXidsRemovePreceding maxprocs prepared x s) =
      filter (\<lambda>y. \<not> TransactionIdPrecedes y x \<or> prepared y) (known_list s)"
    "wf_known base (KnownAssignedXidsRemovePreceding maxprocs prepared x s)"
  by (rule prune_parts [OF assms, of maxprocs prepared], simp add: Compress_list)+

subsection \<open>Taking snapshots\<close>

lemma get_loop_ok:
  "get_loop xmax xids valid is (xs, xmin) =
     (let l = slots_list xids valid is
      in (xs @ takeWhile (\<lambda>x. \<not> (TransactionIdIsValid xmax \<and> TransactionIdFollowsOrEquals x xmax)) l,
          if xs = [] \<and> l \<noteq> [] \<and> TransactionIdPrecedes (hd l) xmin then hd l else xmin))"
  by (induction "is" arbitrary: xs xmin) (auto simp: Let_def)

lemma GetAndSetXmin_list:
  "KnownAssignedXidsGetAndSetXmin xmin xmax s =
    (takeWhile (\<lambda>x. \<not> (TransactionIdIsValid xmax \<and> TransactionIdFollowsOrEquals x xmax)) (known_list s),
     if known_list s \<noteq> [] \<and> TransactionIdPrecedes (hd (known_list s)) xmin then hd (known_list s) else xmin)"
  by (simp add: KnownAssignedXidsGetAndSetXmin_def get_loop_ok known_list_def Let_def)

lemma GetOldestXmin_list:
  "KnownAssignedXidsGetOldestXmin s =
    (if known_list s = [] then InvalidTransactionId else hd (known_list s))"
proof -
  have "(case find (\<lambda>i. valid ! i) is of Some i \<Rightarrow> xids ! i | None \<Rightarrow> InvalidTransactionId) =
    (if slots_list xids valid is = [] then InvalidTransactionId else hd (slots_list xids valid is))"
    for xids valid "is"
    by (induction "is") auto
  then show ?thesis by (simp add: KnownAssignedXidsGetOldestXmin_def known_list_def)
qed

subsection \<open>Adding a range of transactions\<close>

definition xid_range :: "nat \<Rightarrow> TransactionId \<Rightarrow> TransactionId list" where
  "xid_range n x = map (\<lambda>k. (TransactionIdAdvance ^^ k) x) [0..<n]"

text \<open>\<open>range_to from to n\<close>: the range from \<open>from\<close> to \<open>to\<close>, both included, has \<open>n\<close> elements.\<close>

definition range_to :: "TransactionId \<Rightarrow> TransactionId \<Rightarrow> nat \<Rightarrow> bool" where
  "range_to from_xid to_xid n \<longleftrightarrow> 0 < n \<and> (TransactionIdAdvance ^^ (n - 1)) from_xid = to_xid \<and>
     (\<forall>k < n - 1. (TransactionIdAdvance ^^ k) from_xid \<noteq> to_xid)"

lemma age_alt:
  "age b x = (if unat b \<le> unat x then unat x - unat b else unat x + 4294967296 - unat b)"
  by (simp add: age_def unat_sub_if_size word_size)

lemma xid_unat: "unat (x :: TransactionId) < 4294967296"
  using unsigned_less [of x, where 'a = nat] by simp

lemma Normal_unat: "TransactionIdIsNormal x \<longleftrightarrow> 3 \<le> unat x"
  by (simp add: TransactionIdIsNormal_def xid_constants word_le_nat_alt)

lemma Advance_unat:
  assumes "TransactionIdIsNormal a"
  shows "unat (TransactionIdAdvance a) = (if unat a = 4294967295 then 3 else unat a + 1)"
proof (cases "a = - 1")
  case True
  then have "unat a = 4294967295" by (simp add: unsigned_minus_1_eq_mask mask_eq_exp_minus_1)
  with True assms show ?thesis by (simp add: Advance_cases)
next
  case False
  then have ne: "unat a \<noteq> 4294967295"
    by (simp add: word_unat_eq_iff unsigned_minus_1_eq_mask mask_eq_exp_minus_1)
  have "unat (a + 1) = unat a + 1"
    using ne xid_unat [of a] by (simp add: unat_word_ariths)
  with False ne assms show ?thesis by (simp add: Advance_cases)
qed

lemma toward_arith:
  fixes A B X A' :: nat
  assumes "A < 4294967296" "B < 4294967296" "X < 4294967296" "3 \<le> A" "3 \<le> X"
    and "A' = (if A = 4294967295 then 3 else A + 1)"
    and "(if B \<le> A then A - B else A + 4294967296 - B) < (if B \<le> X then X - B else X + 4294967296 - B)"
  shows "(if B \<le> A then A - B else A + 4294967296 - B) < (if B \<le> A' then A' - B else A' + 4294967296 - B)"
    "(if B \<le> A' then A' - B else A' + 4294967296 - B) \<le> (if B \<le> X then X - B else X + 4294967296 - B)"
    "(if A' \<le> X then X - A' else X + 4294967296 - A') < (if A \<le> X then X - A else X + 4294967296 - A)"
proof -
  consider "A = 4294967295" "B \<le> A" "X < B"  | "A = 4294967295" "B > A" 
   | "A \<noteq> 4294967295" "B \<le> A" "A < X" | "A \<noteq> 4294967295" "B \<le> A" "X < B" | "A \<noteq> 4294967295" "A < B" "X < B" "A < X"
    using assms(1,2,3,7) by (cases "B \<le> A"; cases "B \<le> X"; cases "A = 4294967295"; simp; linarith)
  note c = this
  show "(if B \<le> A then A - B else A + 4294967296 - B) < (if B \<le> A' then A' - B else A' + 4294967296 - B)"
    using c by cases (use assms(1-6) in \<open>auto\<close>)
  show "(if B \<le> A' then A' - B else A' + 4294967296 - B) \<le> (if B \<le> X then X - B else X + 4294967296 - B)"
    using c by cases (use assms(1-6) in \<open>auto\<close>)
  show "(if A' \<le> X then X - A' else X + 4294967296 - A') < (if A \<le> X then X - A else X + 4294967296 - A)"
    using c by cases (use assms(1-6) in \<open>auto\<close>)
qed

lemma Advance_toward:
  assumes "TransactionIdIsNormal a" and "TransactionIdIsNormal x" and "age b a < age b x"
  shows "age b a < age b (TransactionIdAdvance a)" "age b (TransactionIdAdvance a) \<le> age b x"
    "age (TransactionIdAdvance a) x < age a x"
  using toward_arith [OF xid_unat xid_unat xid_unat _ _ Advance_unat [OF assms(1)], of x b] assms
  by (simp_all add: age_alt Normal_unat)

lemma Advance_funpow_normal:
  "TransactionIdIsNormal x \<Longrightarrow> TransactionIdIsNormal ((TransactionIdAdvance ^^ k) x)"
  by (cases k) (simp_all add: Advance_normal)

lemma count_xids_ok:
  assumes "TransactionIdIsNormal a" and "TransactionIdIsNormal x" and "age a x < 2 ^ 31"
  shows "\<exists>k. count_xids a x n = Some (n + k) \<and> (TransactionIdAdvance ^^ k) a = x \<and>
    (\<forall>j < k. (TransactionIdAdvance ^^ j) a \<noteq> x)"
  using assms
proof (induction "age a x" arbitrary: a n rule: less_induct)
  case less
  have p: "TransactionIdPrecedes a x \<longleftrightarrow> a \<noteq> x"
  proof -
    have zero: "age a a = 0" by (simp add: age_def)
    then have "TransactionIdPrecedes a x \<longleftrightarrow> 0 < age a x"
      using Precedes_age(1) [of a x a] less.prems by simp
    also have "\<dots> \<longleftrightarrow> a \<noteq> x"
      using zero age_inj [of a a x] by (cases "age a x") auto
    finally show ?thesis .
  qed
  show ?case
  proof (cases "a = x")
    case True
    then have "count_xids a x n = Some n" using p by (subst count_xids.simps) simp
    with True show ?thesis by (intro exI [of _ 0]) simp
  next
    case False
    have "age a a < age a x"
      using False age_inj [of a a x] by (auto simp: age_def)
    note t = Advance_toward [OF less.prems(1,2) this]
    have "age (TransactionIdAdvance a) x < 2 ^ 31" using t(3) less.prems(3) by simp
    from less.hyps [OF t(3) Advance_normal less.prems(2) this]
    obtain k where k: "count_xids (TransactionIdAdvance a) x (n + 1) = Some (n + 1 + k)"
      "(TransactionIdAdvance ^^ k) (TransactionIdAdvance a) = x"
      "\<And>j. j < k \<Longrightarrow> (TransactionIdAdvance ^^ j) (TransactionIdAdvance a) \<noteq> x"
      by blast
    have "count_xids a x n = Some (n + Suc k)"
      using p False k(1) by (subst count_xids.simps) simp
    moreover have "(TransactionIdAdvance ^^ Suc k) a = x"
      using k(2) by (simp only: funpow_Suc_right o_apply)
    moreover have "(TransactionIdAdvance ^^ j) a \<noteq> x" if "j < Suc k" for j
    proof (cases j)
      case (Suc i)
      then show ?thesis using k(3) [of i] that by (simp only: funpow_Suc_right o_apply) simp
    qed (use False in simp)
    ultimately show ?thesis by blast
  qed
qed

lemma Advance_plus:
  assumes "TransactionIdIsNormal a" and "unat a + k < 4294967296"
  shows "unat ((TransactionIdAdvance ^^ k) a) = unat a + k"
  using assms(2)
proof (induction k)
  case (Suc k)
  then show ?case using Advance_unat [OF Advance_funpow_normal [OF assms(1), of k]] by simp
qed simp

definition add_count :: "TransactionId \<Rightarrow> TransactionId \<Rightarrow> nat option" where
  "add_count from_xid to_xid = (if to_xid \<ge> from_xid then Some (unat (to_xid - from_xid) + 1)
     else count_xids from_xid to_xid 1)"

lemma add_count_ok:
  assumes "TransactionIdIsNormal from_xid" and "TransactionIdIsNormal to_xid"
    and "age from_xid to_xid < 2 ^ 31"
  shows "\<exists>n. add_count from_xid to_xid = Some n \<and> range_to from_xid to_xid n"
proof (cases "to_xid \<ge> from_xid")
  case True
  then have "unat (to_xid - from_xid) = unat to_xid - unat from_xid" "unat from_xid \<le> unat to_xid"
    by (simp_all add: unat_sub word_le_nat_alt)
  then have u: "unat ((TransactionIdAdvance ^^ k) from_xid) = unat from_xid + k"
    if "k \<le> unat (to_xid - from_xid)" for k
    using Advance_plus [OF assms(1), of k] xid_unat [of to_xid] that by simp
  have "unat ((TransactionIdAdvance ^^ k) from_xid) \<noteq> unat to_xid" if "k < unat (to_xid - from_xid)" for k
    using u [of k] that \<open>unat (to_xid - from_xid) = unat to_xid - unat from_xid\<close> by simp
  moreover have "unat ((TransactionIdAdvance ^^ unat (to_xid - from_xid)) from_xid) = unat to_xid"
    using u [of "unat (to_xid - from_xid)"] \<open>unat from_xid \<le> unat to_xid\<close>
      \<open>unat (to_xid - from_xid) = unat to_xid - unat from_xid\<close> by simp
  ultimately show ?thesis
    using True by (auto simp: add_count_def range_to_def word_unat_eq_iff)
next
  case False
  then show ?thesis
    using count_xids_ok [OF assms, of 1] by (auto simp: add_count_def range_to_def)
qed

lemma range_age:
  assumes "range_to from_xid to_xid n" and "TransactionIdIsNormal from_xid" "TransactionIdIsNormal to_xid"
    and "age base from_xid \<le> age base to_xid" and "age base to_xid < 2 ^ 31"
  shows "k < n \<Longrightarrow> age base ((TransactionIdAdvance ^^ k) from_xid) \<le> age base to_xid"
    "Suc k < n \<Longrightarrow> age base ((TransactionIdAdvance ^^ k) from_xid)
       < age base ((TransactionIdAdvance ^^ Suc k) from_xid)"
proof -
  let ?A = "\<lambda>k. (TransactionIdAdvance ^^ k) from_xid"
  have ne: "age base (?A k) \<noteq> age base to_xid" if "Suc k < n" for k
    using assms(1) that by (simp add: range_to_def)
  have le: "age base (?A k) \<le> age base to_xid" if "k < n" for k
    using that
  proof (induction k)
    case 0
    then show ?case using assms(4) by simp
  next
    case (Suc k)
    then have "age base (?A k) < age base to_xid" using le_neq_trans [OF _ ne [of k]] by simp
    from Advance_toward(2) [OF Advance_funpow_normal [OF assms(2)] assms(3) this] show ?case by simp
  qed
  then show "k < n \<Longrightarrow> age base (?A k) \<le> age base to_xid" .
  assume k: "Suc k < n"
  then have "age base (?A k) < age base to_xid" using le_neq_trans [OF le [of k] ne [OF k]] by simp
  from Advance_toward(1) [OF Advance_funpow_normal [OF assms(2)] assms(3) this]
  show "age base (?A k) < age base (?A (Suc k))" by simp
qed

lemma insert_xids_ok:
  assumes "insert_xids n x (h, xids, valid) = (h', xids', valid')"
    and "h + n \<le> length xids" and "length valid = length xids"
  shows "h' = h + n \<and> length xids' = length xids \<and> length valid' = length valid \<and>
    (\<forall>i < h. xids' ! i = xids ! i \<and> valid' ! i = valid ! i) \<and>
    (\<forall>k < n. xids' ! (h + k) = (TransactionIdAdvance ^^ k) x \<and> valid' ! (h + k))"
  using assms
proof (induction n arbitrary: x h xids valid)
  case (Suc n)
  have r: "insert_xids n (TransactionIdAdvance x) (h + 1, xids[h := x], valid[h := True]) = (h', xids', valid')"
    using Suc.prems(1) by simp
  from Suc.IH [OF r] Suc.prems(2,3)
  have IH: "h' = h + 1 + n" "length xids' = length xids" "length valid' = length valid"
    "\<And>i. i < h + 1 \<Longrightarrow> xids' ! i = xids[h := x] ! i \<and> valid' ! i = valid[h := True] ! i"
    "\<And>k. k < n \<Longrightarrow> xids' ! (h + 1 + k) = (TransactionIdAdvance ^^ k) (TransactionIdAdvance x) \<and>
       valid' ! (h + 1 + k)"
    by auto
  have "xids' ! (h + k) = (TransactionIdAdvance ^^ k) x \<and> valid' ! (h + k)" if "k < Suc n" for k
  proof (cases k)
    case 0
    then show ?thesis using IH(4) [of h] Suc.prems by simp
  next
    case (Suc j)
    then show ?thesis using IH(5) [of j] that by (simp add: funpow_swap1)
  qed
  then show ?case using IH by auto
qed simp

lemma slots_extend:
  assumes "\<And>i. i < h \<Longrightarrow> xids' ! i = xids ! i \<and> valid' ! i = valid ! i"
    and "\<And>k. k < n \<Longrightarrow> xids' ! (h + k) = (TransactionIdAdvance ^^ k) x \<and> valid' ! (h + k)"
    and "lo \<le> h"
  shows "slots_list xids' valid' [lo..<h + n] = slots_list xids valid [lo..<h] @ xid_range n x"
proof -
  have "slots_list xids' valid' [lo..<h] = slots_list xids valid [lo..<h]"
    by (rule slots_list_cong) (simp add: assms(1))
  moreover have "slots_list xids' valid' [h..<h + n] = xid_range n x"
  proof -
    have "slots_list xids' valid' [h..<h + n] = map (\<lambda>i. xids' ! i) [h..<h + n]"
    proof (rule slots_list_full)
      fix i assume "i \<in> set [h..<h + n]"
      then have "i - h < n" "h \<le> i" by auto
      then show "valid' ! i" using assms(2) [of "i - h"] by simp
    qed
    also have "\<dots> = map (\<lambda>k. xids' ! (h + k)) [0..<n]"
      by (rule nth_equalityI) simp_all
    also have "\<dots> = xid_range n x" by (simp add: xid_range_def assms(2))
    finally show ?thesis .
  qed
  ultimately show ?thesis using upt_add_eq_append [OF assms(3), of n] by simp
qed

text \<open>Where the new identifiers have to lie for the array to stay in order.\<close>

definition addable :: "TransactionId \<Rightarrow> TransactionId \<Rightarrow> TransactionId \<Rightarrow> bool" where
  "addable base from_xid to_xid \<longleftrightarrow> TransactionIdIsNormal from_xid \<and> TransactionIdIsNormal to_xid \<and>
     age base from_xid \<le> age base to_xid \<and> age base to_xid < 2 ^ 31"

lemma age_between:
  assumes "age b a \<le> age b x"
  shows "age a x \<le> age b x"
  using assms xid_unat [of a] xid_unat [of x] xid_unat [of b]
  by (auto simp: age_alt split: if_splits)

text \<open>The last slot that is in use, valid or not, is older than the new identifiers.\<close>

definition in_sequence :: "TransactionId \<Rightarrow> known \<Rightarrow> bool" where
  "in_sequence from_xid s \<longleftrightarrow> headKnownAssignedXids s \<le> tailKnownAssignedXids s \<or>
     \<not> TransactionIdFollowsOrEquals (KnownAssignedXids s ! (headKnownAssignedXids s - 1)) from_xid"

lemma in_sequence_age:
  assumes "wf_known base s" and "addable base from_xid to_xid" and "in_sequence from_xid s"
    and "tailKnownAssignedXids s \<le> i" and "i < headKnownAssignedXids s"
  shows "age base (KnownAssignedXids s ! i) < age base from_xid"
proof -
  note ord = wf_knownD(6) [OF assms(1)]
  let ?l = "headKnownAssignedXids s - 1"
  have l: "tailKnownAssignedXids s \<le> ?l" "?l < headKnownAssignedXids s" using assms(4,5) by auto
  have "\<not> TransactionIdFollowsOrEquals (KnownAssignedXids s ! ?l) from_xid"
    using assms(3-5) by (auto simp: in_sequence_def)
  then have "age base (KnownAssignedXids s ! ?l) < age base from_xid"
    using Precedes_age(4) [of "KnownAssignedXids s ! ?l" from_xid base] orderedD(1) [OF ord l] assms(2)
    by (simp add: addable_def)
  moreover have "i = ?l \<or> i < ?l" using assms(5) by linarith
  ultimately show ?thesis
    using orderedD(2) [OF ord assms(4), of ?l] l by auto
qed

lemma Compress_entries:
  assumes "wf_known base s" and "i < length (known_list s)"
  shows "KnownAssignedXids (KnownAssignedXidsCompress maxprocs True s) ! i = known_list s ! i"
proof -
  define s' where "s' = KnownAssignedXidsCompress maxprocs True s"
  note c = Compress_list [OF assms(1), where maxprocs = maxprocs and force = True, folded s'_def]
  have "length (known_list s') = length (slots_list (KnownAssignedXids s') (KnownAssignedXidsValid s')
      [0..<length (known_list s)])"
    using c(3) by (simp add: known_list_def)
  then have "length (filter (\<lambda>i. KnownAssignedXidsValid s' ! i) [0..<length (known_list s)]) =
      length [0..<length (known_list s)]"
    using c(1) by (simp add: slots_list_def)
  then have "filter (\<lambda>i. KnownAssignedXidsValid s' ! i) [0..<length (known_list s)] =
      [0..<length (known_list s)]"
    by (metis filter_id_conv length_filter_less less_irrefl)
  then have "known_list s' = map (\<lambda>i. KnownAssignedXids s' ! i) [0..<length (known_list s)]"
    using c(3) by (simp add: known_list_def slots_list_def)
  then show ?thesis using assms(2) c(1) by (metis nth_map_upt add_0 diff_zero s'_def)
qed

text \<open>The entries between tail and head, removed ones included.\<close>

definition slot_set :: "known \<Rightarrow> TransactionId set" where
  "slot_set s = (\<lambda>i. KnownAssignedXids s ! i) ` {tailKnownAssignedXids s..<headKnownAssignedXids s}"

lemma known_list_slots: "set (known_list s) \<subseteq> slot_set s"
  by (auto simp: known_list_def slots_list_def slot_set_def)

lemma Compress_slots:
  assumes "wf_known base s"
  shows "slot_set (KnownAssignedXidsCompress maxprocs force s) \<subseteq> slot_set s"
proof -
  have "KnownAssignedXidsCompress maxprocs force s = s \<or>
    KnownAssignedXidsCompress maxprocs force s = KnownAssignedXidsCompress maxprocs True s"
    by (auto simp: KnownAssignedXidsCompress_def Let_def)
  moreover have "slot_set (KnownAssignedXidsCompress maxprocs True s) \<subseteq> set (known_list s)"
    using Compress_list(3) [OF assms, where maxprocs = maxprocs and force = True]
      Compress_entries [OF assms]
    by (auto simp: slot_set_def)
  ultimately show ?thesis using known_list_slots [of s] by auto
qed

lemma set_tail_slots:
  "tailKnownAssignedXids s \<le> t \<Longrightarrow> slot_set (set_tail t (headKnownAssignedXids s) s) \<subseteq> slot_set s"
  by (auto simp: slot_set_def set_tail_def)

lemma Remove_slots:
  assumes "wf_known base s"
  shows "slot_set (KnownAssignedXidsRemove xid s) \<subseteq> slot_set s"
proof -
  let ?lo = "tailKnownAssignedXids s" and ?hi = "headKnownAssignedXids s"
  have "?lo \<le> skip_invalid valid (?lo + 1) ?hi" if "?lo + 1 \<le> ?hi" for valid
    using skip_invalid_list(1) [OF that, of valid] by simp
  moreover have "?lo \<le> skip_invalid valid (?lo + 1) ?hi" if "\<not> ?lo + 1 \<le> ?hi" for valid
    using that by (simp add: skip_invalid.simps)
  ultimately have "?lo \<le> skip_invalid valid (?lo + 1) ?hi" for valid by blast
  then show ?thesis
    by (auto simp: KnownAssignedXidsRemove_def KnownAssignedXidsSearch_def Let_def slot_set_def set_tail_def)
      (metis (no_types, lifting) atLeastLessThan_iff imageI le_trans)+
qed

lemma RemoveTree_slots:
  assumes "wf_known base s"
  shows "slot_set (KnownAssignedXidsRemoveTree maxprocs xid subxids s) \<subseteq> slot_set s"
proof -
  have fold: "slot_set (fold KnownAssignedXidsRemove subxids s) \<subseteq> slot_set s \<and>
    wf_known base (fold KnownAssignedXidsRemove subxids s)" if "wf_known base s" for s
    using that
  proof (induction subxids arbitrary: s)
    case (Cons y ys)
    then show ?case
      using Cons.IH [OF Remove_list(2) [OF Cons.prems, of y]] Remove_slots [OF Cons.prems, of y] by auto
  qed simp
  define s1 where "s1 = (if TransactionIdIsValid xid then KnownAssignedXidsRemove xid s else s)"
  have "slot_set s1 \<subseteq> slot_set s" "wf_known base s1"
    using Remove_slots [OF assms] Remove_list(2) [OF assms] assms by (simp_all add: s1_def)
  then show ?thesis
    using fold [of s1] Compress_slots [of base "fold KnownAssignedXidsRemove subxids s1" maxprocs False]
    by (auto simp: KnownAssignedXidsRemoveTree_def Let_def s1_def [symmetric])
qed

lemma RemovePreceding_slots:
  assumes "wf_known base s" and "TransactionIdIsNormal x" and "age base x < 2 ^ 31"
  shows "slot_set (KnownAssignedXidsRemovePreceding maxprocs prepared x s) \<subseteq> slot_set s"
proof -
  obtain s1 t where p: "KnownAssignedXidsRemovePreceding maxprocs prepared x s =
      KnownAssignedXidsCompress maxprocs False (set_tail t (headKnownAssignedXids s1) s1)"
    "wf_known base (set_tail t (headKnownAssignedXids s1) s1)" "tailKnownAssignedXids s1 \<le> t"
    "KnownAssignedXids s1 = KnownAssignedXids s" "tailKnownAssignedXids s1 = tailKnownAssignedXids s"
    "headKnownAssignedXids s1 = headKnownAssignedXids s"
    by (rule prune_parts [OF assms, of maxprocs prepared])
  show ?thesis
    using Compress_slots [OF p(2), of maxprocs False] set_tail_slots [OF p(3)] p(1,4-)
    by (auto simp: slot_set_def)
qed

lemma Add_room:
  assumes wf: "wf_known base s" and a: "addable base from_xid to_xid" and r: "range_to from_xid to_xid n"
    and old: "\<And>i. tailKnownAssignedXids s \<le> i \<Longrightarrow> i < headKnownAssignedXids s \<Longrightarrow>
      age base (KnownAssignedXids s ! i) < age base from_xid"
    and room: "headKnownAssignedXids s + n \<le> maxKnownAssignedXids s"
    and ins: "insert_xids n from_xid (headKnownAssignedXids s, KnownAssignedXids s, KnownAssignedXidsValid s)
      = (h, xids, valid)"
  defines "s' \<equiv> s\<lparr>KnownAssignedXids := xids, KnownAssignedXidsValid := valid,
      numKnownAssignedXids := numKnownAssignedXids s + int n, headKnownAssignedXids := h\<rparr>"
  shows "known_list s' = known_list s @ xid_range n from_xid" "wf_known base s'"
    "slot_set s' \<subseteq> slot_set s \<union> set (xid_range n from_xid)"
proof -
  note w = wf_knownD [OF wf]
  let ?h = "headKnownAssignedXids s"
  have i: "h = ?h + n" "length xids = maxKnownAssignedXids s" "length valid = maxKnownAssignedXids s"
    "\<And>i. i < ?h \<Longrightarrow> xids ! i = KnownAssignedXids s ! i \<and> valid ! i = KnownAssignedXidsValid s ! i"
    "\<And>k. k < n \<Longrightarrow> xids ! (?h + k) = (TransactionIdAdvance ^^ k) from_xid \<and> valid ! (?h + k)"
    using insert_xids_ok [OF ins] w(1,2) room by simp_all
  show l: "known_list s' = known_list s @ xid_range n from_xid"
    using slots_extend [of ?h xids "KnownAssignedXids s" valid "KnownAssignedXidsValid s" n from_xid,
        OF i(4,5) w(3)] i(1)
    by (simp add: known_list_def s'_def)
  have new: "k < n \<Longrightarrow> age base ((TransactionIdAdvance ^^ k) from_xid) \<le> age base to_xid"
    "Suc k < n \<Longrightarrow> age base ((TransactionIdAdvance ^^ k) from_xid)
       < age base ((TransactionIdAdvance ^^ Suc k) from_xid)" for k
    using range_age [OF r, of base k] a by (simp_all add: addable_def)
  have step: "age base (xids ! j) < age base (xids ! Suc j)"
    if j: "tailKnownAssignedXids s \<le> j" "Suc j < h" for j
  proof -
    consider "Suc j < ?h" | "Suc j = ?h" | "?h \<le> j" by linarith
    then show ?thesis
    proof cases
      case 1
      then show ?thesis using orderedD(2) [OF w(6) j(1), of "Suc j"] i(4) by simp
    next
      case 2
      then show ?thesis using old [OF j(1)] i(4) [of j] i(5) [of 0] j(2) i(1) by simp
    next
      case 3
      then show ?thesis
        using new(2) [of "j - ?h"] i(5) [of "j - ?h"] i(5) [of "Suc (j - ?h)"] j(2) i(1) by simp
    qed
  qed
  have mono: "age base (xids ! j) < age base (xids ! k)"
    if "tailKnownAssignedXids s \<le> j" "j < k" "k < h" for j k
    using that(2,3)
  proof (induction k)
    case (Suc k)
    then show ?case using step [of k] that(1) by (cases "j = k") auto
  qed simp
  have normal: "TransactionIdIsNormal (xids ! j) \<and> age base (xids ! j) < 2 ^ 31"
    if j: "tailKnownAssignedXids s \<le> j" "j < h" for j
  proof (cases "j < ?h")
    case True
    then show ?thesis using orderedD(1) [OF w(6) j(1)] i(4) by simp
  next
    case False
    then have "xids ! j = (TransactionIdAdvance ^^ (j - ?h)) from_xid" "j - ?h < n"
      using i(5) [of "j - ?h"] j(2) i(1) by simp_all
    then show ?thesis
      using new(1) [of "j - ?h"] a Advance_funpow_normal [of from_xid "j - ?h"] by (simp add: addable_def)
  qed
  have "xids_ordered base xids (tailKnownAssignedXids s) h"
    using mono normal by (simp add: xids_ordered_def)
  then show "wf_known base s'"
    using w l i(1-3) room by (simp add: wf_known_def) (simp add: s'_def xid_range_def)
  show "slot_set s' \<subseteq> slot_set s \<union> set (xid_range n from_xid)"
  proof
    fix x assume "x \<in> slot_set s'"
    then obtain j where j: "tailKnownAssignedXids s \<le> j" "j < h" "x = xids ! j"
      by (auto simp: slot_set_def s'_def)
    show "x \<in> slot_set s \<union> set (xid_range n from_xid)"
    proof (cases "j < ?h")
      case True
      then show ?thesis using j i(4) by (auto simp: slot_set_def)
    next
      case False
      then show ?thesis using j i(1) i(5) [of "j - ?h"] by (auto simp: xid_range_def)
    qed
  qed
qed

lemma Add_cases:
  assumes wf: "wf_known base s" and a: "addable base from_xid to_xid"
  obtains n where "range_to from_xid to_xid n"
    and "\<not> in_sequence from_xid s \<Longrightarrow> KnownAssignedXidsAdd maxprocs from_xid to_xid s =
      Inl (ERROR ''out-of-order XID insertion in KnownAssignedXids'')"
    and "in_sequence from_xid s \<Longrightarrow> length (known_list s) + n > maxKnownAssignedXids s \<Longrightarrow>
      KnownAssignedXidsAdd maxprocs from_xid to_xid s = Inl (ERROR ''too many KnownAssignedXids'')"
    and "in_sequence from_xid s \<Longrightarrow> length (known_list s) + n \<le> maxKnownAssignedXids s \<Longrightarrow>
      \<exists>s'. KnownAssignedXidsAdd maxprocs from_xid to_xid s = Inr s' \<and>
        known_list s' = known_list s @ xid_range n from_xid \<and> wf_known base s' \<and>
        slot_set s' \<subseteq> slot_set s \<union> set (xid_range n from_xid)"
proof -
  note w = wf_knownD [OF wf]
  have "age from_xid to_xid < 2 ^ 31"
    using a age_between [of base from_xid to_xid] by (auto simp: addable_def)
  then obtain n where n: "add_count from_xid to_xid = Some n" "range_to from_xid to_xid n"
    using add_count_ok a by (auto simp: addable_def)
  define s1 where "s1 = (if headKnownAssignedXids s + n > maxKnownAssignedXids s
    then KnownAssignedXidsCompress maxprocs True s else s)"
  have s1: "known_list s1 = known_list s" "wf_known base s1"
    "maxKnownAssignedXids s1 = maxKnownAssignedXids s"
    using Compress_list [OF wf, where maxprocs = maxprocs and force = True] wf by (simp_all add: s1_def)
  have add: "KnownAssignedXidsAdd maxprocs from_xid to_xid s =
    (if \<not> in_sequence from_xid s then Inl (ERROR ''out-of-order XID insertion in KnownAssignedXids'')
     else if headKnownAssignedXids s1 + n > maxKnownAssignedXids s1
     then Inl (ERROR ''too many KnownAssignedXids'')
     else (case insert_xids n from_xid
              (headKnownAssignedXids s1, KnownAssignedXids s1, KnownAssignedXidsValid s1) of
            (head, xids, valid) \<Rightarrow>
              Inr (s1\<lparr>KnownAssignedXids := xids, KnownAssignedXidsValid := valid,
                     numKnownAssignedXids := numKnownAssignedXids s1 + int n,
                     headKnownAssignedXids := head\<rparr>)))"
    using n(1) by (simp add: KnownAssignedXidsAdd_def add_count_def [symmetric] Let_def s1_def
        in_sequence_def not_le conj_commute)
  have len: "length (known_list s) \<le> headKnownAssignedXids s"
    unfolding known_list_def by (rule order_trans [OF length_slots]) simp
  have room: "headKnownAssignedXids s1 + n > maxKnownAssignedXids s1 \<longleftrightarrow>
      length (known_list s) + n > maxKnownAssignedXids s"
    using Compress_list(3) [OF wf, where maxprocs = maxprocs and force = True] len s1(3)
    by (auto simp: s1_def)
  have old: "age base (KnownAssignedXids s1 ! i) < age base from_xid"
    if seq: "in_sequence from_xid s" and i: "tailKnownAssignedXids s1 \<le> i" "i < headKnownAssignedXids s1"
    for i
  proof (cases "headKnownAssignedXids s + n > maxKnownAssignedXids s")
    case True
    then have "i < length (known_list s)" "KnownAssignedXids s1 ! i = known_list s ! i"
      using Compress_list(3) [OF wf, where maxprocs = maxprocs and force = True] i Compress_entries [OF wf]
      by (simp_all add: s1_def)
    then have "KnownAssignedXids s1 ! i \<in> set (known_list s)" by simp
    then show ?thesis
      using in_sequence_age [OF wf a seq] by (auto simp: known_list_def slots_list_def)
  next
    case False
    then show ?thesis using in_sequence_age [OF wf a seq] i by (simp add: s1_def)
  qed
  show ?thesis
  proof (rule that [OF n(2)])
    assume seq: "in_sequence from_xid s" and fit: "length (known_list s) + n \<le> maxKnownAssignedXids s"
    obtain h xids valid where ins: "insert_xids n from_xid
        (headKnownAssignedXids s1, KnownAssignedXids s1, KnownAssignedXidsValid s1) = (h, xids, valid)"
      by (rule prod_cases3)
    have fit1: "headKnownAssignedXids s1 + n \<le> maxKnownAssignedXids s1" using room fit by linarith
    have "slot_set s1 \<subseteq> slot_set s"
      using Compress_slots [OF wf] by (simp add: s1_def)
    with Add_room [OF s1(2) a n(2) old [OF seq] fit1 ins] s1(1)
    show "\<exists>s'. KnownAssignedXidsAdd maxprocs from_xid to_xid s = Inr s' \<and>
        known_list s' = known_list s @ xid_range n from_xid \<and> wf_known base s' \<and>
        slot_set s' \<subseteq> slot_set s \<union> set (xid_range n from_xid)"
      using add seq fit1 ins by auto
  qed (use add room in simp_all)
qed

end
