(* ===== verification/Varsup.thy ===== *)
theory Varsup
  imports Transam
begin

section \<open>Assigning transaction and object identifiers (access/transam/varsup.c)\<close>

text \<open>
  The variable cache in shared memory, the limits that keep the transaction counter away
  from wraparound, the room that clog.c and subtrans.c make for a new transaction, and the
  startup code of the two logs. Signals, warnings and WAL records are events of the state;
  the database name that a message would print is not looked up. In the middle of
  \<open>GetNewTransactionId\<close> the lock is released while messages are sent; what the other
  backends do in that time is the parameter \<open>others\<close>.
\<close>

subsection \<open>Room in the logs\<close>

definition ExtendCLOG :: "nat \<Rightarrow> TransactionId \<Rightarrow> clog \<Rightarrow> clog" where
  "ExtendCLOG bs newestXact c =
     (if TransactionIdToPgIndex bs newestXact \<noteq> 0 \<and> newestXact \<noteq> FirstNormalTransactionId then c
      else c\<lparr>pages := (pages c)(TransactionIdToPage bs newestXact := Some (zero_page bs))\<rparr>)"

definition zero_parents :: "nat \<Rightarrow> TransactionId list" where
  "zero_parents bs = replicate (SUBTRANS_XACTS_PER_PAGE bs) InvalidTransactionId"

definition ZeroSUBTRANSPage :: "nat \<Rightarrow> nat \<Rightarrow> subtrans \<Rightarrow> subtrans" where
  "ZeroSUBTRANSPage bs pageno s =
     s\<lparr>parent_pages := (parent_pages s)(pageno := Some (zero_parents bs))\<rparr>"

definition ExtendSUBTRANS :: "nat \<Rightarrow> TransactionId \<Rightarrow> subtrans \<Rightarrow> subtrans" where
  "ExtendSUBTRANS bs newestXact s =
     (if TransactionIdToEntry bs newestXact \<noteq> 0 \<and> newestXact \<noteq> FirstNormalTransactionId then s
      else ZeroSUBTRANSPage bs (SubTransToPage bs newestXact) s)"

text \<open>\<open>TrimCLOG\<close>: \<open>*byteptr &= (1 << bshift) - 1\<close> and zeroes after it.\<close>

definition TrimCLOG :: "nat \<Rightarrow> TransactionId \<Rightarrow> clog \<Rightarrow> clog result" where
  "TrimCLOG bs nextXid c =
     (let pageno = TransactionIdToPage bs nextXid
      in if TransactionIdToPgIndex bs nextXid \<noteq> 0
         then (let byteno = TransactionIdToByte bs nextXid;
                   bshift = TransactionIdToBIndex nextXid * 2
               in case SimpleLruReadPage bs pageno c of
                    Inl e \<Rightarrow> Inl e
                  | Inr p \<Rightarrow>
                      (let buf = (page_buffer p)[byteno := page_buffer p ! byteno AND (push_bit bshift 1 - 1)];
                           buf = loop_upd (byteno + 1) bs (\<lambda>i b. 0) buf
                       in Inr (c\<lparr>pages := (pages c)(pageno := Some (p\<lparr>page_buffer := buf\<rparr>))\<rparr>)))
         else Inr c)"

text \<open>
  \<open>while (startPage != endPage)\<close>, counting \<open>startPage\<close> up. Both are of type \<open>int\<close> and the
  build uses \<open>-fwrapv\<close>: the count wraps around at 32 bits, and a page with a negative number
  is entered under the same 32 bits read as an unsigned number.
\<close>

function startup_loop :: "nat \<Rightarrow> 32 word \<Rightarrow> 32 word \<Rightarrow> subtrans \<Rightarrow> subtrans" where
  "startup_loop bs startPage endPage s =
     (if startPage \<noteq> endPage
      then startup_loop bs (startPage + 1) endPage (ZeroSUBTRANSPage bs (unat startPage) s)
      else ZeroSUBTRANSPage bs (unat startPage) s)"
  by pat_completeness auto
termination
proof (relation "measure (\<lambda>(bs, startPage, endPage, s). unat (endPage - startPage))")
  fix bs :: nat and startPage endPage :: "32 word" and s :: subtrans
  assume "startPage \<noteq> endPage"
  then have "endPage - startPage \<noteq> 0" by simp
  then have "unat (endPage - startPage - 1) < unat (endPage - startPage)"
    by (simp add: unat_minus_one unat_gt_0 del: right_minus_eq)
  then show "((bs, startPage + 1, endPage, ZeroSUBTRANSPage bs (unat startPage) s), bs, startPage, endPage, s)
      \<in> measure (\<lambda>(bs, startPage, endPage, s). unat (endPage - startPage))"
    by (simp add: diff_diff_eq)
qed simp

declare startup_loop.simps [simp del]

definition StartupSUBTRANS ::
  "nat \<Rightarrow> TransactionId \<Rightarrow> TransactionId \<Rightarrow> subtrans \<Rightarrow> subtrans" where
  "StartupSUBTRANS bs nextXid oldestActiveXID s =
     startup_loop bs (word_of_nat (SubTransToPage bs oldestActiveXID))
       (word_of_nat (SubTransToPage bs nextXid)) s"

definition CLOGPagePrecedes :: "nat \<Rightarrow> nat \<Rightarrow> nat \<Rightarrow> bool" where
  "CLOGPagePrecedes bs page1 page2 =
     (let xid1 = word_of_nat page1 * word_of_nat (CLOG_XACTS_PER_PAGE bs);
          xid1 = xid1 + FirstNormalTransactionId;
          xid2 = word_of_nat page2 * word_of_nat (CLOG_XACTS_PER_PAGE bs);
          xid2 = xid2 + FirstNormalTransactionId
      in TransactionIdPrecedes xid1 xid2)"

definition SubTransPagePrecedes :: "nat \<Rightarrow> nat \<Rightarrow> nat \<Rightarrow> bool" where
  "SubTransPagePrecedes bs page1 page2 =
     (let xid1 = word_of_nat page1 * word_of_nat (SUBTRANS_XACTS_PER_PAGE bs);
          xid1 = xid1 + FirstNormalTransactionId;
          xid2 = word_of_nat page2 * word_of_nat (SUBTRANS_XACTS_PER_PAGE bs);
          xid2 = xid2 + FirstNormalTransactionId
      in TransactionIdPrecedes xid1 xid2)"

subsection \<open>The variable cache\<close>

type_synonym Oid = uint32

definition FirstBootstrapObjectId :: Oid where "FirstBootstrapObjectId = 10000"
definition FirstNormalObjectId :: Oid where "FirstNormalObjectId = 16384"
definition VAR_OID_PREFETCH :: uint32 where "VAR_OID_PREFETCH = 8192"
definition PGPROC_MAX_CACHED_SUBXIDS :: nat where "PGPROC_MAX_CACHED_SUBXIDS = 64"

record VariableCache =
  nextOid :: Oid
  oidCount :: uint32
  nextXid :: TransactionId
  oldestXid :: TransactionId
  xidVacLimit :: TransactionId
  xidWarnLimit :: TransactionId
  xidStopLimit :: TransactionId
  xidWrapLimit :: TransactionId
  oldestXidDB :: Oid

datatype event =
    START_AUTOVAC_LAUNCHER
  | MUST_BE_VACUUMED_WITHIN uint32
  | XLOG_NEXTOID Oid

text \<open>The \<open>PGXACT\<close> and \<open>PGPROC\<close> fields of the calling backend.\<close>

record myproc =
  proc_xid :: TransactionId
  subxids :: "TransactionId list"
  overflowed :: bool

record server_mode =
  IsBootstrapProcessingMode :: bool
  RecoveryInProgress :: bool
  IsUnderPostmaster :: bool
  IsPostmasterEnvironment :: bool

record varsup =
  cache :: VariableCache
  xact_log :: clog
  sub_log :: subtrans
  my :: myproc
  events :: "event list"

definition emit :: "event \<Rightarrow> varsup \<Rightarrow> varsup" where
  "emit e s = s\<lparr>events := events s @ [e]\<rparr>"

text \<open>The checks made when the counter has reached \<open>xidVacLimit\<close>, the lock being released.\<close>

definition xid_limit_check :: "server_mode \<Rightarrow> TransactionId \<Rightarrow> varsup \<Rightarrow> varsup result" where
  "xid_limit_check m xid s =
     (let s' = (if IsUnderPostmaster m \<and> xid mod 65536 = 0 then emit START_AUTOVAC_LAUNCHER s else s)
      in if IsUnderPostmaster m \<and> TransactionIdFollowsOrEquals xid (xidStopLimit (cache s))
         then Inl (ERROR ''database is not accepting commands to avoid wraparound data loss'')
         else if TransactionIdFollowsOrEquals xid (xidWarnLimit (cache s))
         then Inr (emit (MUST_BE_VACUUMED_WITHIN (xidWrapLimit (cache s) - xid)) s')
         else Inr s')"

definition store_xid :: "bool \<Rightarrow> TransactionId \<Rightarrow> myproc \<Rightarrow> myproc" where
  "store_xid isSubXact xid p =
     (if \<not> isSubXact then p\<lparr>proc_xid := xid\<rparr>
      else if length (subxids p) < PGPROC_MAX_CACHED_SUBXIDS
      then p\<lparr>subxids := subxids p @ [xid]\<rparr> else p\<lparr>overflowed := True\<rparr>)"

definition GetNewTransactionId ::
  "nat \<Rightarrow> server_mode \<Rightarrow> (varsup \<Rightarrow> varsup) \<Rightarrow> bool \<Rightarrow> varsup \<Rightarrow> (TransactionId \<times> varsup) result" where
  "GetNewTransactionId bs m others isSubXact s =
     (if IsBootstrapProcessingMode m
      then Inr (BootstrapTransactionId, s\<lparr>my := (my s)\<lparr>proc_xid := BootstrapTransactionId\<rparr>\<rparr>)
      else if RecoveryInProgress m
      then Inl (ERROR ''cannot assign TransactionIds during recovery'')
      else
        (case (if TransactionIdFollowsOrEquals (nextXid (cache s)) (xidVacLimit (cache s))
               then map_sum id others (xid_limit_check m (nextXid (cache s)) s) else Inr s) of
           Inl e \<Rightarrow> Inl e
         | Inr s \<Rightarrow>
             (let xid = nextXid (cache s);
                  s = s\<lparr>xact_log := ExtendCLOG bs xid (xact_log s),
                        sub_log := ExtendSUBTRANS bs xid (sub_log s)\<rparr>;
                  s = s\<lparr>cache := (cache s)\<lparr>nextXid := TransactionIdAdvance (nextXid (cache s))\<rparr>\<rparr>
              in Inr (xid, s\<lparr>my := store_xid isSubXact xid (my s)\<rparr>))))"

text \<open>The four limits, each moved past the permanent identifiers it might fall on.\<close>

definition wrap_limit :: "TransactionId \<Rightarrow> TransactionId" where
  "wrap_limit oldest =
     (let w = oldest + drop_bit 1 MaxTransactionId
      in if w < FirstNormalTransactionId then w + FirstNormalTransactionId else w)"

definition stop_limit :: "TransactionId \<Rightarrow> TransactionId" where
  "stop_limit wrapLimit =
     (let w = wrapLimit - 1000000
      in if w < FirstNormalTransactionId then w - FirstNormalTransactionId else w)"

definition warn_limit :: "TransactionId \<Rightarrow> TransactionId" where
  "warn_limit stopLimit =
     (let w = stopLimit - 10000000
      in if w < FirstNormalTransactionId then w - FirstNormalTransactionId else w)"

definition vac_limit :: "TransactionId \<Rightarrow> uint32 \<Rightarrow> TransactionId" where
  "vac_limit oldest autovacuum_freeze_max_age =
     (let w = oldest + autovacuum_freeze_max_age
      in if w < FirstNormalTransactionId then w + FirstNormalTransactionId else w)"

definition SetTransactionIdLimit ::
  "server_mode \<Rightarrow> bool \<Rightarrow> uint32 \<Rightarrow> TransactionId \<Rightarrow> Oid \<Rightarrow> varsup \<Rightarrow> varsup" where
  "SetTransactionIdLimit m in_recovery autovacuum_freeze_max_age oldest_datfrozenxid oldest_datoid s =
     (let wrapLimit = wrap_limit oldest_datfrozenxid;
          stopLimit = stop_limit wrapLimit;
          warnLimit = warn_limit stopLimit;
          vacLimit = vac_limit oldest_datfrozenxid autovacuum_freeze_max_age;
          s = s\<lparr>cache := (cache s)\<lparr>oldestXid := oldest_datfrozenxid, xidVacLimit := vacLimit,
                 xidWarnLimit := warnLimit, xidStopLimit := stopLimit, xidWrapLimit := wrapLimit,
                 oldestXidDB := oldest_datoid\<rparr>\<rparr>;
          curXid = nextXid (cache s);
          s = (if TransactionIdFollowsOrEquals curXid vacLimit \<and> IsUnderPostmaster m \<and> \<not> in_recovery
               then emit START_AUTOVAC_LAUNCHER s else s)
      in if TransactionIdFollowsOrEquals curXid warnLimit \<and> \<not> in_recovery
         then emit (MUST_BE_VACUUMED_WITHIN (wrapLimit - curXid)) s else s)"

text \<open>\<open>db_exists\<close> is the answer of the system cache lookup for \<open>oldestXidDB\<close>.\<close>

definition ForceTransactionIdLimitUpdate :: "(Oid \<Rightarrow> bool) \<Rightarrow> varsup \<Rightarrow> bool" where
  "ForceTransactionIdLimitUpdate db_exists s =
     (if \<not> TransactionIdIsNormal (oldestXid (cache s)) then True
      else if \<not> TransactionIdIsValid (xidVacLimit (cache s)) then True
      else if TransactionIdFollowsOrEquals (nextXid (cache s)) (xidVacLimit (cache s)) then True
      else if \<not> db_exists (oldestXidDB (cache s)) then True
      else False)"

definition GetNewObjectId :: "server_mode \<Rightarrow> varsup \<Rightarrow> (Oid \<times> varsup) result" where
  "GetNewObjectId m s =
     (if RecoveryInProgress m then Inl (ERROR ''cannot assign OIDs during recovery'')
      else
        (let c = cache s;
             c = (if nextOid c < FirstNormalObjectId
                  then (if IsPostmasterEnvironment m
                        then c\<lparr>nextOid := FirstNormalObjectId, oidCount := 0\<rparr>
                        else if nextOid c < FirstBootstrapObjectId
                        then c\<lparr>nextOid := FirstNormalObjectId, oidCount := 0\<rparr> else c)
                  else c);
             s = (if oidCount c = 0 then emit (XLOG_NEXTOID (nextOid c + VAR_OID_PREFETCH)) s else s);
             c = (if oidCount c = 0 then c\<lparr>oidCount := VAR_OID_PREFETCH\<rparr> else c);
             result = nextOid c;
             c = c\<lparr>nextOid := nextOid c + 1, oidCount := oidCount c - 1\<rparr>
         in Inr (result, s\<lparr>cache := c\<rparr>)))"

subsection \<open>The limits keep the counter inside the window of the comparison\<close>

definition limits_ok :: "VariableCache \<Rightarrow> bool" where
  "limits_ok c \<longleftrightarrow> TransactionIdIsNormal (oldestXid c) \<and>
     TransactionIdIsNormal (xidStopLimit c) \<and> TransactionIdIsNormal (xidVacLimit c) \<and>
     age (oldestXid c) (xidVacLimit c) < age (oldestXid c) (xidStopLimit c) \<and>
     age (oldestXid c) (xidStopLimit c) + 999000 < 2 ^ 31"

definition xid_room :: "VariableCache \<Rightarrow> bool" where
  "xid_room c \<longleftrightarrow> limits_ok c \<and> TransactionIdIsNormal (nextXid c) \<and>
     age (oldestXid c) (nextXid c) \<le> age (oldestXid c) (xidStopLimit c) + 3"

lemma not_normal_iff: "\<not> TransactionIdIsNormal x \<longleftrightarrow> x < FirstNormalTransactionId"
  by (simp add: TransactionIdIsNormal_def not_le)

lemma less_3_iff: "(x :: uint32) < 3 \<longleftrightarrow> x = 0 \<or> x = 1 \<or> x = 2"
proof
  assume "x < 3"
  then have "unat x \<in> {0, 1, 2}" by (auto simp: word_less_nat_alt)
  moreover have "k \<in> {0, 1, 2} \<Longrightarrow> (word_of_nat k :: uint32) \<in> {0, 1, 2}" for k by auto
  ultimately show "x = 0 \<or> x = 1 \<or> x = 2"
    by (metis insertE of_nat_unat singletonD ucast_id)
qed auto

lemma cache_emit_if [simp]: "cache (if P then emit e s else s) = cache s"
  by (simp add: emit_def)

lemma SetTransactionIdLimit_limits:
  assumes "TransactionIdIsNormal oldest" and "unat maxage \<le> 2000000000"
  shows "limits_ok (cache (SetTransactionIdLimit m r maxage oldest db s))"
proof -
  define wrap where "wrap = wrap_limit oldest"
  define stop where "stop = stop_limit wrap"
  define vac where "vac = vac_limit oldest maxage"
  have "cache (SetTransactionIdLimit m r maxage oldest db s) =
    (cache s)\<lparr>oldestXid := oldest, xidVacLimit := vac, xidWarnLimit := warn_limit stop,
      xidStopLimit := stop, xidWrapLimit := wrap, oldestXidDB := db\<rparr>"
    by (simp add: SetTransactionIdLimit_def Let_def wrap_def stop_def vac_def)
  moreover have "unat (stop - oldest) \<in> {2146483644, 2146483647, 2146483650}"
  proof -
    define d where "d = wrap - oldest"
    have "d = 2147483647 \<or> d = 2147483650"
      by (simp add: d_def wrap_def wrap_limit_def pg_defs Let_def)
    moreover have "stop - oldest = d - 1000000 \<or> stop - oldest = d - 1000003"
      by (simp add: d_def stop_def stop_limit_def pg_defs Let_def)
    ultimately show ?thesis by (elim disjE) simp_all
  qed
  then have "2146483644 \<le> age oldest stop" "age oldest stop \<le> 2146483650"
    by (auto simp: age_def)
  moreover have "age oldest vac \<le> 2000000003"
  proof -
    have "vac - oldest \<in> {maxage, maxage + 3}" by (auto simp: vac_def vac_limit_def pg_defs Let_def)
    moreover have "unat (maxage + 3) \<le> unat maxage + 3"
      by (auto simp: unat_plus_if')
    ultimately show ?thesis using assms(2) by (auto simp: age_def)
  qed
  moreover have "TransactionIdIsNormal stop" "TransactionIdIsNormal vac"
    by (auto simp: TransactionIdIsNormal_def pg_defs stop_def stop_limit_def vac_def vac_limit_def Let_def
        not_less [symmetric] less_3_iff)
  ultimately show ?thesis
    using assms(1) by (simp add: limits_ok_def)
qed

lemma age_Advance: "TransactionIdIsNormal x \<Longrightarrow> age base (TransactionIdAdvance x) \<le> age base x + 4"
proof -
  assume "TransactionIdIsNormal x"
  have "unat (w + 1) \<le> unat w + 4" "unat (w + 4) \<le> unat w + 4" for w :: uint32
    by (auto simp: unat_plus_if')
  from this [of "x - base"] show ?thesis
    using \<open>TransactionIdIsNormal x\<close> by (auto simp: Advance_cases age_def algebra_simps)
qed

text \<open>Nobody else changes the variable cache while the lock is released for the messages.\<close>

lemma GetNewTransactionId_room_others:
  assumes "xid_room (cache s)" and "IsUnderPostmaster m" and "\<not> IsBootstrapProcessingMode m"
    and "\<And>t. cache (others t) = cache t"
    and "GetNewTransactionId bs m others sub s = Inr (xid, s')"
  shows "xid = nextXid (cache s)" "xid_room (cache s')"
    "age (oldestXid (cache s)) xid < age (oldestXid (cache s)) (xidStopLimit (cache s))"
    "oldestXid (cache s') = oldestXid (cache s)" "xidStopLimit (cache s') = xidStopLimit (cache s)"
proof -
  let ?c = "cache s" and ?age = "age (oldestXid (cache s))"
  have room: "limits_ok ?c" "TransactionIdIsNormal (nextXid ?c)"
    "?age (nextXid ?c) \<le> ?age (xidStopLimit ?c) + 3"
    using assms(1) by (auto simp: xid_room_def)
  then have small: "?age (nextXid ?c) < 2 ^ 31" "?age (xidStopLimit ?c) < 2 ^ 31"
    "?age (xidVacLimit ?c) < 2 ^ 31" by (auto simp: limits_ok_def)
  have s1: "xid = nextXid ?c" "cache s' = ?c\<lparr>nextXid := TransactionIdAdvance (nextXid ?c)\<rparr>"
    using assms(2,3,5)
    by (auto simp: GetNewTransactionId_def xid_limit_check_def Let_def emit_def assms(4) split: if_splits)
  have below: "?age (nextXid ?c) < ?age (xidStopLimit ?c)"
  proof (cases "TransactionIdFollowsOrEquals (nextXid ?c) (xidVacLimit ?c)")
    case True
    then have "\<not> TransactionIdFollowsOrEquals (nextXid ?c) (xidStopLimit ?c)"
      using assms(2,3,5) by (auto simp: GetNewTransactionId_def xid_limit_check_def Let_def split: if_splits)
    then show ?thesis
      using Precedes_age(4) [of "nextXid ?c" "xidStopLimit ?c" "oldestXid ?c"] room small
      by (simp add: limits_ok_def)
  next
    case False
    then show ?thesis
      using Precedes_age(4) [of "nextXid ?c" "xidVacLimit ?c" "oldestXid ?c"] room small
      by (simp add: limits_ok_def)
  qed
  show "xid = nextXid ?c" "oldestXid (cache s') = oldestXid ?c"
    "xidStopLimit (cache s') = xidStopLimit ?c"
    using s1 by simp_all
  show "?age xid < ?age (xidStopLimit ?c)" using s1 below by simp
  show "xid_room (cache s')"
    using room(1) below age_Advance [OF room(2), of "oldestXid ?c"] Advance_normal s1(2)
    by (simp add: xid_room_def limits_ok_def)
qed

lemmas GetNewTransactionId_room = GetNewTransactionId_room_others [where others = id, simplified]

subsection \<open>A new transaction finds its entry in progress\<close>

text \<open>
  What \<open>ExtendCLOG\<close> relies on: a page that is in use already is there, and is blank from
  the next transaction on.
\<close>

definition fresh_from :: "nat \<Rightarrow> clog \<Rightarrow> TransactionId \<Rightarrow> bool" where
  "fresh_from bs c x \<longleftrightarrow>
     TransactionIdToPgIndex bs x = 0 \<or> x = FirstNormalTransactionId \<or>
     pages c (TransactionIdToPage bs x) \<noteq> None \<and>
     (\<forall>y. TransactionIdToPage bs y = TransactionIdToPage bs x \<and> unat x \<le> unat y \<longrightarrow>
        xid_status bs c y = TRANSACTION_STATUS_IN_PROGRESS)"

lemma next_on_page:
  assumes "TransactionIdIsNormal x" and "x \<noteq> - 1"
    and "TransactionIdToPgIndex bs (TransactionIdAdvance x) \<noteq> 0"
  shows "TransactionIdToPage bs (TransactionIdAdvance x) = TransactionIdToPage bs x"
    "unat (TransactionIdAdvance x) = unat x + 1"
proof -
  show u: "unat (TransactionIdAdvance x) = unat x + 1"
    using assms(1,2) unatSuc [of x] by (simp add: Advance_cases) (metis add.commute add_eq_0_iff)
  then show "TransactionIdToPage bs (TransactionIdAdvance x) = TransactionIdToPage bs x"
    using assms(3) by (auto simp: TransactionIdToPage_def TransactionIdToPgIndex_def div_Suc mod_Suc
        split: if_splits)
qed

lemma ExtendCLOG_fresh:
  assumes "wf_clog bs c" and "fresh_from bs c x" and "TransactionIdIsNormal x"
  shows "wf_clog bs (ExtendCLOG bs x c)" "clog_covers bs (ExtendCLOG bs x c) x"
    "xid_status bs (ExtendCLOG bs x c) x = TRANSACTION_STATUS_IN_PROGRESS"
    "fresh_from bs (ExtendCLOG bs x c) (TransactionIdAdvance x)"
    "TransactionIdToPage bs y \<noteq> TransactionIdToPage bs x \<Longrightarrow>
      xid_status bs (ExtendCLOG bs x c) y = xid_status bs c y"
proof -
  let ?c = "ExtendCLOG bs x c"
  have bs: "0 < bs" using assms(1) by (simp add: wf_clog_def)
  have blank: "pages ?c (TransactionIdToPage bs x) \<noteq> None \<and>
      (\<forall>y. TransactionIdToPage bs y = TransactionIdToPage bs x \<and> unat x \<le> unat y \<longrightarrow>
        xid_status bs ?c y = TRANSACTION_STATUS_IN_PROGRESS)"
    using assms(2) by (auto simp: ExtendCLOG_def fresh_from_def xid_status_def zero_page_status [OF bs])
  then show "clog_covers bs ?c x" "xid_status bs ?c x = TRANSACTION_STATUS_IN_PROGRESS"
    by (auto simp: clog_covers_def)
  show "wf_clog bs ?c"
    using assms(1) zero_page_wf by (auto simp: ExtendCLOG_def wf_clog_def)
  show "TransactionIdToPage bs y \<noteq> TransactionIdToPage bs x \<Longrightarrow> xid_status bs ?c y = xid_status bs c y"
    by (simp add: ExtendCLOG_def xid_status_def)
  show "fresh_from bs ?c (TransactionIdAdvance x)"
  proof (cases "x = - 1 \<or> TransactionIdToPgIndex bs (TransactionIdAdvance x) = 0")
    case True
    then show ?thesis
      using assms(3) by (auto simp: fresh_from_def Advance_cases pg_defs)
  next
    case False
    then show ?thesis
      using next_on_page [OF assms(3), of bs] blank by (auto simp: fresh_from_def)
  qed
qed

definition clog_ready :: "nat \<Rightarrow> varsup \<Rightarrow> bool" where
  "clog_ready bs s \<longleftrightarrow> wf_clog bs (xact_log s) \<and> fresh_from bs (xact_log s) (nextXid (cache s)) \<and>
     TransactionIdIsNormal (nextXid (cache s))"

lemma clog_ready_cong:
  "xact_log t = xact_log s \<Longrightarrow> nextXid (cache t) = nextXid (cache s) \<Longrightarrow> clog_ready bs t = clog_ready bs s"
  by (simp add: clog_ready_def)

lemma GetNewTransactionId_ready:
  assumes "clog_ready bs s" and "\<And>t. clog_ready bs t \<Longrightarrow> clog_ready bs (others t)"
    and "\<not> IsBootstrapProcessingMode m" and "GetNewTransactionId bs m others sub s = Inr (xid, s')"
  shows "clog_ready bs s'"
    "TransactionIdGetStatus bs xid (xact_log s') =
       Inr (TRANSACTION_STATUS_IN_PROGRESS, xid_lsn bs (xact_log s') xid)"
    "nextXid (cache s') = TransactionIdAdvance xid"
proof -
  define t where "t = (if TransactionIdFollowsOrEquals (nextXid (cache s)) (xidVacLimit (cache s))
    then case xid_limit_check m (nextXid (cache s)) s of Inl e \<Rightarrow> s | Inr u \<Rightarrow> others u else s)"
  then have t: "t = s \<or> (\<exists>u. xid_limit_check m (nextXid (cache s)) s = Inr u \<and> t = others u)"
    by (auto split: sum.splits)
  have s': "xid = nextXid (cache t)" "xact_log s' = ExtendCLOG bs xid (xact_log t)"
      "nextXid (cache s') = TransactionIdAdvance xid"
    using assms(3,4)
    by (cases "xid_limit_check m (nextXid (cache s)) s";
        auto simp: GetNewTransactionId_def t_def Let_def split: if_splits)+
  have "clog_ready bs u" if "xid_limit_check m (nextXid (cache s)) s = Inr u" for u
  proof -
    have "xact_log u = xact_log s \<and> cache u = cache s"
      using that by (auto simp: xid_limit_check_def Let_def emit_def split: if_splits)
    then show ?thesis using assms(1) by (simp add: clog_ready_cong [of u s])
  qed
  then have "clog_ready bs t"
    using t assms(1,2) by blast
  then have "wf_clog bs (xact_log t)" "fresh_from bs (xact_log t) xid" "TransactionIdIsNormal xid"
    by (simp_all add: clog_ready_def s'(1))
  note fresh = ExtendCLOG_fresh [OF this, folded s'(2)]
  show "nextXid (cache s') = TransactionIdAdvance xid" by (rule s'(3))
  show "clog_ready bs s'"
    using fresh(1,4) by (simp add: clog_ready_def s'(3) Advance_normal)
  show "TransactionIdGetStatus bs xid (xact_log s') =
       Inr (TRANSACTION_STATUS_IN_PROGRESS, xid_lsn bs (xact_log s') xid)"
    using GetStatus_covers [OF fresh(1,2)] fresh(3) by simp
qed

text \<open>
  The states that the server goes through from \<open>s\<close>: identifiers are assigned, the final
  statuses of assigned identifiers are set, everything but the log and the next identifier
  changes. While an assignment has released the lock, the other backends take steps of the
  same kind.
\<close>

definition unassigned :: "nat \<Rightarrow> varsup \<Rightarrow> TransactionId \<Rightarrow> bool" where
  "unassigned bs s x \<longleftrightarrow> TransactionIdToPage bs x = TransactionIdToPage bs (nextXid (cache s)) \<and>
     unat (nextXid (cache s)) \<le> unat x"

inductive xid_run :: "nat \<Rightarrow> server_mode \<Rightarrow> varsup \<Rightarrow> varsup \<Rightarrow> bool" for bs m where
  run_start: "xid_run bs m s s"
| run_assign: "xid_run bs m s t \<Longrightarrow> (\<And>u. xid_run bs m u (others u)) \<Longrightarrow>
    GetNewTransactionId bs m others sub t = Inr (xid, t') \<Longrightarrow> xid_run bs m s t'"
| run_final: "xid_run bs m s t \<Longrightarrow> TransactionIdIsValid xid \<Longrightarrow> final_status v \<Longrightarrow>
    (\<And>x. x \<in> insert xid (set xids) \<Longrightarrow> clog_covers bs (xact_log t) x \<and> \<not> unassigned bs t x) \<Longrightarrow>
    TransactionIdSetTreeStatus bs xid xids v lsn (xact_log t) = Inr c \<Longrightarrow>
    xid_run bs m s (t\<lparr>xact_log := c\<rparr>)"
| run_other: "xid_run bs m s t \<Longrightarrow> xact_log t' = xact_log t \<Longrightarrow>
    nextXid (cache t') = nextXid (cache t) \<Longrightarrow> xid_run bs m s t'"

lemma SetTreeStatus_pages:
  assumes "TransactionIdIsValid xid"
    and "TransactionIdSetTreeStatus bs xid xids v lsn c = Inr c'" and "pages c n \<noteq> None"
  shows "pages c' n \<noteq> None"
proof -
  have "foldM (clog_write bs lsn) ws c = Inr c' \<Longrightarrow> pages c n \<noteq> None \<Longrightarrow> pages c' n \<noteq> None" for ws c
  proof (induction ws arbitrary: c)
    case (Cons w ws)
    then obtain d where d: "clog_write bs lsn w c = Inr d" "foldM (clog_write bs lsn) ws d = Inr c'"
      by (auto split: sum.splits)
    then have "pages d n \<noteq> None"
      using Cons.prems(2) by (auto simp: clog_write_def split: sum.splits if_splits)
    with Cons.IH d(2) show ?case by blast
  qed simp
  then show ?thesis using assms by (simp add: SetTreeStatus_writes)
qed

lemma SetTreeStatus_ready:
  assumes "clog_ready bs t" and "TransactionIdIsValid xid" and "final_status v"
    and "\<And>x. x \<in> insert xid (set xids) \<Longrightarrow> clog_covers bs (xact_log t) x \<and> \<not> unassigned bs t x"
    and "TransactionIdSetTreeStatus bs xid xids v lsn (xact_log t) = Inr c"
  shows "clog_ready bs (t\<lparr>xact_log := c\<rparr>)"
proof -
  have wf: "wf_clog bs (xact_log t)" using assms(1) by (simp add: clog_ready_def)
  have c: "wf_clog bs c"
    "\<And>y. xid_status bs c y = (if y \<in> insert xid (set xids) then v else xid_status bs (xact_log t) y)"
    using SetTreeStatus_final [OF wf assms(2,3), of xids lsn] assms(4,5) by auto
  have "pages c n \<noteq> None" if "pages (xact_log t) n \<noteq> None" for n
    using SetTreeStatus_pages [OF assms(2,5) that] .
  moreover have "xid_status bs c y = xid_status bs (xact_log t) y" if "unassigned bs t y" for y
    using c(2) assms(4) that by auto
  ultimately show ?thesis
    using assms(1) c(1) by (auto simp: clog_ready_def fresh_from_def unassigned_def)
qed

lemma xid_run_ready:
  assumes "xid_run bs m s t" and "\<not> IsBootstrapProcessingMode m"
  shows "clog_ready bs s \<Longrightarrow> clog_ready bs t"
  using assms(1)
proof induction
  case (run_assign s t others sub xid t')
  show ?case
    by (rule GetNewTransactionId_ready(1) [OF run_assign.IH(1) [OF run_assign.prems] run_assign.IH(2)
        assms(2) run_assign.hyps(3)])
next
  case (run_final s t xid v xids lsn c)
  show ?case
    by (rule SetTreeStatus_ready [OF run_final.IH [OF run_final.prems] run_final.hyps(2-5)])
next
  case (run_other s t t')
  then show ?case using clog_ready_cong [of t' t] by simp
qed

text \<open>At the end of recovery \<open>TrimCLOG\<close> makes the page of the next transaction so.\<close>

lemma bit_shift_minus_one:
  assumes "k < 8"
  shows "bit (push_bit k 1 - 1 :: uint8) n \<longleftrightarrow> n < k"
proof -
  have "push_bit k 1 - 1 = (mask k :: uint8)" by (simp add: mask_eq_exp_minus_1)
  then show ?thesis using assms by (auto simp: bit_mask_iff)
qed

lemma trimmed_bits:
  assumes "k < 4"
  shows "drop_bit (j * 2) (b AND (push_bit (k * 2) 1 - 1)) AND 3
    = (if j < k then drop_bit (j * 2) b AND 3 else (0 :: uint8))"
proof (rule bit_word_eqI)
  fix n
  show "bit (drop_bit (j * 2) (b AND (push_bit (k * 2) 1 - 1)) AND 3) n
    = bit (if j < k then drop_bit (j * 2) b AND 3 else 0) n"
    using assms bit_shift_minus_one [of "k * 2"]
    by (cases "n < 2") (auto simp: bit_and_iff bit_drop_bit_eq bit_three
        simp del: bit_numeral_word_iff push_bit_of_1)
qed

lemma byte_order:
  assumes "TransactionIdToPage bs y = TransactionIdToPage bs x"
  shows "unat x \<le> unat y \<longleftrightarrow> TransactionIdToByte bs x < TransactionIdToByte bs y \<or>
    TransactionIdToByte bs x = TransactionIdToByte bs y \<and>
    TransactionIdToBIndex x \<le> TransactionIdToBIndex y"
proof -
  define P where "P = bs * 4"
  have "unat v mod P mod 4 = unat v mod 4" for v :: TransactionId
    by (simp add: P_def mod_mod_cancel)
  then have split: "unat v = P * (unat v div P) + (4 * (unat v mod P div 4) + unat v mod 4)"
    for v :: TransactionId
    by (metis mult_div_mod_eq)
  define a b where "a = unat x mod P div 4" and "b = unat y mod P div 4"
  define i j where "i = unat x mod 4" and "j = unat y mod 4"
  have "i < 4" "j < 4" by (simp_all add: i_def j_def)
  then have "4 * a + i \<le> 4 * b + j \<longleftrightarrow> a < b \<or> a = b \<and> i \<le> j" by auto
  moreover have "unat x \<le> unat y \<longleftrightarrow> 4 * a + i \<le> 4 * b + j"
  proof -
    obtain q where q: "unat x div P = q" "unat y div P = q"
      using assms by (simp add: TransactionIdToPage_def CLOG_XACTS_PER_PAGE_def P_def)
    have "unat x = P * q + (4 * a + i)" "unat y = P * q + (4 * b + j)"
      using split [of x] split [of y] unfolding q a_def b_def i_def j_def by auto
    then show ?thesis by linarith
  qed
  ultimately show ?thesis
    by (simp add: TransactionIdToByte_def TransactionIdToPgIndex_def TransactionIdToBIndex_def
        CLOG_XACTS_PER_PAGE_def a_def b_def i_def j_def P_def)
qed

lemma TrimCLOG_fresh:
  assumes "wf_clog bs c" and "clog_covers bs c x"
  shows "\<exists>c'. TrimCLOG bs x c = Inr c' \<and> wf_clog bs c' \<and> fresh_from bs c' x \<and>
    (\<forall>y. \<not> (TransactionIdToPage bs y = TransactionIdToPage bs x \<and> unat x \<le> unat y) \<longrightarrow>
       xid_status bs c' y = xid_status bs c y)"
proof (cases "TransactionIdToPgIndex bs x = 0")
  case True
  then show ?thesis using assms(1) by (simp add: TrimCLOG_def fresh_from_def)
next
  case False
  let ?n = "TransactionIdToPage bs x" and ?b = "TransactionIdToByte bs" and ?i = TransactionIdToBIndex
  obtain p where p: "SimpleLruReadPage bs ?n c = Inr p" "wf_page bs p"
    "\<And>y. TransactionIdToPage bs y = ?n \<Longrightarrow> slot_status bs p y = xid_status bs c y"
    using ReadPage_covers [OF assms] by auto
  define buf where "buf = loop_upd (?b x + 1) bs (\<lambda>i b. 0)
      ((page_buffer p)[?b x := page_buffer p ! ?b x AND (push_bit (?i x * 2) 1 - 1)])"
  define c' where "c' = c\<lparr>pages := (pages c)(?n := Some (p\<lparr>page_buffer := buf\<rparr>))\<rparr>"
  have trim: "TrimCLOG bs x c = Inr c'"
    using False p(1) by (simp add: TrimCLOG_def Let_def buf_def c'_def)
  have bs: "0 < bs" and len: "length (page_buffer p) = bs"
    using assms(1) p(2) by (auto simp: wf_clog_def wf_page_def)
  have nth: "buf ! ?b y = (if ?b x < ?b y then 0
      else if ?b y = ?b x then page_buffer p ! ?b x AND (push_bit (?i x * 2) 1 - 1)
      else page_buffer p ! ?b y)" for y
    using byte_in_page [OF bs, of y] by (simp add: buf_def nth_loop_upd len nth_list_update)
  have status: "xid_status bs c' y = (if unat x \<le> unat y then 0 else xid_status bs c y)"
    if same: "TransactionIdToPage bs y = ?n" for y
  proof -
    have "xid_status bs c' y = drop_bit (?i y * 2) (buf ! ?b y) AND 3"
      using same by (simp add: xid_status_def slot_status_def c'_def)
    also have "\<dots> = (if unat x \<le> unat y then 0 else slot_status bs p y)"
      unfolding nth byte_order [OF same]
      by (auto simp: trimmed_bits [OF BIndex_less] slot_status_def
          simp del: push_bit_of_1 drop_bit_and)
    finally show ?thesis using p(3) [OF same] by simp
  qed
  have "xid_status bs c' y = xid_status bs c y" if "TransactionIdToPage bs y \<noteq> ?n" for y
    using that by (simp add: xid_status_def c'_def)
  moreover have "wf_clog bs c'"
    using assms(1) p(2) by (auto simp: wf_clog_def wf_page_def c'_def buf_def)
  moreover have "fresh_from bs c' x"
    using status by (auto simp: fresh_from_def c'_def pg_defs)
  moreover have "xid_status bs c' y = xid_status bs c y"
    if "\<not> (TransactionIdToPage bs y = ?n \<and> unat x \<le> unat y)" for y
    using that status [of y] calculation(1) [of y] by auto
  ultimately show ?thesis
    using trim by blast
qed

subsection \<open>pg_subtrans at startup\<close>

lemma unat_small: "n < 2 ^ 32 \<Longrightarrow> unat (word_of_nat n :: 32 word) = n"
  by (simp add: unsigned_of_nat take_bit_nat_eq_self)

lemma unat_range: "unat (w :: 32 word) < 2 ^ 32"
  using unsigned_less [of w] by simp

text \<open>The loop zeroes the pages from the first to the last, going around the word.\<close>

lemma startup_loop_pages:
  "startup_loop bs startPage endPage s = s\<lparr>parent_pages := (\<lambda>n.
     if n < 2 ^ 32 \<and> word_of_nat n - startPage \<le> endPage - startPage then Some (zero_parents bs)
     else parent_pages s n)\<rparr>"
proof (induction bs startPage endPage s rule: startup_loop.induct)
  case (1 bs startPage endPage s)
  let ?in = "\<lambda>p n. n < 2 ^ 32 \<and> (word_of_nat n :: 32 word) - p \<le> endPage - p"
  have same: "word_of_nat n = startPage \<longleftrightarrow> n = unat startPage" if "n < 2 ^ 32" for n
    using unat_small [OF that] by (metis of_nat_unat ucast_id)
  show ?case
  proof (cases "startPage = endPage")
    case True
    have "?in startPage n \<longleftrightarrow> n = unat startPage" for n
      using same [of n] unat_range [of startPage] True by auto
    then have "(\<lambda>n. if ?in startPage n then Some (zero_parents bs) else parent_pages s n) =
        (parent_pages s)(unat startPage \<mapsto> zero_parents bs)"
      by (simp add: fun_eq_iff)
    with True show ?thesis
      by (simp add: startup_loop.simps ZeroSUBTRANSPage_def)
  next
    case False
    have step: "x - (startPage + 1) \<le> endPage - (startPage + 1) \<or> x = startPage \<longleftrightarrow>
        x - startPage \<le> endPage - startPage" for x :: "32 word"
    proof (cases "x = startPage")
      case other: False
      have pred: "unat (y - 1) = unat y - 1" if "y \<noteq> 0" for y :: "32 word"
        using that by (simp add: unat_minus_one)
      have "unat (x - startPage - 1) \<le> unat (endPage - startPage - 1) \<longleftrightarrow>
          unat (x - startPage) \<le> unat (endPage - startPage)"
        using pred [of "x - startPage"] pred [of "endPage - startPage"] False other
          unat_gt_0 [of "x - startPage"] unat_gt_0 [of "endPage - startPage"]
        by auto
      with other show ?thesis by (simp add: word_le_nat_alt diff_diff_eq)
    qed simp
    have "?in startPage n \<longleftrightarrow> ?in (startPage + 1) n \<or> n = unat startPage" for n
      using step [of "word_of_nat n"] same [of n] unat_range [of startPage] by auto
    then show ?thesis
      using False "1.IH" by (subst startup_loop.simps) (auto simp: ZeroSUBTRANSPage_def fun_eq_iff)
  qed
qed

lemma StartupSUBTRANS_pages:
  "StartupSUBTRANS bs next oldest s = s\<lparr>parent_pages := (\<lambda>n.
     if (if SubTransToPage bs oldest \<le> SubTransToPage bs next
         then SubTransToPage bs oldest \<le> n \<and> n \<le> SubTransToPage bs next
         else SubTransToPage bs oldest \<le> n \<and> n < 2 ^ 32 \<or> n \<le> SubTransToPage bs next)
     then Some (zero_parents bs) else parent_pages s n)\<rparr>"
proof -
  let ?a = "SubTransToPage bs oldest" and ?e = "SubTransToPage bs next"
  have small: "SubTransToPage bs x < 2 ^ 32" for x
    unfolding SubTransToPage_def by (rule le_less_trans [OF div_le_dividend unat_range])
  have diff: "unat (word_of_nat m - word_of_nat k :: 32 word) = (if k \<le> m then m - k else 2 ^ 32 + m - k)"
    if "m < 2 ^ 32" "k < 2 ^ 32" for m k
        unfolding unat_sub_if' unat_small [OF that(1)] unat_small [OF that(2)] by (simp only: add.commute word_size) auto
  have circle: "(if a \<le> m then m - a else N + m - a) \<le> (if a \<le> e then e - a else N + e - a) \<longleftrightarrow>
      (if a \<le> e then a \<le> m \<and> m \<le> e else a \<le> m \<or> m \<le> e)"
    if "m < N" "a < N" "e < N" for a e m N :: nat
    using that by (cases "a \<le> m"; cases "a \<le> e") auto
  have "(n < 2 ^ 32 \<and> (word_of_nat n :: 32 word) - word_of_nat ?a \<le> word_of_nat ?e - word_of_nat ?a) \<longleftrightarrow>
      n < 2 ^ 32 \<and> (if ?a \<le> ?e then ?a \<le> n \<and> n \<le> ?e else ?a \<le> n \<or> n \<le> ?e)" for n
  proof (rule conj_cong [OF refl])
    assume n: "n < 2 ^ 32"
    show "((word_of_nat n :: 32 word) - word_of_nat ?a \<le> word_of_nat ?e - word_of_nat ?a) \<longleftrightarrow>
      (if ?a \<le> ?e then ?a \<le> n \<and> n \<le> ?e else ?a \<le> n \<or> n \<le> ?e)"
      unfolding word_le_nat_alt diff [OF n small] diff [OF small small]
      by (rule circle [OF n small small])
  qed
  moreover have "n < 2 ^ 32 \<and> (if ?a \<le> ?e then ?a \<le> n \<and> n \<le> ?e else ?a \<le> n \<or> n \<le> ?e) \<longleftrightarrow>
      (if ?a \<le> ?e then ?a \<le> n \<and> n \<le> ?e else ?a \<le> n \<and> n < 2 ^ 32 \<or> n \<le> ?e)" for n
    using small [of "next"] by (cases "?a \<le> ?e") (auto intro: le_less_trans)
  ultimately show ?thesis
    unfolding StartupSUBTRANS_def startup_loop_pages by simp
qed

text \<open>These are the pages of all identifiers from the oldest to the next.\<close>

lemma active_page:
  assumes "x - oldest \<le> next - oldest" and "age oldest next < 2 ^ 31"
    and "0 < SUBTRANS_XACTS_PER_PAGE bs" "SUBTRANS_XACTS_PER_PAGE bs \<le> 2 ^ 31"
  shows "if SubTransToPage bs oldest \<le> SubTransToPage bs next
    then SubTransToPage bs oldest \<le> SubTransToPage bs x \<and> SubTransToPage bs x \<le> SubTransToPage bs next
    else SubTransToPage bs oldest \<le> SubTransToPage bs x \<and> SubTransToPage bs x < 2 ^ 32 \<or>
      SubTransToPage bs x \<le> SubTransToPage bs next"
proof -
  let ?p = "SUBTRANS_XACTS_PER_PAGE bs"
  have mono: "unat a \<le> unat b \<Longrightarrow> SubTransToPage bs a \<le> SubTransToPage bs b" for a b
    by (simp add: SubTransToPage_def div_le_mono)
  have small: "SubTransToPage bs a < 2 ^ 32" for a
    unfolding SubTransToPage_def by (rule le_less_trans [OF div_le_dividend unat_range])
  have le: "unat (x - oldest) \<le> unat (next - oldest)" using assms(1) by (simp add: word_le_nat_alt)
  show ?thesis
  proof (cases "unat oldest \<le> unat next")
    case True
    then have "unat oldest \<le> unat x \<and> unat x \<le> unat next"
      using le unat_range [of x] unat_range [of "next"] by (simp add: unat_sub_if' split: if_splits)
    with mono True show ?thesis by auto
  next
    case False
    have "SubTransToPage bs next \<noteq> SubTransToPage bs oldest"
    proof
      assume same: "SubTransToPage bs next = SubTransToPage bs oldest"
      have "unat oldest - unat next > 2 ^ 31"
        using assms(2) False unat_range [of oldest] by (simp add: age_def unat_sub_if' split: if_splits)
      moreover have "unat oldest - unat next < ?p"
      proof -
        define q where "q = unat oldest div ?p * ?p"
        have "unat oldest = q + unat oldest mod ?p" "unat next = q + unat next mod ?p"
          using same by (simp_all add: SubTransToPage_def q_def) (metis div_mult_mod_eq)
        then show ?thesis
          using mod_less_divisor [OF assms(3), of "unat oldest"] by linarith
      qed
      ultimately show False using assms(4) by simp
    qed
    moreover have "unat oldest \<le> unat x \<or> unat x \<le> unat next"
      using le False unat_range [of x] unat_range [of oldest] by (auto simp: unat_sub_if' split: if_splits)
    ultimately show ?thesis
      using mono [of "next" oldest] False mono [of oldest x] mono [of x "next"] small [of x] by auto
  qed
qed

subsection \<open>Object identifiers\<close>

lemma GetNewObjectId_range:
  assumes "GetNewObjectId m s = Inr (oid, s')" and "IsPostmasterEnvironment m"
  shows "FirstNormalObjectId \<le> oid"
  using assms by (auto simp: GetNewObjectId_def Let_def split: if_splits)

text \<open>
  \<open>oid_logged s lim\<close>: the last WAL record about OIDs promised that none from \<open>lim\<close> on
  is used, and the counters agree with it.
\<close>

definition oid_logged :: "varsup \<Rightarrow> Oid \<Rightarrow> bool" where
  "oid_logged s lim \<longleftrightarrow> oidCount (cache s) = lim - nextOid (cache s)"

lemma GetNewObjectId_logged:
  assumes "oid_logged s lim" and "GetNewObjectId m s = Inr (oid, s')"
  shows "\<exists>lim'. oid_logged s' lim' \<and> oid \<noteq> lim' \<and>
    (lim' = lim \<and> events s' = events s \<or> events s' = events s @ [XLOG_NEXTOID lim'])"
proof -
  define c where "c = (if nextOid (cache s) < FirstNormalObjectId
    then if IsPostmasterEnvironment m \<or> nextOid (cache s) < FirstBootstrapObjectId
         then (cache s)\<lparr>nextOid := FirstNormalObjectId, oidCount := 0\<rparr> else cache s
    else cache s)"
  have s': "oid = nextOid c"
    "cache s' = (if oidCount c = 0 then c\<lparr>oidCount := VAR_OID_PREFETCH\<rparr> else c)
      \<lparr>nextOid := nextOid c + 1, oidCount := (if oidCount c = 0 then VAR_OID_PREFETCH else oidCount c) - 1\<rparr>"
    "events s' = (if oidCount c = 0 then events s @ [XLOG_NEXTOID (nextOid c + VAR_OID_PREFETCH)]
      else events s)"
    using assms(2) by (auto simp: GetNewObjectId_def c_def Let_def emit_def split: if_splits)
  show ?thesis
  proof (cases "oidCount c = 0")
    case True
    then show ?thesis
      by (intro exI [of _ "nextOid c + VAR_OID_PREFETCH"])
        (simp add: oid_logged_def s' VAR_OID_PREFETCH_def)
  next
    case False
    then have "c = cache s" by (auto simp: c_def split: if_splits)
    with False assms(1) show ?thesis
      by (intro exI [of _ lim]) (auto simp: oid_logged_def s')
  qed
qed

end
