(* ===== verification/ProcArray.thy ===== *)
theory ProcArray
  imports KnownAssigned Tqual Varsup
begin

section \<open>The process array and snapshots (storage/ipc/procarray.c)\<close>

text \<open>
  The shared array of backends with an identifier assigned, what each backend advertises of
  its transaction, and the functions that end transactions, decide whether a transaction is
  running, take snapshots and compute the oldest horizon. One call sees one state of the
  array: it holds \<open>ProcArrayLock\<close>. Of \<open>PGPROC\<close> the fields these functions use are modelled.
  What the functions ask of the other modules is the record \<open>xact_tests\<close>.
\<close>

subsection \<open>The shared state\<close>

definition PROC_IN_VACUUM :: uint8 where "PROC_IN_VACUUM = 0x02"
definition PROC_IN_ANALYZE :: uint8 where "PROC_IN_ANALYZE = 0x04"
definition PROC_VACUUM_FOR_WRAPAROUND :: uint8 where "PROC_VACUUM_FOR_WRAPAROUND = 0x08"
definition PROC_IN_LOGICAL_DECODING :: uint8 where "PROC_IN_LOGICAL_DECODING = 0x10"
definition PROC_VACUUM_STATE_MASK :: uint8 where
  "PROC_VACUUM_STATE_MASK = PROC_IN_VACUUM OR PROC_IN_ANALYZE OR PROC_VACUUM_FOR_WRAPAROUND"

lemmas proc_flags = PROC_IN_VACUUM_def PROC_IN_ANALYZE_def PROC_VACUUM_FOR_WRAPAROUND_def
  PROC_IN_LOGICAL_DECODING_def PROC_VACUUM_STATE_MASK_def

record PGXACT =
  x_xid :: TransactionId
  x_xmin :: TransactionId
  x_vacuumFlags :: uint8
  x_overflowed :: bool
  x_delayChkpt :: bool
  x_nxids :: nat

record PGPROC =
  p_lxid :: uint32
  p_pid :: int
  p_databaseId :: Oid
  p_recoveryConflictPending :: bool
  p_subxids :: "TransactionId list"

record procarray =
  pgprocnos :: "nat list"
  maxProcs :: nat
  allPgXact :: "nat \<Rightarrow> PGXACT"
  allProcs :: "nat \<Rightarrow> PGPROC"
  pa_latestCompletedXid :: TransactionId
  replication_slot_xmin :: TransactionId
  replication_slot_catalog_xmin :: TransactionId
  pa_nextXid :: TransactionId
  pa_recovery :: bool
  pa_known :: known
  pa_lastOverflowedXid :: TransactionId

text \<open>The variables of one backend, its slot in the array included.\<close>

record snap_vars =
  MyProcNo :: nat
  MyDatabaseId :: Oid
  SnapTransactionXmin :: TransactionId
  RecentXmin :: TransactionId
  RecentGlobalXmin :: TransactionId
  RecentGlobalDataXmin :: TransactionId
  vacuum_defer_cleanup_age :: uint32

record xact_tests =
  KnownCompleted :: "TransactionId \<Rightarrow> bool"
  CurrentXid :: "TransactionId \<Rightarrow> bool"
  DidAbort :: "TransactionId \<Rightarrow> bool"
  TopmostOf :: "TransactionId \<Rightarrow> TransactionId"

definition upd_xact :: "nat \<Rightarrow> (PGXACT \<Rightarrow> PGXACT) \<Rightarrow> procarray \<Rightarrow> procarray" where
  "upd_xact n f a = a\<lparr>allPgXact := (allPgXact a)(n := f (allPgXact a n))\<rparr>"

definition upd_proc :: "nat \<Rightarrow> (PGPROC \<Rightarrow> PGPROC) \<Rightarrow> procarray \<Rightarrow> procarray" where
  "upd_proc n f a = a\<lparr>allProcs := (allProcs a)(n := f (allProcs a n))\<rparr>"

definition advance_latest :: "TransactionId \<Rightarrow> procarray \<Rightarrow> procarray" where
  "advance_latest latestXid a =
     (if TransactionIdPrecedes (pa_latestCompletedXid a) latestXid
      then a\<lparr>pa_latestCompletedXid := latestXid\<rparr> else a)"

subsection \<open>Entering and leaving the array\<close>

definition ProcArrayAdd :: "nat \<Rightarrow> procarray \<Rightarrow> procarray result" where
  "ProcArrayAdd procno a =
     (if length (pgprocnos a) \<ge> maxProcs a then Inl (FATAL ''sorry, too many clients already'')
      else (let before = takeWhile (\<lambda>n. \<not> n > procno) (pgprocnos a);
                after = dropWhile (\<lambda>n. \<not> n > procno) (pgprocnos a)
            in Inr (a\<lparr>pgprocnos := before @ procno # after\<rparr>)))"

text \<open>The flag says whether the entry was found; when not, a message is logged.\<close>

definition ProcArrayRemove :: "nat \<Rightarrow> TransactionId \<Rightarrow> procarray \<Rightarrow> bool \<times> procarray" where
  "ProcArrayRemove procno latestXid a =
     (let a = (if TransactionIdIsValid latestXid then advance_latest latestXid a else a)
      in case find (\<lambda>i. pgprocnos a ! i = procno) [0..<length (pgprocnos a)] of
           Some i \<Rightarrow> (True, a\<lparr>pgprocnos := take i (pgprocnos a) @ drop (i + 1) (pgprocnos a)\<rparr>)
         | None \<Rightarrow> (False, a))"

definition ProcArrayEndTransaction :: "nat \<Rightarrow> TransactionId \<Rightarrow> procarray \<Rightarrow> procarray" where
  "ProcArrayEndTransaction procno latestXid a =
     (if TransactionIdIsValid latestXid then
        advance_latest latestXid
          (upd_proc procno (\<lambda>p. p\<lparr>p_lxid := 0, p_recoveryConflictPending := False\<rparr>)
            (upd_xact procno (\<lambda>x. x\<lparr>x_xid := InvalidTransactionId, x_xmin := InvalidTransactionId,
               x_vacuumFlags := x_vacuumFlags x AND NOT PROC_VACUUM_STATE_MASK,
               x_delayChkpt := False, x_nxids := 0, x_overflowed := False\<rparr>) a))
      else
        upd_proc procno (\<lambda>p. p\<lparr>p_lxid := 0, p_recoveryConflictPending := False\<rparr>)
          (upd_xact procno (\<lambda>x. x\<lparr>x_xmin := InvalidTransactionId,
             x_vacuumFlags := x_vacuumFlags x AND NOT PROC_VACUUM_STATE_MASK,
             x_delayChkpt := False\<rparr>) a))"

definition ProcArrayClearTransaction :: "nat \<Rightarrow> procarray \<Rightarrow> procarray" where
  "ProcArrayClearTransaction procno a =
     upd_proc procno (\<lambda>p. p\<lparr>p_lxid := 0, p_recoveryConflictPending := False\<rparr>)
       (upd_xact procno (\<lambda>x. x\<lparr>x_xid := InvalidTransactionId, x_xmin := InvalidTransactionId,
          x_vacuumFlags := x_vacuumFlags x AND NOT PROC_VACUUM_STATE_MASK,
          x_delayChkpt := False, x_nxids := 0, x_overflowed := False\<rparr>) a)"

text \<open>
  The last cached entry takes the place of the removed one. The search runs from the back of
  the cache; the warning for a missing entry is not modelled.
\<close>

definition XidCacheRemove :: "TransactionId \<Rightarrow> TransactionId list \<times> nat \<Rightarrow> TransactionId list \<times> nat" where
  "XidCacheRemove anxid s =
     (case s of (xids, nxids) \<Rightarrow>
        case find (\<lambda>j. xids ! j = anxid) (rev [0..<nxids]) of
          Some j \<Rightarrow> (xids[j := xids ! (nxids - 1)], nxids - 1)
        | None \<Rightarrow> (xids, nxids))"

definition XidCacheRemoveRunningXids ::
  "nat \<Rightarrow> TransactionId \<Rightarrow> TransactionId list \<Rightarrow> TransactionId \<Rightarrow> procarray \<Rightarrow> procarray" where
  "XidCacheRemoveRunningXids me xid xids latestXid a =
     (let (subs, n) = XidCacheRemove xid
            (fold XidCacheRemove (rev xids) (p_subxids (allProcs a me), x_nxids (allPgXact a me)))
      in advance_latest latestXid
           (upd_proc me (\<lambda>p. p\<lparr>p_subxids := subs\<rparr>) (upd_xact me (\<lambda>x. x\<lparr>x_nxids := n\<rparr>) a)))"

subsection \<open>Is a transaction running?\<close>

definition cached_subxids :: "procarray \<Rightarrow> nat \<Rightarrow> TransactionId list" where
  "cached_subxids a n = take (x_nxids (allPgXact a n)) (p_subxids (allProcs a n))"

definition in_progress_step ::
  "procarray \<Rightarrow> nat \<Rightarrow> TransactionId \<Rightarrow> nat \<Rightarrow> TransactionId list \<Rightarrow> bool + TransactionId list" where
  "in_progress_step a me xid procno xids =
     (let pxid = x_xid (allPgXact a procno)
      in if procno = me then Inr xids
         else if \<not> TransactionIdIsValid pxid then Inr xids
         else if pxid = xid then Inl True
         else if TransactionIdPrecedes xid pxid then Inr xids
         else if list_ex (\<lambda>cxid. cxid = xid) (rev (cached_subxids a procno)) then Inl True
         else if x_overflowed (allPgXact a procno) then Inr (xids @ [pxid])
         else Inr xids)"

definition in_progress_standby ::
  "procarray \<Rightarrow> TransactionId \<Rightarrow> TransactionId list \<Rightarrow> bool + TransactionId list" where
  "in_progress_standby a xid xids =
     (if pa_recovery a then
        (if KnownAssignedXidExists xid (pa_known a) then Inl True
         else if TransactionIdPrecedesOrEquals xid (pa_lastOverflowedXid a)
         then Inr (KnownAssignedXidsGet xid (pa_known a)) else Inr xids)
      else Inr xids)"

definition in_progress_subtrans :: "xact_tests \<Rightarrow> TransactionId \<Rightarrow> TransactionId list \<Rightarrow> bool" where
  "in_progress_subtrans q xid xids =
     (if xids = [] then False
      else if DidAbort q xid then False
      else (let topxid = TopmostOf q xid
            in if topxid \<noteq> xid then list_ex (\<lambda>x. x = topxid) xids else False))"

definition TransactionIdIsInProgress ::
  "xact_tests \<Rightarrow> snap_vars \<Rightarrow> procarray \<Rightarrow> TransactionId \<Rightarrow> bool" where
  "TransactionIdIsInProgress q v a xid =
     (if TransactionIdPrecedes xid (RecentXmin v) then False
      else if KnownCompleted q xid then False
      else if CurrentXid q xid then True
      else if TransactionIdPrecedes (pa_latestCompletedXid a) xid then True
      else (case loop_exit (in_progress_step a (MyProcNo v) xid) (pgprocnos a) [] of
              Inl b \<Rightarrow> b
            | Inr xids \<Rightarrow>
                (case in_progress_standby a xid xids of
                   Inl b \<Rightarrow> b
                 | Inr xids \<Rightarrow> in_progress_subtrans q xid xids)))"

definition TransactionIdIsActive :: "snap_vars \<Rightarrow> procarray \<Rightarrow> TransactionId \<Rightarrow> bool" where
  "TransactionIdIsActive v a xid =
     (if TransactionIdPrecedes xid (RecentXmin v) then False
      else list_ex (\<lambda>procno. let pxid = x_xid (allPgXact a procno)
                             in TransactionIdIsValid pxid \<and> p_pid (allProcs a procno) \<noteq> 0 \<and> pxid = xid)
             (pgprocnos a))"

subsection \<open>The oldest horizon\<close>

definition lower_to :: "TransactionId \<Rightarrow> TransactionId \<Rightarrow> TransactionId" where
  "lower_to xid result =
     (if TransactionIdIsNormal xid \<and> TransactionIdPrecedes xid result then xid else result)"

definition has_flag :: "procarray \<Rightarrow> nat \<Rightarrow> uint8 \<Rightarrow> bool" where
  "has_flag a n flag \<longleftrightarrow> x_vacuumFlags (allPgXact a n) AND flag \<noteq> 0"

definition oldest_step ::
  "procarray \<Rightarrow> Oid \<Rightarrow> bool \<Rightarrow> bool \<Rightarrow> nat \<Rightarrow> TransactionId \<Rightarrow> TransactionId" where
  "oldest_step a mydb allDbs ignoreVacuum procno result =
     (if has_flag a procno PROC_IN_LOGICAL_DECODING then result
      else if ignoreVacuum \<and> has_flag a procno PROC_IN_VACUUM then result
      else if allDbs \<or> p_databaseId (allProcs a procno) = mydb \<or> p_databaseId (allProcs a procno) = 0
      then lower_to (x_xmin (allPgXact a procno)) (lower_to (x_xid (allPgXact a procno)) result)
      else result)"

definition defer_cleanup :: "uint32 \<Rightarrow> TransactionId \<Rightarrow> TransactionId" where
  "defer_cleanup cleanup_age result =
     (let result = result - cleanup_age
      in if \<not> TransactionIdIsNormal result then FirstNormalTransactionId else result)"

text \<open>
  \<open>rel\<close> is \<open>None\<close> for \<open>NULL\<close>; of a relation the function needs to know whether it is shared
  and whether logical decoding can access it.
\<close>

definition GetOldestXmin ::
  "snap_vars \<Rightarrow> procarray \<Rightarrow> (bool \<times> bool) option \<Rightarrow> bool \<Rightarrow> TransactionId" where
  "GetOldestXmin v a rel ignoreVacuum =
     (let allDbs = (case rel of None \<Rightarrow> True | Some (relisshared, _) \<Rightarrow> relisshared);
          result = TransactionIdAdvance (pa_latestCompletedXid a);
          result = fold (oldest_step a (MyDatabaseId v) allDbs ignoreVacuum) (pgprocnos a) result;
          result = (if pa_recovery a then lower_to (KnownAssignedXidsGetOldestXmin (pa_known a)) result
                    else defer_cleanup (vacuum_defer_cleanup_age v) result);
          result = (if TransactionIdIsValid (replication_slot_xmin a) \<and>
                       NormalTransactionIdPrecedes (replication_slot_xmin a) result
                    then replication_slot_xmin a else result)
      in if (case rel of None \<Rightarrow> True | Some (_, logical) \<Rightarrow> logical) \<and>
            TransactionIdIsValid (replication_slot_catalog_xmin a) \<and>
            NormalTransactionIdPrecedes (replication_slot_catalog_xmin a) result
         then replication_slot_catalog_xmin a else result)"

definition GetOldestActiveTransactionId :: "procarray \<Rightarrow> TransactionId" where
  "GetOldestActiveTransactionId a =
     fold (\<lambda>n oldest. lower_to (x_xid (allPgXact a n)) oldest) (pgprocnos a) (pa_nextXid a)"

definition GetOldestSafeDecodingTransactionId :: "procarray \<Rightarrow> TransactionId" where
  "GetOldestSafeDecodingTransactionId a =
     (let oldestSafeXid = pa_nextXid a;
          oldestSafeXid = (if TransactionIdIsValid (replication_slot_catalog_xmin a) \<and>
                              TransactionIdPrecedes (replication_slot_catalog_xmin a) oldestSafeXid
                           then replication_slot_catalog_xmin a else oldestSafeXid)
      in if \<not> pa_recovery a
         then fold (\<lambda>n oldest. lower_to (x_xid (allPgXact a n)) oldest) (pgprocnos a) oldestSafeXid
         else oldestSafeXid)"

definition ProcArraySetReplicationSlotXmin ::
  "TransactionId \<Rightarrow> TransactionId \<Rightarrow> procarray \<Rightarrow> procarray" where
  "ProcArraySetReplicationSlotXmin slot_xmin catalog_xmin a =
     a\<lparr>replication_slot_xmin := slot_xmin, replication_slot_catalog_xmin := catalog_xmin\<rparr>"

definition ProcArrayGetReplicationSlotXmin :: "procarray \<Rightarrow> TransactionId \<times> TransactionId" where
  "ProcArrayGetReplicationSlotXmin a = (replication_slot_xmin a, replication_slot_catalog_xmin a)"

subsection \<open>Taking a snapshot\<close>

record scan =
  s_xmin :: TransactionId
  s_globalxmin :: TransactionId
  s_xip :: "TransactionId list"
  s_subxip :: "TransactionId list"
  s_suboverflowed :: bool

definition snapshot_step :: "procarray \<Rightarrow> nat \<Rightarrow> TransactionId \<Rightarrow> nat \<Rightarrow> scan \<Rightarrow> scan" where
  "snapshot_step a me xmax procno s =
     (if has_flag a procno PROC_IN_LOGICAL_DECODING then s
      else if has_flag a procno PROC_IN_VACUUM then s
      else
        (let xid = x_xmin (allPgXact a procno);
             s = (if TransactionIdIsNormal xid \<and> NormalTransactionIdPrecedes xid (s_globalxmin s)
                  then s\<lparr>s_globalxmin := xid\<rparr> else s);
             xid = x_xid (allPgXact a procno)
         in if \<not> TransactionIdIsNormal xid \<or> \<not> NormalTransactionIdPrecedes xid xmax then s
            else
              (let s = (if NormalTransactionIdPrecedes xid (s_xmin s) then s\<lparr>s_xmin := xid\<rparr> else s)
               in if procno = me then s
                  else
                    (let s = s\<lparr>s_xip := s_xip s @ [xid]\<rparr>
                     in if \<not> s_suboverflowed s then
                          (if x_overflowed (allPgXact a procno) then s\<lparr>s_suboverflowed := True\<rparr>
                           else s\<lparr>s_subxip := s_subxip s @ cached_subxids a procno\<rparr>)
                        else s))))"

definition scan_procs :: "procarray \<Rightarrow> nat \<Rightarrow> TransactionId \<Rightarrow> scan" where
  "scan_procs a me xmax =
     (let s0 = \<lparr>s_xmin = xmax, s_globalxmin = xmax, s_xip = [], s_subxip = [], s_suboverflowed = False\<rparr>
      in if \<not> pa_recovery a then fold (snapshot_step a me xmax) (pgprocnos a) s0
         else (let (subxip, xmin) = KnownAssignedXidsGetAndSetXmin xmax xmax (pa_known a)
               in s0\<lparr>s_xmin := xmin, s_subxip := subxip,
                     s_suboverflowed := TransactionIdPrecedesOrEquals xmin (pa_lastOverflowedXid a)\<rparr>))"

text \<open>The horizons of the backend that follow from the scan.\<close>

definition set_horizons :: "procarray \<Rightarrow> scan \<Rightarrow> snap_vars \<Rightarrow> snap_vars" where
  "set_horizons a s v =
     (let globalxmin = (if TransactionIdPrecedes (s_xmin s) (s_globalxmin s) then s_xmin s else s_globalxmin s);
          g = defer_cleanup (vacuum_defer_cleanup_age v) globalxmin;
          g = (if TransactionIdIsValid (replication_slot_xmin a) \<and>
                  NormalTransactionIdPrecedes (replication_slot_xmin a) g
               then replication_slot_xmin a else g);
          d = g;
          g = (if TransactionIdIsNormal (replication_slot_catalog_xmin a) \<and>
                  NormalTransactionIdPrecedes (replication_slot_catalog_xmin a) g
               then replication_slot_catalog_xmin a else g)
      in v\<lparr>RecentGlobalXmin := g, RecentGlobalDataXmin := d, RecentXmin := s_xmin s\<rparr>)"

definition GetSnapshotData ::
  "CommandId \<Rightarrow> snap_vars \<Rightarrow> procarray \<Rightarrow> Snapshot \<times> snap_vars \<times> procarray" where
  "GetSnapshotData curcid v a =
     (let xmax = TransactionIdAdvance (pa_latestCompletedXid a);
          s = scan_procs a (MyProcNo v) xmax;
          (v, a') = (if \<not> TransactionIdIsValid (x_xmin (allPgXact a (MyProcNo v)))
                     then (v\<lparr>SnapTransactionXmin := s_xmin s\<rparr>,
                           upd_xact (MyProcNo v) (\<lambda>x. x\<lparr>x_xmin := s_xmin s\<rparr>) a)
                     else (v, a))
      in (\<lparr>snap_xmin = s_xmin s, snap_xmax = xmax, snap_xip = s_xip s, snap_subxip = s_subxip s,
           suboverflowed = s_suboverflowed s, takenDuringRecovery = pa_recovery a,
           snap_curcid = curcid\<rparr>,
          set_horizons a s v, a'))"

definition ProcArrayInstallImportedXmin ::
  "TransactionId \<Rightarrow> TransactionId \<Rightarrow> snap_vars \<Rightarrow> procarray \<Rightarrow> bool \<times> snap_vars \<times> procarray" where
  "ProcArrayInstallImportedXmin imported sourcexid v a =
     (if \<not> TransactionIdIsNormal sourcexid then (False, v, a)
      else if list_ex (\<lambda>n. \<not> has_flag a n PROC_IN_VACUUM \<and> x_xid (allPgXact a n) = sourcexid \<and>
                 p_databaseId (allProcs a n) = MyDatabaseId v \<and>
                 TransactionIdIsNormal (x_xmin (allPgXact a n)) \<and>
                 TransactionIdPrecedesOrEquals (x_xmin (allPgXact a n)) imported) (pgprocnos a)
      then (True, v\<lparr>SnapTransactionXmin := imported\<rparr>,
            upd_xact (MyProcNo v) (\<lambda>x. x\<lparr>x_xmin := imported\<rparr>) a)
      else (False, v, a))"

subsection \<open>The array of backends\<close>

definition wf_procs :: "procarray \<Rightarrow> bool" where
  "wf_procs a \<longleftrightarrow> sorted_wrt (<) (pgprocnos a) \<and> length (pgprocnos a) \<le> maxProcs a"

lemma insert_sorted_list:
  assumes "sorted_wrt (<) ns" and "n \<notin> set ns"
  shows "sorted_wrt (<) (takeWhile (\<lambda>k. \<not> k > n) ns @ n # dropWhile (\<lambda>k. \<not> k > n) (ns :: nat list))"
  using assms
  by (induction ns) (force simp: not_less dest: set_takeWhileD set_dropWhileD)+

lemma ProcArrayAdd_ok:
  assumes "wf_procs a" and "n \<notin> set (pgprocnos a)"
  shows "length (pgprocnos a) < maxProcs a \<Longrightarrow> \<exists>a'. ProcArrayAdd n a = Inr a' \<and> wf_procs a' \<and>
      set (pgprocnos a') = insert n (set (pgprocnos a)) \<and> allPgXact a' = allPgXact a"
    "length (pgprocnos a) = maxProcs a \<Longrightarrow> ProcArrayAdd n a = Inl (FATAL ''sorry, too many clients already'')"
proof -
  let ?l = "takeWhile (\<lambda>k. \<not> k > n) (pgprocnos a) @ n # dropWhile (\<lambda>k. \<not> k > n) (pgprocnos a)"
  have "set ?l = insert n (set (takeWhile (\<lambda>k. \<not> k > n) (pgprocnos a) @ dropWhile (\<lambda>k. \<not> k > n) (pgprocnos a)))"
    by (simp only: set_append list.set Un_insert_right)
  then have s: "set ?l = insert n (set (pgprocnos a))" by (simp only: takeWhile_dropWhile_id)
  have "length ?l = Suc (length (takeWhile (\<lambda>k. \<not> k > n) (pgprocnos a) @ dropWhile (\<lambda>k. \<not> k > n) (pgprocnos a)))"
    by (simp only: length_append list.size add_Suc_right)
  then have l: "length ?l = Suc (length (pgprocnos a))" by (simp only: takeWhile_dropWhile_id)
  show "length (pgprocnos a) < maxProcs a \<Longrightarrow> \<exists>a'. ProcArrayAdd n a = Inr a' \<and> wf_procs a' \<and>
      set (pgprocnos a') = insert n (set (pgprocnos a)) \<and> allPgXact a' = allPgXact a"
    using assms insert_sorted_list [of "pgprocnos a" n] s l
    by (simp add: ProcArrayAdd_def wf_procs_def Let_def)
qed (simp add: ProcArrayAdd_def)

lemma ProcArrayRemove_ok:
  assumes "wf_procs a"
  shows "wf_procs (snd (ProcArrayRemove n x a))"
    "set (pgprocnos (snd (ProcArrayRemove n x a))) = set (pgprocnos a) - {n}"
    "fst (ProcArrayRemove n x a) \<longleftrightarrow> n \<in> set (pgprocnos a)"
proof -
  define a1 where "a1 = (if TransactionIdIsValid x then advance_latest x a else a)"
  have a1: "pgprocnos a1 = pgprocnos a" "maxProcs a1 = maxProcs a"
    by (simp_all add: a1_def advance_latest_def)
  have r: "ProcArrayRemove n x a = (case find (\<lambda>i. pgprocnos a ! i = n) [0..<length (pgprocnos a)] of
      Some i \<Rightarrow> (True, a1\<lparr>pgprocnos := take i (pgprocnos a) @ drop (i + 1) (pgprocnos a)\<rparr>)
    | None \<Rightarrow> (False, a1))"
    by (simp add: ProcArrayRemove_def Let_def a1_def [symmetric] a1 split: option.splits)
  have "wf_procs (snd (ProcArrayRemove n x a)) \<and>
    set (pgprocnos (snd (ProcArrayRemove n x a))) = set (pgprocnos a) - {n} \<and>
    (fst (ProcArrayRemove n x a) \<longleftrightarrow> n \<in> set (pgprocnos a))"
  proof (cases "find (\<lambda>i. pgprocnos a ! i = n) [0..<length (pgprocnos a)]")
    case None
    then have "n \<notin> set (pgprocnos a)" by (auto simp: find_None_iff in_set_conv_nth)
    then show ?thesis using None assms a1 by (simp add: r wf_procs_def)
  next
    case (Some i)
    then have i: "i < length (pgprocnos a)" "pgprocnos a ! i = n" by (auto simp: find_Some_iff)
    have split: "pgprocnos a = take i (pgprocnos a) @ n # drop (i + 1) (pgprocnos a)"
      using i id_take_nth_drop by fastforce
    have "sorted_wrt (<) (take i (pgprocnos a) @ n # drop (i + 1) (pgprocnos a))"
      using assms split by (simp add: wf_procs_def)
    then have srt: "sorted_wrt (<) (take i (pgprocnos a) @ drop (i + 1) (pgprocnos a))"
      and notin: "n \<notin> set (take i (pgprocnos a) @ drop (i + 1) (pgprocnos a))"
      by (auto simp: sorted_wrt_append)
    have s: "set (pgprocnos a) = insert n (set (take i (pgprocnos a) @ drop (i + 1) (pgprocnos a)))"
      by (subst split) simp
    show ?thesis
      using srt notin s i assms a1 by (simp add: r Some wf_procs_def) (auto simp: a1)
  qed
  then show "wf_procs (snd (ProcArrayRemove n x a))"
    "set (pgprocnos (snd (ProcArrayRemove n x a))) = set (pgprocnos a) - {n}"
    "fst (ProcArrayRemove n x a) \<longleftrightarrow> n \<in> set (pgprocnos a)" by blast+
qed

subsection \<open>Which transactions run\<close>

text \<open>
  \<open>live n\<close> are the subtransactions of backend \<open>n\<close> that are running or subcommitted; the cache
  may not hold all of them.
\<close>

definition main_xid :: "procarray \<Rightarrow> nat \<Rightarrow> TransactionId" where
  "main_xid a n = x_xid (allPgXact a n)"

definition runs_in :: "procarray \<Rightarrow> (nat \<Rightarrow> TransactionId set) \<Rightarrow> nat \<Rightarrow> TransactionId \<Rightarrow> bool" where
  "runs_in a live n x \<longleftrightarrow> TransactionIdIsValid (main_xid a n) \<and> (x = main_xid a n \<or> x \<in> live n)"

definition running_xids :: "procarray \<Rightarrow> (nat \<Rightarrow> TransactionId set) \<Rightarrow> TransactionId set" where
  "running_xids a live = {x. \<exists>n \<in> set (pgprocnos a). runs_in a live n x}"

definition caches_ok :: "TransactionId \<Rightarrow> procarray \<Rightarrow> (nat \<Rightarrow> TransactionId set) \<Rightarrow> bool" where
  "caches_ok base a live \<longleftrightarrow> (\<forall>n \<in> set (pgprocnos a).
     set (cached_subxids a n) \<subseteq> live n \<and>
     (\<not> x_overflowed (allPgXact a n) \<longrightarrow> set (cached_subxids a n) = live n) \<and>
     (\<forall>c \<in> live n. age base (main_xid a n) < age base c))"

definition next_unassigned :: "procarray \<Rightarrow> TransactionId" where
  "next_unassigned a = TransactionIdAdvance (pa_latestCompletedXid a)"

definition array_ok :: "TransactionId \<Rightarrow> procarray \<Rightarrow> (nat \<Rightarrow> TransactionId set) \<Rightarrow> bool" where
  "array_ok base a live \<longleftrightarrow> \<not> pa_recovery a \<and> caches_ok base a live \<and>
     xid_window base (insert (pa_latestCompletedXid a) (insert (next_unassigned a) (running_xids a live))) \<and>
     age base (pa_latestCompletedXid a) < age base (next_unassigned a)"

text \<open>pg_subtrans leads from a running transaction, and from no other, to the top of its tree.\<close>

definition topmost_ok ::
  "(TransactionId \<Rightarrow> TransactionId) \<Rightarrow> procarray \<Rightarrow> (nat \<Rightarrow> TransactionId set) \<Rightarrow> TransactionId \<Rightarrow> bool" where
  "topmost_ok topx a live x \<longleftrightarrow> (\<forall>n \<in> set (pgprocnos a). TransactionIdIsValid (main_xid a n) \<longrightarrow>
     (runs_in a live n x \<longleftrightarrow> topx x = main_xid a n))"

lemma array_okD:
  assumes "array_ok base a live"
  shows "x \<in> running_xids a live \<Longrightarrow> TransactionIdIsNormal x \<and> age base x < 2 ^ 31"
    "TransactionIdIsNormal (pa_latestCompletedXid a)" "age base (pa_latestCompletedXid a) < 2 ^ 31"
    "TransactionIdIsNormal (next_unassigned a)" "age base (next_unassigned a) < 2 ^ 31"
    "age base (pa_latestCompletedXid a) < age base (next_unassigned a)" "\<not> pa_recovery a"
  using assms by (auto simp: array_ok_def xid_window_def)

lemma caches_okD:
  assumes "array_ok base a live" and "n \<in> set (pgprocnos a)"
  shows "set (cached_subxids a n) \<subseteq> live n"
    "\<not> x_overflowed (allPgXact a n) \<Longrightarrow> set (cached_subxids a n) = live n"
    "c \<in> live n \<Longrightarrow> age base (main_xid a n) < age base c"
  using assms by (auto simp: array_ok_def caches_ok_def)

lemma runs_in_running: "n \<in> set (pgprocnos a) \<Longrightarrow> runs_in a live n x \<Longrightarrow> x \<in> running_xids a live"
  by (auto simp: running_xids_def)

lemma main_runs: "TransactionIdIsValid (main_xid a n) \<Longrightarrow> runs_in a live n (main_xid a n)"
  by (simp add: runs_in_def)

lemma runs_in_age:
  assumes "array_ok base a live" and "n \<in> set (pgprocnos a)" and "runs_in a live n x"
  shows "age base (main_xid a n) \<le> age base x"
  using assms(3) caches_okD(3) [OF assms(1,2)] by (auto simp: runs_in_def intro: less_imp_le)

subsection \<open>TransactionIdIsInProgress\<close>

lemma in_progress_loop:
  assumes "array_ok base a live" and "set ns \<subseteq> set (pgprocnos a)"
    and "TransactionIdIsNormal x" and "age base x < 2 ^ 31"
  shows "case loop_exit (in_progress_step a me x) ns tops of
      Inl b \<Rightarrow> b \<and> (\<exists>n \<in> set ns. n \<noteq> me \<and> runs_in a live n x)
    | Inr tops' \<Rightarrow>
        set tops' \<subseteq> set tops \<union> {main_xid a n | n. n \<in> set ns \<and> TransactionIdIsValid (main_xid a n)} \<and>
        set tops \<subseteq> set tops' \<and>
        (\<forall>n \<in> set ns. n \<noteq> me \<and> runs_in a live n x \<longrightarrow> x \<noteq> main_xid a n \<and> main_xid a n \<in> set tops')"
  using assms(2)
proof (induction ns arbitrary: tops)
  case (Cons n ns)
  have n: "n \<in> set (pgprocnos a)" using Cons.prems by simp
  let ?m = "main_xid a n"
  have prec: "TransactionIdPrecedes x ?m \<longleftrightarrow> age base x < age base ?m" if "TransactionIdIsValid ?m"
    using Precedes_age(1) [of x ?m base] assms(3,4) array_okD(1) [OF assms(1) runs_in_running [OF n main_runs [OF that]]]
    by simp
  note cached = caches_okD(1,2) [OF assms(1) n]
  consider (found) "in_progress_step a me x n tops = Inl True" "n \<noteq> me" "runs_in a live n x"
    | (not) "in_progress_step a me x n tops = Inr tops" "n = me \<or> \<not> runs_in a live n x"
    | (top) "in_progress_step a me x n tops = Inr (tops @ [?m])" "TransactionIdIsValid ?m" "x \<noteq> ?m"
  proof -
    show ?thesis
    proof (cases "n = me \<or> \<not> TransactionIdIsValid ?m")
      case True
      then show ?thesis
        using not by (auto simp: in_progress_step_def runs_in_def main_xid_def Let_def)
    next
      case False
      then have v: "TransactionIdIsValid ?m" "n \<noteq> me" by auto
      show ?thesis
      proof (cases "x = ?m \<or> \<not> age base x < age base ?m \<and> x \<in> set (cached_subxids a n)")
        case True
        then have "runs_in a live n x" using v cached(1) by (auto simp: runs_in_def)
        then show ?thesis
          using found True v prec
          by (auto simp: in_progress_step_def main_xid_def Let_def list_ex_iff)
      next
        case no: False
        show ?thesis
        proof (cases "age base x < age base ?m")
          case True
          then have "\<not> runs_in a live n x" using runs_in_age [OF assms(1) n, of x] by auto
          then show ?thesis
            using not True v prec no by (auto simp: in_progress_step_def main_xid_def Let_def)
        next
          case old: False
          have s: "in_progress_step a me x n tops =
            (if x_overflowed (allPgXact a n) then Inr (tops @ [?m]) else Inr tops)"
            using old v prec no by (auto simp: in_progress_step_def main_xid_def Let_def list_ex_iff)
          show ?thesis
            using s top not v no old cached(2) by (auto simp: runs_in_def split: if_splits)
        qed
      qed
    qed
  qed
  then show ?case
  proof cases
    case found
    then show ?thesis by auto
  next
    case not
    then show ?thesis using Cons.IH [of tops] Cons.prems by (auto split: sum.splits)
  next
    case top
    then show ?thesis using Cons.IH [of "tops @ [?m]"] Cons.prems by (auto split: sum.splits)
  qed
qed simp

text \<open>What a backend knows without looking at the array.\<close>

definition view_ok ::
  "TransactionId \<Rightarrow> xact_tests \<Rightarrow> snap_vars \<Rightarrow> procarray \<Rightarrow> (nat \<Rightarrow> TransactionId set) \<Rightarrow> bool" where
  "view_ok base q v a live \<longleftrightarrow> MyProcNo v \<in> set (pgprocnos a) \<and>
     (\<forall>x. CurrentXid q x \<longleftrightarrow> runs_in a live (MyProcNo v) x) \<and>
     TransactionIdIsNormal (RecentXmin v) \<and> age base (RecentXmin v) \<le> age base (next_unassigned a) \<and>
     (\<forall>x \<in> running_xids a live. age base (RecentXmin v) \<le> age base x) \<and>
     (\<forall>x. KnownCompleted q x \<longrightarrow>
        x \<notin> running_xids a live \<and> \<not> TransactionIdPrecedes (pa_latestCompletedXid a) x) \<and>
     (\<forall>x. DidAbort q x \<longrightarrow> x \<notin> running_xids a live) \<and>
     (\<forall>x. TransactionIdIsNormal x \<and> \<not> DidAbort q x \<and> age base x \<le> age base (pa_latestCompletedXid a) \<longrightarrow>
        topmost_ok (TopmostOf q) a live x)"

text \<open>A transaction that is running, or too young to have ended.\<close>

definition in_progress :: "procarray \<Rightarrow> (nat \<Rightarrow> TransactionId set) \<Rightarrow> TransactionId \<Rightarrow> bool" where
  "in_progress a live x \<longleftrightarrow> x \<in> running_xids a live \<or> TransactionIdPrecedes (pa_latestCompletedXid a) x"

lemma IsInProgress_normal:
  assumes ok: "array_ok base a live" and view: "view_ok base q v a live"
    and x: "TransactionIdIsNormal x" "age base x < 2 ^ 31"
  shows "TransactionIdIsInProgress q v a x \<longleftrightarrow> in_progress a live x"
proof -
  let ?latest = "pa_latestCompletedXid a"
  note d = array_okD [OF ok]
  have view': "MyProcNo v \<in> set (pgprocnos a)" "\<And>x. CurrentXid q x \<longleftrightarrow> runs_in a live (MyProcNo v) x"
    "TransactionIdIsNormal (RecentXmin v)" "age base (RecentXmin v) \<le> age base (next_unassigned a)"
    "\<And>x. x \<in> running_xids a live \<Longrightarrow> age base (RecentXmin v) \<le> age base x"
    "\<And>x. KnownCompleted q x \<Longrightarrow> \<not> in_progress a live x"
    "\<And>x. DidAbort q x \<Longrightarrow> x \<notin> running_xids a live"
    "\<And>x. TransactionIdIsNormal x \<Longrightarrow> \<not> DidAbort q x \<Longrightarrow> age base x \<le> age base ?latest \<Longrightarrow>
       topmost_ok (TopmostOf q) a live x"
    using view by (auto simp: view_ok_def in_progress_def)
  have lat: "TransactionIdPrecedes ?latest x \<longleftrightarrow> age base ?latest < age base x"
    using Precedes_age(1) [OF d(2) x(1) d(3) x(2)] .
  have rec: "TransactionIdPrecedes x (RecentXmin v) \<longleftrightarrow> age base x < age base (RecentXmin v)"
    using Precedes_age(1) [OF x(1) view'(3) x(2)] view'(4) d(5) by simp
  have lnext: "age base ?latest < age base x \<longleftrightarrow> age base (next_unassigned a) \<le> age base x"
    using Advance_toward(2) [OF d(2) x(1), of base] d(6) by (auto simp: next_unassigned_def)
  show ?thesis
  proof (cases "TransactionIdPrecedes x (RecentXmin v) \<or> KnownCompleted q x \<or> CurrentXid q x \<or>
      TransactionIdPrecedes ?latest x")
    case True
    have "TransactionIdPrecedes x (RecentXmin v) \<Longrightarrow> \<not> in_progress a live x"
      using view'(4) view'(5) [of x] rec lat lnext by (auto simp: in_progress_def)
    moreover have "CurrentXid q x \<Longrightarrow> in_progress a live x"
      using view'(1,2) runs_in_running by (auto simp: in_progress_def)
    moreover have "TransactionIdPrecedes ?latest x \<Longrightarrow> in_progress a live x"
      by (simp add: in_progress_def)
    ultimately show ?thesis
      using True view'(6) [of x] by (auto simp: TransactionIdIsInProgress_def)
  next
    case False
    then have old: "age base x \<le> age base ?latest" using lat by simp
    have r: "TransactionIdIsInProgress q v a x =
      (case loop_exit (in_progress_step a (MyProcNo v) x) (pgprocnos a) [] of
         Inl b \<Rightarrow> b | Inr xids \<Rightarrow> in_progress_subtrans q x xids)"
      using False d(7) by (simp add: TransactionIdIsInProgress_def in_progress_standby_def split: sum.splits)
    have me: "\<not> runs_in a live (MyProcNo v) x" using False view'(2) by simp
    have run: "in_progress a live x \<longleftrightarrow> (\<exists>n \<in> set (pgprocnos a). n \<noteq> MyProcNo v \<and> runs_in a live n x)"
    proof -
      have "in_progress a live x \<longleftrightarrow> (\<exists>n \<in> set (pgprocnos a). runs_in a live n x)"
        using False by (simp add: in_progress_def running_xids_def)
      then show ?thesis using me by metis
    qed
    note loop = in_progress_loop [OF ok order_refl x, of "MyProcNo v" "[]"]
    show ?thesis
    proof (cases "loop_exit (in_progress_step a (MyProcNo v) x) (pgprocnos a) []")
      case (Inl b)
      then show ?thesis using loop run by (simp add: r)
    next
      case (Inr tops)
      have tops: "t \<in> set tops \<Longrightarrow> \<exists>n. t = main_xid a n \<and> n \<in> set (pgprocnos a) \<and> TransactionIdIsValid t" for t
        using loop Inr by auto
      have into: "n \<in> set (pgprocnos a) \<Longrightarrow> n \<noteq> MyProcNo v \<Longrightarrow> runs_in a live n x \<Longrightarrow>
          x \<noteq> main_xid a n \<and> main_xid a n \<in> set tops" for n
        using loop Inr by auto
      show ?thesis
      proof (cases "DidAbort q x")
        case True
        then have "\<not> in_progress a live x" using view'(7) False by (auto simp: in_progress_def)
        then show ?thesis using True by (simp add: r Inr in_progress_subtrans_def)
      next
        case na: False
        note top = view'(8) [OF x(1) na old, unfolded topmost_ok_def]
        have "in_progress_subtrans q x tops \<longleftrightarrow> TopmostOf q x \<noteq> x \<and> TopmostOf q x \<in> set tops"
          using na by (auto simp: in_progress_subtrans_def Let_def list_ex_iff)
        also have "\<dots> \<longleftrightarrow> in_progress a live x"
        proof
          assume t: "TopmostOf q x \<noteq> x \<and> TopmostOf q x \<in> set tops"
          then obtain n where "TopmostOf q x = main_xid a n" "n \<in> set (pgprocnos a)" "TransactionIdIsValid (main_xid a n)"
            using tops by metis
          then show "in_progress a live x" using top run me by (auto simp: in_progress_def running_xids_def)
        next
          assume "in_progress a live x"
          then obtain n where n: "n \<in> set (pgprocnos a)" "n \<noteq> MyProcNo v" "runs_in a live n x" using run by blast
          then have "TopmostOf q x = main_xid a n" using top by (auto simp: runs_in_def)
          then show "TopmostOf q x \<noteq> x \<and> TopmostOf q x \<in> set tops" using into [OF n] by metis
        qed
        finally show ?thesis by (simp add: r Inr)
      qed
    qed
  qed
qed

lemma IsInProgress_special:
  assumes "TransactionIdIsNormal (RecentXmin v)" and "\<not> TransactionIdIsNormal x"
  shows "\<not> TransactionIdIsInProgress q v a x"
  using assms
  by (auto simp: TransactionIdIsInProgress_def TransactionIdPrecedes_def TransactionIdIsNormal_def not_le)

subsection \<open>GetSnapshotData\<close>

definition in_scan :: "procarray \<Rightarrow> nat \<Rightarrow> bool" where
  "in_scan a n \<longleftrightarrow> \<not> has_flag a n PROC_IN_LOGICAL_DECODING \<and> \<not> has_flag a n PROC_IN_VACUUM"

definition scanned :: "TransactionId \<Rightarrow> procarray \<Rightarrow> TransactionId \<Rightarrow> nat \<Rightarrow> bool" where
  "scanned base a xmax n \<longleftrightarrow> in_scan a n \<and> TransactionIdIsNormal (main_xid a n) \<and>
     age base (main_xid a n) < age base xmax"

lemma NormalPrecedes_age:
  assumes "TransactionIdIsNormal x" and "TransactionIdIsNormal y" and "age base x < 2 ^ 31" "age base y < 2 ^ 31"
  shows "NormalTransactionIdPrecedes x y \<longleftrightarrow> age base x < age base y"
  using Precedes_age(1) [OF assms] assms(1,2)
  by (simp add: TransactionIdPrecedes_def NormalTransactionIdPrecedes_def Let_def)

lemma snapshot_fold:
  fixes me :: nat
  assumes ok: "array_ok base a live" and sub: "set ns \<subseteq> set (pgprocnos a)"
    and xmax: "TransactionIdIsNormal xmax" "age base xmax < 2 ^ 31"
    and s: "TransactionIdIsNormal (s_xmin s)" "age base (s_xmin s) < 2 ^ 31"
  defines "s' \<equiv> fold (snapshot_step a me xmax) ns s"
  defines "others \<equiv> filter (\<lambda>n. scanned base a xmax n \<and> n \<noteq> me) ns"
  shows "s_xip s' = s_xip s @ map (main_xid a) others \<and>
    (s_suboverflowed s' \<longleftrightarrow> s_suboverflowed s \<or> (\<exists>n \<in> set others. x_overflowed (allPgXact a n))) \<and>
    (\<not> s_suboverflowed s' \<longrightarrow> s_subxip s' = s_subxip s @ concat (map (cached_subxids a) others)) \<and>
    TransactionIdIsNormal (s_xmin s') \<and> age base (s_xmin s') \<le> age base (s_xmin s) \<and>
    (\<forall>n \<in> set ns. scanned base a xmax n \<longrightarrow> age base (s_xmin s') \<le> age base (main_xid a n)) \<and>
    (s_xmin s' = s_xmin s \<or> (\<exists>n \<in> set ns. scanned base a xmax n \<and> s_xmin s' = main_xid a n))"
  using sub s unfolding s'_def others_def
proof (induction ns arbitrary: s)
  case (Cons n ns)
  let ?m = "main_xid a n"
  have n: "n \<in> set (pgprocnos a)" using Cons.prems by simp
  have m: "age base ?m < 2 ^ 31" if "TransactionIdIsNormal ?m"
    using array_okD(1) [OF ok runs_in_running [OF n main_runs]] that normal_valid by blast
  have cmp: "NormalTransactionIdPrecedes ?m xmax \<longleftrightarrow> age base ?m < age base xmax"
    "NormalTransactionIdPrecedes ?m (s_xmin s) \<longleftrightarrow> age base ?m < age base (s_xmin s)"
    if "TransactionIdIsNormal ?m"
    using NormalPrecedes_age [OF that _ m [OF that]] xmax Cons.prems(2,3) that by simp_all
  define s1 where "s1 = snapshot_step a me xmax n s"
  have s1: "s_xip s1 = s_xip s @ (if scanned base a xmax n \<and> n \<noteq> me then [?m] else []) \<and>
    (s_suboverflowed s1 \<longleftrightarrow> s_suboverflowed s \<or> scanned base a xmax n \<and> n \<noteq> me \<and> x_overflowed (allPgXact a n)) \<and>
    (\<not> s_suboverflowed s1 \<longrightarrow> s_subxip s1 =
       s_subxip s @ (if scanned base a xmax n \<and> n \<noteq> me then cached_subxids a n else [])) \<and>
    s_xmin s1 = (if scanned base a xmax n \<and> age base ?m < age base (s_xmin s) then ?m else s_xmin s)"
  proof (cases "in_scan a n \<and> TransactionIdIsNormal ?m")
    case True
    note c = cmp [OF conjunct2 [OF True]]
    show ?thesis
      using True c unfolding s1_def snapshot_step_def Let_def main_xid_def [symmetric]
      by (cases "age base ?m < age base xmax"; cases "age base ?m < age base (s_xmin s)"; cases "n = me")
        (simp_all add: scanned_def in_scan_def)
  next
    case False
    then show ?thesis
      unfolding s1_def snapshot_step_def Let_def main_xid_def [symmetric]
      by (auto simp: scanned_def in_scan_def)
  qed
  have normal1: "TransactionIdIsNormal (s_xmin s1)" "age base (s_xmin s1) \<le> age base (s_xmin s)"
    "scanned base a xmax n \<longrightarrow> age base (s_xmin s1) \<le> age base ?m"
    using s1 Cons.prems(2) by (auto simp: scanned_def)
  have IH: "TransactionIdIsNormal (s_xmin s1)" "age base (s_xmin s1) < 2 ^ 31" "set ns \<subseteq> set (pgprocnos a)"
    using normal1 Cons.prems by simp_all
  have f: "fold (snapshot_step a me xmax) (n # ns) s = fold (snapshot_step a me xmax) ns s1"
    by (simp add: s1_def)
  show ?case
    unfolding f using Cons.IH [OF IH(3,1,2)] s1 normal1
    by (auto split: if_splits)
qed simp

text \<open>What the snapshot takes for running: the scanned backends but the own one.\<close>

definition snapshot_running :: "procarray \<Rightarrow> (nat \<Rightarrow> TransactionId set) \<Rightarrow> nat \<Rightarrow> TransactionId set" where
  "snapshot_running a live me =
     {x. \<exists>n \<in> set (pgprocnos a). n \<noteq> me \<and> in_scan a n \<and> runs_in a live n x}"

definition snapshot_scan :: "procarray \<Rightarrow> nat \<Rightarrow> scan" where
  "snapshot_scan a me = scan_procs a me (next_unassigned a)"

lemma snapshot_scan_ok:
  fixes me :: nat
  assumes ok: "array_ok base a live"
  defines "s \<equiv> snapshot_scan a me"
  defines "others \<equiv> filter (\<lambda>n. scanned base a (next_unassigned a) n \<and> n \<noteq> me) (pgprocnos a)"
  shows "s_xip s = map (main_xid a) others"
    "s_suboverflowed s \<longleftrightarrow> (\<exists>n \<in> set others. x_overflowed (allPgXact a n))"
    "\<not> s_suboverflowed s \<Longrightarrow> s_subxip s = concat (map (cached_subxids a) others)"
    "TransactionIdIsNormal (s_xmin s)" "age base (s_xmin s) \<le> age base (next_unassigned a)"
    "n \<in> set (pgprocnos a) \<Longrightarrow> scanned base a (next_unassigned a) n \<Longrightarrow> age base (s_xmin s) \<le> age base (main_xid a n)"
proof -
  define s0 where "s0 = \<lparr>s_xmin = next_unassigned a, s_globalxmin = next_unassigned a, s_xip = [],
    s_subxip = [], s_suboverflowed = False\<rparr>"
  have s: "s = fold (snapshot_step a me (next_unassigned a)) (pgprocnos a) s0"
    using array_okD(7) [OF ok] by (simp add: s_def snapshot_scan_def scan_procs_def s0_def Let_def)
  have x: "TransactionIdIsNormal (next_unassigned a)" "age base (next_unassigned a) < 2 ^ 31"
    using array_okD(4,5) [OF ok] .
  have s0: "TransactionIdIsNormal (s_xmin s0)" "age base (s_xmin s0) < 2 ^ 31"
    using x by (simp_all add: s0_def)
  note f = snapshot_fold [OF ok order_refl x s0, of me, folded s]
  show "s_xip s = map (main_xid a) others"
    "s_suboverflowed s \<longleftrightarrow> (\<exists>n \<in> set others. x_overflowed (allPgXact a n))"
    "\<not> s_suboverflowed s \<Longrightarrow> s_subxip s = concat (map (cached_subxids a) others)"
    "TransactionIdIsNormal (s_xmin s)" "age base (s_xmin s) \<le> age base (next_unassigned a)"
    "n \<in> set (pgprocnos a) \<Longrightarrow> scanned base a (next_unassigned a) n \<Longrightarrow> age base (s_xmin s) \<le> age base (main_xid a n)"
    using f by (simp_all add: others_def s0_def)
qed

lemma GetSnapshotData_fields:
  fixes cid :: CommandId and v :: snap_vars and a :: procarray
  defines "r \<equiv> GetSnapshotData cid v a"
  defines "s \<equiv> snapshot_scan a (MyProcNo v)"
  shows "snap_xmin (fst r) = s_xmin s" "snap_xmax (fst r) = next_unassigned a"
    "snap_xip (fst r) = s_xip s" "snap_subxip (fst r) = s_subxip s"
    "suboverflowed (fst r) = s_suboverflowed s" "takenDuringRecovery (fst r) = pa_recovery a"
    "snap_curcid (fst r) = cid"
  by (simp_all add: r_def s_def GetSnapshotData_def snapshot_scan_def next_unassigned_def Let_def
      split: prod.splits)

lemma snapshot_membership:
  assumes ok: "array_ok base a live"
    and x: "TransactionIdIsNormal x" "age base x < 2 ^ 31"
    and topm: "age base x \<le> age base (pa_latestCompletedXid a) \<Longrightarrow> topmost_ok (GetTopmost e) a live x"
  shows "XidInMVCCSnapshot e x (fst (GetSnapshotData cid v a)) \<longleftrightarrow>
    x \<in> snapshot_running a live (MyProcNo v) \<or> age base (next_unassigned a) \<le> age base x"
proof -
  let ?me = "MyProcNo v" and ?xmax = "next_unassigned a" and ?snap = "fst (GetSnapshotData cid v a)"
  define s where "s = snapshot_scan a ?me"
  note f = GetSnapshotData_fields [of cid v a, folded s_def]
  define others where "others = filter (\<lambda>n. scanned base a ?xmax n \<and> n \<noteq> ?me) (pgprocnos a)"
  note sc = snapshot_scan_ok [OF ok, where me = "MyProcNo v", folded s_def others_def]
  note d = array_okD [OF ok]
  have xmax: "TransactionIdFollowsOrEquals x ?xmax \<longleftrightarrow> age base ?xmax \<le> age base x"
    using Precedes_age(4) [OF x(1) d(4) x(2) d(5)] .
  have xmin: "TransactionIdPrecedes y (s_xmin s) \<longleftrightarrow> age base y < age base (s_xmin s)"
    if "TransactionIdIsNormal y" "age base y < 2 ^ 31" for y
    using Precedes_age(1) [OF that(1) sc(4) that(2)] sc(5) d(5) by simp
  have other: "n \<in> set others \<longleftrightarrow> n \<in> set (pgprocnos a) \<and> n \<noteq> ?me \<and> in_scan a n \<and>
      TransactionIdIsNormal (main_xid a n) \<and> age base (main_xid a n) < age base ?xmax" for n
    by (auto simp: others_def scanned_def)
  have run: "x \<in> snapshot_running a live ?me \<longleftrightarrow> (\<exists>n \<in> set others. runs_in a live n x)"
    if "age base x < age base ?xmax"
  proof
    assume "x \<in> snapshot_running a live ?me"
    then obtain n where n: "n \<in> set (pgprocnos a)" "n \<noteq> ?me" "in_scan a n" "runs_in a live n x"
      by (auto simp: snapshot_running_def)
    then have "age base (main_xid a n) < age base ?xmax" using runs_in_age [OF ok n(1,4)] that by simp
    moreover have "TransactionIdIsNormal (main_xid a n)"
      using d(1) [OF runs_in_running [OF n(1) main_runs]] n(4) by (auto simp: runs_in_def)
    ultimately show "\<exists>n \<in> set others. runs_in a live n x" using n other by blast
  qed (auto simp: other snapshot_running_def)
  have low: "age base (s_xmin s) \<le> age base x" if ex: "\<exists>n \<in> set others. runs_in a live n x"
  proof -
    obtain n where n: "n \<in> set others" "runs_in a live n x" using ex by blast
    then have "age base (s_xmin s) \<le> age base (main_xid a n)" using sc(6) by (auto simp: others_def)
    then show ?thesis using runs_in_age [OF ok _ n(2)] n(1) other by force
  qed
  show ?thesis
  proof (cases "age base x < age base (s_xmin s) \<or> age base ?xmax \<le> age base x")
    case True
    then consider "age base x < age base (s_xmin s)"
      | "\<not> age base x < age base (s_xmin s)" "age base ?xmax \<le> age base x" by blast
    then show ?thesis
    proof cases
      case 1
      then have lt: "age base x < age base ?xmax" using sc(5) by simp
      have "\<not> (\<exists>n \<in> set others. runs_in a live n x)" using low 1 by (auto simp: not_le [symmetric])
      then show ?thesis using run [OF lt] 1 lt xmin [OF x] by (simp add: XidInMVCCSnapshot_def f)
    next
      case 2
      then show ?thesis using xmin [OF x] xmax by (simp add: XidInMVCCSnapshot_def f)
    qed
  next
    case False
    then have mid: "age base x < age base ?xmax" "\<not> TransactionIdPrecedes x (s_xmin s)"
      using xmin [OF x] by simp_all
    have old: "age base x \<le> age base (pa_latestCompletedXid a)"
      using Advance_toward(2) [OF d(2) x(1), of base] mid(1) by (auto simp: next_unassigned_def not_less [symmetric])
    note topx = topm [OF old, unfolded topmost_ok_def]
    have "XidInMVCCSnapshot e x ?snap \<longleftrightarrow> (\<exists>n \<in> set others. runs_in a live n x)"
    proof (cases "s_suboverflowed s")
      case no: False
      have "XidInMVCCSnapshot e x ?snap \<longleftrightarrow> x \<in> set (s_subxip s) \<or> x \<in> set (s_xip s)"
        using mid xmax False no d(7) by (simp add: XidInMVCCSnapshot_def f list_ex_iff Bex_def)
      also have "\<dots> \<longleftrightarrow> (\<exists>n \<in> set others. x \<in> set (cached_subxids a n) \<or> x = main_xid a n)"
        using sc(1,3) no by auto
      also have "\<dots> \<longleftrightarrow> (\<exists>n \<in> set others. runs_in a live n x)"
      proof (rule bex_cong [OF refl])
        fix n assume n: "n \<in> set others"
        then have "set (cached_subxids a n) = live n" "TransactionIdIsValid (main_xid a n)"
          using caches_okD(2) [OF ok, of n] no sc(2) other normal_valid by auto
        then show "x \<in> set (cached_subxids a n) \<or> x = main_xid a n \<longleftrightarrow> runs_in a live n x"
          by (auto simp: runs_in_def)
      qed
      finally show ?thesis .
    next
      case over: True
      have v: "TransactionIdIsValid (main_xid a n)" "n \<in> set (pgprocnos a)" if "n \<in> set others" for n
        using that other normal_valid by auto
      have "XidInMVCCSnapshot e x ?snap \<longleftrightarrow>
          \<not> TransactionIdPrecedes (GetTopmost e x) (s_xmin s) \<and> GetTopmost e x \<in> set (s_xip s)"
        using mid xmax False over d(7) by (simp add: XidInMVCCSnapshot_def f list_ex_iff Bex_def Let_def)
      also have "\<dots> \<longleftrightarrow> (\<exists>n \<in> set others. runs_in a live n x)"
      proof
        assume "\<not> TransactionIdPrecedes (GetTopmost e x) (s_xmin s) \<and> GetTopmost e x \<in> set (s_xip s)"
        then obtain n where n: "n \<in> set others" "GetTopmost e x = main_xid a n" using sc(1) by auto
        then show "\<exists>n \<in> set others. runs_in a live n x" using topx v by blast
      next
        assume "\<exists>n \<in> set others. runs_in a live n x"
        then obtain n where n: "n \<in> set others" "runs_in a live n x" by blast
        then have t: "GetTopmost e x = main_xid a n" using topx v by blast
        have "age base (s_xmin s) \<le> age base (main_xid a n)"
          using sc(6) n(1) by (auto simp: others_def)
        moreover have "TransactionIdIsNormal (main_xid a n)" "age base (main_xid a n) < 2 ^ 31"
          using n(1) other mid d(5) by (auto intro: less_trans)
        ultimately show "\<not> TransactionIdPrecedes (GetTopmost e x) (s_xmin s) \<and> GetTopmost e x \<in> set (s_xip s)"
          using t xmin sc(1) n(1) by auto
      qed
      finally show ?thesis .
    qed
    then show ?thesis using run [OF mid(1)] mid(1) by simp
  qed
qed

subsection \<open>The horizon is below everything that is advertised\<close>

lemma defer_arith:
  fixes B R K D :: nat
  assumes "B < 4294967296" "R < 4294967296" "3 \<le> R" "K < 3"
    and "(if B \<le> R then R - B else R + 4294967296 - B) < 2147483648"
    and "(if B \<le> K then K - B else K + 4294967296 - B) \<le> (if B \<le> R then R - B else R + 4294967296 - B)"
  shows "(if B \<le> 3 then 3 - B else 3 + 4294967296 - B) \<le> (if B \<le> R then R - B else R + 4294967296 - B)"
proof (cases "B \<le> K")
  case True
  then show ?thesis using assms by simp
next
  case False
  show ?thesis
  proof (cases "B \<le> R")
    case True
    with False assms have "K + 4294967296 - B \<le> R - B" by simp
    with True False assms(2,4) show ?thesis by linarith
  next
    case le: False
    with False assms show ?thesis by auto
  qed
qed

lemma defer_cleanup_age:
  assumes "TransactionIdIsNormal r" and "age base r < 2 ^ 31" and "unat d \<le> age base r"
  shows "TransactionIdIsNormal (defer_cleanup d r)" "age base (defer_cleanup d r) \<le> age base r"
proof -
  have "r - d - base = (r - base) - d" by simp
  moreover have "d \<le> r - base" using assms(3) by (simp add: age_def word_le_nat_alt)
  ultimately have a: "age base (r - d) = age base r - unat d"
    unfolding age_def by (metis unat_sub)
  show "TransactionIdIsNormal (defer_cleanup d r)"
    by (simp add: defer_cleanup_def Let_def TransactionIdIsNormal_def)
  show "age base (defer_cleanup d r) \<le> age base r"
  proof (cases "TransactionIdIsNormal (r - d)")
    case True
    then show ?thesis using a by (simp add: defer_cleanup_def)
  next
    case False
    then have k: "unat (r - d) < 3" by (simp add: Normal_unat)
    have "age base (r - d) \<le> age base r" using a by simp
    moreover have u: "unat (3 :: TransactionId) = 3" by simp
    ultimately have "age base 3 \<le> age base r"
      using assms(1,2) unfolding age_alt u Normal_unat
      by (intro defer_arith [OF xid_unat [of base] xid_unat [of r] _ k]) simp_all
    then show ?thesis using False by (simp add: defer_cleanup_def xid_constants)
  qed
qed

definition slot_xmin_ok :: "TransactionId \<Rightarrow> TransactionId \<Rightarrow> bool" where
  "slot_xmin_ok base x \<longleftrightarrow> (TransactionIdIsValid x \<longrightarrow> TransactionIdIsNormal x \<and> age base x < 2 ^ 31)"

definition horizon_ok :: "TransactionId \<Rightarrow> snap_vars \<Rightarrow> procarray \<Rightarrow> bool" where
  "horizon_ok base v a \<longleftrightarrow>
     (\<forall>n \<in> set (pgprocnos a). slot_xmin_ok base (x_xmin (allPgXact a n)) \<and>
        (TransactionIdIsNormal (x_xmin (allPgXact a n)) \<longrightarrow>
           unat (vacuum_defer_cleanup_age v) \<le> age base (x_xmin (allPgXact a n))) \<and>
        (TransactionIdIsNormal (main_xid a n) \<longrightarrow>
           unat (vacuum_defer_cleanup_age v) \<le> age base (main_xid a n)) \<and>
        (has_flag a n PROC_IN_LOGICAL_DECODING \<longrightarrow> \<not> TransactionIdIsValid (main_xid a n))) \<and>
     unat (vacuum_defer_cleanup_age v) \<le> age base (next_unassigned a) \<and>
     slot_xmin_ok base (replication_slot_xmin a) \<and> slot_xmin_ok base (replication_slot_catalog_xmin a)"

lemma lower_to_ok:
  assumes "TransactionIdIsNormal r" and "age base r < 2 ^ 31" and "TransactionIdIsNormal x \<longrightarrow> age base x < 2 ^ 31"
  shows "TransactionIdIsNormal (lower_to x r)" "age base (lower_to x r) \<le> age base r"
    "TransactionIdIsNormal x \<Longrightarrow> age base (lower_to x r) \<le> age base x"
    "lower_to x r = r \<or> TransactionIdIsNormal x \<and> lower_to x r = x"
  using assms Precedes_age(1) [of x r base] by (auto simp: lower_to_def)

definition considered :: "procarray \<Rightarrow> Oid \<Rightarrow> bool \<Rightarrow> bool \<Rightarrow> nat \<Rightarrow> bool" where
  "considered a mydb allDbs ignoreVacuum n \<longleftrightarrow> \<not> has_flag a n PROC_IN_LOGICAL_DECODING \<and>
     \<not> (ignoreVacuum \<and> has_flag a n PROC_IN_VACUUM) \<and>
     (allDbs \<or> p_databaseId (allProcs a n) = mydb \<or> p_databaseId (allProcs a n) = 0)"

lemma oldest_fold:
  assumes ok: "array_ok base a live" and hz: "horizon_ok base v a"
    and "set ns \<subseteq> set (pgprocnos a)" and "TransactionIdIsNormal r" and "age base r < 2 ^ 31"
    and "unat (vacuum_defer_cleanup_age v) \<le> age base r"
  shows "let r' = fold (oldest_step a mydb allDbs iv) ns r in
    TransactionIdIsNormal r' \<and> age base r' \<le> age base r \<and>
    unat (vacuum_defer_cleanup_age v) \<le> age base r' \<and>
    (\<forall>n \<in> set ns. considered a mydb allDbs iv n \<longrightarrow>
       (TransactionIdIsNormal (main_xid a n) \<longrightarrow> age base r' \<le> age base (main_xid a n)) \<and>
       (TransactionIdIsNormal (x_xmin (allPgXact a n)) \<longrightarrow> age base r' \<le> age base (x_xmin (allPgXact a n))))"
  using assms(3-6)
proof (induction ns arbitrary: r)
  case (Cons n ns)
  have n: "n \<in> set (pgprocnos a)" using Cons.prems by simp
  let ?m = "main_xid a n" and ?x = "x_xmin (allPgXact a n)" and ?d = "unat (vacuum_defer_cleanup_age v)"
  have m: "TransactionIdIsNormal ?m \<longrightarrow> age base ?m < 2 ^ 31"
    using array_okD(1) [OF ok runs_in_running [OF n main_runs]] normal_valid by blast
  have x: "TransactionIdIsNormal ?x \<longrightarrow> age base ?x < 2 ^ 31"
    "TransactionIdIsNormal ?x \<longrightarrow> ?d \<le> age base ?x" "TransactionIdIsNormal ?m \<longrightarrow> ?d \<le> age base ?m"
    using hz n normal_valid by (auto simp: horizon_ok_def slot_xmin_ok_def)
  define r1 where "r1 = lower_to ?m r"
  define r2 where "r2 = lower_to ?x r1"
  note l1 = lower_to_ok [OF Cons.prems(2,3) m, folded r1_def]
  have r1: "age base r1 < 2 ^ 31" using l1(2) Cons.prems(3) by simp
  note l2 = lower_to_ok [OF l1(1) r1 x(1), folded r2_def]
  have d2: "?d \<le> age base r2" using l1(4) l2(4) x Cons.prems(4) by auto
  have step: "oldest_step a mydb allDbs iv n r = (if considered a mydb allDbs iv n then r2 else r)"
    by (auto simp: oldest_step_def considered_def r1_def r2_def main_xid_def)
  show ?case
  proof (cases "considered a mydb allDbs iv n")
    case True
    have "age base r2 < 2 ^ 31" using l2(2) r1 by simp
    from Cons.IH [OF _ l2(1) this d2] Cons.prems(1) show ?thesis
      using True l1 l2 by (auto simp: step Let_def)
  next
    case False
    then show ?thesis using Cons.IH [of r] Cons.prems by (simp add: step Let_def)
  qed
qed simp

lemma GetOldestXmin_bound:
  fixes rel :: "(bool \<times> bool) option"
  assumes ok: "array_ok base a live" and hz: "horizon_ok base v a"
  defines "allDbs \<equiv> (case rel of None \<Rightarrow> True | Some p \<Rightarrow> fst p)"
  shows "TransactionIdIsNormal (GetOldestXmin v a rel iv)"
    "age base (GetOldestXmin v a rel iv) \<le> age base (next_unassigned a)"
    "n \<in> set (pgprocnos a) \<Longrightarrow> considered a (MyDatabaseId v) allDbs iv n \<Longrightarrow>
       TransactionIdIsNormal (main_xid a n) \<Longrightarrow> age base (GetOldestXmin v a rel iv) \<le> age base (main_xid a n)"
    "n \<in> set (pgprocnos a) \<Longrightarrow> considered a (MyDatabaseId v) allDbs iv n \<Longrightarrow>
       TransactionIdIsNormal (x_xmin (allPgXact a n)) \<Longrightarrow>
       age base (GetOldestXmin v a rel iv) \<le> age base (x_xmin (allPgXact a n))"
    "TransactionIdIsValid (replication_slot_xmin a) \<Longrightarrow>
       age base (GetOldestXmin v a rel iv) \<le> age base (replication_slot_xmin a)"
proof -
  define r where "r = fold (oldest_step a (MyDatabaseId v) allDbs iv) (pgprocnos a) (next_unassigned a)"
  note d = array_okD [OF ok]
  have hz': "unat (vacuum_defer_cleanup_age v) \<le> age base (next_unassigned a)"
    "slot_xmin_ok base (replication_slot_xmin a)" "slot_xmin_ok base (replication_slot_catalog_xmin a)"
    using hz by (simp_all add: horizon_ok_def)
  have r: "TransactionIdIsNormal r" "age base r \<le> age base (next_unassigned a)"
    "unat (vacuum_defer_cleanup_age v) \<le> age base r"
    "\<And>n. n \<in> set (pgprocnos a) \<Longrightarrow> considered a (MyDatabaseId v) allDbs iv n \<Longrightarrow>
       (TransactionIdIsNormal (main_xid a n) \<longrightarrow> age base r \<le> age base (main_xid a n)) \<and>
       (TransactionIdIsNormal (x_xmin (allPgXact a n)) \<longrightarrow> age base r \<le> age base (x_xmin (allPgXact a n)))"
    using oldest_fold [OF ok hz order_refl d(4,5) hz'(1), of "MyDatabaseId v" allDbs iv]
    by (auto simp: r_def Let_def)
  define r1 where "r1 = defer_cleanup (vacuum_defer_cleanup_age v) r"
  have "age base r < 2 ^ 31" using r(2) d(5) by simp
  then have r1: "TransactionIdIsNormal r1" "age base r1 \<le> age base r" "age base r1 < 2 ^ 31"
    using defer_cleanup_age [OF r(1) _ r(3)] by (simp_all add: r1_def)
  have slot: "TransactionIdIsNormal (if TransactionIdIsValid x \<and> NormalTransactionIdPrecedes x y then x else y) \<and>
      age base (if TransactionIdIsValid x \<and> NormalTransactionIdPrecedes x y then x else y) \<le> age base y \<and>
      (TransactionIdIsValid x \<longrightarrow>
         age base (if TransactionIdIsValid x \<and> NormalTransactionIdPrecedes x y then x else y) \<le> age base x)"
    if "slot_xmin_ok base x" "TransactionIdIsNormal y" "age base y < 2 ^ 31" for x y
    using that NormalPrecedes_age [of x y base] by (auto simp: slot_xmin_ok_def)
  define r2 where "r2 = (if TransactionIdIsValid (replication_slot_xmin a) \<and>
    NormalTransactionIdPrecedes (replication_slot_xmin a) r1 then replication_slot_xmin a else r1)"
  note r2 = slot [OF hz'(2) r1(1,3), folded r2_def]
  have c: "(case rel of None \<Rightarrow> True | Some (relisshared, _) \<Rightarrow> relisshared) = allDbs"
    by (cases rel) (auto simp: allDbs_def)
  have g: "GetOldestXmin v a rel iv =
    (if (case rel of None \<Rightarrow> True | Some (_, logical) \<Rightarrow> logical) \<and>
        TransactionIdIsValid (replication_slot_catalog_xmin a) \<and>
        NormalTransactionIdPrecedes (replication_slot_catalog_xmin a) r2
     then replication_slot_catalog_xmin a else r2)"
    unfolding GetOldestXmin_def Let_def c
    using d(7) by (simp only: r2_def r1_def r_def next_unassigned_def if_False)
  have "age base r2 < 2 ^ 31" using r2 r1(3) by simp
  from slot [OF hz'(3) conjunct1 [OF r2] this]
  have res: "TransactionIdIsNormal (GetOldestXmin v a rel iv)" "age base (GetOldestXmin v a rel iv) \<le> age base r2"
    using r2 by (auto simp: g split: option.splits if_splits)
  show "TransactionIdIsNormal (GetOldestXmin v a rel iv)" by (rule res(1))
  show "age base (GetOldestXmin v a rel iv) \<le> age base (next_unassigned a)"
    using res(2) r2 r1 r(2) by linarith
  show "n \<in> set (pgprocnos a) \<Longrightarrow> considered a (MyDatabaseId v) allDbs iv n \<Longrightarrow>
       TransactionIdIsNormal (main_xid a n) \<Longrightarrow> age base (GetOldestXmin v a rel iv) \<le> age base (main_xid a n)"
    "n \<in> set (pgprocnos a) \<Longrightarrow> considered a (MyDatabaseId v) allDbs iv n \<Longrightarrow>
       TransactionIdIsNormal (x_xmin (allPgXact a n)) \<Longrightarrow>
       age base (GetOldestXmin v a rel iv) \<le> age base (x_xmin (allPgXact a n))"
    using res(2) r2 r1 r(4) [of n] by fastforce+
  show "TransactionIdIsValid (replication_slot_xmin a) \<Longrightarrow>
       age base (GetOldestXmin v a rel iv) \<le> age base (replication_slot_xmin a)"
    using res(2) r2 by linarith
qed

end
