(* ===== verification/Xact.thy ===== *)
theory Xact
  imports Varsup
begin

section \<open>The stack of transaction states (access/transam/xact.c)\<close>

text \<open>
  A backend keeps one \<open>TransactionStateData\<close> for the top transaction and for each open
  subtransaction. The model is the list of them, \<open>CurrentTransactionState\<close> first and
  \<open>TopTransactionStateData\<close> last, so \<open>s->parent\<close> is the next element. The saved user and
  security context are left out; of a memory context and of a resource owner it is kept whether
  there is one; \<open>nChildXids\<close> is the length of \<open>childXids\<close>. This theory has identifier assignment, the test whether an identifier is the
  backend's own, and the hand-over of committed children to the parent.
\<close>

subsection \<open>The state\<close>

datatype TransState =
    TRANS_DEFAULT
  | TRANS_START
  | TRANS_INPROGRESS
  | TRANS_COMMIT
  | TRANS_ABORT
  | TRANS_PREPARE

datatype TBlockState =
    TBLOCK_DEFAULT
  | TBLOCK_STARTED
  | TBLOCK_BEGIN
  | TBLOCK_INPROGRESS
  | TBLOCK_END
  | TBLOCK_ABORT
  | TBLOCK_ABORT_END
  | TBLOCK_ABORT_PENDING
  | TBLOCK_PREPARE
  | TBLOCK_SUBBEGIN
  | TBLOCK_SUBINPROGRESS
  | TBLOCK_SUBRELEASE
  | TBLOCK_SUBCOMMIT
  | TBLOCK_SUBABORT
  | TBLOCK_SUBABORT_END
  | TBLOCK_SUBABORT_PENDING
  | TBLOCK_SUBRESTART
  | TBLOCK_SUBABORT_RESTART

type_synonym SubTransactionId = uint32

record TransactionStateData =
  transactionId :: TransactionId
  subTransactionId :: SubTransactionId
  savepoint :: "string option"
  savepointLevel :: int
  xstate :: TransState
  blockState :: TBlockState
  nestingLevel :: int
  gucNestLevel :: int
  curTransactionContext :: bool
  curTransactionOwner :: bool
  childXids :: "TransactionId list"
  maxChildXids :: nat
  prevXactReadOnly :: bool
  startedInRecovery :: bool
  didLogXid :: bool

definition TopTransactionStateData :: TransactionStateData where
  "TopTransactionStateData =
     \<lparr>transactionId = InvalidTransactionId, subTransactionId = 0, savepoint = None, savepointLevel = 0,
      xstate = TRANS_DEFAULT, blockState = TBLOCK_DEFAULT, nestingLevel = 0, gucNestLevel = 0,
      curTransactionContext = False, curTransactionOwner = False, childXids = [], maxChildXids = 0,
      prevXactReadOnly = False, startedInRecovery = False, didLogXid = False\<rparr>"

type_synonym xact_stack = "TransactionStateData list"

subsection \<open>Whose identifier is it?\<close>

function child_search :: "TransactionId \<Rightarrow> TransactionId list \<Rightarrow> int \<Rightarrow> int \<Rightarrow> bool" where
  "child_search xid xids low high =
     (if low \<le> high then
        (let middle = low + (high - low) div 2; probe = xids ! nat middle
         in if probe = xid then True
            else if TransactionIdPrecedes probe xid then child_search xid xids (middle + 1) high
            else child_search xid xids low (middle - 1))
      else False)"
  by pat_completeness auto
termination
  by (relation "measure (\<lambda>(_, _, low, high). nat (high - low + 1))") auto

declare child_search.simps [simp del]

definition TransactionIdIsCurrentTransactionId :: "TransactionId \<Rightarrow> xact_stack \<Rightarrow> bool" where
  "TransactionIdIsCurrentTransactionId xid stack =
     (if \<not> TransactionIdIsNormal xid then False
      else list_ex (\<lambda>s. if xstate s = TRANS_ABORT then False
                        else if \<not> TransactionIdIsValid (transactionId s) then False
                        else if xid = transactionId s then True
                        else child_search xid (childXids s) 0 (int (length (childXids s)) - 1)) stack)"

definition SubTransactionIsActive :: "SubTransactionId \<Rightarrow> xact_stack \<Rightarrow> bool" where
  "SubTransactionIsActive subxid stack =
     list_ex (\<lambda>s. if xstate s = TRANS_ABORT then False else subTransactionId s = subxid) stack"

definition xactGetCommittedChildren :: "xact_stack \<Rightarrow> TransactionId list" where
  "xactGetCommittedChildren stack = childXids (hd stack)"

subsection \<open>Committed children go to the parent\<close>

text \<open>\<open>MaxAllocSize\<close> bytes hold this many identifiers of four bytes.\<close>

definition MAX_CHILD_XIDS :: nat where "MAX_CHILD_XIDS = 0x3fffffff div 4"

definition AtSubCommit_childXids ::
  "TransactionStateData \<Rightarrow> TransactionStateData \<Rightarrow> (TransactionStateData \<times> TransactionStateData) result" where
  "AtSubCommit_childXids s parent =
     (let new_nChildXids = length (childXids parent) + length (childXids s) + 1;
          new_maxChildXids = (if maxChildXids parent < new_nChildXids
                              then min (new_nChildXids * 2) MAX_CHILD_XIDS else maxChildXids parent)
      in if new_maxChildXids < new_nChildXids
         then Inl (ERROR ''maximum number of committed subtransactions exceeded'')
         else Inr (s\<lparr>childXids := [], maxChildXids := 0\<rparr>,
                   parent\<lparr>childXids := childXids parent @ transactionId s # childXids s,
                          maxChildXids := new_maxChildXids\<rparr>))"

subsection \<open>Assigning identifiers\<close>

datatype xact_event =
    REGISTER_PREDICATE_LOCKING TransactionId
  | XACT_LOCK_TABLE_INSERT TransactionId
  | XLOG_XACT_ASSIGNMENT TransactionId "TransactionId list"

record xact_mode =
  block_size :: nat
  serverMode :: server_mode
  XLogLogicalInfoActive :: bool
  XLogStandbyInfoActive :: bool

record xact_vars =
  stack :: xact_stack
  vars :: varsup
  unreportedXids :: "TransactionId list"
  xevents :: "xact_event list"

text \<open>
  One assignment, the parent having an identifier. An error carries no state: the caller
  aborts the transaction.
\<close>

definition report_assignment :: "bool \<Rightarrow> TransactionId \<Rightarrow> xact_vars \<Rightarrow> xact_vars" where
  "report_assignment log_unknown_top xid a =
     (let unreported = unreportedXids a @ [xid]
      in if length unreported \<ge> PGPROC_MAX_CACHED_SUBXIDS \<or> log_unknown_top
         then (let xtop = transactionId (last (stack a))
               in a\<lparr>xevents := xevents a @ [XLOG_XACT_ASSIGNMENT xtop unreported], unreportedXids := [],
                    stack := (stack a)[length (stack a) - 1 := (last (stack a))\<lparr>didLogXid := True\<rparr>]\<rparr>)
         else a\<lparr>unreportedXids := unreported\<rparr>)"

definition assign_one :: "xact_mode \<Rightarrow> (varsup \<Rightarrow> varsup) \<Rightarrow> nat \<Rightarrow> xact_vars \<Rightarrow> xact_vars result" where
  "assign_one c others i a =
     (let isSubXact = i + 1 < length (stack a);
          log_unknown_top = (isSubXact \<and> XLogLogicalInfoActive c \<and> \<not> didLogXid (last (stack a)))
      in case GetNewTransactionId (block_size c) (serverMode c) others isSubXact (vars a) of
           Inl e \<Rightarrow> Inl e
         | Inr (xid, v) \<Rightarrow>
             (case (if isSubXact
                    then SubTransSetParent (block_size c) xid (transactionId (stack a ! (i + 1))) (sub_log v)
                    else Inr (sub_log v)) of
                Inl e \<Rightarrow> Inl e
              | Inr sub \<Rightarrow>
                  (let a = a\<lparr>stack := (stack a)[i := (stack a ! i)\<lparr>transactionId := xid\<rparr>],
                             vars := v\<lparr>sub_log := sub\<rparr>,
                             xevents := xevents a @
                               (if \<not> isSubXact then [REGISTER_PREDICATE_LOCKING xid] else []) @
                               [XACT_LOCK_TABLE_INSERT xid]\<rparr>
                   in Inr (if isSubXact \<and> XLogStandbyInfoActive c
                           then report_assignment log_unknown_top xid a else a))))"

definition AssignTransactionId :: "xact_mode \<Rightarrow> (varsup \<Rightarrow> varsup) \<Rightarrow> nat \<Rightarrow> xact_vars \<Rightarrow> xact_vars result" where
  "AssignTransactionId c others i a =
     (let parents = takeWhile (\<lambda>j. \<not> TransactionIdIsValid (transactionId (stack a ! j)))
                      [i + 1..<length (stack a)]
      in case foldM (assign_one c others) (rev parents) a of
           Inl e \<Rightarrow> Inl e
         | Inr a \<Rightarrow> assign_one c others i a)"

definition GetTopTransactionId ::
  "xact_mode \<Rightarrow> (varsup \<Rightarrow> varsup) \<Rightarrow> xact_vars \<Rightarrow> (TransactionId \<times> xact_vars) result" where
  "GetTopTransactionId c others a =
     (case (if \<not> TransactionIdIsValid (transactionId (last (stack a)))
            then AssignTransactionId c others (length (stack a) - 1) a else Inr a) of
        Inl e \<Rightarrow> Inl e
      | Inr a \<Rightarrow> Inr (transactionId (last (stack a)), a))"

definition GetCurrentTransactionId ::
  "xact_mode \<Rightarrow> (varsup \<Rightarrow> varsup) \<Rightarrow> xact_vars \<Rightarrow> (TransactionId \<times> xact_vars) result" where
  "GetCurrentTransactionId c others a =
     (case (if \<not> TransactionIdIsValid (transactionId (hd (stack a)))
            then AssignTransactionId c others 0 a else Inr a) of
        Inl e \<Rightarrow> Inl e
      | Inr a \<Rightarrow> Inr (transactionId (hd (stack a)), a))"


subsection \<open>The order of the identifiers on the stack\<close>

text \<open>
  From the top transaction down to the current one, each transaction before its committed
  children: in this order the identifiers ascend.
\<close>

definition stack_ids :: "TransactionStateData \<Rightarrow> TransactionId list" where
  "stack_ids s = (if TransactionIdIsValid (transactionId s) then [transactionId s] else []) @ childXids s"

definition stack_order :: "xact_stack \<Rightarrow> TransactionId list" where
  "stack_order st = concat (map stack_ids (rev st))"

definition xid_ascending :: "TransactionId \<Rightarrow> TransactionId list \<Rightarrow> bool" where
  "xid_ascending base xs \<longleftrightarrow> xid_window base (set xs) \<and> sorted_wrt (\<lambda>x y. age base x < age base y) xs"

definition wf_stack :: "TransactionId \<Rightarrow> xact_stack \<Rightarrow> bool" where
  "wf_stack base st \<longleftrightarrow> st \<noteq> [] \<and> xid_ascending base (stack_order st) \<and>
     (\<forall>s \<in> set st. \<not> TransactionIdIsValid (transactionId s) \<longrightarrow> childXids s = []) \<and>
     sorted_wrt (\<lambda>s p. TransactionIdIsValid (transactionId s) \<longrightarrow> TransactionIdIsValid (transactionId p)) st"

text \<open>The identifiers that are the backend's own and not being aborted.\<close>

definition current_xids :: "xact_stack \<Rightarrow> TransactionId set" where
  "current_xids st = {x. \<exists>s \<in> set st. xstate s \<noteq> TRANS_ABORT \<and> x \<in> set (stack_ids s)}"

lemma stack_order_append [simp]: "stack_order (xs @ ys) = stack_order ys @ stack_order xs"
  by (simp add: stack_order_def)

lemma stack_order_simps [simp]: "stack_order [] = []" "stack_order (s # st) = stack_order st @ stack_ids s"
  by (simp_all add: stack_order_def)

lemma set_stack_order: "set (stack_order st) = (\<Union>s \<in> set st. set (stack_ids s))"
  by (simp add: stack_order_def)

lemma xid_ascending_append:
  "xid_ascending base (xs @ ys) \<longleftrightarrow> xid_ascending base xs \<and> xid_ascending base ys \<and>
     (\<forall>x \<in> set xs. \<forall>y \<in> set ys. age base x < age base y)"
  by (auto simp: xid_ascending_def sorted_wrt_append xid_window_def)

lemma xid_ascending_ids:
  assumes "xid_ascending base (stack_order st)" and "s \<in> set st"
  shows "xid_ascending base (stack_ids s)"
proof -
  obtain xs ys where "st = xs @ s # ys" using assms(2) split_list by metis
  then show ?thesis using assms(1) by (simp add: xid_ascending_append)
qed

lemma child_search_sound:
  assumes "child_search x xs low high" and "0 \<le> low" and "high < int (length xs)"
  shows "x \<in> set xs"
  using assms
proof (induction x xs low high rule: child_search.induct)
  case (1 x xs low high)
  show ?case
  proof (cases "low \<le> high \<and> xs ! nat (low + (high - low) div 2) \<noteq> x")
    case True
    then show ?thesis
      using "1.IH" "1.prems" by (subst (asm) child_search.simps) (auto simp: Let_def split: if_splits)
  next
    case False
    have "nat (low + (high - low) div 2) < length xs" if "low \<le> high"
      using that "1.prems" by linarith
    then show ?thesis
      using False "1.prems" by (subst (asm) child_search.simps) (auto simp: Let_def split: if_splits)
  qed
qed

lemma child_search_complete:
  assumes "xid_ascending base xs" and "0 \<le> low" and "high < int (length xs)"
    and "low \<le> int i" and "int i \<le> high"
  shows "child_search (xs ! i) xs low high"
  using assms
proof (induction "xs ! i" xs low high rule: child_search.induct)
  case (1 xs low high)
  note asc = "1.prems"(1)
  define m where "m = low + (high - low) div 2"
  have m: "low \<le> m" "m \<le> high" "nat m < length xs" using "1.prems" by (auto simp: m_def)
  have i: "i < length xs" using "1.prems" by linarith
  have prec: "TransactionIdPrecedes (xs ! nat m) (xs ! i) \<longleftrightarrow> age base (xs ! nat m) < age base (xs ! i)"
    using asc Precedes_window(1) [of base "set xs"] nth_mem [OF m(3)] nth_mem [OF i]
    by (simp add: xid_ascending_def)
  have lt: "age base (xs ! j) < age base (xs ! k)" if "j < k" "k < length xs" for j k
    using asc that by (simp add: xid_ascending_def sorted_wrt_iff_nth_less)
  show ?case
  proof (cases "xs ! nat m = xs ! i")
    case True
    then show ?thesis using m by (subst child_search.simps) (simp add: Let_def m_def [symmetric])
  next
    case False
    then have "nat m \<noteq> i" by auto
    then consider "nat m < i" | "i < nat m" by linarith
    then show ?thesis
    proof cases
      case 1
      with lt [of "nat m" i] i prec have "TransactionIdPrecedes (xs ! nat m) (xs ! i)" by simp
      moreover have "child_search (xs ! i) xs (m + 1) high"
        using False m 1 "1.prems" "1.hyps" calculation by (simp add: m_def [symmetric])
      ultimately show ?thesis
        using m False by (subst child_search.simps) (simp add: Let_def m_def [symmetric])
    next
      case 2
      with lt [of i "nat m"] m prec have "\<not> TransactionIdPrecedes (xs ! nat m) (xs ! i)" by simp
      moreover have "child_search (xs ! i) xs low (m - 1)"
        using False m 2 "1.prems" "1.hyps" calculation by (simp add: m_def [symmetric])
      ultimately show ?thesis
        using m False by (subst child_search.simps) (simp add: Let_def m_def [symmetric])
    qed
  qed
qed

lemma child_search_iff:
  assumes "xid_ascending base xs"
  shows "child_search x xs 0 (int (length xs) - 1) \<longleftrightarrow> x \<in> set xs"
proof
  assume "x \<in> set xs"
  then obtain i where "i < length xs" "x = xs ! i" by (auto simp: in_set_conv_nth)
  then show "child_search x xs 0 (int (length xs) - 1)"
    using child_search_complete [OF assms, of 0 "int (length xs) - 1" i] by simp
qed (use child_search_sound in simp)

lemma IsCurrent_iff:
  assumes "wf_stack base st"
  shows "TransactionIdIsCurrentTransactionId x st \<longleftrightarrow> x \<in> current_xids st"
proof -
  have asc: "xid_ascending base (childXids s)" "xid_ascending base (stack_ids s)" if "s \<in> set st" for s
    using xid_ascending_ids [of base st s] assms that
    by (auto simp: wf_stack_def stack_ids_def xid_ascending_append)
  have normal: "TransactionIdIsNormal x" if "x \<in> current_xids st"
    using that asc(2) by (auto simp: current_xids_def xid_ascending_def xid_window_def)
  have "(xstate s \<noteq> TRANS_ABORT \<and> TransactionIdIsValid (transactionId s) \<and>
      (x = transactionId s \<or> child_search x (childXids s) 0 (int (length (childXids s)) - 1))) \<longleftrightarrow>
      xstate s \<noteq> TRANS_ABORT \<and> x \<in> set (stack_ids s)" if "s \<in> set st" for s
    using child_search_iff [OF asc(1) [OF that]] assms that by (auto simp: stack_ids_def wf_stack_def)
  then show ?thesis
    using normal by (auto simp: TransactionIdIsCurrentTransactionId_def list_ex_iff current_xids_def)
qed


subsection \<open>Subcommit keeps the order\<close>

lemma SubCommit_ok:
  assumes wf: "wf_stack base (s # p # rest)" and "TransactionIdIsValid (transactionId s)"
    and r: "AtSubCommit_childXids s p = Inr (s', p')"
  shows "wf_stack base (p' # rest)" "stack_order (p' # rest) = stack_order (s # p # rest)"
    "xstate s \<noteq> TRANS_ABORT \<Longrightarrow> xstate p \<noteq> TRANS_ABORT \<Longrightarrow>
       current_xids (p' # rest) = current_xids (s # p # rest)"
proof -
  have p': "childXids p' = childXids p @ transactionId s # childXids s" "transactionId p' = transactionId p"
    "xstate p' = xstate p"
    using r by (auto simp: AtSubCommit_childXids_def Let_def split: if_splits)
  have p: "TransactionIdIsValid (transactionId p)" using wf assms(2) by (simp add: wf_stack_def)
  have ids: "stack_ids p' = stack_ids p @ stack_ids s"
    using p assms(2) p' by (simp add: stack_ids_def)
  then show o: "stack_order (p' # rest) = stack_order (s # p # rest)" by simp
  show "wf_stack base (p' # rest)"
    using wf o p p' by (auto simp: wf_stack_def simp del: stack_order_simps)
  show "current_xids (p' # rest) = current_xids (s # p # rest)"
    if "xstate s \<noteq> TRANS_ABORT" "xstate p \<noteq> TRANS_ABORT"
    using that ids p' by (auto simp: current_xids_def)
qed

lemma SubCommit_error_iff:
  assumes "length (childXids p) \<le> maxChildXids p" and "maxChildXids p \<le> MAX_CHILD_XIDS"
  shows "returns (AtSubCommit_childXids s p) \<longleftrightarrow>
    length (childXids p) + length (childXids s) + 1 \<le> MAX_CHILD_XIDS"
  using assms by (auto simp: AtSubCommit_childXids_def Let_def returns_def)

subsection \<open>A child follows its parent\<close>

lemma ExtendSUBTRANS_wf: "wf_subtrans bs s \<Longrightarrow> wf_subtrans bs (ExtendSUBTRANS bs x s)"
  by (auto simp: wf_subtrans_def ExtendSUBTRANS_def ZeroSUBTRANSPage_def zero_parents_def)

lemma SetParent_result:
  assumes "wf_subtrans bs s" and "SubTransSetParent bs x v s = Inr s'"
  shows "wf_subtrans bs s'" "parent_of bs s' x = v" "parent_pages s' (SubTransToPage bs x) \<noteq> None"
    "y \<noteq> x \<Longrightarrow> parent_pages s (SubTransToPage bs y) \<noteq> None \<Longrightarrow>
       parent_pages s' (SubTransToPage bs y) \<noteq> None \<and> parent_of bs s' y = parent_of bs s y"
proof -
  let ?n = "SubTransToPage bs x"
  obtain p where p: "SubTransReadPage bs ?n s = Inr p"
    "s' = s\<lparr>parent_pages := (parent_pages s)(?n := Some (p[TransactionIdToEntry bs x := v]))\<rparr>"
    using assms(2) by (auto simp: SubTransSetParent_def Let_def split: sum.splits)
  have len: "length p = SUBTRANS_XACTS_PER_PAGE bs"
    using p(1) assms(1) by (auto simp: SubTransReadPage_def wf_subtrans_def split: option.splits if_splits)
  have bs: "4 \<le> bs" using assms(1) by (simp add: wf_subtrans_def)
  show "wf_subtrans bs s'" using assms(1) p(2) len by (auto simp: wf_subtrans_def)
  show "parent_of bs s' x = v" using p(2) len entry_in_page [OF bs, of x] by (simp add: parent_of_def)
  show "parent_pages s' ?n \<noteq> None" using p(2) by simp
  show "parent_pages s' (SubTransToPage bs y) \<noteq> None \<and> parent_of bs s' y = parent_of bs s y"
    if "y \<noteq> x" "parent_pages s (SubTransToPage bs y) \<noteq> None"
  proof -
    have "SubTransToPage bs y = ?n \<Longrightarrow> TransactionIdToEntry bs x \<noteq> TransactionIdToEntry bs y"
      using same_entry [of bs y x] that(1) by metis
    then show ?thesis
      using that p by (auto simp: parent_of_def SubTransReadPage_def split: option.splits)
  qed
qed

text \<open>The fields of a state that an assignment of an identifier leaves alone.\<close>

definition same_but_xid :: "TransactionStateData \<Rightarrow> TransactionStateData \<Rightarrow> bool" where
  "same_but_xid s s' \<longleftrightarrow> childXids s' = childXids s \<and> xstate s' = xstate s \<and> blockState s' = blockState s"

lemma report_assignment_fields:
  assumes "stack a \<noteq> []"
  shows "vars (report_assignment l x a) = vars a"
    "length (stack (report_assignment l x a)) = length (stack a)"
    "j < length (stack a) \<Longrightarrow> transactionId (stack (report_assignment l x a) ! j) = transactionId (stack a ! j)"
    "j < length (stack a) \<Longrightarrow> same_but_xid (stack a ! j) (stack (report_assignment l x a) ! j)"
  using assms
  by (auto simp: report_assignment_def Let_def same_but_xid_def nth_list_update last_conv_nth)

definition assign_ready :: "xact_mode \<Rightarrow> xact_vars \<Rightarrow> bool" where
  "assign_ready c a \<longleftrightarrow> xid_room (cache (vars a)) \<and> IsUnderPostmaster (serverMode c) \<and>
     \<not> IsBootstrapProcessingMode (serverMode c) \<and> wf_subtrans (block_size c) (sub_log (vars a)) \<and>
     (\<forall>x \<in> set (stack_order (stack a)).
        age (oldestXid (cache (vars a))) x < age (oldestXid (cache (vars a))) (nextXid (cache (vars a))))"

lemma assign_one_fields:
  assumes "assign_one c id i a = Inr a'" and "i < length (stack a)"
    and wf: "wf_subtrans (block_size c) (sub_log (vars a))"
    and m: "\<not> IsBootstrapProcessingMode (serverMode c)"
  obtains v where
    "GetNewTransactionId (block_size c) (serverMode c) id (i + 1 < length (stack a)) (vars a) =
       Inr (nextXid (cache (vars a)), v)"
    "cache (vars a') = cache v" "wf_subtrans (block_size c) (sub_log (vars a'))"
    "length (stack a') = length (stack a)"
    "\<And>j. j < length (stack a) \<Longrightarrow>
       transactionId (stack a' ! j) = (if j = i then nextXid (cache (vars a)) else transactionId (stack a ! j)) \<and>
       same_but_xid (stack a ! j) (stack a' ! j)"
    "i + 1 < length (stack a) \<Longrightarrow>
       parent_pages (sub_log (vars a')) (SubTransToPage (block_size c) (nextXid (cache (vars a)))) \<noteq> None \<and>
       parent_of (block_size c) (sub_log (vars a')) (nextXid (cache (vars a))) = transactionId (stack a ! (i + 1))"
    "\<And>y. y \<noteq> nextXid (cache (vars a)) \<Longrightarrow> parent_pages (sub_log v) (SubTransToPage (block_size c) y) \<noteq> None \<Longrightarrow>
       parent_pages (sub_log (vars a')) (SubTransToPage (block_size c) y) \<noteq> None \<and>
       parent_of (block_size c) (sub_log (vars a')) y = parent_of (block_size c) (sub_log v) y"
proof -
  let ?bs = "block_size c" and ?next = "nextXid (cache (vars a))" and ?sub = "i + 1 < length (stack a)"
  obtain xid v where v: "GetNewTransactionId ?bs (serverMode c) id ?sub (vars a) = Inr (xid, v)"
    using assms(1) by (cases "GetNewTransactionId ?bs (serverMode c) id ?sub (vars a)")
      (auto simp: assign_one_def Let_def)
  have xid: "xid = ?next" "wf_subtrans ?bs (sub_log v)"
    using v m wf ExtendSUBTRANS_wf [OF wf]
    by (auto simp: GetNewTransactionId_def xid_limit_check_def Let_def emit_def split: if_splits)
  obtain sub where sub: "(if ?sub then SubTransSetParent ?bs xid (transactionId (stack a ! (i + 1))) (sub_log v)
      else Inr (sub_log v)) = Inr sub"
    using assms(1) v
    by (cases "if ?sub then SubTransSetParent ?bs xid (transactionId (stack a ! (i + 1))) (sub_log v)
      else Inr (sub_log v)") (auto simp: assign_one_def Let_def)
  define a1 where "a1 = a\<lparr>stack := (stack a)[i := (stack a ! i)\<lparr>transactionId := xid\<rparr>],
    vars := v\<lparr>sub_log := sub\<rparr>,
    xevents := xevents a @ (if \<not> ?sub then [REGISTER_PREDICATE_LOCKING xid] else []) @ [XACT_LOCK_TABLE_INSERT xid]\<rparr>"
  define l where "l = (?sub \<and> XLogLogicalInfoActive c \<and> \<not> didLogXid (last (stack a)))"
  have a': "a' = (if ?sub \<and> XLogStandbyInfoActive c then report_assignment l xid a1 else a1)"
    using assms(1) unfolding assign_one_def Let_def v sum.case prod.case sub l_def a1_def by simp
  have ne: "stack a1 \<noteq> []" using assms(2) by (auto simp: a1_def)
  have len: "length (stack a1) = length (stack a)" by (simp add: a1_def)
  have same: "vars a' = vars a1" "length (stack a') = length (stack a)"
    "\<And>j. j < length (stack a) \<Longrightarrow> transactionId (stack a' ! j) = transactionId (stack a1 ! j)"
    "\<And>j. j < length (stack a) \<Longrightarrow> same_but_xid (stack a1 ! j) (stack a' ! j)"
    using report_assignment_fields [OF ne, where l = l and x = xid] len by (auto simp: a' same_but_xid_def)
  have s1: "same_but_xid (stack a ! j) (stack a1 ! j) \<and>
      transactionId (stack a1 ! j) = (if j = i then ?next else transactionId (stack a ! j))"
    if "j < length (stack a)" for j
    using that xid(1) by (auto simp: a1_def same_but_xid_def nth_list_update)
  note sp = SetParent_result [OF xid(2), of ?next "transactionId (stack a ! (i + 1))" sub]
  have sub': "wf_subtrans ?bs sub"
    "?sub \<Longrightarrow> parent_pages sub (SubTransToPage ?bs ?next) \<noteq> None \<and>
       parent_of ?bs sub ?next = transactionId (stack a ! (i + 1))"
    "\<And>y. y \<noteq> ?next \<Longrightarrow> parent_pages (sub_log v) (SubTransToPage ?bs y) \<noteq> None \<Longrightarrow>
       parent_pages sub (SubTransToPage ?bs y) \<noteq> None \<and> parent_of ?bs sub y = parent_of ?bs (sub_log v) y"
    using sub sp xid by (simp_all split: if_splits)
  show ?thesis
  proof (rule that)
    show "GetNewTransactionId ?bs (serverMode c) id ?sub (vars a) = Inr (?next, v)" using v xid by simp
    show "cache (vars a') = cache v" "wf_subtrans ?bs (sub_log (vars a'))"
      "?sub \<Longrightarrow> parent_pages (sub_log (vars a')) (SubTransToPage ?bs ?next) \<noteq> None \<and>
         parent_of ?bs (sub_log (vars a')) ?next = transactionId (stack a ! (i + 1))"
      "\<And>y. y \<noteq> ?next \<Longrightarrow> parent_pages (sub_log v) (SubTransToPage ?bs y) \<noteq> None \<Longrightarrow>
         parent_pages (sub_log (vars a')) (SubTransToPage ?bs y) \<noteq> None \<and>
         parent_of ?bs (sub_log (vars a')) y = parent_of ?bs (sub_log v) y"
      using same(1) sub' by (simp_all add: a1_def)
    show "length (stack a') = length (stack a)" by (rule same(2))
    show "transactionId (stack a' ! j) = (if j = i then ?next else transactionId (stack a ! j)) \<and>
      same_but_xid (stack a ! j) (stack a' ! j)" if "j < length (stack a)" for j
      using s1 [OF that] same(3,4) [OF that] by (auto simp: same_but_xid_def)
  qed
qed


subsection \<open>The parent links of the stack\<close>

definition links_ok :: "nat \<Rightarrow> subtrans \<Rightarrow> xact_stack \<Rightarrow> bool" where
  "links_ok bs s st \<longleftrightarrow> (\<forall>j. j + 1 < length st \<and> TransactionIdIsValid (transactionId (st ! j)) \<longrightarrow>
     parent_pages s (SubTransToPage bs (transactionId (st ! j))) \<noteq> None \<and>
     parent_of bs s (transactionId (st ! j)) = transactionId (st ! (j + 1)))"

text \<open>A page is zeroed before its first identifier is used, so no older one is on it.\<close>

lemma age_above:
  assumes "unat x \<le> unat y" and "age base x < 2 ^ 31" and "unat y - unat x < 2 ^ 31"
  shows "age base x \<le> age base y"
proof -
  have "y - base = (x - base) + (y - x)" by simp
  moreover have "unat (y - x) = unat y - unat x"
    using assms(1) by (simp add: unat_sub word_le_nat_alt)
  ultimately have "age base y = age base x + (unat y - unat x)"
    using assms(2,3) unat_add_lem [of "x - base" "y - x"] by (simp add: age_def)
  then show ?thesis by simp
qed

lemma ExtendSUBTRANS_keeps:
  assumes "TransactionIdIsNormal y" and "age base y < age base x" and "age base x < 2 ^ 31"
    and "bs < 2 ^ 32" and "4 \<le> bs"
  shows "parent_pages (ExtendSUBTRANS bs x s) (SubTransToPage bs y) = parent_pages s (SubTransToPage bs y)"
proof (rule ccontr)
  assume "\<not> ?thesis"
  then have e: "TransactionIdToEntry bs x = 0 \<or> x = FirstNormalTransactionId"
    and p: "SubTransToPage bs y = SubTransToPage bs x"
    by (auto simp: ExtendSUBTRANS_def ZeroSUBTRANSPage_def split: if_splits)
  let ?n = "SUBTRANS_XACTS_PER_PAGE bs"
  have n: "0 < ?n" "?n < 2 ^ 31" using assms(4,5) by (auto simp: SUBTRANS_XACTS_PER_PAGE_def)
  have y: "unat y = ?n * SubTransToPage bs x + TransactionIdToEntry bs y"
    using p by (metis SubTransToPage_def TransactionIdToEntry_def mult_div_mod_eq)
  have x: "unat x = ?n * SubTransToPage bs x + TransactionIdToEntry bs x"
    by (metis SubTransToPage_def TransactionIdToEntry_def mult_div_mod_eq)
  have "unat x \<le> unat y"
    using e
  proof
    assume "x = FirstNormalTransactionId"
    then show ?thesis using assms(1) by (simp add: TransactionIdIsNormal_def word_le_nat_alt)
  qed (use x y in simp)
  moreover have "unat y - unat x < 2 ^ 31"
    using x y n mod_less_divisor [OF n(1), of "unat y"] by (simp add: TransactionIdToEntry_def)
  ultimately have "age base x \<le> age base y" by (intro age_above assms)
  with assms(2) show False by simp
qed

lemma GetNew_sub_log:
  assumes "GetNewTransactionId bs m id sub s = Inr (x, v)" and "\<not> IsBootstrapProcessingMode m"
  shows "sub_log v = ExtendSUBTRANS bs x (sub_log s)"
  using assms by (auto simp: GetNewTransactionId_def xid_limit_check_def Let_def emit_def split: if_splits)

text \<open>One assignment: everything outside keeps its identifier, the new one is the youngest.\<close>

lemma assign_one_ok:
  assumes r: "assign_one c id i a = Inr a'" and i: "i < length (stack a)"
    and wf: "wf_stack base (stack a)" and ready: "assign_ready c a" and base: "base = oldestXid (cache (vars a))"
    and inv: "\<not> TransactionIdIsValid (transactionId (stack a ! i))"
    and outer: "\<And>j. i < j \<Longrightarrow> j < length (stack a) \<Longrightarrow> TransactionIdIsValid (transactionId (stack a ! j))"
    and links: "links_ok (block_size c) (sub_log (vars a)) (stack a)" and bs: "block_size c < 2 ^ 32"
  shows "wf_stack base (stack a')" "assign_ready c a'" "base = oldestXid (cache (vars a'))"
    "length (stack a') = length (stack a)"
    "\<And>j. j < length (stack a) \<Longrightarrow> same_but_xid (stack a ! j) (stack a' ! j) \<and>
       transactionId (stack a' ! j) = (if j = i then nextXid (cache (vars a)) else transactionId (stack a ! j))"
    "stack_order (stack a') = stack_order (stack a) @ [nextXid (cache (vars a))]"
    "links_ok (block_size c) (sub_log (vars a')) (stack a')"
    "TransactionIdIsValid (nextXid (cache (vars a)))"
proof -
  let ?next = "nextXid (cache (vars a))" and ?n = "length (stack a)" and ?bs = "block_size c"
  have rd: "xid_room (cache (vars a))" "IsUnderPostmaster (serverMode c)" "\<not> IsBootstrapProcessingMode (serverMode c)"
    "wf_subtrans ?bs (sub_log (vars a))" "\<And>x. x \<in> set (stack_order (stack a)) \<Longrightarrow> age base x < age base ?next"
    using ready base by (auto simp: assign_ready_def)
  have kids: "\<And>s. s \<in> set (stack a) \<Longrightarrow> \<not> TransactionIdIsValid (transactionId s) \<Longrightarrow> childXids s = []"
    and closed: "\<And>j k. j < k \<Longrightarrow> k < ?n \<Longrightarrow> TransactionIdIsValid (transactionId (stack a ! j)) \<Longrightarrow>
      TransactionIdIsValid (transactionId (stack a ! k))"
    and asc: "xid_ascending base (stack_order (stack a))"
    using wf by (auto simp: wf_stack_def sorted_wrt_iff_nth_less)
  have inner: "\<not> TransactionIdIsValid (transactionId (stack a ! j))" if "j \<le> i" for j
    using closed [of j i] inv i that by (cases "j = i") auto
  obtain v where v: "GetNewTransactionId ?bs (serverMode c) id (i + 1 < ?n) (vars a) = Inr (?next, v)"
    "cache (vars a') = cache v" "wf_subtrans ?bs (sub_log (vars a'))" "length (stack a') = ?n"
    and tids: "\<And>j. j < ?n \<Longrightarrow>
       transactionId (stack a' ! j) = (if j = i then ?next else transactionId (stack a ! j)) \<and>
       same_but_xid (stack a ! j) (stack a' ! j)"
    and par: "i + 1 < ?n \<Longrightarrow> parent_pages (sub_log (vars a')) (SubTransToPage ?bs ?next) \<noteq> None \<and>
       parent_of ?bs (sub_log (vars a')) ?next = transactionId (stack a ! (i + 1))"
    and keep: "\<And>y. y \<noteq> ?next \<Longrightarrow> parent_pages (sub_log v) (SubTransToPage ?bs y) \<noteq> None \<Longrightarrow>
       parent_pages (sub_log (vars a')) (SubTransToPage ?bs y) \<noteq> None \<and>
       parent_of ?bs (sub_log (vars a')) y = parent_of ?bs (sub_log v) y"
    using assign_one_fields [OF r i rd(4,3)] by blast
  note room = GetNewTransactionId_room [OF rd(1-3) v(1)]
  have nxt: "TransactionIdIsNormal ?next" "age base ?next < 2 ^ 31"
    using rd(1) room(3) base by (auto simp: xid_room_def limits_ok_def)
  show valid: "TransactionIdIsValid ?next" by (rule normal_valid [OF nxt(1)])
  show "length (stack a') = ?n" by (rule v(4))
  show fields: "same_but_xid (stack a ! j) (stack a' ! j) \<and>
      transactionId (stack a' ! j) = (if j = i then ?next else transactionId (stack a ! j))" if "j < ?n" for j
    using tids [OF that] by blast
  have ids: "stack_ids (stack a' ! j) = (if j = i then [?next] else stack_ids (stack a ! j))" if "j < ?n" for j
    using fields [OF that] kids [of "stack a ! j"] inner [of j] valid that
    by (auto simp: stack_ids_def same_but_xid_def)
  have none: "stack_ids (stack a ! j) = []" if "j \<le> i" for j
    using inner [OF that] kids [of "stack a ! j"] that i by (simp add: stack_ids_def)
  define M where "M = map stack_ids (drop (i + 1) (stack a))"
  have m: "map stack_ids (stack a) = replicate i [] @ [[]] @ M"
    using i none by (intro nth_equalityI) (auto simp: M_def nth_append nth_Cons')
  have m': "map stack_ids (stack a') = replicate i [] @ [[?next]] @ M"
    using i none ids v(4) by (intro nth_equalityI) (auto simp: M_def nth_append nth_Cons')
  show order: "stack_order (stack a') = stack_order (stack a) @ [?next]"
    by (simp add: stack_order_def rev_map [symmetric] m m' concat_replicate_trivial)
  have base': "oldestXid (cache (vars a')) = base" using room(4) v(2) base by simp
  show "base = oldestXid (cache (vars a'))" by (simp add: base')
  show "wf_stack base (stack a')"
    unfolding wf_stack_def
  proof (intro conjI)
    show "stack a' \<noteq> []" using v(4) i by auto
    show "xid_ascending base (stack_order (stack a'))"
      using asc rd(5) nxt by (auto simp: order xid_ascending_def xid_window_def sorted_wrt_append)
    show "\<forall>s \<in> set (stack a'). \<not> TransactionIdIsValid (transactionId s) \<longrightarrow> childXids s = []"
      using fields kids valid v(4) by (fastforce simp: in_set_conv_nth same_but_xid_def split: if_splits)
    show "sorted_wrt (\<lambda>s p. TransactionIdIsValid (transactionId s) \<longrightarrow> TransactionIdIsValid (transactionId p)) (stack a')"
      using fields closed outer valid v(4) by (auto simp: sorted_wrt_iff_nth_less)
  qed
  have nx: "nextXid (cache (vars a')) = TransactionIdAdvance ?next"
    using v(1,2) rd(2,3) by (auto simp: GetNewTransactionId_def xid_limit_check_def Let_def emit_def split: if_splits)
  have less: "age base ?next < age base (TransactionIdAdvance ?next)"
    by (rule Advance_younger [OF nxt])
  have "\<forall>x \<in> set (stack_order (stack a')). age base x < age base (nextXid (cache (vars a')))"
    using rd(5) less by (auto simp: order nx intro: less_trans)
  moreover have "xid_room (cache (vars a'))" using room(2) v(2) by simp
  ultimately show "assign_ready c a'"
    using rd(2,3) v(3) by (simp add: assign_ready_def base')
  have log: "sub_log v = ExtendSUBTRANS ?bs ?next (sub_log (vars a))"
    by (rule GetNew_sub_log [OF v(1) rd(3)])
  show "links_ok ?bs (sub_log (vars a')) (stack a')"
    unfolding links_ok_def
  proof (intro allI impI)
    fix j
    assume j: "j + 1 < length (stack a') \<and> TransactionIdIsValid (transactionId (stack a' ! j))"
    show "parent_pages (sub_log (vars a')) (SubTransToPage ?bs (transactionId (stack a' ! j))) \<noteq> None \<and>
      parent_of ?bs (sub_log (vars a')) (transactionId (stack a' ! j)) = transactionId (stack a' ! (j + 1))"
    proof (cases "j = i")
      case True
      then show ?thesis using par fields [of j] fields [of "j + 1"] j v(4) by simp
    next
      case False
      let ?y = "transactionId (stack a ! j)"
      have y: "transactionId (stack a' ! j) = ?y" "TransactionIdIsValid ?y" "j + 1 < ?n"
        using fields [of j] j False v(4) by auto
      then have "\<not> j \<le> i" using inner [of j] by auto
      then have next_tid: "transactionId (stack a' ! (j + 1)) = transactionId (stack a ! (j + 1))"
        using fields [of "j + 1"] y(3) by simp
      have "?y \<in> set (stack_order (stack a))"
        using y by (auto simp: set_stack_order stack_ids_def intro!: bexI [of _ "stack a ! j"])
      then have old: "TransactionIdIsNormal ?y" "age base ?y < age base ?next"
        using asc rd(5) by (auto simp: xid_ascending_def xid_window_def)
      have "4 \<le> ?bs" using rd(4) by (simp add: wf_subtrans_def)
      from ExtendSUBTRANS_keeps [OF old nxt(2) bs this, of "sub_log (vars a)"]
      have "parent_pages (sub_log v) (SubTransToPage ?bs ?y) \<noteq> None"
        "parent_of ?bs (sub_log v) ?y = transactionId (stack a ! (j + 1))"
        using links y by (auto simp: links_ok_def parent_of_def log)
      moreover have "?y \<noteq> ?next" using old(2) by auto
      ultimately show ?thesis using keep [of ?y] next_tid y(1) by simp
    qed
  qed
qed

text \<open>
  The whole assignment: every transaction from \<open>i\<close> outwards has an identifier then, those that
  had one keep it, and the stack stays ordered and linked.
\<close>

definition assigned :: "TransactionId \<Rightarrow> xact_mode \<Rightarrow> nat \<Rightarrow> xact_vars \<Rightarrow> xact_vars \<Rightarrow> bool" where
  "assigned base c i a a' \<longleftrightarrow> wf_stack base (stack a') \<and> assign_ready c a' \<and>
     base = oldestXid (cache (vars a')) \<and> length (stack a') = length (stack a) \<and>
     links_ok (block_size c) (sub_log (vars a')) (stack a') \<and>
     (\<forall>j < length (stack a). same_but_xid (stack a ! j) (stack a' ! j) \<and>
        (j < i \<or> TransactionIdIsValid (transactionId (stack a ! j)) \<longrightarrow>
           transactionId (stack a' ! j) = transactionId (stack a ! j)) \<and>
        (i \<le> j \<longrightarrow> TransactionIdIsValid (transactionId (stack a' ! j)))) \<and>
     (\<exists>new. stack_order (stack a') = stack_order (stack a) @ new)"

lemma assigned_one:
  assumes "assign_one c id i a = Inr a'" and "i < length (stack a)"
    and "wf_stack base (stack a)" and "assign_ready c a" and "base = oldestXid (cache (vars a))"
    and "links_ok (block_size c) (sub_log (vars a)) (stack a)" and "block_size c < 2 ^ 32"
    and "\<not> TransactionIdIsValid (transactionId (stack a ! i))"
    and "\<And>j. i < j \<Longrightarrow> j < length (stack a) \<Longrightarrow> TransactionIdIsValid (transactionId (stack a ! j))"
  shows "assigned base c i a a'"
  using assign_one_ok [OF assms(1-5,8,9,6,7)] assms(8,9) by (auto simp: assigned_def)

lemma assigned_trans:
  assumes "assigned base c (Suc i) a a1" and "assigned base c i a1 a2"
  shows "assigned base c i a a2"
  using assms unfolding assigned_def same_but_xid_def by (auto simp: Suc_le_eq le_less)

lemma assign_outwards:
  assumes "foldM (assign_one c id) (rev [i..<k]) a = Inr a'" and "i \<le> k" and "k \<le> length (stack a)"
    and "wf_stack base (stack a)" and "assign_ready c a" and "base = oldestXid (cache (vars a))"
    and "links_ok (block_size c) (sub_log (vars a)) (stack a)" and "block_size c < 2 ^ 32"
    and "\<And>j. i \<le> j \<Longrightarrow> j < k \<Longrightarrow> \<not> TransactionIdIsValid (transactionId (stack a ! j))"
    and "\<And>j. k \<le> j \<Longrightarrow> j < length (stack a) \<Longrightarrow> TransactionIdIsValid (transactionId (stack a ! j))"
  shows "assigned base c i a a'"
  using assms
proof (induction "k - i" arbitrary: i a')
  case 0
  then show ?case by (auto simp: assigned_def same_but_xid_def)
next
  case (Suc d)
  then have ik: "i < k" by simp
  then have "rev [i..<k] = rev [Suc i..<k] @ [i]" by (simp add: upt_conv_Cons)
  then obtain a1 where a1: "foldM (assign_one c id) (rev [Suc i..<k]) a = Inr a1" "assign_one c id i a1 = Inr a'"
    using Suc.prems(1) by (auto simp: foldM_append split: sum.splits)
  have "assigned base c (Suc i) a a1"
    using Suc.hyps(2) ik by (intro Suc.hyps(1) [OF _ a1(1)] Suc.prems) auto
  moreover have "assigned base c i a1 a'"
    using calculation Suc.prems(3,8,9,10) ik
    by (intro assigned_one [OF a1(2)]) (auto simp: assigned_def)
  ultimately show ?case by (rule assigned_trans)
qed

lemma AssignTransactionId_ok:
  assumes r: "AssignTransactionId c id i a = Inr a'" and i: "i < length (stack a)"
    and wf: "wf_stack base (stack a)" and ready: "assign_ready c a" and base: "base = oldestXid (cache (vars a))"
    and links: "links_ok (block_size c) (sub_log (vars a)) (stack a)" and bs: "block_size c < 2 ^ 32"
    and inv: "\<not> TransactionIdIsValid (transactionId (stack a ! i))"
  shows "assigned base c i a a'"
proof -
  let ?n = "length (stack a)" and ?P = "\<lambda>j. \<not> TransactionIdIsValid (transactionId (stack a ! j))"
  have closed: "\<And>j k. j < k \<Longrightarrow> k < ?n \<Longrightarrow> \<not> ?P j \<Longrightarrow> \<not> ?P k"
    using wf by (auto simp: wf_stack_def sorted_wrt_iff_nth_less)
  define k where "k = i + 1 + length (takeWhile ?P [i + 1..<?n])"
  have len: "length (takeWhile ?P [i + 1..<?n]) \<le> ?n - (i + 1)"
    using length_takeWhile_le [of ?P "[i + 1..<?n]"] by simp
  then have k: "i < k" "k \<le> ?n" using i by (auto simp: k_def)
  have tw: "takeWhile ?P [i + 1..<?n] = [i + 1..<k]"
    using takeWhile_eq_take [of ?P "[i + 1..<?n]"] len i by (simp add: k_def take_upt)
  have invalid: "?P j" if "i \<le> j" "j < k" for j
  proof (cases "j = i")
    case False
    then have "j \<in> set (takeWhile ?P [i + 1..<?n])" unfolding tw using that by simp
    then show ?thesis by (rule conjunct2 [OF set_takeWhileD])
  qed (use inv in simp)
  have valid: "\<not> ?P j" if "k \<le> j" "j < ?n" for j
  proof -
    have "\<not> ?P k"
      using nth_length_takeWhile [of ?P "[i + 1..<?n]"] that i by (simp add: k_def)
    then show ?thesis using closed [of k j] that by (cases "j = k") auto
  qed
  obtain a1 where a1: "foldM (assign_one c id) (rev [i + 1..<k]) a = Inr a1" "assign_one c id i a1 = Inr a'"
    using r unfolding AssignTransactionId_def Let_def tw by (auto split: sum.splits)
  have "foldM (assign_one c id) (rev [i..<k]) a = Inr a'"
    using a1 k(1) by (simp add: upt_conv_Cons foldM_append)
  then show ?thesis
    using k valid by (intro assign_outwards [where k = k] wf ready base links bs invalid) auto
qed

subsection \<open>When an assignment fails\<close>

text \<open>The page that the next parent link goes to is there, or is zeroed by the assignment.\<close>

definition sub_ready :: "nat \<Rightarrow> varsup \<Rightarrow> bool" where
  "sub_ready bs v \<longleftrightarrow> (let x = nextXid (cache v) in
     parent_pages (sub_log v) (SubTransToPage bs x) \<noteq> None \<or> TransactionIdToEntry bs x = 0 \<or> x = FirstNormalTransactionId)"

definition assignment_errors :: "pg_error set" where
  "assignment_errors = {ERROR ''cannot assign TransactionIds during recovery'',
     ERROR ''database is not accepting commands to avoid wraparound data loss''}"

lemma next_page:
  "SubTransToPage bs (TransactionIdAdvance x) = SubTransToPage bs x \<or>
   TransactionIdToEntry bs (TransactionIdAdvance x) = 0 \<or> TransactionIdAdvance x = FirstNormalTransactionId"
proof (cases "TransactionIdAdvance x = x + 1 \<and> x + 1 \<noteq> 0")
  case True
  then have "unat (TransactionIdAdvance x) = Suc (unat x)"
    using unatSuc [of x] by (simp add: add.commute)
  then show ?thesis
    by (auto simp: SubTransToPage_def TransactionIdToEntry_def div_Suc mod_Suc)
next
  case False
  then show ?thesis
    by (auto simp: TransactionIdAdvance_def Let_def xid_constants split: if_splits)
qed

lemma GetNew_total:
  assumes "sub_ready bs v" and "\<not> IsBootstrapProcessingMode m"
  shows "case GetNewTransactionId bs m id sub v of Inl e \<Rightarrow> e \<in> assignment_errors
    | Inr (x, v') \<Rightarrow> parent_pages (sub_log v') (SubTransToPage bs x) \<noteq> None \<and>
        x = nextXid (cache v) \<and> nextXid (cache v') = TransactionIdAdvance x"
  using assms
  by (auto simp: GetNewTransactionId_def assignment_errors_def xid_limit_check_def sub_ready_def emit_def
      ExtendSUBTRANS_def ZeroSUBTRANSPage_def Let_def)

lemma assign_one_total:
  assumes "sub_ready (block_size c) (vars a)" and "\<not> IsBootstrapProcessingMode (serverMode c)"
  shows "case assign_one c id i a of Inl e \<Rightarrow> e \<in> assignment_errors | Inr a' \<Rightarrow> sub_ready (block_size c) (vars a')"
proof -
  let ?bs = "block_size c" and ?sub = "i + 1 < length (stack a)"
  show ?thesis
  proof (cases "GetNewTransactionId ?bs (serverMode c) id ?sub (vars a)")
    case (Inl e)
    then show ?thesis using GetNew_total [OF assms, of ?sub] by (simp add: assign_one_def Let_def)
  next
    case (Inr r)
    obtain x v where v: "GetNewTransactionId ?bs (serverMode c) id ?sub (vars a) = Inr (x, v)"
      using Inr by (cases r) auto
    note g = GetNew_total [OF assms, of ?sub, unfolded v sum.case prod.case]
    have page: "parent_pages (sub_log v) (SubTransToPage ?bs x) \<noteq> None" "nextXid (cache v) = TransactionIdAdvance x"
      using g by metis+
    then have "\<exists>sub. (if ?sub then SubTransSetParent ?bs x (transactionId (stack a ! (i + 1))) (sub_log v)
        else Inr (sub_log v)) = Inr sub \<and> parent_pages sub (SubTransToPage ?bs x) \<noteq> None"
      by (cases ?sub) (auto simp: SubTransSetParent_def SubTransReadPage_def Let_def)
    then obtain sub where sub: "(if ?sub then SubTransSetParent ?bs x (transactionId (stack a ! (i + 1))) (sub_log v)
        else Inr (sub_log v)) = Inr sub" "parent_pages sub (SubTransToPage ?bs x) \<noteq> None" by blast
    have "sub_ready ?bs (v\<lparr>sub_log := sub\<rparr>)"
      using next_page [of ?bs x] page(2) sub(2) by (auto simp: sub_ready_def Let_def)
    then show ?thesis
      unfolding assign_one_def Let_def v sum.case prod.case sub(1) by (auto simp: report_assignment_def Let_def)
  qed
qed

lemma AssignTransactionId_total:
  assumes "sub_ready (block_size c) (vars a)" and "\<not> IsBootstrapProcessingMode (serverMode c)"
    and "AssignTransactionId c id i a = Inl e"
  shows "e \<in> assignment_errors"
proof -
  have fold: "case foldM (assign_one c id) js a of Inl e \<Rightarrow> e \<in> assignment_errors
      | Inr a' \<Rightarrow> sub_ready (block_size c) (vars a')" for js
    using assms(1)
  proof (induction js arbitrary: a)
    case (Cons j js)
    note one = assign_one_total [OF Cons.prems assms(2), of j]
    show ?case
    proof (cases "assign_one c id j a")
      case (Inl e)
      show ?thesis using one unfolding foldM.simps Inl sum.case .
    next
      case (Inr a1)
      show ?thesis unfolding foldM.simps Inr sum.case by (rule Cons.IH) (use one Inr in simp)
    qed
  qed simp
  let ?js = "rev (takeWhile (\<lambda>j. \<not> TransactionIdIsValid (transactionId (stack a ! j))) [i + 1..<length (stack a)])"
  show ?thesis
  proof (cases "foldM (assign_one c id) ?js a")
    case (Inl e')
    then show ?thesis using assms(3) fold [of ?js] unfolding AssignTransactionId_def Let_def Inl sum.case by simp
  next
    case (Inr a1)
    then have "sub_ready (block_size c) (vars a1)" using fold [of ?js] by simp
    from assign_one_total [OF this assms(2), of i] show ?thesis
      using assms(3) unfolding AssignTransactionId_def Let_def Inr sum.case by simp
  qed
qed

end
