(* ===== verification/Multixact.thy ===== *)
theory Multixact
  imports Varsup "HOL-Library.Product_Lexorder"
begin

section \<open>Multixacts (access/transam/multixact.c)\<close>

text \<open>
  A multixact stands for several transactions that lock or update one tuple. The offsets log
  has, for each multixact, where its members start; the members log has four flag bytes and
  four transaction identifiers in each group of 20 bytes. Pages are lists of 32-bit words, the
  byte offsets of the code divided by 4; the block size is the argument \<open>bs\<close>. The state is
  the shared one, the two logs and the cache of one backend. Sending a signal, a warning or a
  WAL record is an event.
\<close>

type_synonym MultiXactId = uint32
type_synonym MultiXactOffset = uint32
type_synonym MultiXactStatus = uint32

definition InvalidMultiXactId :: MultiXactId where "InvalidMultiXactId = 0"
definition FirstMultiXactId :: MultiXactId where "FirstMultiXactId = 1"
definition MaxMultiXactId :: MultiXactId where "MaxMultiXactId = 0xFFFFFFFF"
definition MaxMultiXactOffset :: MultiXactOffset where "MaxMultiXactOffset = 0xFFFFFFFF"

definition MultiXactStatusForKeyShare :: MultiXactStatus where "MultiXactStatusForKeyShare = 0"
definition MultiXactStatusForShare :: MultiXactStatus where "MultiXactStatusForShare = 1"
definition MultiXactStatusForNoKeyUpdate :: MultiXactStatus where "MultiXactStatusForNoKeyUpdate = 2"
definition MultiXactStatusForUpdate :: MultiXactStatus where "MultiXactStatusForUpdate = 3"
definition MultiXactStatusNoKeyUpdate :: MultiXactStatus where "MultiXactStatusNoKeyUpdate = 4"
definition MultiXactStatusUpdate :: MultiXactStatus where "MultiXactStatusUpdate = 5"

lemmas multixact_constants = InvalidMultiXactId_def FirstMultiXactId_def MaxMultiXactId_def
  MaxMultiXactOffset_def MultiXactStatusForKeyShare_def MultiXactStatusForShare_def
  MultiXactStatusForNoKeyUpdate_def MultiXactStatusForUpdate_def MultiXactStatusNoKeyUpdate_def
  MultiXactStatusUpdate_def

definition ISUPDATE_from_mxstatus :: "MultiXactStatus \<Rightarrow> bool" where
  "ISUPDATE_from_mxstatus status \<longleftrightarrow> status > MultiXactStatusForUpdate"

record MultiXactMember =
  mxid :: TransactionId
  mxstatus :: MultiXactStatus

definition MultiXactIdPrecedes :: "MultiXactId \<Rightarrow> MultiXactId \<Rightarrow> bool" where
  "MultiXactIdPrecedes multi1 multi2 \<longleftrightarrow> sint (multi1 - multi2) < 0"

definition MultiXactIdPrecedesOrEquals :: "MultiXactId \<Rightarrow> MultiXactId \<Rightarrow> bool" where
  "MultiXactIdPrecedesOrEquals multi1 multi2 \<longleftrightarrow> sint (multi1 - multi2) \<le> 0"

definition MultiXactOffsetPrecedes :: "MultiXactOffset \<Rightarrow> MultiXactOffset \<Rightarrow> bool" where
  "MultiXactOffsetPrecedes offset1 offset2 \<longleftrightarrow> sint (offset1 - offset2) < 0"

subsection \<open>The layout of the two logs\<close>

definition MULTIXACT_OFFSETS_PER_PAGE :: "nat \<Rightarrow> nat" where "MULTIXACT_OFFSETS_PER_PAGE bs = bs div 4"
definition MultiXactIdToOffsetPage :: "nat \<Rightarrow> MultiXactId \<Rightarrow> nat" where
  "MultiXactIdToOffsetPage bs xid = unat xid div MULTIXACT_OFFSETS_PER_PAGE bs"
definition MultiXactIdToOffsetEntry :: "nat \<Rightarrow> MultiXactId \<Rightarrow> nat" where
  "MultiXactIdToOffsetEntry bs xid = unat xid mod MULTIXACT_OFFSETS_PER_PAGE bs"

definition MXACT_MEMBER_BITS_PER_XACT :: nat where "MXACT_MEMBER_BITS_PER_XACT = 8"
definition MXACT_MEMBER_XACT_BITMASK :: uint32 where "MXACT_MEMBER_XACT_BITMASK = 0xFF"
definition MULTIXACT_FLAGBYTES_PER_GROUP :: nat where "MULTIXACT_FLAGBYTES_PER_GROUP = 4"
definition MULTIXACT_MEMBERS_PER_MEMBERGROUP :: nat where "MULTIXACT_MEMBERS_PER_MEMBERGROUP = 4"
definition MULTIXACT_MEMBERGROUP_SIZE :: nat where "MULTIXACT_MEMBERGROUP_SIZE = 20"
definition MULTIXACT_MEMBERGROUPS_PER_PAGE :: "nat \<Rightarrow> nat" where
  "MULTIXACT_MEMBERGROUPS_PER_PAGE bs = bs div MULTIXACT_MEMBERGROUP_SIZE"
definition MULTIXACT_MEMBERS_PER_PAGE :: "nat \<Rightarrow> nat" where
  "MULTIXACT_MEMBERS_PER_PAGE bs = MULTIXACT_MEMBERGROUPS_PER_PAGE bs * MULTIXACT_MEMBERS_PER_MEMBERGROUP"

lemmas member_layout = MXACT_MEMBER_BITS_PER_XACT_def MXACT_MEMBER_XACT_BITMASK_def
  MULTIXACT_FLAGBYTES_PER_GROUP_def MULTIXACT_MEMBERS_PER_MEMBERGROUP_def MULTIXACT_MEMBERGROUP_SIZE_def
  MULTIXACT_MEMBERGROUPS_PER_PAGE_def MULTIXACT_MEMBERS_PER_PAGE_def

definition MAX_MEMBERS_IN_LAST_MEMBERS_PAGE :: "nat \<Rightarrow> uint32" where
  "MAX_MEMBERS_IN_LAST_MEMBERS_PAGE bs = of_nat (0xFFFFFFFF mod MULTIXACT_MEMBERS_PER_PAGE bs + 1)"

definition MXOffsetToMemberPage :: "nat \<Rightarrow> MultiXactOffset \<Rightarrow> nat" where
  "MXOffsetToMemberPage bs xid = unat xid div MULTIXACT_MEMBERS_PER_PAGE bs"
definition MXOffsetToFlagsOffset :: "nat \<Rightarrow> MultiXactOffset \<Rightarrow> nat" where
  "MXOffsetToFlagsOffset bs xid =
     ((unat xid div MULTIXACT_MEMBERS_PER_MEMBERGROUP) mod MULTIXACT_MEMBERGROUPS_PER_PAGE bs) *
     MULTIXACT_MEMBERGROUP_SIZE"
definition MXOffsetToFlagsBitShift :: "MultiXactOffset \<Rightarrow> nat" where
  "MXOffsetToFlagsBitShift xid = (unat xid mod MULTIXACT_MEMBERS_PER_MEMBERGROUP) * MXACT_MEMBER_BITS_PER_XACT"
definition MXOffsetToMemberOffset :: "nat \<Rightarrow> MultiXactOffset \<Rightarrow> nat" where
  "MXOffsetToMemberOffset bs xid = MXOffsetToFlagsOffset bs xid + MULTIXACT_FLAGBYTES_PER_GROUP +
     (unat xid mod MULTIXACT_MEMBERS_PER_MEMBERGROUP) * 4"

definition MULTIXACT_MEMBER_SAFE_THRESHOLD :: uint32 where
  "MULTIXACT_MEMBER_SAFE_THRESHOLD = MaxMultiXactOffset div 2"

definition SLRU_PAGES_PER_SEGMENT :: nat where "SLRU_PAGES_PER_SEGMENT = 32"

subsection \<open>The state\<close>

record MultiXactStateData =
  nextMXact :: MultiXactId
  nextOffset :: MultiXactOffset
  finishedStartup :: bool
  oldestMultiXactId :: MultiXactId
  oldestMultiXactDB :: Oid
  oldestOffset :: MultiXactOffset
  oldestOffsetKnown :: bool
  lastCheckpointedOldest :: MultiXactId
  multiVacLimit :: MultiXactId
  multiWarnLimit :: MultiXactId
  multiStopLimit :: MultiXactId
  multiWrapLimit :: MultiXactId
  offsetStopLimit :: MultiXactOffset
  offsetStopLimitKnown :: bool
  OldestMemberMXactId :: "nat \<Rightarrow> MultiXactId"
  OldestVisibleMXactId :: "nat \<Rightarrow> MultiXactId"

datatype mx_event =
    MX_START_AUTOVAC_LAUNCHER
  | MX_MUST_BE_VACUUMED_WITHIN uint32
  | MX_MEMBERS_LEFT uint32
  | XLOG_MULTIXACT_ZERO_OFF_PAGE nat
  | XLOG_MULTIXACT_ZERO_MEM_PAGE nat
  | XLOG_MULTIXACT_CREATE_ID MultiXactId MultiXactOffset "MultiXactMember list"

record multixact =
  mx :: MultiXactStateData
  offset_pages :: "nat \<Rightarrow> uint32 list option"
  member_pages :: "nat \<Rightarrow> uint32 list option"
  mx_recovery :: bool
  MXactCache :: "(MultiXactId \<times> MultiXactMember list) list"
  MyBackendId :: nat
  MaxOldestSlot :: nat
  mx_events :: "mx_event list"

definition upd_mx :: "(MultiXactStateData \<Rightarrow> MultiXactStateData) \<Rightarrow> multixact \<Rightarrow> multixact" where
  "upd_mx f s = s\<lparr>mx := f (mx s)\<rparr>"

definition mx_emit :: "mx_event \<Rightarrow> multixact \<Rightarrow> multixact" where
  "mx_emit e s = s\<lparr>mx_events := mx_events s @ [e]\<rparr>"

definition words_per_page :: "nat \<Rightarrow> nat" where "words_per_page bs = bs div 4"

definition read_mx_page :: "nat \<Rightarrow> bool \<Rightarrow> (nat \<Rightarrow> uint32 list option) \<Rightarrow> nat \<Rightarrow> uint32 list result" where
  "read_mx_page bs recovery pgs pageno = (case pgs pageno of
     Some p \<Rightarrow> Inr p
   | None \<Rightarrow> if recovery then Inr (replicate (words_per_page bs) 0)
             else Inl (ERROR ''could not access status of transaction''))"

definition ZeroMultiXactOffsetPage :: "nat \<Rightarrow> nat \<Rightarrow> bool \<Rightarrow> multixact \<Rightarrow> multixact" where
  "ZeroMultiXactOffsetPage bs pageno writeXlog s =
     (let s = s\<lparr>offset_pages := (offset_pages s)(pageno := Some (replicate (words_per_page bs) 0))\<rparr>
      in if writeXlog then mx_emit (XLOG_MULTIXACT_ZERO_OFF_PAGE pageno) s else s)"

definition ZeroMultiXactMemberPage :: "nat \<Rightarrow> nat \<Rightarrow> bool \<Rightarrow> multixact \<Rightarrow> multixact" where
  "ZeroMultiXactMemberPage bs pageno writeXlog s =
     (let s = s\<lparr>member_pages := (member_pages s)(pageno := Some (replicate (words_per_page bs) 0))\<rparr>
      in if writeXlog then mx_emit (XLOG_MULTIXACT_ZERO_MEM_PAGE pageno) s else s)"

subsection \<open>The backend's cache\<close>

text \<open>
  Of two members the one with the smaller identifier, then the smaller status, comes first;
  \<open>qsort\<close> with this comparator is \<open>sort_key\<close> by the pair.
\<close>

definition mxactMemberComparator :: "MultiXactMember \<Rightarrow> MultiXactMember \<Rightarrow> int" where
  "mxactMemberComparator member1 member2 =
     (if mxid member1 > mxid member2 then 1
      else if mxid member1 < mxid member2 then -1
      else if mxstatus member1 > mxstatus member2 then 1
      else if mxstatus member1 < mxstatus member2 then -1 else 0)"

definition sort_members :: "MultiXactMember list \<Rightarrow> MultiXactMember list" where
  "sort_members = sort_key (\<lambda>m. (mxid m, mxstatus m))"

lemma comparator_sort:
  "mxactMemberComparator a b \<le> 0 \<longleftrightarrow> (mxid a, mxstatus a) \<le> (mxid b, mxstatus b)"
  "mxactMemberComparator a b = 0 \<longleftrightarrow> a = b"
  by (auto simp: mxactMemberComparator_def)

definition move_head :: "'a \<Rightarrow> 'a list \<Rightarrow> 'a list" where "move_head x xs = x # remove1 x xs"

text \<open>\<open>members\<close> are the argument, sorted in place by the call.\<close>

definition mXactCacheGetBySet ::
  "MultiXactMember list \<Rightarrow> multixact \<Rightarrow> MultiXactId \<times> MultiXactMember list \<times> multixact" where
  "mXactCacheGetBySet members s =
     (let members = sort_members members
      in case find (\<lambda>entry. snd entry = members) (MXactCache s) of
           Some entry \<Rightarrow> (fst entry, members, s\<lparr>MXactCache := move_head entry (MXactCache s)\<rparr>)
         | None \<Rightarrow> (InvalidMultiXactId, members, s))"

definition mXactCacheGetById :: "MultiXactId \<Rightarrow> multixact \<Rightarrow> (MultiXactMember list \<times> multixact) option" where
  "mXactCacheGetById multi s =
     (case find (\<lambda>entry. fst entry = multi) (MXactCache s) of
        Some entry \<Rightarrow> Some (snd entry, s\<lparr>MXactCache := move_head entry (MXactCache s)\<rparr>)
      | None \<Rightarrow> None)"

definition MAX_CACHE_ENTRIES :: nat where "MAX_CACHE_ENTRIES = 256"

definition mXactCachePut :: "MultiXactId \<Rightarrow> MultiXactMember list \<Rightarrow> multixact \<Rightarrow> multixact" where
  "mXactCachePut multi members s =
     (let cached = (multi, sort_members members) # MXactCache s
      in s\<lparr>MXactCache := (if length (MXactCache s) \<ge> MAX_CACHE_ENTRIES then butlast cached else cached)\<rparr>)"

definition AtEOXact_MultiXact :: "multixact \<Rightarrow> multixact" where
  "AtEOXact_MultiXact s =
     (upd_mx (\<lambda>m. m\<lparr>OldestMemberMXactId := (OldestMemberMXactId m)(MyBackendId s := InvalidMultiXactId),
        OldestVisibleMXactId := (OldestVisibleMXactId m)(MyBackendId s := InvalidMultiXactId)\<rparr>) s)
     \<lparr>MXactCache := []\<rparr>"

definition PostPrepare_MultiXact :: "nat \<Rightarrow> multixact \<Rightarrow> multixact" where
  "PostPrepare_MultiXact dummyBackendId s =
     (let me = MyBackendId s; myOldestMember = OldestMemberMXactId (mx s) me;
          s = (if myOldestMember \<noteq> InvalidMultiXactId
               then upd_mx (\<lambda>m. m\<lparr>OldestMemberMXactId := (OldestMemberMXactId m)
                      (dummyBackendId := myOldestMember, me := InvalidMultiXactId)\<rparr>) s
               else s);
          s = upd_mx (\<lambda>m. m\<lparr>OldestVisibleMXactId := (OldestVisibleMXactId m)(me := InvalidMultiXactId)\<rparr>) s
      in s\<lparr>MXactCache := []\<rparr>)"

subsection \<open>The horizons of the backends\<close>

definition ReadNextMultiXactId :: "multixact \<Rightarrow> MultiXactId" where
  "ReadNextMultiXactId s =
     (if nextMXact (mx s) < FirstMultiXactId then FirstMultiXactId else nextMXact (mx s))"

definition MultiXactIdSetOldestMember :: "multixact \<Rightarrow> multixact" where
  "MultiXactIdSetOldestMember s =
     (if OldestMemberMXactId (mx s) (MyBackendId s) = InvalidMultiXactId
      then upd_mx (\<lambda>m. m\<lparr>OldestMemberMXactId :=
             (OldestMemberMXactId m)(MyBackendId s := ReadNextMultiXactId s)\<rparr>) s
      else s)"

definition lower_multi :: "MultiXactId \<Rightarrow> MultiXactId \<Rightarrow> MultiXactId" where
  "lower_multi thisoldest oldestMXact =
     (if thisoldest \<noteq> InvalidMultiXactId \<and> MultiXactIdPrecedes thisoldest oldestMXact
      then thisoldest else oldestMXact)"

definition MultiXactIdSetOldestVisible :: "multixact \<Rightarrow> multixact" where
  "MultiXactIdSetOldestVisible s =
     (if OldestVisibleMXactId (mx s) (MyBackendId s) = InvalidMultiXactId
      then (let oldest = fold (\<lambda>i. lower_multi (OldestMemberMXactId (mx s) i))
                  [1..<MaxOldestSlot s + 1] (ReadNextMultiXactId s)
            in upd_mx (\<lambda>m. m\<lparr>OldestVisibleMXactId := (OldestVisibleMXactId m)(MyBackendId s := oldest)\<rparr>) s)
      else s)"

definition GetOldestMultiXactId :: "multixact \<Rightarrow> MultiXactId" where
  "GetOldestMultiXactId s =
     fold (\<lambda>i oldest. lower_multi (OldestVisibleMXactId (mx s) i)
             (lower_multi (OldestMemberMXactId (mx s) i) oldest))
       [1..<MaxOldestSlot s + 1] (ReadNextMultiXactId s)"


subsection \<open>Room for a new multixact\<close>

definition ExtendMultiXactOffset :: "nat \<Rightarrow> MultiXactId \<Rightarrow> multixact \<Rightarrow> multixact" where
  "ExtendMultiXactOffset bs multi s =
     (if MultiXactIdToOffsetEntry bs multi \<noteq> 0 \<and> multi \<noteq> FirstMultiXactId then s
      else ZeroMultiXactOffsetPage bs (MultiXactIdToOffsetPage bs multi) True s)"

text \<open>The number of members from \<open>offset\<close> to the end of its page.\<close>

definition members_to_page_end :: "nat \<Rightarrow> MultiXactOffset \<Rightarrow> uint32" where
  "members_to_page_end bs offset =
     (if offset + MAX_MEMBERS_IN_LAST_MEMBERS_PAGE bs < offset then MaxMultiXactOffset - offset + 1
      else of_nat (MULTIXACT_MEMBERS_PER_PAGE bs - unat offset mod MULTIXACT_MEMBERS_PER_PAGE bs))"

partial_function (option) ExtendMultiXactMember ::
  "nat \<Rightarrow> MultiXactOffset \<Rightarrow> int \<Rightarrow> multixact \<Rightarrow> multixact option" where
  "ExtendMultiXactMember bs offset nmembers s =
     (if nmembers > 0 then
        (let s = (if MXOffsetToFlagsOffset bs offset = 0 \<and> MXOffsetToFlagsBitShift offset = 0
                  then ZeroMultiXactMemberPage bs (MXOffsetToMemberPage bs offset) True s else s);
             difference = members_to_page_end bs offset
         in ExtendMultiXactMember bs (offset + difference) (nmembers - int (unat difference)) s)
      else Some s)"

definition MultiXactOffsetWouldWrap :: "MultiXactOffset \<Rightarrow> MultiXactOffset \<Rightarrow> uint32 \<Rightarrow> bool" where
  "MultiXactOffsetWouldWrap boundary start distance =
     (let finish = start + distance;
          finish = (if finish < start then finish + 1 else finish)
      in if start < boundary then finish \<ge> boundary \<or> finish < start
         else finish \<ge> boundary \<and> finish < start)"

definition multi_limit_check :: "server_mode \<Rightarrow> MultiXactId \<Rightarrow> multixact \<Rightarrow> multixact result" where
  "multi_limit_check m result s =
     (let s' = (if IsUnderPostmaster m \<and> result mod 65536 = 0 then mx_emit MX_START_AUTOVAC_LAUNCHER s else s)
      in if IsUnderPostmaster m \<and> \<not> MultiXactIdPrecedes result (multiStopLimit (mx s))
         then Inl (ERROR ''database is not accepting commands that generate new MultiXactIds'')
         else if \<not> MultiXactIdPrecedes result (multiWarnLimit (mx s))
         then Inr (mx_emit (MX_MUST_BE_VACUUMED_WITHIN (multiWrapLimit (mx s) - result)) s')
         else Inr s')"

definition skip_invalid_multi :: "multixact \<Rightarrow> multixact" where
  "skip_invalid_multi s =
     (if nextMXact (mx s) < FirstMultiXactId then upd_mx (\<lambda>m. m\<lparr>nextMXact := FirstMultiXactId\<rparr>) s else s)"

definition near_limits :: "multixact \<Rightarrow> bool" where
  "near_limits s \<longleftrightarrow> \<not> MultiXactIdPrecedes (nextMXact (mx s)) (multiVacLimit (mx s)) \<or>
     \<not> oldestOffsetKnown (mx s) \<or> nextOffset (mx s) - oldestOffset (mx s) > MULTIXACT_MEMBER_SAFE_THRESHOLD"

definition OFFSET_WARN_SEGMENTS :: nat where "OFFSET_WARN_SEGMENTS = 20"

definition members_limit_check :: "nat \<Rightarrow> uint32 \<Rightarrow> multixact \<Rightarrow> multixact result" where
  "members_limit_check bs nmembers s =
     (let stop = offsetStopLimit (mx s); offset = nextOffset (mx s);
          slack = of_nat (MULTIXACT_MEMBERS_PER_PAGE bs * SLRU_PAGES_PER_SEGMENT * OFFSET_WARN_SEGMENTS)
      in if offsetStopLimitKnown (mx s) \<and> MultiXactOffsetWouldWrap stop offset nmembers
         then Inl (ERROR ''multixact members limit exceeded'')
         else if offsetStopLimitKnown (mx s) \<and> MultiXactOffsetWouldWrap stop offset (nmembers + slack)
         then Inr (mx_emit (MX_MEMBERS_LEFT (stop - offset + nmembers)) s)
         else Inr s)"

text \<open>
  While the lock is released, \<open>others\<close> is what the other backends do; then the next number
  is read again, without the checks; there only the local variable skips the invalid number. The outer option is the loop over the member pages. The
  offset is never 0: a zero in the offsets log means that the entry is not written yet.
\<close>

definition GetNewMultiXactId ::
  "nat \<Rightarrow> server_mode \<Rightarrow> (multixact \<Rightarrow> multixact) \<Rightarrow> nat \<Rightarrow> multixact \<Rightarrow>
   (MultiXactId \<times> MultiXactOffset \<times> multixact) result option" where
  "GetNewMultiXactId bs m others nmembers s =
     (if RecoveryInProgress m then Some (Inl (ERROR ''cannot assign MultiXactIds during recovery''))
      else (let s = skip_invalid_multi s in
        case (if near_limits s
              then map_sum id others (multi_limit_check m (nextMXact (mx s)) s)
              else Inr s) of
          Inl e \<Rightarrow> Some (Inl e)
        | Inr s \<Rightarrow>
            (let result = ReadNextMultiXactId s;
                 s = ExtendMultiXactOffset bs result s;
                 start = nextOffset (mx s);
                 offset = (if start = 0 then 1 else start);
                 nmembers = (if start = 0 then nmembers + 1 else nmembers)
             in case members_limit_check bs (of_nat nmembers) s of
                  Inl e \<Rightarrow> Some (Inl e)
                | Inr s \<Rightarrow>
                    (case ExtendMultiXactMember bs start (int nmembers) s of
                       None \<Rightarrow> None
                     | Some s \<Rightarrow> Some (Inr (result, offset,
                         upd_mx (\<lambda>m. m\<lparr>nextMXact := nextMXact m + 1,
                                        nextOffset := nextOffset m + of_nat nmembers\<rparr>) s))))))"

subsection \<open>Writing and reading a multixact\<close>

definition store_offset :: "nat \<Rightarrow> MultiXactId \<times> MultiXactOffset \<Rightarrow> multixact \<Rightarrow> multixact result" where
  "store_offset bs w s =
     (case w of (multi, offset) \<Rightarrow>
        let pageno = MultiXactIdToOffsetPage bs multi; entryno = MultiXactIdToOffsetEntry bs multi
        in case read_mx_page bs (mx_recovery s) (offset_pages s) pageno of
             Inl e \<Rightarrow> Inl e
           | Inr p \<Rightarrow> Inr (s\<lparr>offset_pages := (offset_pages s)(pageno := Some (p[entryno := offset]))\<rparr>))"

definition store_member :: "nat \<Rightarrow> MultiXactOffset \<times> MultiXactMember \<Rightarrow> multixact \<Rightarrow> multixact result" where
  "store_member bs w s =
     (case w of (offset, member) \<Rightarrow>
        let pageno = MXOffsetToMemberPage bs offset;
            memberoff = MXOffsetToMemberOffset bs offset;
            flagsoff = MXOffsetToFlagsOffset bs offset;
            bshift = MXOffsetToFlagsBitShift offset
        in case read_mx_page bs (mx_recovery s) (member_pages s) pageno of
             Inl e \<Rightarrow> Inl e
           | Inr p \<Rightarrow>
               (let p = p[memberoff div 4 := mxid member];
                    flagsval = p ! (flagsoff div 4);
                    flagsval = flagsval AND NOT (push_bit bshift MXACT_MEMBER_XACT_BITMASK);
                    flagsval = flagsval OR push_bit bshift (mxstatus member);
                    p = p[flagsoff div 4 := flagsval]
                in Inr (s\<lparr>member_pages := (member_pages s)(pageno := Some p)\<rparr>)))"

definition member_offsets :: "MultiXactOffset \<Rightarrow> nat \<Rightarrow> MultiXactOffset list" where
  "member_offsets offset n = map (\<lambda>i. offset + of_nat i) [0..<n]"

definition RecordNewMultiXact ::
  "nat \<Rightarrow> MultiXactId \<Rightarrow> MultiXactOffset \<Rightarrow> MultiXactMember list \<Rightarrow> multixact \<Rightarrow> multixact result" where
  "RecordNewMultiXact bs multi offset members s =
     (case store_offset bs (multi, offset) s of
        Inl e \<Rightarrow> Inl e
      | Inr s \<Rightarrow> foldM (store_member bs) (zip (member_offsets offset (length members)) members) s)"

definition load_member :: "nat \<Rightarrow> multixact \<Rightarrow> MultiXactOffset \<Rightarrow> MultiXactMember list \<Rightarrow> MultiXactMember list result" where
  "load_member bs s offset ptr =
     (case read_mx_page bs (mx_recovery s) (member_pages s) (MXOffsetToMemberPage bs offset) of
        Inl e \<Rightarrow> Inl e
      | Inr p \<Rightarrow>
          (let xact = p ! (MXOffsetToMemberOffset bs offset div 4)
           in if \<not> TransactionIdIsValid xact then Inr ptr
              else (let flags = p ! (MXOffsetToFlagsOffset bs offset div 4)
                    in Inr (ptr @ [\<lparr>mxid = xact, mxstatus =
                         drop_bit (MXOffsetToFlagsBitShift offset) flags AND MXACT_MEMBER_XACT_BITMASK\<rparr>]))))"

text \<open>
  The number of members is a signed integer in the code; a negative one makes \<open>palloc\<close> fail.
  When the next multixact's offset is not written yet the code sleeps and looks again; in a
  state that nobody changes it does so for ever, which is \<open>LOOP\<close>.
\<close>

definition members_length :: "nat \<Rightarrow> MultiXactId \<Rightarrow> multixact \<Rightarrow> (MultiXactOffset \<times> uint32) result" where
  "members_length bs multi s =
     (case read_mx_page bs (mx_recovery s) (offset_pages s) (MultiXactIdToOffsetPage bs multi) of
        Inl e \<Rightarrow> Inl e
      | Inr p \<Rightarrow>
          (let offset = p ! MultiXactIdToOffsetEntry bs multi; tmpMXact = multi + 1
           in if nextMXact (mx s) = tmpMXact then Inr (offset, nextOffset (mx s) - offset)
              else (let tmpMXact = (if tmpMXact < FirstMultiXactId then FirstMultiXactId else tmpMXact)
                    in case read_mx_page bs (mx_recovery s) (offset_pages s) (MultiXactIdToOffsetPage bs tmpMXact) of
                         Inl e \<Rightarrow> Inl e
                       | Inr p \<Rightarrow>
                           (let nextMXOffset = p ! MultiXactIdToOffsetEntry bs tmpMXact
                            in if nextMXOffset = 0 then Inl LOOP
                               else Inr (offset, nextMXOffset - offset)))))"

text \<open>\<open>None\<close> stands for the return value \<open>-1\<close>.\<close>

definition GetMultiXactIdMembers ::
  "nat \<Rightarrow> MultiXactId \<Rightarrow> bool \<Rightarrow> multixact \<Rightarrow> (MultiXactMember list option \<times> multixact) result" where
  "GetMultiXactIdMembers bs multi allow_old s =
     (if multi = InvalidMultiXactId then Inr (None, s)
      else (case mXactCacheGetById multi s of
          Some (members, s) \<Rightarrow> Inr (Some members, s)
        | None \<Rightarrow>
            (let s = MultiXactIdSetOldestVisible s
             in if MultiXactIdPrecedes multi (oldestMultiXactId (mx s))
                then (if allow_old then Inr (None, s)
                      else Inl (ERROR ''MultiXactId does no longer exist -- apparent wraparound''))
                else if \<not> MultiXactIdPrecedes multi (nextMXact (mx s))
                then Inl (ERROR ''MultiXactId has not been created yet -- apparent wraparound'')
                else (case members_length bs multi s of
                    Inl e \<Rightarrow> Inl e
                  | Inr (offset, len) \<Rightarrow>
                      if sint len < 0 then Inl (ERROR ''invalid memory alloc request size'')
                      else (case foldM (load_member bs s) (member_offsets offset (unat len)) [] of
                          Inl e \<Rightarrow> Inl e
                        | Inr ptr \<Rightarrow> Inr (Some ptr, mXactCachePut multi ptr s))))))"


subsection \<open>Making multixacts\<close>

definition one_update :: "MultiXactMember list \<Rightarrow> bool" where
  "one_update members \<longleftrightarrow> length (filter (\<lambda>m. ISUPDATE_from_mxstatus (mxstatus m)) members) \<le> 1"

text \<open>From \<open>START_CRIT_SECTION\<close> on an error is a crash of the server.\<close>

definition critical :: "'a result \<Rightarrow> 'a result" where
  "critical r = (case r of Inl (ERROR e) \<Rightarrow> Inl (PANIC e) | _ \<Rightarrow> r)"

definition MultiXactIdCreateFromMembers ::
  "nat \<Rightarrow> server_mode \<Rightarrow> (multixact \<Rightarrow> multixact) \<Rightarrow> MultiXactMember list \<Rightarrow> multixact \<Rightarrow>
   (MultiXactId \<times> multixact) result option" where
  "MultiXactIdCreateFromMembers bs m others members s =
     (case mXactCacheGetBySet members s of (multi, members, s) \<Rightarrow>
        if multi \<noteq> InvalidMultiXactId then Some (Inr (multi, s))
        else if \<not> one_update members
        then Some (Inl (ERROR ''new multixact has more than one updating member''))
        else (case GetNewMultiXactId bs m others (length members) s of
            None \<Rightarrow> None
          | Some (Inl e) \<Rightarrow> Some (Inl e)
          | Some (Inr (multi, offset, s)) \<Rightarrow>
              (let s = mx_emit (XLOG_MULTIXACT_CREATE_ID multi offset members) s
               in case critical (RecordNewMultiXact bs multi offset members s) of
                    Inl e \<Rightarrow> Some (Inl e)
                  | Inr s \<Rightarrow> Some (Inr (multi, mXactCachePut multi members s)))))"

definition MultiXactIdCreate ::
  "nat \<Rightarrow> server_mode \<Rightarrow> (multixact \<Rightarrow> multixact) \<Rightarrow> TransactionId \<Rightarrow> MultiXactStatus \<Rightarrow> TransactionId \<Rightarrow>
   MultiXactStatus \<Rightarrow> multixact \<Rightarrow> (MultiXactId \<times> multixact) result option" where
  "MultiXactIdCreate bs m others xid1 status1 xid2 status2 s =
     MultiXactIdCreateFromMembers bs m others
       [\<lparr>mxid = xid1, mxstatus = status1\<rparr>, \<lparr>mxid = xid2, mxstatus = status2\<rparr>] s"

text \<open>What the module asks of procarray.c, transam.c and xact.c.\<close>

record member_tests =
  MemberInProgress :: "TransactionId \<Rightarrow> bool"
  MemberDidCommit :: "TransactionId \<Rightarrow> bool"
  MemberIsCurrent :: "TransactionId \<Rightarrow> bool"

definition of_interest :: "member_tests \<Rightarrow> MultiXactMember \<Rightarrow> bool" where
  "of_interest q m \<longleftrightarrow> MemberInProgress q (mxid m) \<or>
     ISUPDATE_from_mxstatus (mxstatus m) \<and> MemberDidCommit q (mxid m)"

definition MultiXactIdExpand ::
  "nat \<Rightarrow> server_mode \<Rightarrow> (multixact \<Rightarrow> multixact) \<Rightarrow> member_tests \<Rightarrow> MultiXactId \<Rightarrow> TransactionId \<Rightarrow>
   MultiXactStatus \<Rightarrow> multixact \<Rightarrow> (MultiXactId \<times> multixact) result option" where
  "MultiXactIdExpand bs m others q multi xid status s =
     (let new = \<lparr>mxid = xid, mxstatus = status\<rparr>
      in case GetMultiXactIdMembers bs multi False s of
           Inl e \<Rightarrow> Some (Inl e)
         | Inr (None, s) \<Rightarrow> MultiXactIdCreateFromMembers bs m others [new] s
         | Inr (Some members, s) \<Rightarrow>
             if list_ex (\<lambda>mem. mxid mem = xid \<and> mxstatus mem = status) members then Some (Inr (multi, s))
             else MultiXactIdCreateFromMembers bs m others (filter (of_interest q) members @ [new]) s)"

definition MultiXactIdIsRunning ::
  "nat \<Rightarrow> member_tests \<Rightarrow> MultiXactId \<Rightarrow> multixact \<Rightarrow> (bool \<times> multixact) result" where
  "MultiXactIdIsRunning bs q multi s =
     (case GetMultiXactIdMembers bs multi False s of
        Inl e \<Rightarrow> Inl e
      | Inr (None, s) \<Rightarrow> Inr (False, s)
      | Inr (Some members, s) \<Rightarrow>
          Inr (if list_ex (\<lambda>m. MemberIsCurrent q (mxid m)) members then True
               else list_ex (\<lambda>m. MemberInProgress q (mxid m)) members, s))"

definition MultiXactHasRunningRemoteMembers ::
  "nat \<Rightarrow> member_tests \<Rightarrow> MultiXactId \<Rightarrow> multixact \<Rightarrow> (bool \<times> multixact) result" where
  "MultiXactHasRunningRemoteMembers bs q multi s =
     (case GetMultiXactIdMembers bs multi True s of
        Inl e \<Rightarrow> Inl e
      | Inr (None, s) \<Rightarrow> Inr (False, s)
      | Inr (Some members, s) \<Rightarrow>
          Inr (list_ex (\<lambda>m. if MemberIsCurrent q (mxid m) then False else MemberInProgress q (mxid m)) members, s))"

text \<open>\<open>MultiXactIdGetUpdateXid\<close> of heapam.c.\<close>

definition MultiXactIdGetUpdateXid ::
  "nat \<Rightarrow> MultiXactId \<Rightarrow> multixact \<Rightarrow> (TransactionId \<times> multixact) result" where
  "MultiXactIdGetUpdateXid bs xmax s =
     (case GetMultiXactIdMembers bs xmax False s of
        Inl e \<Rightarrow> Inl e
      | Inr (None, s) \<Rightarrow> Inr (InvalidTransactionId, s)
      | Inr (Some members, s) \<Rightarrow>
          Inr (case find (\<lambda>m. ISUPDATE_from_mxstatus (mxstatus m)) members of
                 Some m \<Rightarrow> mxid m | None \<Rightarrow> InvalidTransactionId, s))"

subsection \<open>Limits and startup\<close>

text \<open>\<open>physical\<close> says which offset pages have a file on disk.\<close>

definition find_multixact_start ::
  "nat \<Rightarrow> (nat \<Rightarrow> bool) \<Rightarrow> MultiXactId \<Rightarrow> multixact \<Rightarrow> MultiXactOffset option result" where
  "find_multixact_start bs physical multi s =
     (let pageno = MultiXactIdToOffsetPage bs multi; entryno = MultiXactIdToOffsetEntry bs multi
      in if \<not> physical pageno then Inr None
         else (case read_mx_page bs (mx_recovery s) (offset_pages s) pageno of
             Inl e \<Rightarrow> Inl e | Inr p \<Rightarrow> Inr (Some (p ! entryno))))"

definition stop_limit_of :: "nat \<Rightarrow> MultiXactOffset \<Rightarrow> MultiXactOffset" where
  "stop_limit_of bs oldest =
     (let segment = of_nat (MULTIXACT_MEMBERS_PER_PAGE bs * SLRU_PAGES_PER_SEGMENT)
      in oldest - oldest mod segment - segment)"

definition DetermineSafeOldestOffset ::
  "nat \<Rightarrow> (nat \<Rightarrow> bool) \<Rightarrow> MultiXactId \<Rightarrow> multixact \<Rightarrow> multixact result" where
  "DetermineSafeOldestOffset bs physical oldestMXact s =
     (if \<not> finishedStartup (mx s) then Inr s
      else (case (if nextMXact (mx s) = oldestMXact then Inr (Some (nextOffset (mx s)))
                  else find_multixact_start bs physical oldestMXact s) of
          Inl e \<Rightarrow> Inl e
        | Inr None \<Rightarrow> Inr s
        | Inr (Some oldest) \<Rightarrow>
            (let stop = stop_limit_of bs oldest
             in Inr (if offsetStopLimitKnown (mx s) \<and> stop = offsetStopLimit (mx s) then s
                     else upd_mx (\<lambda>m. m\<lparr>offsetStopLimit := stop, offsetStopLimitKnown := True\<rparr>) s))))"

definition SetOffsetVacuumLimit ::
  "nat \<Rightarrow> (nat \<Rightarrow> bool) \<Rightarrow> bool \<Rightarrow> multixact \<Rightarrow> (bool \<times> multixact) result" where
  "SetOffsetVacuumLimit bs physical finish_setup s =
     (if \<not> finishedStartup (mx s) \<and> \<not> finish_setup then Inr (False, s)
      else (case (if oldestMultiXactId (mx s) = nextMXact (mx s) then Inr (Some (nextOffset (mx s)))
                  else find_multixact_start bs physical (oldestMultiXactId (mx s)) s) of
          Inl e \<Rightarrow> Inl e
        | Inr found \<Rightarrow>
            (let known = (found \<noteq> None); oldest = (case found of Some off \<Rightarrow> off | None \<Rightarrow> 0);
                 install = (finish_setup \<or> (known \<and> \<not> oldestOffsetKnown (mx s)) \<or>
                            (known \<and> oldestOffset (mx s) \<noteq> oldest));
                 answer = (\<not> known \<or> nextOffset (mx s) - oldest > MULTIXACT_MEMBER_SAFE_THRESHOLD)
             in Inr (answer,
                  if install
                  then upd_mx (\<lambda>m. m\<lparr>oldestOffset := oldest, oldestOffsetKnown := known,
                                     finishedStartup := True\<rparr>) s
                  else s))))"

definition bump_multi :: "MultiXactId \<Rightarrow> MultiXactId" where
  "bump_multi x = (if x < FirstMultiXactId then x + FirstMultiXactId else x)"

definition drop_multi :: "MultiXactId \<Rightarrow> MultiXactId" where
  "drop_multi x = (if x < FirstMultiXactId then x - FirstMultiXactId else x)"

definition SetMultiXactIdLimit ::
  "nat \<Rightarrow> (nat \<Rightarrow> bool) \<Rightarrow> server_mode \<Rightarrow> uint32 \<Rightarrow> MultiXactId \<Rightarrow> Oid \<Rightarrow> multixact \<Rightarrow> multixact result" where
  "SetMultiXactIdLimit bs physical m freeze_max_age oldest_datminmxid oldest_datoid s =
     (let wrap = bump_multi (oldest_datminmxid + drop_bit 1 MaxMultiXactId);
          stop = drop_multi (wrap - 100);
          warn = drop_multi (stop - 10000000);
          vac = bump_multi (oldest_datminmxid + freeze_max_age);
          s = upd_mx (\<lambda>d. d\<lparr>oldestMultiXactId := oldest_datminmxid, oldestMultiXactDB := oldest_datoid,
                multiVacLimit := vac, multiWarnLimit := warn, multiStopLimit := stop,
                multiWrapLimit := wrap\<rparr>) s;
          curMulti = nextMXact (mx s)
      in case SetOffsetVacuumLimit bs physical False s of
           Inl e \<Rightarrow> Inl e
         | Inr (needs_offset_vacuum, s) \<Rightarrow>
             (let s = (if (MultiXactIdPrecedes vac curMulti \<or> needs_offset_vacuum) \<and> IsUnderPostmaster m \<and>
                          \<not> mx_recovery s then mx_emit MX_START_AUTOVAC_LAUNCHER s else s)
              in Inr (if MultiXactIdPrecedes warn curMulti \<and> \<not> mx_recovery s
                      then mx_emit (MX_MUST_BE_VACUUMED_WITHIN (wrap - curMulti)) s else s)))"

definition MultiXactAdvanceNextMXact :: "MultiXactId \<Rightarrow> MultiXactOffset \<Rightarrow> multixact \<Rightarrow> multixact" where
  "MultiXactAdvanceNextMXact minMulti minMultiOffset s =
     (let s = (if MultiXactIdPrecedes (nextMXact (mx s)) minMulti
               then upd_mx (\<lambda>m. m\<lparr>nextMXact := minMulti\<rparr>) s else s)
      in if MultiXactOffsetPrecedes (nextOffset (mx s)) minMultiOffset
         then upd_mx (\<lambda>m. m\<lparr>nextOffset := minMultiOffset\<rparr>) s else s)"

definition MultiXactAdvanceOldest ::
  "nat \<Rightarrow> (nat \<Rightarrow> bool) \<Rightarrow> server_mode \<Rightarrow> uint32 \<Rightarrow> MultiXactId \<Rightarrow> Oid \<Rightarrow> multixact \<Rightarrow> multixact result" where
  "MultiXactAdvanceOldest bs physical m freeze_max_age oldestMulti oldestDB s =
     (if MultiXactIdPrecedes (oldestMultiXactId (mx s)) oldestMulti
      then SetMultiXactIdLimit bs physical m freeze_max_age oldestMulti oldestDB s else Inr s)"

definition MultiXactSetSafeTruncate :: "MultiXactId \<Rightarrow> multixact \<Rightarrow> multixact" where
  "MultiXactSetSafeTruncate safeTruncateMulti s =
     upd_mx (\<lambda>m. m\<lparr>lastCheckpointedOldest := safeTruncateMulti\<rparr>) s"

text \<open>The two resets of the logs at the end of recovery; the limits are set after them.\<close>

definition trim_offsets :: "nat \<Rightarrow> multixact \<Rightarrow> multixact result" where
  "trim_offsets bs s =
     (let multi = nextMXact (mx s); pageno = MultiXactIdToOffsetPage bs multi;
          entryno = MultiXactIdToOffsetEntry bs multi
      in if entryno \<noteq> 0
         then (case read_mx_page bs (mx_recovery s) (offset_pages s) pageno of
                 Inl e \<Rightarrow> Inl e
               | Inr p \<Rightarrow> Inr (s\<lparr>offset_pages := (offset_pages s)
                   (pageno := Some (take entryno p @ replicate (words_per_page bs - entryno) 0))\<rparr>))
         else Inr s)"

definition trim_members :: "nat \<Rightarrow> multixact \<Rightarrow> multixact result" where
  "trim_members bs s =
     (let offset = nextOffset (mx s); pageno = MXOffsetToMemberPage bs offset;
          flagsoff = MXOffsetToFlagsOffset bs offset; memberoff = MXOffsetToMemberOffset bs offset
      in if flagsoff \<noteq> 0
         then (case read_mx_page bs (mx_recovery s) (member_pages s) pageno of
                 Inl e \<Rightarrow> Inl e
               | Inr p \<Rightarrow> Inr (s\<lparr>member_pages := (member_pages s)
                   (pageno := Some (take (memberoff div 4) p @ replicate (words_per_page bs - memberoff div 4) 0))\<rparr>))
         else Inr s)"

definition TrimMultiXact :: "nat \<Rightarrow> (nat \<Rightarrow> bool) \<Rightarrow> server_mode \<Rightarrow> multixact \<Rightarrow> multixact result" where
  "TrimMultiXact bs physical m s =
     (case trim_offsets bs s of Inl e \<Rightarrow> Inl e | Inr s \<Rightarrow>
      case trim_members bs s of Inl e \<Rightarrow> Inl e | Inr s \<Rightarrow>
      case SetOffsetVacuumLimit bs physical True s of Inl e \<Rightarrow> Inl e | Inr (needs, s) \<Rightarrow>
        (let s = (if needs \<and> IsUnderPostmaster m then mx_emit MX_START_AUTOVAC_LAUNCHER s else s)
         in DetermineSafeOldestOffset bs physical (lastCheckpointedOldest (mx s)) s))"

definition multixact_redo_create ::
  "nat \<Rightarrow> TransactionId \<Rightarrow> MultiXactId \<Rightarrow> MultiXactOffset \<Rightarrow> MultiXactMember list \<Rightarrow>
   multixact \<times> TransactionId \<Rightarrow> (multixact \<times> TransactionId) result" where
  "multixact_redo_create bs xl_xid mid moff members r =
     (case r of (s, next_xid) \<Rightarrow>
        case RecordNewMultiXact bs mid moff members s of
          Inl e \<Rightarrow> Inl e
        | Inr s \<Rightarrow>
            (let s = MultiXactAdvanceNextMXact (mid + 1) (moff + of_nat (length members)) s;
                 max_xid = fold (\<lambda>m max_xid. if TransactionIdPrecedes max_xid (mxid m) then mxid m else max_xid)
                             members xl_xid
             in Inr (s, if TransactionIdFollowsOrEquals max_xid next_xid
                        then TransactionIdAdvance max_xid else next_xid)))"

definition ReadMultiXactCounts :: "multixact \<Rightarrow> (uint32 \<times> MultiXactOffset) option" where
  "ReadMultiXactCounts s =
     (if \<not> oldestOffsetKnown (mx s) then None
      else Some (nextMXact (mx s) - oldestMultiXactId (mx s), nextOffset (mx s) - oldestOffset (mx s)))"

definition MultiXactOffsetPagePrecedes :: "nat \<Rightarrow> nat \<Rightarrow> nat \<Rightarrow> bool" where
  "MultiXactOffsetPagePrecedes bs page1 page2 =
     MultiXactIdPrecedes (of_nat page1 * of_nat (MULTIXACT_OFFSETS_PER_PAGE bs) + FirstMultiXactId)
       (of_nat page2 * of_nat (MULTIXACT_OFFSETS_PER_PAGE bs) + FirstMultiXactId)"

definition MultiXactMemberPagePrecedes :: "nat \<Rightarrow> nat \<Rightarrow> nat \<Rightarrow> bool" where
  "MultiXactMemberPagePrecedes bs page1 page2 =
     MultiXactOffsetPrecedes (of_nat page1 * of_nat (MULTIXACT_MEMBERS_PER_PAGE bs))
       (of_nat page2 * of_nat (MULTIXACT_MEMBERS_PER_PAGE bs))"

end
