(* ===== verification/Standby.thy ===== *)
theory Standby
  imports KnownAssigned Varsup "HOL-Library.Multiset"
begin

section \<open>Following the primary's transactions during recovery (storage/ipc/procarray.c)\<close>

text \<open>
  The startup process keeps the standby's view of the primary's transactions: it extends
  pg_subtrans and the known-assigned array as identifiers turn up in the WAL, removes them
  when they end, and goes through the states of \<open>HotStandbyState\<close> when a running-xacts
  record arrives. Assertions and log messages are left out, locks are implicit: only the
  startup process changes this state. \<open>completed\<close> is the answer of \<open>TransactionIdDidCommit\<close>
  or \<open>TransactionIdDidAbort\<close>, \<open>prepared\<close> that of \<open>StandbyTransactionIdIsPrepared\<close>; the release of
  stale locks is not part of this state.
\<close>

datatype HotStandbyState =
    STANDBY_DISABLED
  | STANDBY_INITIALIZED
  | STANDBY_SNAPSHOT_PENDING
  | STANDBY_SNAPSHOT_READY

text \<open>The enum's values are compared, in the order of their declaration.\<close>

fun standby_rank :: "HotStandbyState \<Rightarrow> nat" where
  "standby_rank STANDBY_DISABLED = 0"
| "standby_rank STANDBY_INITIALIZED = 1"
| "standby_rank STANDBY_SNAPSHOT_PENDING = 2"
| "standby_rank STANDBY_SNAPSHOT_READY = 3"

instantiation HotStandbyState :: linorder
begin

definition less_eq_HotStandbyState :: "HotStandbyState \<Rightarrow> HotStandbyState \<Rightarrow> bool" where
  "less_eq_HotStandbyState a b \<longleftrightarrow> standby_rank a \<le> standby_rank b"

definition less_HotStandbyState :: "HotStandbyState \<Rightarrow> HotStandbyState \<Rightarrow> bool" where
  "less_HotStandbyState a b \<longleftrightarrow> standby_rank a < standby_rank b"

instance
proof
  fix x y :: HotStandbyState
  show "x \<le> y \<Longrightarrow> y \<le> x \<Longrightarrow> x = y"
    by (cases x; cases y) (simp_all add: less_eq_HotStandbyState_def)
qed (auto simp: less_eq_HotStandbyState_def less_HotStandbyState_def)

end

record standby =
  standbyState :: HotStandbyState
  known_xids :: known
  latestObservedXid :: TransactionId
  standbySnapshotPendingXmin :: TransactionId
  lastOverflowedXid :: TransactionId
  latestCompletedXid :: TransactionId
  standby_nextXid :: TransactionId
  standby_subtrans :: subtrans

record RunningTransactionsData =
  xcnt :: nat
  subxid_overflow :: bool
  running_nextXid :: TransactionId
  oldestRunningXid :: TransactionId
  running_latestCompleted :: TransactionId
  rt_xids :: "TransactionId list"

text \<open>The \<open>int\<close> result of the C function, used as the order that \<open>qsort\<close> sorts by.\<close>

definition xidComparator :: "TransactionId \<Rightarrow> TransactionId \<Rightarrow> int" where
  "xidComparator xid1 xid2 = (if xid1 > xid2 then 1 else if xid1 < xid2 then - 1 else 0)"

subsection \<open>The operations\<close>

definition ProcArrayInitRecovery :: "TransactionId \<Rightarrow> standby \<Rightarrow> standby" where
  "ProcArrayInitRecovery initializedUptoXID s =
     s\<lparr>latestObservedXid := TransactionIdRetreat initializedUptoXID\<rparr>"

partial_function (option) extend_after ::
  "nat \<Rightarrow> TransactionId \<Rightarrow> TransactionId \<Rightarrow> subtrans \<Rightarrow> subtrans option" where
  "extend_after bs next_expected xid sub =
     (if TransactionIdPrecedes next_expected xid
      then extend_after bs (TransactionIdAdvance next_expected) xid
             (ExtendSUBTRANS bs (TransactionIdAdvance next_expected) sub)
      else Some sub)"

definition RecordKnownAssignedTransactionIds ::
  "nat \<Rightarrow> nat \<Rightarrow> TransactionId \<Rightarrow> standby \<Rightarrow> standby result" where
  "RecordKnownAssignedTransactionIds bs maxprocs xid s =
     (if TransactionIdFollows xid (latestObservedXid s) then
        (case extend_after bs (latestObservedXid s) xid (standby_subtrans s) of
           None \<Rightarrow> Inl LOOP
         | Some sub \<Rightarrow>
             (let s = s\<lparr>standby_subtrans := sub\<rparr>
              in if standbyState s \<le> STANDBY_INITIALIZED then Inr (s\<lparr>latestObservedXid := xid\<rparr>)
                 else
                   (case KnownAssignedXidsAdd maxprocs (TransactionIdAdvance (latestObservedXid s)) xid
                           (known_xids s) of
                      Inl e \<Rightarrow> Inl e
                    | Inr k \<Rightarrow> Inr (s\<lparr>known_xids := k, latestObservedXid := xid,
                                      standby_nextXid := TransactionIdAdvance xid\<rparr>))))
      else Inr s)"

definition advance_completed :: "TransactionId \<Rightarrow> standby \<Rightarrow> standby" where
  "advance_completed xid s =
     (if TransactionIdPrecedes (latestCompletedXid s) xid then s\<lparr>latestCompletedXid := xid\<rparr> else s)"

definition ExpireTreeKnownAssignedTransactionIds ::
  "nat \<Rightarrow> TransactionId \<Rightarrow> TransactionId list \<Rightarrow> TransactionId \<Rightarrow> standby \<Rightarrow> standby" where
  "ExpireTreeKnownAssignedTransactionIds maxprocs xid children max_xid s =
     advance_completed max_xid
       (s\<lparr>known_xids := KnownAssignedXidsRemoveTree maxprocs xid children (known_xids s)\<rparr>)"

definition ExpireAllKnownAssignedTransactionIds ::
  "nat \<Rightarrow> (TransactionId \<Rightarrow> bool) \<Rightarrow> standby \<Rightarrow> standby" where
  "ExpireAllKnownAssignedTransactionIds maxprocs prepared s =
     s\<lparr>known_xids := KnownAssignedXidsRemovePreceding maxprocs prepared InvalidTransactionId (known_xids s)\<rparr>"

definition ExpireOldKnownAssignedTransactionIds ::
  "nat \<Rightarrow> (TransactionId \<Rightarrow> bool) \<Rightarrow> TransactionId \<Rightarrow> standby \<Rightarrow> standby" where
  "ExpireOldKnownAssignedTransactionIds maxprocs prepared xid s =
     s\<lparr>known_xids := KnownAssignedXidsRemovePreceding maxprocs prepared xid (known_xids s)\<rparr>"

definition ProcArrayApplyXidAssignment ::
  "nat \<Rightarrow> nat \<Rightarrow> TransactionId \<Rightarrow> TransactionId list \<Rightarrow> standby \<Rightarrow> standby result" where
  "ProcArrayApplyXidAssignment bs maxprocs topxid children s =
     (let max_xid = TransactionIdLatest topxid children
      in case RecordKnownAssignedTransactionIds bs maxprocs max_xid s of
           Inl e \<Rightarrow> Inl e
         | Inr s \<Rightarrow>
             (case foldM (\<lambda>x sub. SubTransSetParent bs x topxid sub) children (standby_subtrans s) of
                Inl e \<Rightarrow> Inl e
              | Inr sub \<Rightarrow>
                  (let s = s\<lparr>standby_subtrans := sub\<rparr>
                   in if standbyState s = STANDBY_INITIALIZED then Inr s
                      else
                        (let s = s\<lparr>known_xids :=
                               KnownAssignedXidsRemoveTree maxprocs InvalidTransactionId children (known_xids s)\<rparr>
                         in Inr (if TransactionIdPrecedes (lastOverflowedXid s) max_xid
                                 then s\<lparr>lastOverflowedXid := max_xid\<rparr> else s)))))"

text \<open>The loop leaves \<open>latestObservedXid\<close> one step too far, \<open>TransactionIdRetreat\<close> takes it back.\<close>

partial_function (option) extend_until ::
  "nat \<Rightarrow> TransactionId \<Rightarrow> TransactionId \<Rightarrow> subtrans \<Rightarrow> (TransactionId \<times> subtrans) option" where
  "extend_until bs xid next_xid sub =
     (if TransactionIdPrecedes xid next_xid
      then extend_until bs (TransactionIdAdvance xid) next_xid (ExtendSUBTRANS bs xid sub)
      else Some (xid, sub))"

definition add_sorted ::
  "nat \<Rightarrow> (TransactionId \<Rightarrow> bool) \<Rightarrow> TransactionId list \<Rightarrow> known \<Rightarrow> known result" where
  "add_sorted maxprocs completed running k =
     (let xids = filter (\<lambda>x. \<not> completed x) running
      in if xids \<noteq> [] then
           (if numKnownAssignedXids k \<noteq> 0 then Inl (ERROR ''KnownAssignedXids is not empty'')
            else foldM (\<lambda>x k. KnownAssignedXidsAdd maxprocs x x k) (sort xids) k)
         else Inr k)"

definition init_from_running ::
  "nat \<Rightarrow> nat \<Rightarrow> (TransactionId \<Rightarrow> bool) \<Rightarrow> RunningTransactionsData \<Rightarrow> standby \<Rightarrow> standby result" where
  "init_from_running bs maxprocs completed running s =
     (case add_sorted maxprocs completed (rt_xids running) (known_xids s) of
        Inl e \<Rightarrow> Inl e
      | Inr k \<Rightarrow>
          (case extend_until bs (TransactionIdAdvance (latestObservedXid s)) (running_nextXid running)
                  (standby_subtrans s) of
             None \<Rightarrow> Inl LOOP
           | Some (xid, sub) \<Rightarrow>
               (let latest = TransactionIdRetreat xid;
                    s = s\<lparr>known_xids := k, standby_subtrans := sub, latestObservedXid := latest\<rparr>;
                    s = (if subxid_overflow running
                         then s\<lparr>standbyState := STANDBY_SNAPSHOT_PENDING,
                                standbySnapshotPendingXmin := latest, lastOverflowedXid := latest\<rparr>
                         else s\<lparr>standbyState := STANDBY_SNAPSHOT_READY,
                                standbySnapshotPendingXmin := InvalidTransactionId\<rparr>);
                    s = advance_completed (running_latestCompleted running) s;
                    next_xid = TransactionIdAdvance latest
                in Inr (if TransactionIdFollows next_xid (standby_nextXid s)
                        then s\<lparr>standby_nextXid := next_xid\<rparr> else s))))"

definition ProcArrayApplyRecoveryInfo ::
  "nat \<Rightarrow> nat \<Rightarrow> (TransactionId \<Rightarrow> bool) \<Rightarrow> (TransactionId \<Rightarrow> bool) \<Rightarrow> RunningTransactionsData \<Rightarrow>
   standby \<Rightarrow> standby result" where
  "ProcArrayApplyRecoveryInfo bs maxprocs prepared completed running s =
     (let s = ExpireOldKnownAssignedTransactionIds maxprocs prepared (oldestRunningXid running) s
      in if standbyState s = STANDBY_SNAPSHOT_READY then Inr s
         else if standbyState s = STANDBY_SNAPSHOT_PENDING then
           (if \<not> subxid_overflow running \<or> xcnt running = 0
            then init_from_running bs maxprocs completed running
                   (s\<lparr>known_xids := KnownAssignedXidsReset (known_xids s),
                      standbyState := STANDBY_INITIALIZED\<rparr>)
            else if TransactionIdPrecedes (standbySnapshotPendingXmin s) (oldestRunningXid running)
            then Inr (s\<lparr>standbyState := STANDBY_SNAPSHOT_READY\<rparr>)
            else Inr s)
         else init_from_running bs maxprocs completed running s)"

lemma sort_xidComparator:
  "sorted_wrt (\<lambda>x y. xidComparator x y \<le> 0) (sort xids)" "mset (sort xids) = mset xids"
proof -
  have "(\<lambda>x y. xidComparator x y \<le> 0) = (\<le>)"
    by (auto simp: fun_eq_iff xidComparator_def not_less)
  then show "sorted_wrt (\<lambda>x y. xidComparator x y \<le> 0) (sort xids)" by (simp add: sorted_sort)
qed simp

subsection \<open>The loops end\<close>

lemma Precedes_base:
  assumes "TransactionIdIsNormal a" and "TransactionIdIsNormal x" and "age b a < 2 ^ 31" "age b x < 2 ^ 31"
    and "TransactionIdPrecedes a x"
  shows "age b a < age b (TransactionIdAdvance a)" "age b (TransactionIdAdvance a) \<le> age b x"
    "age (TransactionIdAdvance a) x < age a x"
  using Advance_toward [OF assms(1,2), of b] assms(5) Precedes_age(1) [OF assms(1-4)] by simp_all

lemma extend_after_ends:
  assumes "TransactionIdIsNormal a" and "TransactionIdIsNormal x" and "age b a < 2 ^ 31" "age b x < 2 ^ 31"
  shows "\<exists>sub'. extend_after bs a x sub = Some sub'"
  using assms
proof (induction "age a x" arbitrary: a sub rule: less_induct)
  case less
  show ?case
  proof (cases "TransactionIdPrecedes a x")
    case True
    note t = Precedes_base [OF less.prems True]
    from less.hyps [OF t(3) Advance_normal less.prems(2) _ less.prems(4)] t(2) less.prems(4)
    show ?thesis using True by (subst extend_after.simps) auto
  next
    case False
    then show ?thesis by (subst extend_after.simps) simp
  qed
qed

lemma extend_until_ends:
  assumes "TransactionIdIsNormal a" and "TransactionIdIsNormal x" and "age b a < 2 ^ 31" "age b x < 2 ^ 31"
  shows "\<exists>sub'. extend_until bs a x sub = Some (if TransactionIdPrecedes a x then x else a, sub')"
  using assms
proof (induction "age a x" arbitrary: a sub rule: less_induct)
  case less
  show ?case
  proof (cases "TransactionIdPrecedes a x")
    case True
    note t = Precedes_base [OF less.prems True]
    have "age b (TransactionIdAdvance a) < 2 ^ 31" using t(2) less.prems(4) by simp
    then have "\<not> TransactionIdPrecedes (TransactionIdAdvance a) x \<longrightarrow> TransactionIdAdvance a = x"
      using Precedes_age(1) [OF Advance_normal less.prems(2) _ less.prems(4), of a] t(2)
        age_inj [of b "TransactionIdAdvance a" x] by linarith
    with less.hyps [OF t(3) Advance_normal less.prems(2) \<open>age b (TransactionIdAdvance a) < 2 ^ 31\<close> less.prems(4)]
    show ?thesis using True by (subst extend_until.simps) (auto split: if_splits)
  next
    case False
    then show ?thesis by (subst extend_until.simps) simp
  qed
qed

subsection \<open>The set that a range of identifiers is\<close>

definition xids_upto :: "TransactionId \<Rightarrow> TransactionId \<Rightarrow> TransactionId \<Rightarrow> TransactionId set" where
  "xids_upto base x y = {z. TransactionIdIsNormal z \<and> age base x < age base z \<and> age base z \<le> age base y}"

lemma range_below:
  assumes "range_to a x n" and "addable base a x" and "k < n" and "j < k"
  shows "age base ((TransactionIdAdvance ^^ j) a) < age base ((TransactionIdAdvance ^^ k) a)"
  using assms(3,4)
proof (induction k)
  case (Suc k)
  then show ?case
    using range_age(2) [OF assms(1), of base k] assms(2)
    by (cases "j = k") (auto simp: addable_def)
qed simp

lemma range_set:
  assumes r: "range_to a x n" and a: "addable base a x"
  shows "set (xid_range n a) =
    {z. TransactionIdIsNormal z \<and> age base a \<le> age base z \<and> age base z \<le> age base x}" (is "_ = ?R")
proof
  show "set (xid_range n a) \<subseteq> ?R"
  proof
    fix z assume "z \<in> set (xid_range n a)"
    then obtain k where k: "k < n" "z = (TransactionIdAdvance ^^ k) a" by (auto simp: xid_range_def)
    have "age base a \<le> age base z"
      using range_below [OF r a k(1), of 0] k by (cases k) auto
    then show "z \<in> ?R"
      using range_age(1) [OF r, of base k] k a Advance_funpow_normal [of a k] by (simp add: addable_def)
  qed
next
  show "?R \<subseteq> set (xid_range n a)"
  proof
    fix z assume z: "z \<in> ?R"
    then have az: "addable base a z" using a by (simp add: addable_def)
    have "age a z < 2 ^ 31" using age_between [of base a z] az by (simp add: addable_def)
    then obtain m where m: "range_to a z m"
      using add_count_ok [of a z] az by (auto simp: addable_def)
    have "m - 1 < n"
    proof (rule ccontr)
      assume "\<not> m - 1 < n"
      moreover have "0 < n" "(TransactionIdAdvance ^^ (n - 1)) a = x" "0 < m"
        "(TransactionIdAdvance ^^ (m - 1)) a = z"
        using r m by (simp_all add: range_to_def)
      ultimately have "age base x < age base z"
        using range_below [OF m az, of "m - 1" "n - 1"] by simp
      then show False using z by simp
    qed
    then show "z \<in> set (xid_range n a)"
      using m by (auto simp: xid_range_def range_to_def)
  qed
qed

lemma Advance_next:
  assumes "TransactionIdIsNormal l" and "TransactionIdIsNormal x" and "age base l < age base x"
    and "TransactionIdIsNormal z"
  shows "age base (TransactionIdAdvance l) \<le> age base z \<longleftrightarrow> age base l < age base z"
  using Advance_toward(1) [OF assms(1-3)] Advance_toward(2) [OF assms(1,4), of base] by auto

subsection \<open>Refinement of the set of running transactions\<close>

text \<open>
  The invariant: nothing in the array is younger than the latest observed identifier, so an
  insertion is never out of order.
\<close>

definition standby_ok :: "TransactionId \<Rightarrow> standby \<Rightarrow> bool" where
  "standby_ok base s \<longleftrightarrow> wf_known base (known_xids s) \<and> standbyState s > STANDBY_INITIALIZED \<and>
     TransactionIdIsNormal (latestObservedXid s) \<and> age base (latestObservedXid s) < 2 ^ 31 \<and>
     (\<forall>x \<in> slot_set (known_xids s). age base x \<le> age base (latestObservedXid s))"

definition running_set :: "standby \<Rightarrow> TransactionId set" where
  "running_set s = set (known_list (known_xids s))"

lemma state_not_initialized: "standbyState s > STANDBY_INITIALIZED \<Longrightarrow> \<not> standbyState s \<le> STANDBY_INITIALIZED"
  by (simp add: not_le)

lemma range_distinct:
  assumes "range_to a x n" and "addable base a x"
  shows "distinct (xid_range n a)"
proof -
  have "j < k \<Longrightarrow> k < n \<Longrightarrow> (TransactionIdAdvance ^^ j) a \<noteq> (TransactionIdAdvance ^^ k) a" for j k
    using range_below [OF assms, of k j] by auto
  then show ?thesis by (auto simp: xid_range_def distinct_map inj_on_def) (metis linorder_neqE_nat)
qed

text \<open>No operation changes the size of the array.\<close>

lemma Compress_max: "maxKnownAssignedXids (KnownAssignedXidsCompress p f k) = maxKnownAssignedXids k"
  by (simp add: KnownAssignedXidsCompress_def Let_def split: prod.splits)

lemma Add_max:
  "KnownAssignedXidsAdd p x y k = Inr k' \<Longrightarrow> maxKnownAssignedXids k' = maxKnownAssignedXids k"
  by (auto simp: KnownAssignedXidsAdd_def Let_def Compress_max split: option.splits if_splits prod.splits)

lemma RemovePreceding_max:
  "maxKnownAssignedXids (KnownAssignedXidsRemovePreceding p prepared x k) = maxKnownAssignedXids k"
  by (simp add: KnownAssignedXidsRemovePreceding_def Let_def Compress_max set_tail_def split: prod.splits)

lemma Remove_max: "maxKnownAssignedXids (KnownAssignedXidsRemove x k) = maxKnownAssignedXids k"
  by (simp add: KnownAssignedXidsRemove_def KnownAssignedXidsSearch_def Let_def set_tail_def)

lemma RemoveTree_max:
  "maxKnownAssignedXids (KnownAssignedXidsRemoveTree p x xs k) = maxKnownAssignedXids k"
proof -
  have "maxKnownAssignedXids (fold KnownAssignedXidsRemove xs k) = maxKnownAssignedXids k" for k
    by (induction xs arbitrary: k) (simp_all add: Remove_max)
  then show ?thesis by (simp add: KnownAssignedXidsRemoveTree_def Compress_max Remove_max)
qed

lemma known_card:
  assumes "wf_known base k"
  shows "card (set (known_list k)) = length (known_list k)" "length (known_list k) \<le> maxKnownAssignedXids k"
proof -
  show "card (set (known_list k)) = length (known_list k)"
    by (rule distinct_card [OF known_list_distinct [OF assms]])
  have "length (known_list k) \<le> headKnownAssignedXids k"
    unfolding known_list_def by (rule order_trans [OF length_slots]) simp
  then show "length (known_list k) \<le> maxKnownAssignedXids k" using wf_knownD(4) [OF assms] by simp
qed

definition capacity :: "standby \<Rightarrow> nat" where
  "capacity s = maxKnownAssignedXids (known_xids s)"

lemma Record_cases:
  assumes ok: "standby_ok base s" and x: "TransactionIdIsNormal x" "age base x < 2 ^ 31"
  shows "if card (running_set s \<union> xids_upto base (latestObservedXid s) x) \<le> capacity s
    then \<exists>s'. RecordKnownAssignedTransactionIds bs maxprocs x s = Inr s' \<and> standby_ok base s' \<and>
      running_set s' = running_set s \<union> xids_upto base (latestObservedXid s) x \<and> capacity s' = capacity s \<and>
      latestObservedXid s' = (if age base (latestObservedXid s) < age base x then x else latestObservedXid s)
    else RecordKnownAssignedTransactionIds bs maxprocs x s = Inl (ERROR ''too many KnownAssignedXids'')"
proof -
  let ?l = "latestObservedXid s"
  have l: "TransactionIdIsNormal ?l" "age base ?l < 2 ^ 31" and wf: "wf_known base (known_xids s)"
    and old: "\<And>y. y \<in> slot_set (known_xids s) \<Longrightarrow> age base y \<le> age base ?l"
    and st: "\<not> standbyState s \<le> STANDBY_INITIALIZED"
    using ok by (auto simp: standby_ok_def not_le)
  have f: "TransactionIdFollows x ?l \<longleftrightarrow> age base ?l < age base x"
    using Precedes_age(3) [OF x(1) l(1) x(2) l(2)] by simp
  show ?thesis
  proof (cases "age base ?l < age base x")
    case False
    then have "RecordKnownAssignedTransactionIds bs maxprocs x s = Inr s"
      "xids_upto base ?l x = {}"
      using f by (auto simp: RecordKnownAssignedTransactionIds_def xids_upto_def)
    then show ?thesis using ok False known_card [OF wf] by (simp add: running_set_def capacity_def)
  next
    case True
    define from_x where "from_x = TransactionIdAdvance ?l"
    note t = Advance_toward [OF l(1) x(1) True, folded from_x_def]
    have a: "addable base from_x x"
      using t x Advance_normal [of ?l] by (simp add: addable_def from_x_def)
    have seq: "in_sequence from_x (known_xids s)"
    proof (cases "headKnownAssignedXids (known_xids s) \<le> tailKnownAssignedXids (known_xids s)")
      case False
      let ?i = "headKnownAssignedXids (known_xids s) - 1"
      let ?y = "KnownAssignedXids (known_xids s) ! ?i"
      have i: "tailKnownAssignedXids (known_xids s) \<le> ?i" "?i < headKnownAssignedXids (known_xids s)"
        using False by auto
      then have "age base ?y \<le> age base ?l" by (intro old) (auto simp: slot_set_def)
      then have "\<not> TransactionIdFollowsOrEquals ?y from_x"
        using Precedes_age(4) [of ?y from_x base] orderedD(1) [OF wf_knownD(6) [OF wf] i] a t(1)
        by (simp add: addable_def)
      then show ?thesis by (simp add: in_sequence_def)
    qed (simp add: in_sequence_def)
    obtain sub where sub: "extend_after bs ?l x (standby_subtrans s) = Some sub"
      using extend_after_ends [OF l(1) x(1) l(2) x(2)] by blast
    obtain n where n: "range_to from_x x n"
      and many: "length (known_list (known_xids s)) + n > maxKnownAssignedXids (known_xids s) \<Longrightarrow>
        KnownAssignedXidsAdd maxprocs from_x x (known_xids s) = Inl (ERROR ''too many KnownAssignedXids'')"
      and fits: "length (known_list (known_xids s)) + n \<le> maxKnownAssignedXids (known_xids s) \<Longrightarrow>
        \<exists>k. KnownAssignedXidsAdd maxprocs from_x x (known_xids s) = Inr k \<and>
          known_list k = known_list (known_xids s) @ xid_range n from_x \<and> wf_known base k \<and>
          slot_set k \<subseteq> slot_set (known_xids s) \<union> set (xid_range n from_x)"
      by (rule Add_cases [OF wf a, of maxprocs]) (use seq in blast)
    have rec: "RecordKnownAssignedTransactionIds bs maxprocs x s =
      (case KnownAssignedXidsAdd maxprocs from_x x (known_xids s) of
         Inl e \<Rightarrow> Inl e
       | Inr k \<Rightarrow> Inr (s\<lparr>standby_subtrans := sub, known_xids := k, latestObservedXid := x,
                         standby_nextXid := TransactionIdAdvance x\<rparr>))"
      using f True sub st by (simp add: RecordKnownAssignedTransactionIds_def from_x_def Let_def)
    have rng: "set (xid_range n from_x) = xids_upto base ?l x"
      using range_set [OF n a] Advance_next [OF l(1) x(1) True]
      by (auto simp: xids_upto_def from_x_def)
    have "running_set s \<inter> xids_upto base ?l x = {}"
      using old known_list_slots [of "known_xids s"] by (force simp: running_set_def xids_upto_def)
    moreover have "card (xids_upto base ?l x) = n"
      using distinct_card [OF range_distinct [OF n a]] by (simp add: rng) (simp add: xid_range_def)
    ultimately have size: "card (running_set s \<union> xids_upto base ?l x) = length (known_list (known_xids s)) + n"
      using known_card(1) [OF wf] card_Un_disjoint [of "running_set s" "xids_upto base ?l x"] rng
      by (simp add: running_set_def finite_set [of "xid_range n from_x", unfolded rng])
    show ?thesis
    proof (cases "length (known_list (known_xids s)) + n \<le> maxKnownAssignedXids (known_xids s)")
      case False
      then show ?thesis using many rec size by (simp add: capacity_def)
    next
      case fit: True
      then obtain k where k: "KnownAssignedXidsAdd maxprocs from_x x (known_xids s) = Inr k"
        "known_list k = known_list (known_xids s) @ xid_range n from_x" "wf_known base k"
        "slot_set k \<subseteq> slot_set (known_xids s) \<union> xids_upto base ?l x"
        using fits rng by auto
      have "\<forall>y \<in> slot_set k. age base y \<le> age base x"
        using k(4) old True by (force simp: xids_upto_def)
      then have "standby_ok base (s\<lparr>standby_subtrans := sub, known_xids := k, latestObservedXid := x,
          standby_nextXid := TransactionIdAdvance x\<rparr>)"
        using ok k(3) x by (simp add: standby_ok_def)
      then show ?thesis
        using rec k(1,2) rng True fit size Add_max [OF k(1)]
        by (simp add: capacity_def) (simp add: running_set_def)
    qed
  qed
qed

lemma advance_completed_simps [simp]:
  "known_xids (advance_completed x s) = known_xids s"
  "latestObservedXid (advance_completed x s) = latestObservedXid s"
  "standbyState (advance_completed x s) = standbyState s"
  by (simp_all add: advance_completed_def)

lemma Expire_ok:
  assumes "standby_ok base s"
  shows "standby_ok base (ExpireTreeKnownAssignedTransactionIds maxprocs x children m s)"
    "running_set (ExpireTreeKnownAssignedTransactionIds maxprocs x children m s) =
      running_set s - insert x (set children)"
    "latestObservedXid (ExpireTreeKnownAssignedTransactionIds maxprocs x children m s) = latestObservedXid s"
    "capacity (ExpireTreeKnownAssignedTransactionIds maxprocs x children m s) = capacity s"
proof -
  have wf: "wf_known base (known_xids s)" using assms by (simp add: standby_ok_def)
  show "standby_ok base (ExpireTreeKnownAssignedTransactionIds maxprocs x children m s)"
    using assms RemoveTree_list(2) [OF wf] RemoveTree_slots [OF wf]
    by (fastforce simp: standby_ok_def ExpireTreeKnownAssignedTransactionIds_def)
  show "running_set (ExpireTreeKnownAssignedTransactionIds maxprocs x children m s) =
      running_set s - insert x (set children)"
    using RemoveTree_list(1) [OF wf]
    by (auto simp: running_set_def ExpireTreeKnownAssignedTransactionIds_def)
qed (simp_all add: ExpireTreeKnownAssignedTransactionIds_def capacity_def RemoveTree_max)

lemma ExpireOld_ok:
  assumes "standby_ok base s" and x: "TransactionIdIsNormal x" "age base x < 2 ^ 31"
  shows "standby_ok base (ExpireOldKnownAssignedTransactionIds maxprocs prepared x s)"
    "running_set (ExpireOldKnownAssignedTransactionIds maxprocs prepared x s) =
      {y \<in> running_set s. age base x \<le> age base y \<or> prepared y}"
    "latestObservedXid (ExpireOldKnownAssignedTransactionIds maxprocs prepared x s) = latestObservedXid s"
    "capacity (ExpireOldKnownAssignedTransactionIds maxprocs prepared x s) = capacity s"
proof -
  have wf: "wf_known base (known_xids s)" using assms(1) by (simp add: standby_ok_def)
  show "standby_ok base (ExpireOldKnownAssignedTransactionIds maxprocs prepared x s)"
    using assms RemovePreceding_list(2) [OF wf x] RemovePreceding_slots [OF wf x]
    by (fastforce simp: standby_ok_def ExpireOldKnownAssignedTransactionIds_def)
  have "TransactionIdPrecedes y x \<longleftrightarrow> age base y < age base x" if "y \<in> running_set s" for y
    using Precedes_age(1) [of y x base] x known_list_window [OF wf] that
    by (auto simp: running_set_def xid_window_def)
  then show "running_set (ExpireOldKnownAssignedTransactionIds maxprocs prepared x s) =
      {y \<in> running_set s. age base x \<le> age base y \<or> prepared y}"
    using RemovePreceding_list(1) [OF wf x, of maxprocs prepared]
    by (auto simp: running_set_def ExpireOldKnownAssignedTransactionIds_def)
qed (simp_all add: ExpireOldKnownAssignedTransactionIds_def capacity_def RemovePreceding_max)

text \<open>The WAL records of a standby that is past initialization, as operations on the state.\<close>

datatype standby_record =
    Observe TransactionId
  | End TransactionId "TransactionId list" TransactionId
  | Prune TransactionId

fun apply_record ::
  "nat \<Rightarrow> nat \<Rightarrow> (TransactionId \<Rightarrow> bool) \<Rightarrow> standby_record \<Rightarrow> standby \<Rightarrow> standby result" where
  "apply_record bs maxprocs prepared (Observe x) s = RecordKnownAssignedTransactionIds bs maxprocs x s"
| "apply_record bs maxprocs prepared (End x children max_xid) s =
     Inr (ExpireTreeKnownAssignedTransactionIds maxprocs x children max_xid s)"
| "apply_record bs maxprocs prepared (Prune x) s =
     Inr (ExpireOldKnownAssignedTransactionIds maxprocs prepared x s)"

text \<open>
  The same records on the abstract state: the latest identifier and the running set, of which
  there may be no more than \<open>cap\<close>.
\<close>

fun abs_record ::
  "TransactionId \<Rightarrow> nat \<Rightarrow> (TransactionId \<Rightarrow> bool) \<Rightarrow> standby_record \<Rightarrow>
   TransactionId \<times> TransactionId set \<Rightarrow> (TransactionId \<times> TransactionId set) result" where
  "abs_record base cap prepared (Observe x) (latest, R) =
     (if card (R \<union> xids_upto base latest x) \<le> cap
      then Inr (if age base latest < age base x then x else latest, R \<union> xids_upto base latest x)
      else Inl (ERROR ''too many KnownAssignedXids''))"
| "abs_record base cap prepared (End x children max_xid) (latest, R) = Inr (latest, R - insert x (set children))"
| "abs_record base cap prepared (Prune x) (latest, R) =
     Inr (latest, {y \<in> R. age base x \<le> age base y \<or> prepared y})"

fun record_in_window :: "TransactionId \<Rightarrow> standby_record \<Rightarrow> bool" where
  "record_in_window base (Observe x) \<longleftrightarrow> TransactionIdIsNormal x \<and> age base x < 2 ^ 31"
| "record_in_window base (End x children max_xid) \<longleftrightarrow> True"
| "record_in_window base (Prune x) \<longleftrightarrow> TransactionIdIsNormal x \<and> age base x < 2 ^ 31"

definition standby_abs :: "standby \<Rightarrow> TransactionId \<times> TransactionId set" where
  "standby_abs s = (latestObservedXid s, running_set s)"

text \<open>A result of the standby stands for the result of the abstract machine with its state abstracted.\<close>

definition refines_abs ::
  "TransactionId \<Rightarrow> nat \<Rightarrow> standby result \<Rightarrow> (TransactionId \<times> TransactionId set) result \<Rightarrow> bool" where
  "refines_abs base cap r r' \<longleftrightarrow> map_sum id standby_abs r = r' \<and>
     (\<forall>s. r = Inr s \<longrightarrow> standby_ok base s \<and> capacity s = cap)"

lemma apply_record_refines:
  assumes "standby_ok base s" and "record_in_window base r" and "capacity s = cap"
  shows "refines_abs base cap (apply_record bs maxprocs prepared r s) (abs_record base cap prepared r (standby_abs s))"
proof (cases r)
  case (Observe x)
  then have x: "TransactionIdIsNormal x" "age base x < 2 ^ 31" using assms(2) by simp_all
  show ?thesis
    using Record_cases [OF assms(1) x, of bs maxprocs] assms(3)
    by (auto simp: Observe standby_abs_def refines_abs_def split: if_splits)
next
  case (End x children m)
  then show ?thesis using Expire_ok [OF assms(1)] assms(3) by (simp add: standby_abs_def refines_abs_def)
next
  case (Prune x)
  then have x: "TransactionIdIsNormal x" "age base x < 2 ^ 31" using assms(2) by simp_all
  show ?thesis using ExpireOld_ok [OF assms(1) x] assms(3) by (simp add: Prune standby_abs_def refines_abs_def)
qed

lemma records_refine:
  assumes "standby_ok base s" and "\<forall>r \<in> set rs. record_in_window base r"
  shows "refines_abs base (capacity s) (foldM (apply_record bs maxprocs prepared) rs s)
    (foldM (abs_record base (capacity s) prepared) rs (standby_abs s))"
  using assms
proof (induction rs arbitrary: s)
  case Nil
  then show ?case by (simp add: refines_abs_def)
next
  case (Cons r rs)
  have one: "refines_abs base (capacity s) (apply_record bs maxprocs prepared r s)
      (abs_record base (capacity s) prepared r (standby_abs s))"
    using apply_record_refines [OF Cons.prems(1), of r] Cons.prems(2) by simp
  show ?case
  proof (cases "apply_record bs maxprocs prepared r s")
    case (Inl e)
    then have "abs_record base (capacity s) prepared r (standby_abs s) = Inl e"
      using one by (simp add: refines_abs_def)
    then show ?thesis using Inl by (simp add: refines_abs_def)
  next
    case (Inr s')
    then have "abs_record base (capacity s) prepared r (standby_abs s) = Inr (standby_abs s')"
      "standby_ok base s'" "capacity s' = capacity s"
      using one by (auto simp: refines_abs_def)
    then show ?thesis using Cons.IH [of s'] Cons.prems(2) Inr by simp
  qed
qed

subsection \<open>Starting from a running-xacts record\<close>

text \<open>
  The identifiers are sorted numerically, then added one after the other. That works exactly
  when the numeric order is the transaction order, which it is not for transactions on both
  sides of the wraparound point.
\<close>

lemma single_range: "range_to x x n \<Longrightarrow> n = 1"
  by (cases "n = 1") (auto simp: range_to_def dest: spec [of _ 0])

lemma Add_one:
  assumes wf: "wf_known base k" and x: "TransactionIdIsNormal x" "age base x < 2 ^ 31"
  shows "\<not> in_sequence x k \<Longrightarrow> KnownAssignedXidsAdd maxprocs x x k =
      Inl (ERROR ''out-of-order XID insertion in KnownAssignedXids'')"
    "in_sequence x k \<Longrightarrow> maxKnownAssignedXids k \<le> length (known_list k) \<Longrightarrow>
      KnownAssignedXidsAdd maxprocs x x k = Inl (ERROR ''too many KnownAssignedXids'')"
    "in_sequence x k \<Longrightarrow> length (known_list k) < maxKnownAssignedXids k \<Longrightarrow>
      \<exists>k'. KnownAssignedXidsAdd maxprocs x x k = Inr k' \<and> known_list k' = known_list k @ [x] \<and>
        wf_known base k' \<and> slot_set k' \<subseteq> slot_set k \<union> {x}"
proof -
  have a: "addable base x x" using x by (simp add: addable_def)
  obtain n where n: "range_to x x n"
    and c: "\<not> in_sequence x k \<Longrightarrow> KnownAssignedXidsAdd maxprocs x x k =
      Inl (ERROR ''out-of-order XID insertion in KnownAssignedXids'')"
    "in_sequence x k \<Longrightarrow> length (known_list k) + n > maxKnownAssignedXids k \<Longrightarrow>
      KnownAssignedXidsAdd maxprocs x x k = Inl (ERROR ''too many KnownAssignedXids'')"
    "in_sequence x k \<Longrightarrow> length (known_list k) + n \<le> maxKnownAssignedXids k \<Longrightarrow>
      \<exists>s'. KnownAssignedXidsAdd maxprocs x x k = Inr s' \<and>
        known_list s' = known_list k @ xid_range n x \<and> wf_known base s' \<and>
        slot_set s' \<subseteq> slot_set k \<union> set (xid_range n x)"
    by (rule Add_cases [OF wf a, of maxprocs]) blast
  have "n = 1" "xid_range n x = [x]" using single_range [OF n] by (simp_all add: xid_range_def)
  then show "\<not> in_sequence x k \<Longrightarrow> KnownAssignedXidsAdd maxprocs x x k =
      Inl (ERROR ''out-of-order XID insertion in KnownAssignedXids'')"
    "in_sequence x k \<Longrightarrow> maxKnownAssignedXids k \<le> length (known_list k) \<Longrightarrow>
      KnownAssignedXidsAdd maxprocs x x k = Inl (ERROR ''too many KnownAssignedXids'')"
    "in_sequence x k \<Longrightarrow> length (known_list k) < maxKnownAssignedXids k \<Longrightarrow>
      \<exists>k'. KnownAssignedXidsAdd maxprocs x x k = Inr k' \<and> known_list k' = known_list k @ [x] \<and>
        wf_known base k' \<and> slot_set k' \<subseteq> slot_set k \<union> {x}"
    using c by auto
qed

definition newest :: "TransactionId \<Rightarrow> known \<Rightarrow> TransactionId \<Rightarrow> bool" where
  "newest base k v \<longleftrightarrow> v \<in> slot_set k \<and> (\<forall>y \<in> slot_set k. age base y \<le> age base v)"

lemma in_sequence_newest:
  assumes wf: "wf_known base k" and v: "newest base k v" and x: "TransactionIdIsNormal x" "age base x < 2 ^ 31"
  shows "in_sequence x k \<longleftrightarrow> age base v < age base x"
proof -
  note ord = wf_knownD(6) [OF wf]
  let ?lo = "tailKnownAssignedXids k" and ?hi = "headKnownAssignedXids k"
  let ?u = "KnownAssignedXids k ! (?hi - 1)"
  obtain i where i: "?lo \<le> i" "i < ?hi" "v = KnownAssignedXids k ! i"
    using v by (auto simp: newest_def slot_set_def)
  have l: "?lo \<le> ?hi - 1" "?hi - 1 < ?hi" using i by auto
  have "i = ?hi - 1 \<or> i < ?hi - 1" using i by linarith
  then have "age base v \<le> age base ?u"
    using orderedD(2) [OF ord i(1), of "?hi - 1"] l i(3) by auto
  moreover have "age base ?u \<le> age base v"
    using v l by (auto simp: newest_def slot_set_def)
  ultimately have "?u = v" using age_inj [of base ?u v] by linarith
  moreover have "TransactionIdIsNormal v" "age base v < 2 ^ 31"
    using orderedD(1) [OF ord i(1,2)] i(3) by simp_all
  ultimately show ?thesis
    using Precedes_age(4) [of v x base] x i by (auto simp: in_sequence_def)
qed

lemma Add_newest:
  assumes wf: "wf_known base k" and x: "TransactionIdIsNormal x" "age base x < 2 ^ 31"
    and seq: "in_sequence x k" and fit: "length (known_list k) < maxKnownAssignedXids k"
  obtains k' where "KnownAssignedXidsAdd p x x k = Inr k'" and "known_list k' = known_list k @ [x]"
    and "wf_known base k'" and "newest base k' x" and "maxKnownAssignedXids k' = maxKnownAssignedXids k"
proof -
  obtain k' where k': "KnownAssignedXidsAdd p x x k = Inr k'" "known_list k' = known_list k @ [x]"
    "wf_known base k'" "slot_set k' \<subseteq> slot_set k \<union> {x}"
    using Add_one(3) [OF wf x seq fit] by blast
  have a: "addable base x x" using x by (simp add: addable_def)
  have "age base y < age base x" if "y \<in> slot_set k" for y
    using in_sequence_age [OF wf a seq] that by (auto simp: slot_set_def)
  then have "newest base k' x"
    using k'(2,4) known_list_slots [of k'] by (fastforce simp: newest_def)
  then show ?thesis using that k' Add_max by blast
qed

abbreviation ascending :: "TransactionId \<Rightarrow> TransactionId list \<Rightarrow> bool" where
  "ascending base \<equiv> sorted_wrt (\<lambda>x y. age base x < age base y)"

lemma ascending_Cons2: "ascending base (v # x # ys) \<longleftrightarrow> age base v < age base x \<and> ascending base (x # ys)"
  by (auto intro: less_trans)

lemma add_all:
  assumes "wf_known base k" and "newest base k v" and "xid_window base (set ys)"
    and "length (known_list k) + length ys \<le> maxKnownAssignedXids k"
  shows "if ascending base (v # ys)
    then \<exists>k'. foldM (\<lambda>x k. KnownAssignedXidsAdd p x x k) ys k = Inr k' \<and>
      known_list k' = known_list k @ ys \<and> wf_known base k' \<and> newest base k' (last (v # ys))
    else foldM (\<lambda>x k. KnownAssignedXidsAdd p x x k) ys k =
      Inl (ERROR ''out-of-order XID insertion in KnownAssignedXids'')"
  using assms
proof (induction ys arbitrary: k v)
  case (Cons x ys)
  have x: "TransactionIdIsNormal x" "age base x < 2 ^ 31"
    using Cons.prems(3) by (auto simp: xid_window_def)
  note seq = in_sequence_newest [OF Cons.prems(1,2) x]
  show ?case
  proof (cases "age base v < age base x")
    case True
    obtain k' where k': "KnownAssignedXidsAdd p x x k = Inr k'" "known_list k' = known_list k @ [x]"
      "wf_known base k'" "newest base k' x" "maxKnownAssignedXids k' = maxKnownAssignedXids k"
      using Add_newest [OF Cons.prems(1) x, of p] seq True Cons.prems(4) by auto
    have w: "xid_window base (set ys)" using Cons.prems(3) by (simp add: xid_window_def)
    from Cons.IH [OF k'(3,4) w] show ?thesis
      using k' True Cons.prems(4) by (simp add: ascending_Cons2 del: sorted_wrt.simps split: if_splits)
  next
    case False
    then show ?thesis using Add_one(1) [OF Cons.prems(1) x, of p] seq by simp
  qed
qed simp

lemma add_sorted_cases:
  assumes wf: "wf_known base k" and empty: "tailKnownAssignedXids k = headKnownAssignedXids k"
    and w: "xid_window base (set (filter (\<lambda>x. \<not> completed x) running))"
    and fit: "length (filter (\<lambda>x. \<not> completed x) running) \<le> maxKnownAssignedXids k"
  shows "if ascending base (sort (filter (\<lambda>x. \<not> completed x) running))
    then \<exists>k'. add_sorted p completed running k = Inr k' \<and>
      known_list k' = sort (filter (\<lambda>x. \<not> completed x) running) \<and> wf_known base k' \<and>
      (\<forall>y \<in> slot_set k'. \<exists>x \<in> set (filter (\<lambda>x. \<not> completed x) running). age base y \<le> age base x)
    else add_sorted p completed running k =
      Inl (ERROR ''out-of-order XID insertion in KnownAssignedXids'')"
proof (cases "sort (filter (\<lambda>x. \<not> completed x) running)")
  case Nil
  then have "filter (\<lambda>x. \<not> completed x) running = []"
    by (metis set_empty set_sort)
  moreover have "known_list k = []" "slot_set k = {}"
    using empty by (simp_all add: known_list_def slot_set_def)
  ultimately show ?thesis using wf by (simp add: add_sorted_def Let_def)
next
  case (Cons x ys)
  let ?xs = "filter (\<lambda>x. \<not> completed x) running"
  have l: "known_list k = []" "numKnownAssignedXids k = 0"
    using empty wf_knownD(5) [OF wf] by (simp_all add: known_list_def)
  have len: "length ?xs = Suc (length ys)" using Cons by (metis length_Cons length_sort)
  have set: "set ?xs = insert x (set ys)" using Cons by (metis list.simps(15) set_sort)
  have x: "TransactionIdIsNormal x" "age base x < 2 ^ 31" and w': "xid_window base (set ys)"
    using w set by (auto simp: xid_window_def)
  have "in_sequence x k" using empty by (simp add: in_sequence_def)
  moreover have "length (known_list k) < maxKnownAssignedXids k" using l len fit by simp
  ultimately obtain k' where k': "KnownAssignedXidsAdd p x x k = Inr k'" "known_list k' = [x]"
      "wf_known base k'" "newest base k' x" "maxKnownAssignedXids k' = maxKnownAssignedXids k"
    using Add_newest [OF wf x, of p] l by auto
  have ne: "?xs \<noteq> []" using len by auto
  have f: "add_sorted p completed running k = foldM (\<lambda>x k. KnownAssignedXidsAdd p x x k) ys k'"
    using l ne k'(1) Cons by (simp add: add_sorted_def Let_def)
  have "last (x # ys) \<in> insert x (set ys)" by simp
  then show ?thesis
    using add_all [OF k'(3,4) w', of p] k'(2,5) len fit f Cons set
    by (auto simp: newest_def simp del: sorted_wrt.simps last.simps) blast
qed

lemma retreat_arith:
  fixes L N B M :: nat
  assumes "B < 4294967296" "L < 4294967296" "N < 4294967296" "3 \<le> L" "3 \<le> N"
    and "M = (if N = 3 then 4294967295 else N - 1)"
    and "(if B \<le> L then L - B else L + 4294967296 - B) < (if B \<le> N then N - B else N + 4294967296 - B)"
  shows "(if B \<le> M then M - B else M + 4294967296 - B) < (if B \<le> N then N - B else N + 4294967296 - B)"
proof -
  consider "B < N" "N \<noteq> 3" | "N < B" "N \<noteq> 3" | "N = 3" "3 < B"
    using assms(2,4,5,7) by (cases "B \<le> L"; cases "B \<le> N"; cases "N = 3"; simp; linarith)
  then show ?thesis by cases (use assms(1-6) in \<open>auto\<close>)
qed

lemma Retreat_below:
  assumes "TransactionIdIsNormal l" and "TransactionIdIsNormal n" and "age base l < age base n"
  shows "TransactionIdIsNormal (TransactionIdRetreat n)" "age base (TransactionIdRetreat n) < age base n"
    "TransactionIdIsNormal y \<Longrightarrow> age base y < age base n \<Longrightarrow> age base y \<le> age base (TransactionIdRetreat n)"
proof -
  define m where "m = (if n = 3 then - 1 else n - 1)"
  have n3: "unat n = 3 \<longleftrightarrow> n = 3" by (simp add: word_unat_eq_iff)
  have um: "unat m = (if unat n = 3 then 4294967295 else unat n - 1)"
  proof (cases "n = 3")
    case True
    then show ?thesis by (simp add: m_def unsigned_minus_1_eq_mask mask_eq_exp_minus_1)
  next
    case False
    then have "n \<noteq> 0" using assms(2) by (auto simp: Normal_unat)
    then show ?thesis using False n3 by (simp add: m_def unat_minus_one)
  qed
  have nm: "TransactionIdIsNormal m" using um assms(2) n3 by (auto simp: Normal_unat split: if_splits)
  have "unat (TransactionIdAdvance m) = unat n"
    using um Advance_unat [OF nm] assms(2) xid_unat [of n] by (auto simp: Normal_unat split: if_splits)
  then have am: "TransactionIdAdvance m = n" by (simp add: word_unat_eq_iff)
  then have r: "TransactionIdRetreat n = m" using Retreat_Advance [OF nm] by simp
  show "TransactionIdIsNormal (TransactionIdRetreat n)" using nm r by simp
  show "age base (TransactionIdRetreat n) < age base n"
    unfolding r using retreat_arith [OF xid_unat xid_unat xid_unat _ _ um, of l base] assms
    by (simp add: age_alt Normal_unat)
  assume y: "TransactionIdIsNormal y" "age base y < age base n"
  show "age base y \<le> age base (TransactionIdRetreat n)"
    unfolding r using Advance_toward(2) [OF nm y(1), of base] y(2) am by (auto simp: not_less [symmetric])
qed

lemma empty_known:
  "wf_known base k \<Longrightarrow> slot_set k = {} \<longleftrightarrow> tailKnownAssignedXids k = headKnownAssignedXids k"
  using wf_knownD(3) [of base k] by (auto simp: slot_set_def)

text \<open>What the record and the state before it have to satisfy for the standby to get ready.\<close>

definition startable ::
  "TransactionId \<Rightarrow> (TransactionId \<Rightarrow> bool) \<Rightarrow> RunningTransactionsData \<Rightarrow> standby \<Rightarrow> bool" where
  "startable base completed running s \<longleftrightarrow>
     wf_known base (known_xids s) \<and> slot_set (known_xids s) = {} \<and>
     standbyState s = STANDBY_INITIALIZED \<and>
     xid_window base (insert (oldestRunningXid running) (insert (running_nextXid running)
       (insert (latestObservedXid s) (set (filter (\<lambda>x. \<not> completed x) (rt_xids running)))))) \<and>
     age base (latestObservedXid s) < age base (running_nextXid running) \<and>
     (\<forall>x \<in> set (rt_xids running). \<not> completed x \<longrightarrow> age base x < age base (running_nextXid running)) \<and>
     length (filter (\<lambda>x. \<not> completed x) (rt_xids running)) \<le> maxKnownAssignedXids (known_xids s)"

lemma init_cases:
  assumes "startable base completed running s"
  shows "if ascending base (sort (filter (\<lambda>x. \<not> completed x) (rt_xids running)))
    then \<exists>s'. init_from_running bs p completed running s = Inr s' \<and> standby_ok base s' \<and>
      standbyState s' = (if subxid_overflow running then STANDBY_SNAPSHOT_PENDING else STANDBY_SNAPSHOT_READY) \<and>
      running_set s' = set (filter (\<lambda>x. \<not> completed x) (rt_xids running)) \<and>
      latestObservedXid s' = TransactionIdRetreat (running_nextXid running)
    else init_from_running bs p completed running s =
      Inl (ERROR ''out-of-order XID insertion in KnownAssignedXids'')"
proof -
  let ?l = "latestObservedXid s" and ?n = "running_nextXid running"
  let ?xs = "filter (\<lambda>x. \<not> completed x) (rt_xids running)"
  have st: "wf_known base (known_xids s)" "xid_window base (set ?xs)"
    "length ?xs \<le> maxKnownAssignedXids (known_xids s)"
    and l: "TransactionIdIsNormal ?l" "age base ?l < 2 ^ 31" and n: "TransactionIdIsNormal ?n" "age base ?n < 2 ^ 31"
    and ln: "age base ?l < age base ?n"
    and xn: "\<And>x. x \<in> set ?xs \<Longrightarrow> age base x < age base ?n"
    and e: "tailKnownAssignedXids (known_xids s) = headKnownAssignedXids (known_xids s)"
    using assms empty_known [of base "known_xids s"] by (auto simp: startable_def xid_window_def)
  note add = add_sorted_cases [OF st(1) e st(2,3), of p]
  show ?thesis
  proof (cases "ascending base (sort ?xs)")
    case False
    then show ?thesis using add by (simp add: init_from_running_def)
  next
    case True
    then obtain k where k: "add_sorted p completed (rt_xids running) (known_xids s) = Inr k"
      "known_list k = sort ?xs" "wf_known base k" "\<And>y. y \<in> slot_set k \<Longrightarrow> \<exists>x \<in> set ?xs. age base y \<le> age base x"
      using add by auto
    let ?a = "TransactionIdAdvance ?l"
    note t = Advance_toward [OF l(1) n(1) ln]
    have a: "age base ?a < 2 ^ 31" using t(2) n(2) by simp
    have "\<not> TransactionIdPrecedes ?a ?n \<longrightarrow> ?a = ?n"
      using Precedes_age(1) [OF Advance_normal n(1) a n(2)] t(2) age_inj [of base ?a ?n] by linarith
    then obtain sub where sub: "extend_until bs ?a ?n (standby_subtrans s) = Some (?n, sub)"
      using extend_until_ends [OF Advance_normal n(1) a n(2), of bs "standby_subtrans s"]
      by (auto split: if_splits)
    note r = Retreat_below [OF l(1) n(1) ln]
    have "\<forall>y \<in> slot_set k. age base y \<le> age base (TransactionIdRetreat ?n)"
    proof
      fix y assume "y \<in> slot_set k"
      then obtain x where x: "x \<in> set ?xs" "age base y \<le> age base x" using k(4) by blast
      then have "age base x \<le> age base (TransactionIdRetreat ?n)"
        using r(3) xn st(2) by (auto simp: xid_window_def)
      then show "age base y \<le> age base (TransactionIdRetreat ?n)" using x(2) by simp
    qed
    then show ?thesis
      using True k(1-3) sub r n(2)
      by (auto simp: init_from_running_def Let_def standby_ok_def running_set_def less_HotStandbyState_def
          split: if_splits)
  qed
qed

lemma ExpireOld_startable:
  assumes "startable base completed running s"
  shows "startable base completed running
    (ExpireOldKnownAssignedTransactionIds p prepared (oldestRunningXid running) s)"
proof -
  have x: "TransactionIdIsNormal (oldestRunningXid running)" "age base (oldestRunningXid running) < 2 ^ 31"
    and wf: "wf_known base (known_xids s)"
    using assms by (auto simp: startable_def xid_window_def)
  show ?thesis
    using assms RemovePreceding_list(2) [OF wf x, of p prepared] RemovePreceding_slots [OF wf x, of p prepared]
    by (simp add: startable_def ExpireOldKnownAssignedTransactionIds_def RemovePreceding_max)
qed

lemma ApplyRecoveryInfo_start:
  assumes "startable base completed running s"
  shows "if ascending base (sort (filter (\<lambda>x. \<not> completed x) (rt_xids running)))
    then \<exists>s'. ProcArrayApplyRecoveryInfo bs p prepared completed running s = Inr s' \<and> standby_ok base s' \<and>
      standbyState s' = (if subxid_overflow running then STANDBY_SNAPSHOT_PENDING else STANDBY_SNAPSHOT_READY) \<and>
      running_set s' = set (filter (\<lambda>x. \<not> completed x) (rt_xids running)) \<and>
      latestObservedXid s' = TransactionIdRetreat (running_nextXid running)
    else ProcArrayApplyRecoveryInfo bs p prepared completed running s =
      Inl (ERROR ''out-of-order XID insertion in KnownAssignedXids'')"
proof -
  let ?s = "ExpireOldKnownAssignedTransactionIds p prepared (oldestRunningXid running) s"
  have ok: "startable base completed running ?s" by (rule ExpireOld_startable [OF assms])
  then have "standbyState ?s = STANDBY_INITIALIZED" by (simp add: startable_def)
  then have r: "ProcArrayApplyRecoveryInfo bs p prepared completed running s =
      init_from_running bs p completed running ?s"
    by (simp add: ProcArrayApplyRecoveryInfo_def)
  show ?thesis unfolding r by (rule init_cases [OF ok])
qed

end
