(* ===== verification/Server.thy ===== *)
theory Server
  imports Visibility ProcArray Xact Multixact Standby
begin

section \<open>The server as the visibility functions see it\<close>

text \<open>
  One backend with what it shares: the logs of transam.c, the process array, the stack of
  transaction states, the multixacts. \<open>server_env\<close> answers every question of tqual.c by the
  model of the function that the code calls there. Those calls also fill caches and may raise
  an error; the answer here is the value, an error counts as a negative answer, and the caches
  are left as they are, which the cache theorems of transam.c justify. The locale of the
  visibility theory is interpreted on this environment.
\<close>

record server_state =
  blcksz :: nat
  logs :: backend
  procs :: procarray
  snapv :: snap_vars
  xstack :: xact_stack
  multis :: multixact
  needs_flush :: "XLogRecPtr \<Rightarrow> bool"
  buffer_permanent :: bool
  combo_ids :: combo_state

definition server_did_commit :: "server_state \<Rightarrow> TransactionId \<Rightarrow> bool" where
  "server_did_commit s x =
     (case TransactionIdDidCommit (blcksz s) x (logs s) of Some (Inr (b, _)) \<Rightarrow> b | _ \<Rightarrow> False)"

definition server_did_abort :: "server_state \<Rightarrow> TransactionId \<Rightarrow> bool" where
  "server_did_abort s x =
     (case TransactionIdDidAbort (blcksz s) x (logs s) of Some (Inr (b, _)) \<Rightarrow> b | _ \<Rightarrow> False)"

definition server_topmost :: "server_state \<Rightarrow> TransactionId \<Rightarrow> TransactionId" where
  "server_topmost s x =
     (case SubTransGetTopmostTransaction (blcksz s) (TransactionXmin (logs s)) x (pg_subtrans (logs s)) of
        Some (Inr r) \<Rightarrow> r | _ \<Rightarrow> InvalidTransactionId)"

definition server_tests :: "server_state \<Rightarrow> xact_tests" where
  "server_tests s =
     \<lparr>KnownCompleted = (\<lambda>x. TransactionIdIsKnownCompleted x (logs s)),
      CurrentXid = (\<lambda>x. TransactionIdIsCurrentTransactionId x (xstack s)),
      DidAbort = server_did_abort s, TopmostOf = server_topmost s\<rparr>"

definition server_in_progress :: "server_state \<Rightarrow> TransactionId \<Rightarrow> bool" where
  "server_in_progress s x = TransactionIdIsInProgress (server_tests s) (snapv s) (procs s) x"

definition server_members :: "server_state \<Rightarrow> member_tests" where
  "server_members s =
     \<lparr>MemberInProgress = server_in_progress s, MemberDidCommit = server_did_commit s,
      MemberIsCurrent = (\<lambda>x. TransactionIdIsCurrentTransactionId x (xstack s))\<rparr>"

definition ok_value :: "'a \<Rightarrow> ('a \<times> 's) result \<Rightarrow> 'a" where
  "ok_value d r = (case r of Inr (v, _) \<Rightarrow> v | Inl _ \<Rightarrow> d)"

definition server_env :: "server_state \<Rightarrow> xact_env" where
  "server_env s =
     \<lparr>IsCurrent = (\<lambda>x. TransactionIdIsCurrentTransactionId x (xstack s)),
      IsInProgress = server_in_progress s, DidCommit = server_did_commit s,
      CommitLSN = (\<lambda>x. case TransactionIdGetCommitLSN (blcksz s) x (logs s) of
                     Inr l \<Rightarrow> l | Inl _ \<Rightarrow> InvalidXLogRecPtr),
      XLogNeedsFlush = needs_flush s, BufferIsPermanent = buffer_permanent s,
      MultiUpdateXid = (\<lambda>m. ok_value InvalidTransactionId (MultiXactIdGetUpdateXid (blcksz s) m (multis s))),
      MultiIsRunning = (\<lambda>m. ok_value False (MultiXactIdIsRunning (blcksz s) (server_members s) m (multis s))),
      MultiRunsElsewhere =
        (\<lambda>m. ok_value False (MultiXactHasRunningRemoteMembers (blcksz s) (server_members s) m (multis s))),
      GetTopmost = server_topmost s, combos = combo_ids s\<rparr>"

lemmas server_defs = server_env_def server_members_def server_tests_def

text \<open>
  A server state that the code can be in: the array describes the running transactions, the
  backend's own knowledge fits it, and an empty status cache holds no verdict.
\<close>

definition server_ok :: "TransactionId \<Rightarrow> (nat \<Rightarrow> TransactionId set) \<Rightarrow> server_state \<Rightarrow> bool" where
  "server_ok base live s \<longleftrightarrow> array_ok base (procs s) live \<and>
     view_ok base (server_tests s) (snapv s) (procs s) live \<and> wf_stack base (xstack s) \<and>
     (cachedFetchXid (logs s) = InvalidTransactionId \<longrightarrow>
        cachedFetchXidStatus (logs s) = TRANSACTION_STATUS_IN_PROGRESS)"

lemma server_okD:
  assumes "server_ok base live s"
  shows "array_ok base (procs s) live" "view_ok base (server_tests s) (snapv s) (procs s) live"
    "wf_stack base (xstack s)" "TransactionIdIsNormal (RecentXmin (snapv s))"
  using assms by (auto simp: server_ok_def view_ok_def)

lemma server_in_progress_iff:
  assumes "server_ok base live s" and "TransactionIdIsNormal x" and "age base x < 2 ^ 31"
  shows "server_in_progress s x \<longleftrightarrow> in_progress (procs s) live x"
  using IsInProgress_normal [OF server_okD(1,2) [OF assms(1)] assms(2,3)] by (simp add: server_in_progress_def)

lemma members_same:
  "GetMultiXactIdMembers bs m True s = Inr (Some ms, s') \<Longrightarrow> GetMultiXactIdMembers bs m False s = Inr (Some ms, s')"
  by (auto simp: GetMultiXactIdMembers_def Let_def split: if_splits option.splits)

lemma server_current_running:
  assumes ok: "server_ok base live s" and c: "IsCurrent (server_env s) x"
  shows "IsInProgress (server_env s) x"
proof -
  have view: "view_ok base (server_tests s) (snapv s) (procs s) live" by (rule server_okD [OF ok])
  have "runs_in (procs s) live (MyProcNo (snapv s)) x" "MyProcNo (snapv s) \<in> set (pgprocnos (procs s))"
    using view c by (auto simp: view_ok_def server_defs)
  then have r: "x \<in> running_xids (procs s) live" by (auto simp: running_xids_def)
  then have "TransactionIdIsNormal x" "age base x < 2 ^ 31"
    using array_okD(1) [OF server_okD(1) [OF ok]] by auto
  then show ?thesis
    using server_in_progress_iff [OF ok] r by (simp add: server_env_def in_progress_def)
qed

lemma server_invalid:
  assumes "server_ok base live s"
  shows "\<not> IsInProgress (server_env s) InvalidTransactionId" "\<not> DidCommit (server_env s) InvalidTransactionId"
proof -
  have n: "\<not> TransactionIdIsNormal InvalidTransactionId" by (simp add: TransactionIdIsNormal_def xid_constants)
  show "\<not> IsInProgress (server_env s) InvalidTransactionId"
    using IsInProgress_special [OF server_okD(4) [OF assms] n]
    by (simp add: server_env_def server_in_progress_def)
  have c: "cachedFetchXid (logs s) = 0 \<Longrightarrow> cachedFetchXidStatus (logs s) = TRANSACTION_STATUS_IN_PROGRESS"
    using assms by (simp add: server_ok_def xid_constants)
  show "\<not> DidCommit (server_env s) InvalidTransactionId"
    using n c
    by (auto simp: server_env_def server_did_commit_def TransactionLogFetch_def xid_constants
        TransactionIdDidCommit.simps [of _ 0])
qed

lemma server_multi:
  "\<not> IsInProgress (server_env s) InvalidTransactionId \<Longrightarrow> \<not> MultiIsRunning (server_env s) m \<Longrightarrow>
     \<not> IsInProgress (server_env s) (MultiUpdateXid (server_env s) m)"
  "MultiRunsElsewhere (server_env s) m \<Longrightarrow> MultiIsRunning (server_env s) m"
proof -
  show "\<not> IsInProgress (server_env s) (MultiUpdateXid (server_env s) m)"
    if "\<not> IsInProgress (server_env s) InvalidTransactionId" "\<not> MultiIsRunning (server_env s) m"
    using that
    by (auto simp: server_env_def server_members_def ok_value_def MultiXactIdIsRunning_def MultiXactIdGetUpdateXid_def
        list_ex_iff find_Some_iff dest: nth_mem split: sum.splits option.splits if_splits)
  show "MultiIsRunning (server_env s) m" if "MultiRunsElsewhere (server_env s) m"
    using that members_same
    by (fastforce simp: server_env_def server_members_def ok_value_def MultiXactIdIsRunning_def
        MultiXactHasRunningRemoteMembers_def list_ex_iff split: sum.splits option.splits if_splits)
qed

subsection \<open>The interpretation\<close>

definition idle_server :: server_state where
  "idle_server =
     \<lparr>blcksz = 8192,
      logs = \<lparr>pg_clog = \<lparr>pages = (\<lambda>_. None), InRecovery = False\<rparr>,
              pg_subtrans = \<lparr>parent_pages = (\<lambda>_. None), recovering = False\<rparr>,
              TransactionXmin = 3, cachedFetchXid = 0, cachedFetchXidStatus = 0, cachedCommitLSN = 0\<rparr>,
      procs = \<lparr>pgprocnos = [0], maxProcs = 1,
               allPgXact = (\<lambda>_. \<lparr>x_xid = 0, x_xmin = 0, x_vacuumFlags = 0, x_overflowed = False,
                                 x_delayChkpt = False, x_nxids = 0\<rparr>),
               allProcs = (\<lambda>_. \<lparr>p_lxid = 0, p_pid = 1, p_databaseId = 1, p_recoveryConflictPending = False,
                                p_subxids = []\<rparr>),
               pa_latestCompletedXid = 3, replication_slot_xmin = 0, replication_slot_catalog_xmin = 0,
               pa_nextXid = 4, pa_recovery = False,
               pa_known = \<lparr>KnownAssignedXids = [], KnownAssignedXidsValid = [], maxKnownAssignedXids = 0,
                           numKnownAssignedXids = 0, tailKnownAssignedXids = 0, headKnownAssignedXids = 0\<rparr>,
               pa_lastOverflowedXid = 0\<rparr>,
      snapv = \<lparr>MyProcNo = 0, MyDatabaseId = 1, SnapTransactionXmin = 3, RecentXmin = 3, RecentGlobalXmin = 3,
               RecentGlobalDataXmin = 3, vacuum_defer_cleanup_age = 0\<rparr>,
      xstack = [TopTransactionStateData],
      multis = \<lparr>mx = \<lparr>nextMXact = 1, nextOffset = 1, finishedStartup = True, oldestMultiXactId = 1,
                      oldestMultiXactDB = 1, oldestOffset = 1, oldestOffsetKnown = True,
                      lastCheckpointedOldest = 1, multiVacLimit = 400000001, multiWarnLimit = 2137483547,
                      multiStopLimit = 2147483547, multiWrapLimit = 2147483647, offsetStopLimit = 4294914944,
                      offsetStopLimitKnown = True, OldestMemberMXactId = (\<lambda>_. 0), OldestVisibleMXactId = (\<lambda>_. 0)\<rparr>,
                offset_pages = (\<lambda>_. None), member_pages = (\<lambda>_. None), mx_recovery = False, MXactCache = [],
                MyBackendId = 1, MaxOldestSlot = 4, mx_events = []\<rparr>,
      needs_flush = (\<lambda>_. False), buffer_permanent = True, combo_ids = no_combo\<rparr>"

lemma idle_server_ok: "server_ok 3 (\<lambda>_. {}) idle_server"
proof -
  have none: "running_xids (procs idle_server) (\<lambda>_. {}) = {}"
    by (simp add: running_xids_def runs_in_def main_xid_def idle_server_def TransactionIdIsValid_def xid_constants)
  have cur: "\<not> TransactionIdIsCurrentTransactionId x (xstack idle_server)" for x
    by (simp add: TransactionIdIsCurrentTransactionId_def idle_server_def TopTransactionStateData_def
        TransactionIdIsValid_def)
  have latest: "next_unassigned (procs idle_server) = 4" "pa_latestCompletedXid (procs idle_server) = 3"
    by (simp_all add: next_unassigned_def idle_server_def TransactionIdAdvance_def xid_constants)
  have normal: "TransactionIdIsNormal 3" "TransactionIdIsNormal 4" by (simp_all add: TransactionIdIsNormal_def xid_constants)
  have main: "\<not> TransactionIdIsValid (main_xid (procs idle_server) n)" for n
    by (simp add: main_xid_def idle_server_def TransactionIdIsValid_def xid_constants)
  have "array_ok 3 (procs idle_server) (\<lambda>_. {})"
    unfolding array_ok_def none latest xid_window_def caches_ok_def
    using normal by (simp add: idle_server_def cached_subxids_def age_def)
  moreover have "view_ok 3 (server_tests idle_server) (snapv idle_server) (procs idle_server) (\<lambda>_. {})"
    unfolding view_ok_def none latest topmost_ok_def runs_in_def
    using normal cur main
    by (auto simp: server_tests_def age_def TransactionIdIsKnownCompleted_def)
      (simp_all add: idle_server_def TransactionIdPrecedes_def TransactionIdIsNormal_def xid_constants)
  moreover have "wf_stack 3 (xstack idle_server)"
    by (simp add: wf_stack_def idle_server_def TopTransactionStateData_def stack_ids_def xid_ascending_def xid_window_def
        TransactionIdIsValid_def)
  moreover have "cachedFetchXidStatus (logs idle_server) = TRANSACTION_STATUS_IN_PROGRESS"
    by (simp add: idle_server_def status_defs)
  ultimately show ?thesis by (simp add: server_ok_def)
qed

text \<open>The server states the code can be in, as a type.\<close>

typedef server = "{s. \<exists>base live. server_ok base live s}"
  morphisms state_of server
  using idle_server_ok by blast

interpretation sv: xact_world "server_env (state_of s)" for s :: server
proof
  fix x m
  obtain base live where ok: "server_ok base live (state_of s)" using state_of [of s] by blast
  show "IsCurrent (server_env (state_of s)) x \<Longrightarrow> IsInProgress (server_env (state_of s)) x"
    by (rule server_current_running [OF ok])
  show inv: "\<not> IsInProgress (server_env (state_of s)) InvalidTransactionId"
    "\<not> DidCommit (server_env (state_of s)) InvalidTransactionId"
    using server_invalid [OF ok] by blast+
  show "\<not> MultiIsRunning (server_env (state_of s)) m \<Longrightarrow>
      \<not> IsInProgress (server_env (state_of s)) (MultiUpdateXid (server_env (state_of s)) m)"
    by (rule server_multi(1) [OF inv(1)])
  show "MultiRunsElsewhere (server_env (state_of s)) m \<Longrightarrow> MultiIsRunning (server_env (state_of s)) m"
    by (rule server_multi(2))
qed

end
