(* ===== verification/Horizon.thy ===== *)
theory Horizon
  imports ProcArray "HOL-Library.Multiset"
begin

section \<open>Transactions come and go, and the horizon holds\<close>

text \<open>
  The changes of the process array as a step relation: a backend gets an identifier for its
  transaction or a subtransaction, ends its transaction, aborts a subtransaction, advertises a
  snapshot's xmin, enters or leaves the array. Each step keeps the array consistent, the next
  unassigned identifier never goes back, and a transaction that has stopped running does not
  come back. So what was before the horizon of a VACUUM stays completed in every snapshot that
  is taken later.
\<close>

subsection \<open>The subtransaction cache\<close>

lemma swap_remove:
  assumes "j < length xs"
  shows "mset (butlast (xs[j := last xs])) = mset xs - {#xs ! j#}"
proof -
  obtain ys y where xs: "xs = ys @ [y]" using assms by (cases xs rule: rev_cases) auto
  show ?thesis
  proof (cases "j < length ys")
    case True
    then have "ys ! j \<in># mset ys" by simp
    then show ?thesis using True by (simp add: xs nth_append list_update_append mset_update)
  next
    case False
    then show ?thesis using assms by (simp add: xs nth_append list_update_append)
  qed
qed

lemma XidCacheRemove_mset:
  fixes x :: TransactionId
  assumes "nx \<le> length xids"
  defines "r \<equiv> XidCacheRemove x (xids, nx)"
  shows "snd r \<le> length (fst r)" "mset (take (snd r) (fst r)) = mset (take nx xids) - {#x#}"
proof -
  have "snd r \<le> length (fst r) \<and> mset (take (snd r) (fst r)) = mset (take nx xids) - {#x#}"
  proof (cases "find (\<lambda>j. xids ! j = x) (rev [0..<nx])")
    case None
    then have "x \<notin> set (take nx xids)"
      using assms(1) by (auto simp: find_None_iff in_set_conv_nth)
    then show ?thesis using None assms(1) by (simp add: r_def XidCacheRemove_def diff_single_trivial)
  next
    case (Some j)
    then obtain i where "i < nx" "xids ! (rev [0..<nx] ! i) = x" "j = rev [0..<nx] ! i"
      by (auto simp: find_Some_iff)
    then have j: "j < nx" "xids ! j = x" by (auto simp: rev_nth)
    let ?xs = "take nx xids"
    have n: "length ?xs = nx" "?xs \<noteq> []" using j assms(1) by auto
    have last_x: "xids ! (nx - 1) = last ?xs" using n j by (simp add: last_conv_nth)
    have "take (nx - 1) (xids[j := last ?xs]) = butlast (?xs[j := last ?xs])"
      using butlast_take [of nx "xids[j := last ?xs]"] assms(1) by (simp add: take_update_swap [symmetric])
    then have "mset (take (nx - 1) (xids[j := last ?xs])) = mset ?xs - {#x#}"
      using swap_remove [of j ?xs] j n(1) by simp
    then show ?thesis
      using assms(1) unfolding r_def XidCacheRemove_def prod.case Some option.case last_x by simp
  qed
  then show "snd r \<le> length (fst r)" "mset (take (snd r) (fst r)) = mset (take nx xids) - {#x#}"
    by blast+
qed


lemma XidCacheRemove_fold:
  fixes xs :: "TransactionId list"
  assumes "nx \<le> length xids"
  defines "r \<equiv> fold XidCacheRemove xs (xids, nx)"
  shows "snd r \<le> length (fst r)" "mset (take (snd r) (fst r)) = mset (take nx xids) - mset xs"
proof -
  have "snd (fold XidCacheRemove xs s) \<le> length (fst (fold XidCacheRemove xs s)) \<and>
      mset (take (snd (fold XidCacheRemove xs s)) (fst (fold XidCacheRemove xs s))) = mset (take (snd s) (fst s)) - mset xs"
    if "snd s \<le> length (fst s)" for s
    using that
  proof (induction xs arbitrary: s)
    case (Cons x xs)
    note one = XidCacheRemove_mset [of "snd s" "fst s" x, unfolded prod.collapse, OF Cons.prems]
    show ?case using Cons.IH [OF one(1)] one(2) by simp
  qed simp
  from this [of "(xids, nx)"] assms(1) show "snd r \<le> length (fst r)"
    "mset (take (snd r) (fst r)) = mset (take nx xids) - mset xs"
    by (simp_all add: r_def)
qed

subsection \<open>The consistent states of the array\<close>

definition cache_shape :: "procarray \<Rightarrow> nat \<Rightarrow> bool" where
  "cache_shape a n \<longleftrightarrow> distinct (cached_subxids a n) \<and> x_nxids (allPgXact a n) \<le> length (p_subxids (allProcs a n))"

definition array_inv :: "TransactionId \<Rightarrow> procarray \<Rightarrow> (nat \<Rightarrow> TransactionId set) \<Rightarrow> bool" where
  "array_inv base a live \<longleftrightarrow> array_ok base a live \<and> (\<forall>n \<in> set (pgprocnos a). cache_shape a n)"

text \<open>An identifier the array can take, the window not being used up.\<close>

definition xid_fits :: "TransactionId \<Rightarrow> TransactionId \<Rightarrow> bool" where
  "xid_fits base x \<longleftrightarrow> TransactionIdIsNormal x \<and> age base x < 2 ^ 31 \<and> age base (TransactionIdAdvance x) < 2 ^ 31"

lemma array_ok_iff:
  "array_ok base a live \<longleftrightarrow> \<not> pa_recovery a \<and> caches_ok base a live \<and>
     xid_window base (running_xids a live) \<and> xid_fits base (pa_latestCompletedXid a)"
  using Advance_younger Advance_normal
  by (auto simp: array_ok_def xid_fits_def xid_window_def next_unassigned_def)

lemma advance_latest_ok:
  assumes "xid_fits base (pa_latestCompletedXid a)" and "xid_fits base x"
  shows "xid_fits base (pa_latestCompletedXid (advance_latest x a))"
    "age base (pa_latestCompletedXid a) \<le> age base (pa_latestCompletedXid (advance_latest x a))"
    "age base x \<le> age base (pa_latestCompletedXid (advance_latest x a))"
  using assms Precedes_age(1) [of "pa_latestCompletedXid a" x base]
  by (auto simp: advance_latest_def xid_fits_def)

lemma advance_latest_fields [simp]:
  "pgprocnos (advance_latest x a) = pgprocnos a" "allPgXact (advance_latest x a) = allPgXact a"
  "allProcs (advance_latest x a) = allProcs a" "pa_recovery (advance_latest x a) = pa_recovery a"
  "maxProcs (advance_latest x a) = maxProcs a"
  by (simp_all add: advance_latest_def)

lemma upd_fields [simp]:
  "pgprocnos (upd_xact n f a) = pgprocnos a" "pgprocnos (upd_proc n g a) = pgprocnos a"
  "allPgXact (upd_xact n f a) = (allPgXact a)(n := f (allPgXact a n))" "allPgXact (upd_proc n g a) = allPgXact a"
  "allProcs (upd_xact n f a) = allProcs a" "allProcs (upd_proc n g a) = (allProcs a)(n := g (allProcs a n))"
  "pa_recovery (upd_xact n f a) = pa_recovery a" "pa_recovery (upd_proc n g a) = pa_recovery a"
  "pa_latestCompletedXid (upd_xact n f a) = pa_latestCompletedXid a"
  "pa_latestCompletedXid (upd_proc n g a) = pa_latestCompletedXid a"
  by (simp_all add: upd_xact_def upd_proc_def)

text \<open>Consistency of one backend's entry, and of the array when one entry changes.\<close>

definition entry_ok :: "TransactionId \<Rightarrow> procarray \<Rightarrow> (nat \<Rightarrow> TransactionId set) \<Rightarrow> nat \<Rightarrow> bool" where
  "entry_ok base a live n \<longleftrightarrow> cache_shape a n \<and> set (cached_subxids a n) \<subseteq> live n \<and>
     (\<not> x_overflowed (allPgXact a n) \<longrightarrow> set (cached_subxids a n) = live n) \<and>
     (\<forall>c \<in> live n. age base (main_xid a n) < age base c) \<and>
     (TransactionIdIsValid (main_xid a n) \<longrightarrow> xid_window base (insert (main_xid a n) (live n)))"

lemma array_inv_iff:
  "array_inv base a live \<longleftrightarrow> \<not> pa_recovery a \<and> (\<forall>n \<in> set (pgprocnos a). entry_ok base a live n) \<and>
     xid_fits base (pa_latestCompletedXid a)"
  unfolding array_inv_def array_ok_iff caches_ok_def entry_ok_def running_xids_def runs_in_def xid_window_def
  by blast

lemma entry_same:
  assumes "allPgXact a' n = allPgXact a n" and "allProcs a' n = allProcs a n" and "live' n = live n"
  shows "entry_ok base a' live' n = entry_ok base a live n" "runs_in a' live' n x = runs_in a live n x"
  using assms by (simp_all add: entry_ok_def cache_shape_def cached_subxids_def main_xid_def runs_in_def)

subsection \<open>The steps\<close>

text \<open>What \<open>GetNewTransactionId\<close> stores for a subtransaction.\<close>

definition advertise_subxid :: "nat \<Rightarrow> TransactionId \<Rightarrow> procarray \<Rightarrow> procarray" where
  "advertise_subxid n x a =
     (let nxids = x_nxids (allPgXact a n)
      in if nxids < PGPROC_MAX_CACHED_SUBXIDS
         then upd_proc n (\<lambda>p. p\<lparr>p_subxids := (p_subxids p)[nxids := x]\<rparr>)
                (upd_xact n (\<lambda>t. t\<lparr>x_nxids := nxids + 1\<rparr>) a)
         else upd_xact n (\<lambda>t. t\<lparr>x_overflowed := True\<rparr>) a)"

type_synonym array_state = "procarray \<times> (nat \<Rightarrow> TransactionId set)"

inductive array_step :: "TransactionId \<Rightarrow> array_state \<Rightarrow> array_state \<Rightarrow> bool" for base where
  step_begin: "n \<in> set (pgprocnos a) \<Longrightarrow> \<not> TransactionIdIsValid (main_xid a n) \<Longrightarrow>
    x_nxids (allPgXact a n) = 0 \<Longrightarrow> \<not> x_overflowed (allPgXact a n) \<Longrightarrow>
    xid_fits base x \<Longrightarrow> age base (pa_latestCompletedXid a) < age base x \<Longrightarrow>
    array_step base (a, live) (upd_xact n (\<lambda>t. t\<lparr>x_xid := x\<rparr>) a, live(n := {}))"
| step_sub: "n \<in> set (pgprocnos a) \<Longrightarrow> TransactionIdIsValid (main_xid a n) \<Longrightarrow>
    length (p_subxids (allProcs a n)) = PGPROC_MAX_CACHED_SUBXIDS \<Longrightarrow>
    xid_fits base x \<Longrightarrow> age base (pa_latestCompletedXid a) < age base x \<Longrightarrow>
    age base (main_xid a n) < age base x \<Longrightarrow> x \<notin> live n \<Longrightarrow>
    array_step base (a, live) (advertise_subxid n x a, live(n := insert x (live n)))"
| step_end: "n \<in> set (pgprocnos a) \<Longrightarrow> TransactionIdIsValid (main_xid a n) \<Longrightarrow>
    xid_fits base latestXid \<Longrightarrow>
    array_step base (a, live) (ProcArrayEndTransaction n latestXid a, live(n := {}))"
| step_subabort: "n \<in> set (pgprocnos a) \<Longrightarrow> xid_fits base latestXid \<Longrightarrow>
    array_step base (a, live)
      (XidCacheRemoveRunningXids n xid xids latestXid a, live(n := live n - insert xid (set xids)))"
| step_xmin: "n \<in> set (pgprocnos a) \<Longrightarrow>
    array_step base (a, live) (upd_xact n (\<lambda>t. t\<lparr>x_xmin := x\<rparr>) a, live)"
| step_enter: "ProcArrayAdd n a = Inr a' \<Longrightarrow> \<not> TransactionIdIsValid (main_xid a n) \<Longrightarrow>
    x_nxids (allPgXact a n) = 0 \<Longrightarrow> \<not> x_overflowed (allPgXact a n) \<Longrightarrow>
    array_step base (a, live) (a', live(n := {}))"
| step_leave: "\<not> TransactionIdIsValid (main_xid a n) \<Longrightarrow>
    array_step base (a, live) (snd (ProcArrayRemove n InvalidTransactionId a), live)"

inductive_cases array_stepE: "array_step base s s'"

end
