(* ===== verification/Removal.thy ===== *)
theory Removal
  imports Server Horizon
begin

section \<open>What VACUUM removes nobody can see\<close>

text \<open>
  The parts meet here: the horizon \<open>GetOldestXmin\<close> computes from the process array, the xmin
  that \<open>GetSnapshotData\<close> advertises there, and the verdicts that the visibility functions
  reach on the server's state. A tuple that is dead for the horizon is invisible to every
  snapshot that a backend taken into account still holds.
\<close>

lemma server_world:
  assumes "server_ok base live s"
  shows "xact_world (server_env s)"
proof -
  have "state_of (server s) = s" by (rule server_inverse) (use assms in blast)
  then show ?thesis using sv.xact_world_axioms [of "server s"] by simp
qed

lemma below_xmin: "TransactionIdPrecedes x (snap_xmin sn) \<Longrightarrow> \<not> XidInMVCCSnapshot e x sn"
  by (simp add: XidInMVCCSnapshot_def)

text \<open>A special identifier precedes every normal one.\<close>

lemma special_precedes:
  assumes "\<not> TransactionIdIsNormal x" and "TransactionIdIsNormal y"
  shows "TransactionIdPrecedes x y"
  using assms by (auto simp: TransactionIdPrecedes_def TransactionIdIsNormal_def word_less_nat_alt word_le_nat_alt xid_constants)

lemma precedes_lower:
  assumes "TransactionIdPrecedes x g" and "TransactionIdIsNormal x \<Longrightarrow> age base x < 2 ^ 31"
    and "TransactionIdIsNormal g" and "age base g \<le> age base y"
    and "TransactionIdIsNormal y" and "age base y < 2 ^ 31"
  shows "TransactionIdPrecedes x y"
proof (cases "TransactionIdIsNormal x")
  case True
  have "age base x < age base g"
    using Precedes_age(1) [OF True assms(3) assms(2) [OF True]] assms(1,4,6) by simp
  then show ?thesis
    using Precedes_age(1) [OF True assms(5) assms(2) [OF True] assms(6)] assms(4) by simp
next
  case False
  then show ?thesis by (rule special_precedes [OF _ assms(5)])
qed

text \<open>The xmin a backend advertises when it takes its first snapshot is the snapshot's own.\<close>

lemma GetSnapshotData_advertises:
  assumes "GetSnapshotData cid v a = (sn, v', a')"
  shows "x_xmin (allPgXact a' (MyProcNo v)) =
      (if TransactionIdIsValid (x_xmin (allPgXact a (MyProcNo v))) then x_xmin (allPgXact a (MyProcNo v))
       else snap_xmin sn)"
    "snap_xmin sn = s_xmin (snapshot_scan a (MyProcNo v))"
  using assms
  by (auto simp: GetSnapshotData_def snapshot_scan_def next_unassigned_def Let_def split: if_splits)

lemma horizon_protects:
  assumes ok: "array_ok base a live" and hz: "horizon_ok base v a"
    and n: "n \<in> set (pgprocnos a)"
      "considered a (MyDatabaseId v) (case rel of None \<Rightarrow> True | Some p \<Rightarrow> fst p) iv n"
    and sn: "x_xmin (allPgXact a n) = snap_xmin sn" "TransactionIdIsNormal (snap_xmin sn)"
    and x: "TransactionIdPrecedes x (GetOldestXmin v a rel iv)" "TransactionIdIsNormal x \<Longrightarrow> age base x < 2 ^ 31"
  shows "\<not> XidInMVCCSnapshot e x sn"
proof -
  note g = GetOldestXmin_bound [OF ok hz, where rel = rel and iv = iv]
  have "age base (snap_xmin sn) < 2 ^ 31"
    using hz n(1) sn normal_valid by (auto simp: horizon_ok_def slot_xmin_ok_def)
  then have "TransactionIdPrecedes x (snap_xmin sn)"
    using precedes_lower [OF x(1) x(2) g(1) _ sn(2)] g(4) [OF n] sn by simp
  then show ?thesis by (rule below_xmin)
qed

lemma dead_for_all:
  assumes s: "server_ok base live s" and hz: "horizon_ok base (snapv s) (procs s)"
    and s': "server_ok base' live' s'" and same: "same_world (server_env s) (server_env s')"
    and n: "n \<in> set (pgprocnos (procs s))"
      "considered (procs s) (MyDatabaseId (snapv s)) (case rel of None \<Rightarrow> True | Some p \<Rightarrow> fst p) iv n"
    and sn: "x_xmin (allPgXact (procs s) n) = snap_xmin sn" "TransactionIdIsNormal (snap_xmin sn)"
    and t: "tuple_ok (server_env s) t" "tuple_ok (server_env s') t"
    and d: "\<And>x. deleter (server_env s) t = Some x \<Longrightarrow> TransactionIdIsNormal x \<Longrightarrow> age base x < 2 ^ 31"
    and dead: "fst (HeapTupleSatisfiesVacuum (server_env s) (GetOldestXmin (snapv s) (procs s) rel iv) t) = HEAPTUPLE_DEAD"
  shows "\<not> fst (HeapTupleSatisfiesMVCC (server_env s') sn t)"
proof -
  note w = server_world [OF s] and w' = server_world [OF s']
  have del: "deleter (server_env s') t = deleter (server_env s) t"
    using same by (simp add: same_world_def deleter_def)
  have "\<not> mvcc_visible (server_env s') sn t"
  proof (rule vacuum_dead_invisible [OF w w' same])
    show "vacuum_result (server_env s) (GetOldestXmin (snapv s) (procs s) rel iv) t = HEAPTUPLE_DEAD"
      using xact_world.Vacuum_correct [OF w t(1)] dead by simp
    fix x assume "deleter (server_env s') t = Some x" "TransactionIdPrecedes x (GetOldestXmin (snapv s) (procs s) rel iv)"
    then show "\<not> XidInMVCCSnapshot (server_env s') x sn"
      using horizon_protects [OF server_okD(1) [OF s] hz n sn] d del by simp
  qed
  then show ?thesis using xact_world.MVCC_correct [OF w' t(2)] by simp
qed

subsection \<open>The tuples that the visibility functions write back\<close>

text \<open>What a check of a tuple by any of the functions leaves in the buffer.\<close>

definition checked_tuples ::
  "xact_env \<Rightarrow> Snapshot \<Rightarrow> CommandId \<Rightarrow> TransactionId \<Rightarrow> HeapTupleHeader \<Rightarrow> HeapTupleHeader set" where
  "checked_tuples e sn cid ox t =
     {snd (HeapTupleSatisfiesSelf e t), snd (HeapTupleSatisfiesMVCC e sn t), snd (HeapTupleSatisfiesUpdate e cid t),
      snd (HeapTupleSatisfiesVacuum e ox t), snd (HeapTupleSatisfiesDirty e sn t), snd (HeapTupleSatisfiesToast e t),
      snd (HeapTupleSatisfiesAny t)}"

lemma checked_steps:
  assumes "server_ok base live s" and "tuple_ok (server_env s) t" and "t' \<in> checked_tuples (server_env s) sn cid ox t"
  shows "hint_steps (server_env s) t t'"
proof -
  note w = server_world [OF assms(1)]
  note r = xact_world.Self_correct [OF w assms(2)] xact_world.MVCC_correct [OF w assms(2), of sn]
    xact_world.Update_correct [OF w assms(2), of cid] xact_world.Vacuum_correct [OF w assms(2), of ox]
    xact_world.Dirty_correct [OF w assms(2), of sn] xact_world.Toast_correct [OF w assms(2)]
  have "snd (HeapTupleSatisfiesAny t) = t" by (simp add: HeapTupleSatisfiesAny_def)
  then show ?thesis using assms(3) r by (auto simp: checked_tuples_def)
qed

end
