(* ===== verification/Busy.thy ===== *)
theory Busy
  imports Removal
begin

section \<open>A server at work\<close>

text \<open>
  The state at which the theorems about the server are evaluated: transactions 3 and 6 have
  committed, transaction 4 runs in another backend and transaction 5 in this one, both with a
  snapshot whose xmin is 4; the next transaction is 7. The pages of the logs have 8 bytes.
\<close>

definition busy_entry :: "TransactionId \<Rightarrow> PGXACT" where
  "busy_entry x = \<lparr>x_xid = x, x_xmin = 4, x_vacuumFlags = 0, x_overflowed = False,
     x_delayChkpt = False, x_nxids = 0\<rparr>"

definition busy_procs :: procarray where
  "busy_procs = (procs idle_server)
     \<lparr>pgprocnos := [0, 1], maxProcs := 2, allPgXact := (\<lambda>n. if n = 0 then busy_entry 5 else busy_entry 4),
      pa_latestCompletedXid := 6, pa_nextXid := 7\<rparr>"

definition busy_server :: server_state where
  "busy_server = idle_server
     \<lparr>blcksz := 8,
      logs := (logs idle_server)
        \<lparr>pg_clog := \<lparr>pages = (\<lambda>n. if n = 0 then Some (zero_page 8\<lparr>page_buffer := [64, 16, 0, 0, 0, 0, 0, 0]\<rparr>) else None),
                    InRecovery = False\<rparr>,
         pg_subtrans := \<lparr>parent_pages = (\<lambda>n. if n < 4 then Some [0, 0] else None), recovering = False\<rparr>,
         TransactionXmin := 4\<rparr>,
      procs := busy_procs,
      snapv := (snapv idle_server)\<lparr>SnapTransactionXmin := 4, RecentXmin := 4, RecentGlobalXmin := 4,
        RecentGlobalDataXmin := 4\<rparr>,
      xstack := [TopTransactionStateData\<lparr>transactionId := 5, xstate := TRANS_INPROGRESS\<rparr>]\<rparr>"

lemmas busy_defs = busy_server_def busy_procs_def busy_entry_def idle_server_def

lemma busy_status:
  "TransactionIdGetStatus 8 3 (pg_clog (logs busy_server)) = Inr (TRANSACTION_STATUS_COMMITTED, 0)"
  "TransactionIdGetStatus 8 4 (pg_clog (logs busy_server)) = Inr (TRANSACTION_STATUS_IN_PROGRESS, 0)"
  "TransactionIdGetStatus 8 5 (pg_clog (logs busy_server)) = Inr (TRANSACTION_STATUS_IN_PROGRESS, 0)"
  "TransactionIdGetStatus 8 6 (pg_clog (logs busy_server)) = Inr (TRANSACTION_STATUS_COMMITTED, 0)"
  by code_simp+

lemma busy_fetch:
  "\<exists>b. TransactionLogFetch 8 3 (logs busy_server) = Inr (TRANSACTION_STATUS_COMMITTED, b)"
  "\<exists>b. TransactionLogFetch 8 4 (logs busy_server) = Inr (TRANSACTION_STATUS_IN_PROGRESS, b)"
  "\<exists>b. TransactionLogFetch 8 5 (logs busy_server) = Inr (TRANSACTION_STATUS_IN_PROGRESS, b)"
  "\<exists>b. TransactionLogFetch 8 6 (logs busy_server) = Inr (TRANSACTION_STATUS_COMMITTED, b)"
  by (simp_all add: TransactionLogFetch_def busy_status TransactionIdIsNormal_def xid_constants)
    (simp_all add: busy_defs)

lemma busy_verdicts:
  "server_did_commit busy_server 3" "\<not> server_did_commit busy_server 4" "\<not> server_did_commit busy_server 5"
  "server_did_commit busy_server 6" "\<not> server_did_abort busy_server 3" "\<not> server_did_abort busy_server 4"
  "\<not> server_did_abort busy_server 5" "\<not> server_did_abort busy_server 6"
proof -
  have bs: "blcksz busy_server = 8" by (simp add: busy_defs)
  show "server_did_commit busy_server 3" "\<not> server_did_commit busy_server 4" "\<not> server_did_commit busy_server 5"
    "server_did_commit busy_server 6" "\<not> server_did_abort busy_server 3" "\<not> server_did_abort busy_server 4"
    "\<not> server_did_abort busy_server 5" "\<not> server_did_abort busy_server 6"
    using busy_fetch
    by (auto simp: server_did_commit_def server_did_abort_def bs TransactionIdDidCommit.simps [of 8]
        TransactionIdDidAbort.simps [of 8] status_defs)
qed

lemma busy_parents: "x \<in> {4, 5, 6} \<Longrightarrow> SubTransGetParent 8 x (pg_subtrans (logs busy_server)) = Inr 0"
  by (auto simp: busy_defs TransactionIdIsNormal_def xid_constants SubTransGetParent_def SubTransReadPage_def
      SubTransToPage_def TransactionIdToEntry_def SUBTRANS_XACTS_PER_PAGE_def Let_def)

lemma busy_topmost: "x \<in> {3, 4, 5, 6} \<Longrightarrow> server_topmost busy_server x = x"
proof -
  have "blcksz busy_server = 8" "TransactionXmin (logs busy_server) = 4" by (simp_all add: busy_defs)
  then show "x \<in> {3, 4, 5, 6} \<Longrightarrow> server_topmost busy_server x = x"
    by (auto simp: server_topmost_def SubTransGetTopmostTransaction_def topmost_loop.simps [of 8 _ _ 3]
        topmost_loop.simps [of 8 _ _ 4] topmost_loop.simps [of 8 _ _ 5] topmost_loop.simps [of 8 _ _ 6]
        topmost_loop.simps [of 8 _ _ 0] busy_parents TransactionIdPrecedes_def TransactionIdIsValid_def
        TransactionIdIsNormal_def xid_constants)
qed

lemma busy_running: "runs_in (procs busy_server) (\<lambda>_. {}) n x \<longleftrightarrow> x = (if n = 0 then 5 else 4)"
  by (auto simp: runs_in_def main_xid_def busy_defs TransactionIdIsValid_def xid_constants)

lemma busy_procnos: "pgprocnos (procs busy_server) = [0, 1]" by (simp add: busy_defs)

lemma busy_running_xids: "running_xids (procs busy_server) (\<lambda>_. {}) = {4, 5}"
  by (auto simp: running_xids_def busy_running busy_procnos)

lemma busy_current: "TransactionIdIsCurrentTransactionId x (xstack busy_server) \<longleftrightarrow> x = 5"
  by (auto simp: TransactionIdIsCurrentTransactionId_def busy_server_def TopTransactionStateData_def
      TransactionIdIsNormal_def TransactionIdIsValid_def child_search.simps xid_constants)

lemma busy_latest: "next_unassigned (procs busy_server) = 7" "pa_latestCompletedXid (procs busy_server) = 6"
  by (simp_all add: next_unassigned_def busy_defs TransactionIdAdvance_def xid_constants)

lemma busy_ages:
  "TransactionIdIsNormal 3" "TransactionIdIsNormal 4" "TransactionIdIsNormal 5" "TransactionIdIsNormal 6"
  "TransactionIdIsNormal 7" "age 3 3 = 0" "age 3 4 = 1" "age 3 5 = 2" "age 3 6 = 3" "age 3 7 = 4"
  by (simp_all add: TransactionIdIsNormal_def xid_constants age_def)

lemma busy_young:
  assumes "age 3 x \<le> 3"
  shows "x \<in> {3, 4, 5, 6}"
proof -
  have "age 3 x = age 3 3 \<or> age 3 x = age 3 4 \<or> age 3 x = age 3 5 \<or> age 3 x = age 3 6"
    unfolding busy_ages using assms by arith
  then show ?thesis by simp
qed

lemma busy_array: "array_ok 3 (procs busy_server) (\<lambda>_. {})"
  unfolding array_ok_def busy_running_xids busy_latest xid_window_def caches_ok_def
  by (simp add: busy_ages) (simp add: busy_defs cached_subxids_def)

lemma busy_server_ok: "server_ok 3 (\<lambda>_. {}) busy_server"
proof -
  have top: "topmost_ok (server_topmost busy_server) (procs busy_server) (\<lambda>_. {}) x"
    if "TransactionIdIsNormal x" "age 3 x \<le> 3" for x
    using busy_young [OF that(2)] busy_topmost [of x]
    by (auto simp: topmost_ok_def busy_running busy_procnos) (simp_all add: main_xid_def busy_defs)
  have ab: "\<forall>x. server_did_abort busy_server x \<longrightarrow> x \<notin> {4, 5}" using busy_verdicts(6,7) by auto
  have v: "cachedFetchXid (logs busy_server) = 0" "MyProcNo (snapv busy_server) = 0"
    "RecentXmin (snapv busy_server) = 4" by (simp_all add: busy_defs)
  have "view_ok 3 (server_tests busy_server) (snapv busy_server) (procs busy_server) (\<lambda>_. {})"
    unfolding view_ok_def busy_running_xids busy_latest busy_procnos
    using top ab v
    by (simp add: busy_ages server_tests_def busy_running busy_current TransactionIdIsKnownCompleted_def)
      (simp add: TransactionIdPrecedes_def TransactionIdIsNormal_def xid_constants)
  moreover have "wf_stack 3 (xstack busy_server)"
    by (simp add: wf_stack_def busy_server_def TopTransactionStateData_def stack_ids_def xid_ascending_def xid_window_def
        TransactionIdIsValid_def TransactionIdIsNormal_def xid_constants age_def)
  moreover have "cachedFetchXidStatus (logs busy_server) = TRANSACTION_STATUS_IN_PROGRESS"
    by (simp add: busy_defs status_defs)
  ultimately show ?thesis by (simp add: server_ok_def busy_array)
qed

subsection \<open>Its tuples and its snapshot\<close>

definition busy_tuple :: "TransactionId \<Rightarrow> TransactionId \<Rightarrow> HeapTupleHeader" where
  "busy_tuple x y = \<lparr>t_xmin = x, t_xmax = y, t_field3 = 0, t_infomask = 0\<rparr>"

lemma busy_tuple_fields [simp]: "t_xmin (busy_tuple x y) = x" "t_xmax (busy_tuple x y) = y"
  by (simp_all add: busy_tuple_def)

lemma busy_tuple_flags [simp]: "\<not> has (busy_tuple x y) f" "\<not> frozen (busy_tuple x y)"
  by (simp_all add: busy_tuple_def has_def frozen_def XminFrozen_iff)

lemma busy_env:
  "IsCurrent (server_env busy_server) x \<longleftrightarrow> x = 5"
  "DidCommit (server_env busy_server) = server_did_commit busy_server"
  "\<And>y. y \<in> {3, 4, 5, 6} \<Longrightarrow> IsInProgress (server_env busy_server) y \<longleftrightarrow> y = 4 \<or> y = 5"
proof -
  show "IsCurrent (server_env busy_server) x \<longleftrightarrow> x = 5" by (simp add: server_env_def busy_current)
  show "DidCommit (server_env busy_server) = server_did_commit busy_server" by (simp add: server_env_def)
  have env: "IsInProgress (server_env busy_server) = server_in_progress busy_server" by (simp add: server_env_def)
  fix y :: TransactionId assume "y \<in> {3, 4, 5, 6}"
  then show "IsInProgress (server_env busy_server) y \<longleftrightarrow> y = 4 \<or> y = 5"
    unfolding env using server_in_progress_iff [OF busy_server_ok, of y]
    by (auto simp: busy_ages in_progress_def busy_running_xids busy_latest TransactionIdPrecedes_def)
qed

lemma busy_locked_only [simp]: "\<not> locked_only (busy_tuple x y)"
  by (simp add: busy_tuple_def HEAP_XMAX_IS_LOCKED_ONLY_def heap_flags)

lemma busy_deleter: "deleter e (busy_tuple x y) = Some y"
  by (simp add: deleter_def)

lemma busy_tuple_ok: "x \<noteq> 5 \<Longrightarrow> tuple_ok (server_env busy_server) (busy_tuple x y)"
  by (simp add: tuple_ok_def hints_true_def own_deleter_ok_def multi_ok_def own_def busy_env(1))

definition busy_snapshot :: Snapshot where
  "busy_snapshot = \<lparr>snap_xmin = 4, snap_xmax = 7, snap_xip = [4], snap_subxip = [], suboverflowed = False,
     takenDuringRecovery = False, snap_curcid = 0\<rparr>"

text \<open>The array before this backend took its snapshot.\<close>

definition busy_before :: procarray where
  "busy_before = upd_xact 0 (\<lambda>x. x\<lparr>x_xmin := 0\<rparr>) busy_procs"

lemma busy_takes_snapshot:
  "\<exists>v'. GetSnapshotData 0 (snapv busy_server) busy_before = (busy_snapshot, v', upd_xact 0 (\<lambda>x. x\<lparr>x_xmin := 4\<rparr>) busy_before)"
  by (simp add: GetSnapshotData_def busy_before_def busy_snapshot_def busy_defs upd_xact_def scan_procs_def
      snapshot_step_def has_flag_def cached_subxids_def TransactionIdAdvance_def TransactionIdIsValid_def
      TransactionIdIsNormal_def NormalTransactionIdPrecedes_def xid_constants Let_def)

lemma busy_horizon: "horizon_ok 3 (snapv busy_server) (procs busy_server)"
  by (simp add: horizon_ok_def busy_procnos busy_latest busy_ages slot_xmin_ok_def)
    (simp add: busy_defs main_xid_def has_flag_def TransactionIdIsValid_def TransactionIdIsNormal_def xid_constants age_def)

lemma busy_before_ok: "array_ok 3 busy_before (\<lambda>_. {})"
proof -
  have same: "main_xid busy_before = main_xid busy_procs" "cached_subxids busy_before = cached_subxids busy_procs"
    "\<And>n. x_overflowed (allPgXact busy_before n) = x_overflowed (allPgXact busy_procs n)"
    "pgprocnos busy_before = pgprocnos busy_procs" "pa_recovery busy_before = pa_recovery busy_procs"
    "pa_latestCompletedXid busy_before = pa_latestCompletedXid busy_procs"
    by (simp_all add: busy_before_def main_xid_def [abs_def] cached_subxids_def [abs_def] fun_eq_iff)
  have "array_ok 3 busy_procs (\<lambda>_. {})" using busy_array by (simp add: busy_server_def)
  then show ?thesis
    unfolding array_ok_def caches_ok_def running_xids_def runs_in_def next_unassigned_def same by simp
qed

lemma busy_considered: "considered (procs busy_server) db True iv n" "main_xid (procs busy_server) 1 = 4"
  by (simp_all add: considered_def has_flag_def main_xid_def) (simp_all add: busy_defs)

end
