(* ===== verification/MultixactLog.thy ===== *)
theory MultixactLog
  imports Multixact XidLog
begin

section \<open>What the multixact logs store\<close>

text \<open>
  The offsets log and the members log as maps. Storing a member changes that member only,
  although it shares a flag word with three others; extending the members log zeroes exactly
  the pages that begin in the range, also at the wraparound of the offsets; so a multixact that
  was recorded is read back as it was.
\<close>

subsection \<open>The place of a member\<close>

definition member_group :: "nat \<Rightarrow> MultiXactOffset \<Rightarrow> nat" where
  "member_group bs off = (unat off div 4) mod (bs div 20)"

lemma member_words:
  "MXOffsetToFlagsOffset bs off div 4 = 5 * member_group bs off"
  "MXOffsetToMemberOffset bs off div 4 = 5 * member_group bs off + 1 + unat off mod 4"
  "MXOffsetToFlagsBitShift off = 8 * (unat off mod 4)"
  by (simp_all add: MXOffsetToFlagsOffset_def MXOffsetToMemberOffset_def MXOffsetToFlagsBitShift_def
      member_layout member_group_def)

lemma member_fits:
  assumes "20 \<le> bs"
  shows "5 * member_group bs off + 1 + unat off mod 4 < words_per_page bs"
proof -
  have "member_group bs off < bs div 20" using assms by (simp add: member_group_def)
  moreover have "unat off mod 4 < 4" by simp
  moreover have "bs div 20 * 5 \<le> bs div 4" by simp
  ultimately show ?thesis by (simp add: words_per_page_def)
qed

lemma same_member:
  assumes "MXOffsetToMemberPage bs x = MXOffsetToMemberPage bs y" and "member_group bs x = member_group bs y"
    and "unat x mod 4 = unat y mod 4"
  shows "x = y"
proof -
  have "unat x div 4 div (bs div 20) = unat y div 4 div (bs div 20)"
    using assms(1) by (simp add: MXOffsetToMemberPage_def member_layout div_mult2_eq mult.commute)
  then have "unat x div 4 = unat y div 4"
    using assms(2) by (metis member_group_def mult_div_mod_eq)
  then have "unat x = unat y" using assms(3) by (metis mult_div_mod_eq)
  then show ?thesis by (simp add: word_unat_eq_iff)
qed

lemma flag_byte:
  fixes f st :: uint32
  assumes "a < 4" and "b < 4" and "st \<le> 255"
  shows "drop_bit (8 * a) (f AND NOT (push_bit (8 * b) 255) OR push_bit (8 * b) st) AND 255 =
    (if a = b then st else drop_bit (8 * a) f AND 255)"
proof -
  have st: "take_bit 8 st = st"
    using assms(3)
    by (simp add: word_unat_eq_iff unsigned_take_bit_eq take_bit_nat_eq_self_iff word_le_nat_alt)
  have m: "(255 :: uint32) = mask 8" by (simp add: mask_eq_exp_minus_1)
  have b_st: "bit st k \<Longrightarrow> k < 8" for k
    using st by (metis bit_take_bit_iff)
  show ?thesis
  proof (rule bit_word_eqI)
    fix n assume n: "n < LENGTH(32)"
    show "bit (drop_bit (8 * a) (f AND NOT (push_bit (8 * b) 255) OR push_bit (8 * b) st) AND 255) n =
      bit (if a = b then st else drop_bit (8 * a) f AND 255) n"
    proof -
      have "\<not> bit st (8 * a + n - 8 * b)" if "a \<noteq> b" "n < 8" "8 * b \<le> 8 * a + n"
        using that b_st [of "8 * a + n - 8 * b"] by (cases "a < b") auto
      moreover have "\<not> bit st n" if "8 \<le> n" using that b_st [of n] by auto
      ultimately show ?thesis
        unfolding m using n assms(1,2) by (cases "n < 8") (auto simp: bit_simps)
    qed
  qed
qed

subsection \<open>The two logs as maps\<close>

definition wf_mx :: "nat \<Rightarrow> multixact \<Rightarrow> bool" where
  "wf_mx bs s \<longleftrightarrow> 20 \<le> bs \<and> bs < 2 ^ 31 \<and>
     (\<forall>n p. member_pages s n = Some p \<longrightarrow> length p = words_per_page bs) \<and>
     (\<forall>n p. offset_pages s n = Some p \<longrightarrow> length p = words_per_page bs)"

definition member_covers :: "nat \<Rightarrow> multixact \<Rightarrow> MultiXactOffset \<Rightarrow> bool" where
  "member_covers bs s off \<longleftrightarrow> member_pages s (MXOffsetToMemberPage bs off) \<noteq> None"

definition offset_covers :: "nat \<Rightarrow> multixact \<Rightarrow> MultiXactId \<Rightarrow> bool" where
  "offset_covers bs s multi \<longleftrightarrow> offset_pages s (MultiXactIdToOffsetPage bs multi) \<noteq> None"

definition page_member :: "nat \<Rightarrow> uint32 list \<Rightarrow> MultiXactOffset \<Rightarrow> MultiXactMember" where
  "page_member bs p off = \<lparr>mxid = p ! (5 * member_group bs off + 1 + unat off mod 4),
     mxstatus = drop_bit (8 * (unat off mod 4)) (p ! (5 * member_group bs off)) AND 255\<rparr>"

definition member_at :: "nat \<Rightarrow> multixact \<Rightarrow> MultiXactOffset \<Rightarrow> MultiXactMember" where
  "member_at bs s off = page_member bs (case member_pages s (MXOffsetToMemberPage bs off) of
     Some p \<Rightarrow> p | None \<Rightarrow> replicate (words_per_page bs) 0) off"

definition offset_at :: "nat \<Rightarrow> multixact \<Rightarrow> MultiXactId \<Rightarrow> MultiXactOffset" where
  "offset_at bs s multi = (case offset_pages s (MultiXactIdToOffsetPage bs multi) of
     Some p \<Rightarrow> p ! MultiXactIdToOffsetEntry bs multi | None \<Rightarrow> 0)"

definition valid_member :: "MultiXactMember \<Rightarrow> bool" where
  "valid_member m \<longleftrightarrow> TransactionIdIsValid (mxid m) \<and> mxstatus m \<le> MultiXactStatusUpdate"

lemma group_words:
  fixes a b g h :: nat
  assumes "a < 4" and "b < 4"
  shows "5 * g \<noteq> 5 * h + 1 + b" "5 * h + 1 + b = 5 * g + 1 + a \<longleftrightarrow> h = g \<and> b = a"
  using assms by presburger+

lemma page_member_store:
  assumes "length p = words_per_page bs" and "20 \<le> bs" and "mxstatus m \<le> 255"
    and "member_group bs y = member_group bs x \<Longrightarrow> unat y mod 4 = unat x mod 4 \<Longrightarrow> y = x"
  defines "p1 \<equiv> p[5 * member_group bs x + 1 + unat x mod 4 := mxid m]"
  defines "p2 \<equiv> p1[5 * member_group bs x :=
    p1 ! (5 * member_group bs x) AND NOT (push_bit (8 * (unat x mod 4)) 255) OR push_bit (8 * (unat x mod 4)) (mxstatus m)]"
  shows "page_member bs p2 y = (if y = x then m else page_member bs p y)"
proof -
  let ?g = "member_group bs x" and ?h = "member_group bs y" and ?a = "unat x mod 4" and ?b = "unat y mod 4"
  have len: "length p2 = length p" by (simp add: p1_def p2_def)
  have lt: "?a < 4" "?b < 4" by simp_all
  note fit = member_fits [OF assms(2), of x] member_fits [OF assms(2), of y]
  have neq: "5 * ?g \<noteq> 5 * ?h + 1 + ?b" "5 * ?h \<noteq> 5 * ?g + 1 + ?a"
    "5 * ?h + 1 + ?b = 5 * ?g + 1 + ?a \<longleftrightarrow> ?h = ?g \<and> ?b = ?a"
    using group_words [OF lt] group_words(1) [OF lt(2,1)] by simp_all
  have xid: "p2 ! (5 * ?h + 1 + ?b) = (if ?h = ?g \<and> ?b = ?a then mxid m else p ! (5 * ?h + 1 + ?b))"
    using neq fit assms(1) by (auto simp: p2_def p1_def nth_list_update)
  have flag: "p2 ! (5 * ?h) = (if ?h = ?g
      then p ! (5 * ?g) AND NOT (push_bit (8 * ?a) 255) OR push_bit (8 * ?a) (mxstatus m) else p ! (5 * ?h))"
    using neq fit assms(1) by (auto simp: p2_def p1_def nth_list_update)
  show ?thesis
  proof (cases "?h = ?g")
    case True
    have "drop_bit (8 * ?b) (p2 ! (5 * ?h)) AND 255 = (if ?b = ?a then mxstatus m else drop_bit (8 * ?b) (p ! (5 * ?h)) AND 255)"
      using flag_byte [OF lt(2,1) assms(3), of "p ! (5 * ?g)"] flag True by simp
    then show ?thesis
      using xid True assms(4) by (auto simp: page_member_def)
  next
    case False
    then show ?thesis using xid flag by (auto simp: page_member_def)
  qed
qed

lemma read_page [simp]: "pgs n = Some p \<Longrightarrow> read_mx_page bs r pgs n = Inr p"
  by (simp add: read_mx_page_def)

lemma store_member_ok:
  assumes wf: "wf_mx bs s" and c: "member_covers bs s x" and v: "mxstatus m \<le> 255"
  shows "\<exists>s'. store_member bs (x, m) s = Inr s' \<and> wf_mx bs s' \<and> (\<forall>y. member_covers bs s y \<longrightarrow> member_covers bs s' y) \<and>
    member_at bs s' = (member_at bs s)(x := m)"
proof -
  obtain p where p: "member_pages s (MXOffsetToMemberPage bs x) = Some p" using c by (auto simp: member_covers_def)
  then have len: "length p = words_per_page bs" "20 \<le> bs" using wf by (auto simp: wf_mx_def)
  define p1 where "p1 = p[5 * member_group bs x + 1 + unat x mod 4 := mxid m]"
  define p2 where "p2 = p1[5 * member_group bs x :=
    p1 ! (5 * member_group bs x) AND NOT (push_bit (8 * (unat x mod 4)) 255) OR push_bit (8 * (unat x mod 4)) (mxstatus m)]"
  define s' where "s' = s\<lparr>member_pages := (member_pages s)(MXOffsetToMemberPage bs x := Some p2)\<rparr>"
  have st: "store_member bs (x, m) s = Inr s'"
    using p by (simp add: store_member_def member_words MXACT_MEMBER_XACT_BITMASK_def p1_def p2_def s'_def Let_def)
  have "length p2 = words_per_page bs" using len by (simp add: p1_def p2_def)
  then have wf': "wf_mx bs s'" using wf by (simp add: wf_mx_def s'_def)
  have "member_at bs s' y = ((member_at bs s)(x := m)) y" for y
  proof (cases "MXOffsetToMemberPage bs y = MXOffsetToMemberPage bs x")
    case True
    have "page_member bs p2 y = (if y = x then m else page_member bs p y)"
      unfolding p2_def p1_def using same_member [OF True] by (intro page_member_store len v) auto
    then show ?thesis using True p by (simp add: member_at_def s'_def)
  next
    case False
    then show ?thesis by (auto simp: member_at_def s'_def)
  qed
  then have "member_at bs s' = (member_at bs s)(x := m)" by blast
  moreover have "\<forall>y. member_covers bs s y \<longrightarrow> member_covers bs s' y" by (simp add: member_covers_def s'_def)
  ultimately show ?thesis using st wf' by blast
qed

lemma store_offset_ok:
  assumes wf: "wf_mx bs s" and c: "offset_covers bs s x"
  shows "\<exists>s'. store_offset bs (x, v) s = Inr s' \<and> wf_mx bs s' \<and> (\<forall>y. offset_covers bs s y \<longrightarrow> offset_covers bs s' y) \<and>
    offset_at bs s' = (offset_at bs s)(x := v)"
proof -
  let ?n = "MultiXactIdToOffsetPage bs x" and ?e = "MultiXactIdToOffsetEntry bs x"
  obtain p where p: "offset_pages s ?n = Some p" using c by (auto simp: offset_covers_def)
  then have len: "length p = bs div 4" "0 < bs div 4" using wf by (auto simp: wf_mx_def words_per_page_def)
  define s' where "s' = s\<lparr>offset_pages := (offset_pages s)(?n := Some (p[?e := v]))\<rparr>"
  have e: "?e < length p" using len by (simp add: MultiXactIdToOffsetEntry_def MULTIXACT_OFFSETS_PER_PAGE_def)
  have inj: "y = x" if "MultiXactIdToOffsetPage bs y = ?n" "MultiXactIdToOffsetEntry bs y = ?e" for y
  proof -
    have "unat y = unat x"
      using that by (metis MultiXactIdToOffsetPage_def MultiXactIdToOffsetEntry_def mult_div_mod_eq)
    then show ?thesis by (simp add: word_unat_eq_iff)
  qed
  have "store_offset bs (x, v) s = Inr s'" using p by (simp add: store_offset_def s'_def Let_def)
  moreover have "wf_mx bs s'" using wf p by (auto simp: wf_mx_def s'_def)
  moreover have "offset_at bs s' = (offset_at bs s)(x := v)"
    using p e inj by (auto simp: offset_at_def s'_def fun_eq_iff nth_list_update)
  ultimately show ?thesis by (auto simp: offset_covers_def s'_def)
qed

interpretation members_log: xid_log "wf_mx bs" "member_covers bs" "\<lambda>m. mxstatus m \<le> 255"
    "member_at bs" "\<lambda>_ v _. v" "store_member bs" for bs
  using store_member_ok by unfold_locales simp

interpretation offsets_log: xid_log "wf_mx bs" "offset_covers bs" "\<lambda>_. True"
    "offset_at bs" "\<lambda>_ v _. v" "store_offset bs" for bs
  using store_offset_ok by unfold_locales simp

subsection \<open>Extending the members log\<close>

abbreviation members_per_page :: "nat \<Rightarrow> nat" where
  "members_per_page \<equiv> MULTIXACT_MEMBERS_PER_PAGE"

definition begins_page :: "nat \<Rightarrow> MultiXactOffset \<Rightarrow> bool" where
  "begins_page bs off \<longleftrightarrow> unat off mod members_per_page bs = 0"

definition fresh_pages :: "nat \<Rightarrow> MultiXactOffset list \<Rightarrow> nat set" where
  "fresh_pages bs offs = MXOffsetToMemberPage bs ` {x \<in> set offs. begins_page bs x}"

lemma fresh_pages_append: "fresh_pages bs (xs @ ys) = fresh_pages bs xs \<union> fresh_pages bs ys"
  by (auto simp: fresh_pages_def)

lemma fresh_pages_iff:
  "p \<in> fresh_pages bs (member_offsets off n) \<longleftrightarrow>
     (\<exists>i < n. begins_page bs (off + of_nat i) \<and> p = MXOffsetToMemberPage bs (off + of_nat i))"
  by (auto simp: fresh_pages_def member_offsets_def)

lemma begins_page_iff:
  "MXOffsetToFlagsOffset bs off = 0 \<and> MXOffsetToFlagsBitShift off = 0 \<longleftrightarrow> begins_page bs off"
proof -
  have "unat off mod (4 * (bs div 20)) = 4 * (unat off div 4 mod (bs div 20)) + unat off mod 4"
    by (simp add: mod_mult2_eq)
  then show ?thesis
    by (auto simp: begins_page_def member_layout MXOffsetToFlagsOffset_def MXOffsetToFlagsBitShift_def mult.commute)
qed

lemma member_offsets_split:
  assumes "k \<le> n"
  shows "member_offsets off n = member_offsets off k @ member_offsets (off + of_nat k) (n - k)"
proof -
  have "[0..<n] = [0..<k] @ map (\<lambda>i. k + i) [0..<n - k]"
    using assms upt_add_eq_append [of 0 k "n - k"] map_add_upt [of k "n - k"] by (simp add: add.commute)
  then show ?thesis by (simp add: member_offsets_def add.assoc)
qed

text \<open>The arithmetic of the last page, which is shorter than the others.\<close>

lemma last_page_arith:
  fixes u m :: nat
  assumes "0 < m" and "u < 2 ^ 32"
  defines "l \<equiv> 2 ^ 32 - (4294967295 mod m + 1)"
  shows "l mod m = 0" "l \<le> u \<Longrightarrow> 0 < i \<Longrightarrow> u + i < 2 ^ 32 \<Longrightarrow> (u + i) mod m \<noteq> 0"
    "u < l \<Longrightarrow> u + (m - u mod m) \<le> l"
proof -
  have l: "l = 4294967295 - 4294967295 mod m" by (simp add: l_def)
  then have lm: "l = m * (4294967295 div m)" by (simp add: minus_mod_eq_mult_div)
  then show l0: "l mod m = 0" by simp
  have short: "4294967295 - l < m" using assms(1) l by simp
  show "l \<le> u \<Longrightarrow> 0 < i \<Longrightarrow> u + i < 2 ^ 32 \<Longrightarrow> (u + i) mod m \<noteq> 0"
  proof -
    assume "l \<le> u" "0 < i" "u + i < 2 ^ 32"
    then have j: "0 < u + i - l" "u + i - l < m" using short by simp_all
    have "(u + i) mod m = (l + (u + i - l)) mod m" using \<open>l \<le> u\<close> by simp
    also have "\<dots> = (u + i - l) mod m" using l0 by (metis mod_add_left_eq add_0)
    finally show "(u + i) mod m \<noteq> 0" using j by simp
  qed
  assume "u < l"
  then have "u div m < 4294967295 div m" using lm assms(1) by (simp add: less_mult_imp_div_less mult.commute)
  then have "m * (u div m + 1) \<le> l" unfolding lm by (intro mult_le_mono2) simp
  moreover have "u + (m - u mod m) = m * (u div m + 1)"
  proof -
    have "u = m * (u div m) + u mod m" by simp
    moreover have "m * (u div m + 1) = m * (u div m) + m" by simp
    ultimately show ?thesis using mod_less_divisor [OF assms(1), of u] by linarith
  qed
  ultimately show "u + (m - u mod m) \<le> l" by simp
qed

lemma inside_page:
  fixes u i m :: nat
  assumes "0 < i" and "i < m - u mod m"
  shows "(u + i) mod m \<noteq> 0"
proof -
  have "(u + i) mod m = (u mod m + i) mod m" by (simp add: mod_add_left_eq)
  also have "\<dots> = u mod m + i" using assms by simp
  finally show ?thesis using assms(1) by simp
qed

lemma plus_wraps:
  fixes x y :: uint32
  shows "x + y < x \<longleftrightarrow> 2 ^ 32 \<le> unat x + unat y"
proof -
  have lt: "unat x < 2 ^ 32" "unat y < 2 ^ 32"
    using unsigned_less [of x, where 'a = nat] unsigned_less [of y, where 'a = nat] by simp_all
  have w: "unat (x + y) = (unat x + unat y) mod 2 ^ 32" by (simp add: unat_word_ariths)
  show ?thesis
  proof (cases "unat x + unat y < 2 ^ 32")
    case True
    then show ?thesis by (simp add: word_less_nat_alt w)
  next
    case False
    then have "(unat x + unat y) mod 2 ^ 32 = unat x + unat y - 2 ^ 32"
      using lt by (simp add: mod_if)
    then show ?thesis using False lt by (simp add: word_less_nat_alt w)
  qed
qed

lemma unat_uminus:
  fixes x :: uint32
  assumes "x \<noteq> 0"
  shows "unat (- x) = 2 ^ 32 - unat x"
proof -
  have lt: "unat x < 2 ^ 32" "unat (- x) < 2 ^ 32"
    using unsigned_less [of x, where 'a = nat] unsigned_less [of "- x", where 'a = nat] by simp_all
  have "0 < unat x" using assms by (simp add: unat_gt_0)
  moreover have "(unat (- x) + unat x) mod 2 ^ 32 = 0"
    using unat_word_ariths(1) [of "- x" x] by simp
  ultimately show ?thesis using lt by (auto simp: mod_if split: if_splits)
qed

lemma members_to_page_end_ok:
  fixes off :: MultiXactOffset
  assumes "20 \<le> bs" and "bs < 2 ^ 31"
  defines "d \<equiv> unat (members_to_page_end bs off)"
  shows "0 < d" "unat off + d \<le> 2 ^ 32" "0 < i \<Longrightarrow> i < d \<Longrightarrow> (unat off + i) mod members_per_page bs \<noteq> 0"
proof -
  let ?m = "members_per_page bs" and ?u = "unat off"
  have m: "0 < ?m" "?m < 2 ^ 31" using assms(1,2) by (auto simp: member_layout)
  define l where "l = (2 ^ 32 :: nat) - (4294967295 mod ?m + 1)"
  have mm: "4294967295 mod ?m + 1 \<le> ?m" using mod_less_divisor [OF m(1), of 4294967295] by linarith
  then have last: "unat (MAX_MEMBERS_IN_LAST_MEMBERS_PAGE bs) = 4294967295 mod ?m + 1"
    using m(2) unfolding MAX_MEMBERS_IN_LAST_MEMBERS_PAGE_def unat_of_nat by (intro mod_less) simp
  have u: "?u < 2 ^ 32" using unsigned_less [of off, where 'a = nat] by simp
  note a = last_page_arith [OF m(1) u, folded l_def]
  have cond: "off + MAX_MEMBERS_IN_LAST_MEMBERS_PAGE bs < off \<longleftrightarrow> l \<le> ?u"
    unfolding plus_wraps last using mm m(2) by (auto simp: l_def)
  have "0 < d \<and> ?u + d \<le> 2 ^ 32 \<and> (\<forall>i. 0 < i \<longrightarrow> i < d \<longrightarrow> (?u + i) mod ?m \<noteq> 0)"
  proof (cases "l \<le> ?u")
    case True
    have e: "members_to_page_end bs off = - off"
      using True cond by (simp add: members_to_page_end_def MaxMultiXactOffset_def)
    have "off \<noteq> 0" using True m mm by (auto simp: l_def)
    then have d: "d = 2 ^ 32 - ?u" unfolding d_def e by (rule unat_uminus)
    show ?thesis using a(2) [OF True] u by (auto simp: d)
  next
    case False
    have "?m - ?u mod ?m < 2 ^ 32" using m(2) by simp
    then have d: "d = ?m - ?u mod ?m"
      using False cond by (simp add: d_def members_to_page_end_def unat_of_nat)
    show ?thesis using a(3) False inside_page [of _ ?m ?u] m(1) by (auto simp: d l_def)
  qed
  then show "0 < d" "?u + d \<le> 2 ^ 32" "0 < i \<Longrightarrow> i < d \<Longrightarrow> (?u + i) mod ?m \<noteq> 0" by blast+
qed

text \<open>One round of the loop: it zeroes the page that begins at \<open>off\<close>, and no other one begins in it.\<close>

lemma fresh_round:
  assumes bs: "20 \<le> bs" "bs < 2 ^ 31" and k: "0 < k" "k \<le> unat (members_to_page_end bs off)"
  shows "fresh_pages bs (member_offsets off k) = (if begins_page bs off then {MXOffsetToMemberPage bs off} else {})"
proof -
  note e = members_to_page_end_ok [OF bs, where off = off]
  have u: "unat (off + of_nat i) = unat off + i" if "i < k" for i
  proof -
    have "i < 2 ^ 32" "unat off + i < 2 ^ 32" using that k(2) e(2) by linarith+
    then show ?thesis by (simp add: unat_word_ariths unat_of_nat)
  qed
  have no: "\<not> begins_page bs (off + of_nat i)" if "0 < i" "i < k" for i
    using e(3) that k(2) by (simp add: begins_page_def u)
  show ?thesis
  proof (cases "begins_page bs off")
    case True
    have "p \<in> fresh_pages bs (member_offsets off k) \<longleftrightarrow> p = MXOffsetToMemberPage bs off" for p
    proof
      assume "p \<in> fresh_pages bs (member_offsets off k)"
      then obtain i where i: "i < k" "begins_page bs (off + of_nat i)" "p = MXOffsetToMemberPage bs (off + of_nat i)"
        unfolding fresh_pages_iff by blast
      then have "i = 0" using no by blast
      then show "p = MXOffsetToMemberPage bs off" using i(3) by simp
    next
      assume "p = MXOffsetToMemberPage bs off"
      then show "p \<in> fresh_pages bs (member_offsets off k)"
        unfolding fresh_pages_iff using True k(1) by (intro exI [of _ 0]) simp
    qed
    then show ?thesis using True by auto
  next
    case False
    have "p \<notin> fresh_pages bs (member_offsets off k)" for p
    proof
      assume "p \<in> fresh_pages bs (member_offsets off k)"
      then obtain i where i: "i < k" "begins_page bs (off + of_nat i)" unfolding fresh_pages_iff by blast
      then have "i = 0" using no by blast
      then show False using i(2) False by simp
    qed
    then show ?thesis using False by auto
  qed
qed

definition zeroed :: "nat \<Rightarrow> nat set \<Rightarrow> (nat \<Rightarrow> uint32 list option) \<Rightarrow> nat \<Rightarrow> uint32 list option" where
  "zeroed bs P pgs = (\<lambda>p. if p \<in> P then Some (replicate (words_per_page bs) 0) else pgs p)"

lemma zeroed_simps [simp]: "zeroed bs {} pgs = pgs" "zeroed bs P (zeroed bs Q pgs) = zeroed bs (P \<union> Q) pgs"
  by (auto simp: zeroed_def)

definition extended :: "nat \<Rightarrow> nat set \<Rightarrow> multixact \<Rightarrow> multixact \<Rightarrow> bool" where
  "extended bs P s s' \<longleftrightarrow> member_pages s' = zeroed bs P (member_pages s) \<and> mx s' = mx s \<and>
     offset_pages s' = offset_pages s \<and> MXactCache s' = MXactCache s \<and> mx_recovery s' = mx_recovery s \<and>
     MyBackendId s' = MyBackendId s \<and> MaxOldestSlot s' = MaxOldestSlot s"

lemma extended_trans: "extended bs P s s1 \<Longrightarrow> extended bs Q s1 s2 \<Longrightarrow> extended bs (Q \<union> P) s s2"
  by (simp add: extended_def)

lemma ExtendMember_ok:
  assumes bs: "20 \<le> bs" "bs < 2 ^ 31"
  shows "\<exists>s'. ExtendMultiXactMember bs off (int n) s = Some s' \<and>
    extended bs (fresh_pages bs (member_offsets off n)) s s'"
proof (induction n arbitrary: off s rule: less_induct)
  case (less n)
  show ?case
  proof (cases "n = 0")
    case True
    have "ExtendMultiXactMember bs off 0 s = Some s" by (subst ExtendMultiXactMember.simps) simp
    then show ?thesis using True by (simp add: extended_def member_offsets_def fresh_pages_def)
  next
    case False
    define s1 where "s1 = (if begins_page bs off
      then ZeroMultiXactMemberPage bs (MXOffsetToMemberPage bs off) True s else s)"
    define d where "d = unat (members_to_page_end bs off)"
    define k where "k = min d n"
    note e = members_to_page_end_ok [OF bs, where off = off, folded d_def]
    have k: "0 < k" "k \<le> d" "k \<le> n" using e(1) False by (auto simp: k_def)
    have s1: "extended bs (fresh_pages bs (member_offsets off k)) s s1"
      using fresh_round [OF bs k(1) k(2) [unfolded d_def]]
      by (auto simp: s1_def extended_def zeroed_def ZeroMultiXactMemberPage_def mx_emit_def Let_def)
    have step: "ExtendMultiXactMember bs off (int n) s =
        ExtendMultiXactMember bs (off + members_to_page_end bs off) (int n - int d) s1"
      using False by (subst ExtendMultiXactMember.simps) (simp add: begins_page_iff s1_def d_def Let_def)
    have split: "fresh_pages bs (member_offsets off n) =
        fresh_pages bs (member_offsets (off + of_nat k) (n - k)) \<union> fresh_pages bs (member_offsets off k)"
      using member_offsets_split [OF k(3), of off] by (simp add: fresh_pages_append Un_commute)
    show ?thesis
    proof (cases "d < n")
      case True
      then have kd: "k = d" "n - d < n" using e(1) by (simp_all add: k_def)
      have off: "off + members_to_page_end bs off = off + of_nat d" by (simp add: d_def)
      have int: "int n - int d = int (n - d)" using True by simp
      obtain s' where s': "ExtendMultiXactMember bs (off + of_nat d) (int (n - d)) s1 = Some s'"
        "extended bs (fresh_pages bs (member_offsets (off + of_nat d) (n - d))) s1 s'"
        using less.IH [OF kd(2)] by blast
      show ?thesis
        using s'(1) extended_trans [OF s1 s'(2) [folded kd(1)]] unfolding step off int split by blast
    next
      case False
      then have "k = n" "\<not> 0 < int n - int d" by (simp_all add: k_def)
      then have "ExtendMultiXactMember bs off (int n) s = Some s1"
        unfolding step by (subst ExtendMultiXactMember.simps) simp
      then show ?thesis using s1 \<open>k = n\<close> by blast
    qed
  qed
qed

text \<open>
  Afterwards the range has its pages if the page of its first member had one, and no member
  that was there before and whose page does not begin in the range has changed.
\<close>

lemma extended_at:
  assumes "extended bs P s s'"
  shows "wf_mx bs s \<Longrightarrow> wf_mx bs s'" "member_covers bs s' y \<longleftrightarrow> member_covers bs s y \<or> MXOffsetToMemberPage bs y \<in> P"
    "MXOffsetToMemberPage bs y \<notin> P \<Longrightarrow> member_at bs s' y = member_at bs s y"
    "offset_at bs s' = offset_at bs s" "offset_covers bs s' = offset_covers bs s"
  using assms
  by (auto simp: extended_def zeroed_def wf_mx_def member_covers_def member_at_def offset_at_def offset_covers_def fun_eq_iff
      split: if_splits)

lemma same_page_begins:
  assumes "\<not> begins_page bs y"
  shows "MXOffsetToMemberPage bs (y - 1) = MXOffsetToMemberPage bs y"
proof -
  obtain u where u: "unat y = Suc u" using assms by (cases "unat y") (auto simp: begins_page_def)
  then have "unat (y - 1) = u" by (metis One_nat_def diff_Suc_1 unat_0 unat_minus_one zero_less_Suc unat_gt_0)
  then show ?thesis
    using assms u by (auto simp: MXOffsetToMemberPage_def begins_page_def div_Suc)
qed

lemma extended_covers:
  assumes "extended bs (fresh_pages bs (member_offsets off n)) s s'"
    and "member_covers bs s off \<or> begins_page bs off" and "i < n"
  shows "member_covers bs s' (off + of_nat i)"
  using assms(3)
proof (induction i)
  case 0
  then show ?case
    using assms(2) extended_at(2) [OF assms(1), of off] unfolding fresh_pages_iff by force
next
  case (Suc i)
  show ?case
  proof (cases "begins_page bs (off + of_nat (Suc i))")
    case True
    then have "MXOffsetToMemberPage bs (off + of_nat (Suc i)) \<in> fresh_pages bs (member_offsets off n)"
      using Suc.prems unfolding fresh_pages_iff by blast
    then show ?thesis using extended_at(2) [OF assms(1)] by blast
  next
    case False
    have "off + of_nat (Suc i) - 1 = off + of_nat i" by simp
    then show ?thesis
      using same_page_begins [OF False] Suc by (simp add: member_covers_def)
  qed
qed

subsection \<open>Recording a multixact\<close>

lemma member_offsets_distinct: "n < 2 ^ 32 \<Longrightarrow> distinct (member_offsets off n)"
proof -
  assume n: "n < 2 ^ 32"
  have "i = j" if "i < n" "j < n" "(of_nat i :: uint32) = of_nat j" for i j
  proof -
    have "i = unat (of_nat i :: uint32)" using that(1) n by (simp add: unat_of_nat)
    also have "\<dots> = unat (of_nat j :: uint32)" unfolding that(3) ..
    also have "\<dots> = j" using that(2) n by (simp add: unat_of_nat)
    finally show ?thesis .
  qed
  then show ?thesis by (auto simp: member_offsets_def distinct_map inj_on_def)
qed

lemma length_member_offsets [simp]: "length (member_offsets off n) = n"
  by (simp add: member_offsets_def)

lemma nth_member_offsets [simp]: "i < n \<Longrightarrow> member_offsets off n ! i = off + of_nat i"
  by (simp add: member_offsets_def)

lemma apply_writes_zip:
  assumes "distinct xs" and "length vs = length xs"
  shows "i < length xs \<Longrightarrow> apply_writes (\<lambda>v _. v) (zip xs vs) f (xs ! i) = vs ! i"
    "y \<notin> set xs \<Longrightarrow> apply_writes (\<lambda>v _. v) (zip xs vs) f y = f y"
proof -
  have "(\<forall>i < length xs. apply_writes (\<lambda>v _. v) (zip xs vs) f (xs ! i) = vs ! i) \<and>
    (\<forall>y. y \<notin> set xs \<longrightarrow> apply_writes (\<lambda>v _. v) (zip xs vs) f y = f y)"
    using assms(2,1)
  proof (induction vs xs arbitrary: f rule: list_induct2)
    case (Cons v vs x xs)
    then show ?case by (auto simp: nth_Cons split: nat.splits)
  qed simp
  then show "i < length xs \<Longrightarrow> apply_writes (\<lambda>v _. v) (zip xs vs) f (xs ! i) = vs ! i"
    "y \<notin> set xs \<Longrightarrow> apply_writes (\<lambda>v _. v) (zip xs vs) f y = f y" by blast+
qed

text \<open>The parts of the state that storing members leaves alone.\<close>

definition same_frame :: "multixact \<Rightarrow> multixact \<Rightarrow> bool" where
  "same_frame s s' \<longleftrightarrow> mx s' = mx s \<and> MXactCache s' = MXactCache s \<and> mx_recovery s' = mx_recovery s \<and>
     MyBackendId s' = MyBackendId s \<and> MaxOldestSlot s' = MaxOldestSlot s"

lemma store_member_frame:
  assumes "foldM (store_member bs) ws s = Inr s'"
  shows "same_frame s s' \<and> offset_pages s' = offset_pages s"
  using assms
proof (induction ws arbitrary: s)
  case (Cons w ws)
  then obtain s1 where s1: "store_member bs w s = Inr s1" "foldM (store_member bs) ws s1 = Inr s'"
    by (auto split: sum.splits)
  have "same_frame s s1 \<and> offset_pages s1 = offset_pages s"
    using s1(1) by (auto simp: store_member_def same_frame_def Let_def split: prod.splits sum.splits)
  then show ?case using Cons.IH [OF s1(2)] by (simp add: same_frame_def)
qed (simp add: same_frame_def)

definition recorded ::
  "nat \<Rightarrow> MultiXactId \<Rightarrow> MultiXactOffset \<Rightarrow> MultiXactMember list \<Rightarrow> multixact \<Rightarrow> multixact \<Rightarrow> bool" where
  "recorded bs multi off members s s' \<longleftrightarrow> wf_mx bs s' \<and> same_frame s s' \<and>
     offset_at bs s' = (offset_at bs s)(multi := off) \<and>
     (\<forall>y. offset_covers bs s y \<longrightarrow> offset_covers bs s' y) \<and> (\<forall>y. member_covers bs s y \<longrightarrow> member_covers bs s' y) \<and>
     (\<forall>i < length members. member_at bs s' (off + of_nat i) = members ! i) \<and>
     (\<forall>y. y \<notin> set (member_offsets off (length members)) \<longrightarrow> member_at bs s' y = member_at bs s y)"

lemma RecordNewMultiXact_ok:
  assumes wf: "wf_mx bs s" and c: "offset_covers bs s multi"
    and m: "\<And>i. i < length members \<Longrightarrow> member_covers bs s (off + of_nat i)"
    and v: "\<And>m. m \<in> set members \<Longrightarrow> mxstatus m \<le> 255" and n: "length members < 2 ^ 32"
  shows "\<exists>s'. RecordNewMultiXact bs multi off members s = Inr s' \<and> recorded bs multi off members s s'"
proof -
  let ?offs = "member_offsets off (length members)"
  obtain s1 where s1: "store_offset bs (multi, off) s = Inr s1" "wf_mx bs s1"
    "\<And>y. offset_covers bs s y \<Longrightarrow> offset_covers bs s1 y" "offset_at bs s1 = (offset_at bs s)(multi := off)"
    using store_offset_ok [OF wf c, of off] by blast
  then have f1: "same_frame s s1" "member_pages s1 = member_pages s"
    by (auto simp: store_offset_def same_frame_def Let_def split: sum.splits)
  then have m1: "member_at bs s1 = member_at bs s" "member_covers bs s1 = member_covers bs s"
    by (simp_all add: member_at_def member_covers_def fun_eq_iff)
  have "\<And>x v. (x, v) \<in> set (zip ?offs members) \<Longrightarrow> member_covers bs s1 x \<and> mxstatus v \<le> 255"
    using m v m1(2) by (auto simp: set_zip)
  from members_log.writes_ok [OF s1(2) this]
  obtain s' where s': "foldM (store_member bs) (zip ?offs members) s1 = Inr s'" "wf_mx bs s'"
    "\<forall>y. member_covers bs s1 y \<longrightarrow> member_covers bs s' y"
    "member_at bs s' = apply_writes (\<lambda>v _. v) (zip ?offs members) (member_at bs s1)" by blast
  note fr = store_member_frame [OF s'(1)]
  note w = apply_writes_zip [OF member_offsets_distinct [OF n, of off], where vs = members and f = "member_at bs s1"]
  have "recorded bs multi off members s s'"
    unfolding recorded_def
  proof (intro conjI allI impI)
    show "same_frame s s'" using f1(1) fr by (simp add: same_frame_def)
    show "offset_at bs s' = (offset_at bs s)(multi := off)"
      using fr s1(4) by (simp add: offset_at_def fun_eq_iff)
    show "offset_covers bs s y \<Longrightarrow> offset_covers bs s' y" for y
      using s1(3) [of y] fr by (simp add: offset_covers_def)
    show "i < length members \<Longrightarrow> member_at bs s' (off + of_nat i) = members ! i" for i
      using w(1) [of i] s'(4) by simp
    show "y \<notin> set ?offs \<Longrightarrow> member_at bs s' y = member_at bs s y" for y
      using w(2) [of y] s'(4) m1(1) by simp
  qed (use s'(2,3) m1(2) in auto)
  then show ?thesis using s1(1) s'(1) by (auto simp: RecordNewMultiXact_def)
qed

subsection \<open>Reading it back\<close>

lemma load_member_ok:
  assumes "member_covers bs s off"
  shows "load_member bs s off ptr =
    Inr (if TransactionIdIsValid (mxid (member_at bs s off)) then ptr @ [member_at bs s off] else ptr)"
  using assms
  by (auto simp: load_member_def member_covers_def member_at_def page_member_def member_words MXACT_MEMBER_XACT_BITMASK_def
      Let_def)

lemma load_members_ok:
  assumes "\<And>off. off \<in> set offs \<Longrightarrow> member_covers bs s off"
  shows "foldM (load_member bs s) offs ptr =
    Inr (ptr @ filter (\<lambda>m. TransactionIdIsValid (mxid m)) (map (member_at bs s) offs))"
  using assms by (induction offs arbitrary: ptr) (auto simp: load_member_ok)

text \<open>The number of the next multixact, for readers.\<close>

definition next_multi :: "MultiXactId \<Rightarrow> MultiXactId" where
  "next_multi multi = (if multi + 1 < FirstMultiXactId then FirstMultiXactId else multi + 1)"

text \<open>
  Where the members of a multixact that others can read end: at the next free offset if it is
  the newest one, otherwise where the next one begins. A next one whose offset is not written
  yet has no end.
\<close>

definition multi_end :: "nat \<Rightarrow> multixact \<Rightarrow> MultiXactId \<Rightarrow> MultiXactOffset option" where
  "multi_end bs s multi =
     (if nextMXact (mx s) = multi + 1 then Some (nextOffset (mx s))
      else if offset_covers bs s (next_multi multi) \<and> offset_at bs s (next_multi multi) \<noteq> 0
      then Some (offset_at bs s (next_multi multi)) else None)"

lemma members_length_ok:
  assumes "offset_covers bs s multi" and "multi_end bs s multi = Some e"
  shows "members_length bs multi s = Inr (offset_at bs s multi, e - offset_at bs s multi)"
  using assms
  by (auto simp: members_length_def offset_covers_def offset_at_def multi_end_def next_multi_def Let_def split: if_splits)

text \<open>
  What another backend, or this one with nothing cached, reads of a multixact: the members
  between its offset and its end. The unused slot 0 is skipped.
\<close>

definition stored_members :: "nat \<Rightarrow> multixact \<Rightarrow> MultiXactId \<Rightarrow> MultiXactOffset \<Rightarrow> MultiXactMember list" where
  "stored_members bs s multi e =
     filter (\<lambda>m. TransactionIdIsValid (mxid m))
       (map (member_at bs s) (member_offsets (offset_at bs s multi) (unat (e - offset_at bs s multi))))"

definition readable :: "nat \<Rightarrow> multixact \<Rightarrow> MultiXactId \<Rightarrow> MultiXactOffset \<Rightarrow> bool" where
  "readable bs s multi e \<longleftrightarrow> multi \<noteq> InvalidMultiXactId \<and> offset_covers bs s multi \<and> multi_end bs s multi = Some e \<and>
     \<not> MultiXactIdPrecedes multi (oldestMultiXactId (mx s)) \<and> MultiXactIdPrecedes multi (nextMXact (mx s)) \<and>
     unat (e - offset_at bs s multi) < 2 ^ 31 \<and>
     (\<forall>i < unat (e - offset_at bs s multi). member_covers bs s (offset_at bs s multi + of_nat i))"

lemma SetOldestVisible_keeps:
  "offset_pages (MultiXactIdSetOldestVisible s) = offset_pages s"
  "member_pages (MultiXactIdSetOldestVisible s) = member_pages s"
  "mx_recovery (MultiXactIdSetOldestVisible s) = mx_recovery s"
  "nextMXact (mx (MultiXactIdSetOldestVisible s)) = nextMXact (mx s)"
  "nextOffset (mx (MultiXactIdSetOldestVisible s)) = nextOffset (mx s)"
  "oldestMultiXactId (mx (MultiXactIdSetOldestVisible s)) = oldestMultiXactId (mx s)"
  by (simp_all add: MultiXactIdSetOldestVisible_def upd_mx_def Let_def)

lemma GetMembers_ok:
  assumes r: "readable bs s multi e" and miss: "mXactCacheGetById multi s = None"
  shows "\<exists>s'. GetMultiXactIdMembers bs multi allow_old s = Inr (Some (stored_members bs s multi e), s')"
proof -
  let ?s = "MultiXactIdSetOldestVisible s" and ?off = "offset_at bs s multi"
  note k = SetOldestVisible_keeps [of s]
  have "offset_at bs ?s = offset_at bs s" "member_at bs ?s = member_at bs s" "member_covers bs ?s = member_covers bs s"
    "offset_covers bs ?s = offset_covers bs s"
    using k by (simp_all add: offset_at_def member_at_def member_covers_def offset_covers_def fun_eq_iff)
  note same = this
  have "multi_end bs ?s multi = Some e" using r k same by (auto simp: multi_end_def readable_def split: if_splits)
  then have len: "members_length bs multi ?s = Inr (?off, e - ?off)"
    using members_length_ok [of bs ?s multi e] r same by (simp add: readable_def)
  have nn: "\<not> sint (e - ?off) < 0"
    using r by (simp add: readable_def sint_negative)
  have "member_covers bs ?s o'" if "o' \<in> set (member_offsets ?off (unat (e - ?off)))" for o'
    using that r same(3) by (auto simp: readable_def member_offsets_def)
  from load_members_ok [OF this, where ptr = "[]"]
  have "foldM (load_member bs ?s) (member_offsets ?off (unat (e - ?off))) [] = Inr (stored_members bs s multi e)"
    by (simp add: stored_members_def same(2))
  then show ?thesis
    using r miss len nn k by (simp add: GetMultiXactIdMembers_def readable_def Let_def)
qed

end
