(* ===== verification/MultixactMake.thy ===== *)
theory MultixactMake
  imports MultixactLog
begin

section \<open>Making multixacts\<close>

text \<open>
  \<open>GetNewMultiXactId\<close> reserves a number and a range of members with their pages, the creation
  fills them. What is created reads back, and older multixacts keep their members, the newest
  of them even when its end moves from 0 to 1 at the wraparound of the offsets.
\<close>

definition recovery_error :: pg_error where
  "recovery_error = ERROR ''cannot assign MultiXactIds during recovery''"
definition multi_stop_error :: pg_error where
  "multi_stop_error = ERROR ''database is not accepting commands that generate new MultiXactIds''"
definition members_stop_error :: pg_error where
  "members_stop_error = ERROR ''multixact members limit exceeded''"
definition too_many_updates :: pg_error where
  "too_many_updates = ERROR ''new multixact has more than one updating member''"

lemmas multi_errors = recovery_error_def multi_stop_error_def members_stop_error_def too_many_updates_def

definition multi_ready :: "nat \<Rightarrow> multixact \<Rightarrow> bool" where
  "multi_ready bs s \<longleftrightarrow> wf_mx bs s \<and>
     (offset_covers bs s (ReadNextMultiXactId s) \<or> MultiXactIdToOffsetEntry bs (ReadNextMultiXactId s) = 0 \<or>
      ReadNextMultiXactId s = FirstMultiXactId) \<and>
     (member_covers bs s (nextOffset (mx s)) \<or> begins_page bs (nextOffset (mx s))) \<and>
     \<not> MultiXactIdPrecedes (ReadNextMultiXactId s) (oldestMultiXactId (mx s))"

text \<open>The range of members that \<open>n\<close> members take, slot 0 being passed over.\<close>

definition new_start :: "multixact \<Rightarrow> MultiXactOffset" where
  "new_start s = (if nextOffset (mx s) = 0 then 1 else nextOffset (mx s))"

definition new_count :: "nat \<Rightarrow> multixact \<Rightarrow> nat" where
  "new_count n s = (if nextOffset (mx s) = 0 then n + 1 else n)"

definition new_range :: "nat \<Rightarrow> multixact \<Rightarrow> MultiXactOffset list" where
  "new_range n s = member_offsets (nextOffset (mx s)) (new_count n s)"

lemma skip_invalid_fields:
  "nextMXact (mx (skip_invalid_multi s)) = ReadNextMultiXactId s"
  "ReadNextMultiXactId (skip_invalid_multi s) = ReadNextMultiXactId s"
  "nextOffset (mx (skip_invalid_multi s)) = nextOffset (mx s)"
  "oldestMultiXactId (mx (skip_invalid_multi s)) = oldestMultiXactId (mx s)"
  "member_pages (skip_invalid_multi s) = member_pages s" "offset_pages (skip_invalid_multi s) = offset_pages s"
  "MXactCache (skip_invalid_multi s) = MXactCache s" "mx_recovery (skip_invalid_multi s) = mx_recovery s"
  by (auto simp: skip_invalid_multi_def ReadNextMultiXactId_def upd_mx_def FirstMultiXactId_def)

lemma mx_emit_fields [simp]:
  "mx (mx_emit e s) = mx s" "member_pages (mx_emit e s) = member_pages s" "offset_pages (mx_emit e s) = offset_pages s"
  "MXactCache (mx_emit e s) = MXactCache s" "mx_recovery (mx_emit e s) = mx_recovery s"
  by (simp_all add: mx_emit_def)

text \<open>The checks only send signals and warnings.\<close>

definition same_data :: "multixact \<Rightarrow> multixact \<Rightarrow> bool" where
  "same_data s s' \<longleftrightarrow> mx s' = mx s \<and> member_pages s' = member_pages s \<and> offset_pages s' = offset_pages s \<and>
     MXactCache s' = MXactCache s \<and> mx_recovery s' = mx_recovery s"

definition past_multi_stop :: "server_mode \<Rightarrow> multixact \<Rightarrow> bool" where
  "past_multi_stop m s \<longleftrightarrow> IsUnderPostmaster m \<and> \<not> MultiXactIdPrecedes (ReadNextMultiXactId s) (multiStopLimit (mx s))"

definition past_members_stop :: "nat \<Rightarrow> multixact \<Rightarrow> bool" where
  "past_members_stop n s \<longleftrightarrow> offsetStopLimitKnown (mx s) \<and>
     MultiXactOffsetWouldWrap (offsetStopLimit (mx s)) (nextOffset (mx s)) (of_nat (new_count n s))"

text \<open>When a multixact of \<open>n\<close> members is refused, and why.\<close>

definition refusal :: "server_mode \<Rightarrow> nat \<Rightarrow> multixact \<Rightarrow> pg_error option" where
  "refusal m n s =
     (if RecoveryInProgress m then Some recovery_error
      else if near_limits (skip_invalid_multi s) \<and> past_multi_stop m s then Some multi_stop_error
      else if past_members_stop n s then Some members_stop_error else None)"

lemma limit_checks:
  "case multi_limit_check m (ReadNextMultiXactId s) s of
     Inl e \<Rightarrow> past_multi_stop m s \<and> e = multi_stop_error | Inr s' \<Rightarrow> \<not> past_multi_stop m s \<and> same_data s s'"
  "case members_limit_check bs (of_nat (new_count n s)) s of
     Inl e \<Rightarrow> past_members_stop n s \<and> e = members_stop_error | Inr s' \<Rightarrow> \<not> past_members_stop n s \<and> same_data s s'"
  by (auto simp: multi_limit_check_def members_limit_check_def multi_errors same_data_def past_multi_stop_def
      past_members_stop_def Let_def)

definition reserved :: "nat \<Rightarrow> nat \<Rightarrow> multixact \<Rightarrow> multixact \<Rightarrow> bool" where
  "reserved bs n s s' \<longleftrightarrow>
     member_pages s' = zeroed bs (fresh_pages bs (new_range n s)) (member_pages s) \<and>
     offset_pages s' = offset_pages (ExtendMultiXactOffset bs (ReadNextMultiXactId s) s) \<and>
     nextMXact (mx s') = ReadNextMultiXactId s + 1 \<and>
     nextOffset (mx s') = nextOffset (mx s) + of_nat (new_count n s) \<and>
     oldestMultiXactId (mx s') = oldestMultiXactId (mx s) \<and> MXactCache s' = MXactCache s \<and> mx_recovery s' = mx_recovery s"

lemma ExtendOffset_fields:
  "mx (ExtendMultiXactOffset bs x s) = mx s" "member_pages (ExtendMultiXactOffset bs x s) = member_pages s"
  "MXactCache (ExtendMultiXactOffset bs x s) = MXactCache s" "mx_recovery (ExtendMultiXactOffset bs x s) = mx_recovery s"
  "offset_pages s1 = offset_pages s \<Longrightarrow> offset_pages (ExtendMultiXactOffset bs x s1) = offset_pages (ExtendMultiXactOffset bs x s)"
  by (simp_all add: ExtendMultiXactOffset_def ZeroMultiXactOffsetPage_def mx_emit_def Let_def)

lemma refusal_fields:
  assumes "mx s1 = mx (skip_invalid_multi s)"
  shows "past_multi_stop m s1 = past_multi_stop m s" "past_members_stop n s1 = past_members_stop n s"
    "ReadNextMultiXactId s1 = ReadNextMultiXactId s" "new_count n s1 = new_count n s" "new_start s1 = new_start s"
proof -
  have "ReadNextMultiXactId s1 = ReadNextMultiXactId (skip_invalid_multi s)"
    using assms by (simp add: ReadNextMultiXactId_def)
  then show x: "ReadNextMultiXactId s1 = ReadNextMultiXactId s" by (simp add: skip_invalid_fields(2))
  show "past_multi_stop m s1 = past_multi_stop m s"
    unfolding past_multi_stop_def x assms by (simp add: skip_invalid_multi_def upd_mx_def)
  show "past_members_stop n s1 = past_members_stop n s" "new_count n s1 = new_count n s" "new_start s1 = new_start s"
    using assms
    by (simp_all add: past_members_stop_def new_count_def new_start_def skip_invalid_multi_def upd_mx_def)
qed

lemma GetNewMultiXactId_cases:
  assumes bs: "20 \<le> bs" "bs < 2 ^ 31"
  shows "case refusal m n s of
      Some e \<Rightarrow> GetNewMultiXactId bs m id n s = Some (Inl e)
    | None \<Rightarrow> \<exists>s'. GetNewMultiXactId bs m id n s = Some (Inr (ReadNextMultiXactId s, new_start s, s')) \<and> reserved bs n s s'"
proof (cases "RecoveryInProgress m")
  case True
  then show ?thesis by (simp add: GetNewMultiXactId_def refusal_def recovery_error_def)
next
  case no_rec: False
  define s0 where "s0 = skip_invalid_multi s"
  define c where "c = (if near_limits s0 then map_sum id id (multi_limit_check m (nextMXact (mx s0)) s0) else Inr s0)"
  have x0: "nextMXact (mx s0) = ReadNextMultiXactId s0"
    using skip_invalid_fields(1,2) [of s] by (simp add: s0_def)
  have c: "case c of Inl e \<Rightarrow> near_limits s0 \<and> past_multi_stop m s0 \<and> e = multi_stop_error
      | Inr s1 \<Rightarrow> \<not> (near_limits s0 \<and> past_multi_stop m s0) \<and> same_data s0 s1"
    using limit_checks(1) [where m = m and s = s0] by (auto simp: c_def x0 same_data_def split: sum.splits)
  have stop0: "past_multi_stop m s0 = past_multi_stop m s" by (simp add: refusal_fields(1) s0_def)
  show ?thesis
  proof (cases c)
    case (Inl e)
    then have near: "near_limits s0" using c by simp
    then have "map_sum id id (multi_limit_check m (nextMXact (mx s0)) s0) = Inl e" using Inl by (simp add: c_def)
    then show ?thesis using c Inl near no_rec stop0
      by (simp add: GetNewMultiXactId_def refusal_def s0_def [symmetric] Let_def)
  next
    case (Inr s1)
    note s1 = c [unfolded Inr sum.case same_data_def, THEN conjunct2]
    have m1: "mx s1 = mx (skip_invalid_multi s)" using s1 by (simp add: s0_def)
    define x where "x = ReadNextMultiXactId s"
    have x: "ReadNextMultiXactId s1 = x" by (simp add: refusal_fields(3) [OF m1] x_def)
    have next1: "nextMXact (mx s1) = x" "nextOffset (mx s1) = nextOffset (mx s)"
      using m1 skip_invalid_fields(1,3) [of s] by (simp_all add: x_def)
    define s2 where "s2 = ExtendMultiXactOffset bs x s1"
    note f2 = ExtendOffset_fields(1-4) [where bs = bs and x = x and s = s1, folded s2_def]
    have m2: "mx s2 = mx (skip_invalid_multi s)" using f2(1) m1 by simp
    note r2 = refusal_fields [OF m2]
    have start: "nextOffset (mx s2) = nextOffset (mx s)" using f2 next1 by simp
    have res: "GetNewMultiXactId bs m id n s = (case members_limit_check bs (of_nat (new_count n s)) s2 of
        Inl e \<Rightarrow> Some (Inl e)
      | Inr s3 \<Rightarrow> (case ExtendMultiXactMember bs (nextOffset (mx s)) (int (new_count n s)) s3 of
          None \<Rightarrow> None
        | Some s4 \<Rightarrow> Some (Inr (x, new_start s, upd_mx (\<lambda>m. m\<lparr>nextMXact := nextMXact m + 1,
            nextOffset := nextOffset m + of_nat (new_count n s)\<rparr>) s4))))"
      using no_rec
      unfolding GetNewMultiXactId_def Let_def s0_def [symmetric] c_def [symmetric] Inr sum.case x s2_def [symmetric] start
        new_start_def new_count_def
      by simp
    have ref: "refusal m n s = (if past_members_stop n s then Some members_stop_error else None)"
      using no_rec c [unfolded Inr sum.case, THEN conjunct1] stop0 by (auto simp: refusal_def s0_def [symmetric])
    show ?thesis
    proof (cases "members_limit_check bs (of_nat (new_count n s)) s2")
      case (Inl e)
      then show ?thesis
        using limit_checks(2) [where bs = bs and n = n and s = s2] r2 res ref by simp
    next
      case (Inr s3)
      note s3 = limit_checks(2) [where bs = bs and n = n and s = s2, unfolded r2 Inr sum.case same_data_def]
      obtain s4 where s4: "ExtendMultiXactMember bs (nextOffset (mx s)) (int (new_count n s)) s3 = Some s4"
        "extended bs (fresh_pages bs (new_range n s)) s3 s4"
        using ExtendMember_ok [OF bs, of "nextOffset (mx s)" "new_count n s" s3] by (auto simp: new_range_def)
      define s' where "s' = upd_mx (\<lambda>m. m\<lparr>nextMXact := nextMXact m + 1,
            nextOffset := nextOffset m + of_nat (new_count n s)\<rparr>) s4"
      have off: "offset_pages s2 = offset_pages (ExtendMultiXactOffset bs x s)"
        unfolding s2_def using s1 skip_invalid_fields(6) [of s] by (intro ExtendOffset_fields(5)) (simp add: s0_def)
      have "reserved bs n s s'"
        using s4(2) s3 f2 s1 next1 off skip_invalid_fields [of s]
        by (simp add: reserved_def extended_def s'_def upd_mx_def x_def [symmetric] s0_def)
      then show ?thesis using res Inr s4(1) s3 ref by (simp add: s'_def [symmetric] x_def)
    qed
  qed
qed

subsection \<open>A new multixact reads back\<close>

lemma ExtendOffset_at:
  assumes "wf_mx bs s" and "offset_covers bs s x \<or> MultiXactIdToOffsetEntry bs x = 0 \<or> x = FirstMultiXactId"
  shows "wf_mx bs (ExtendMultiXactOffset bs x s)" "offset_covers bs (ExtendMultiXactOffset bs x s) x"
    "offset_covers bs s y \<Longrightarrow> offset_covers bs (ExtendMultiXactOffset bs x s) y"
  using assms
  by (auto simp: ExtendMultiXactOffset_def ZeroMultiXactOffsetPage_def wf_mx_def offset_covers_def mx_emit_def Let_def)

lemma reserved_ready:
  assumes r: "multi_ready bs s" and s': "reserved bs n s s'"
  shows "wf_mx bs s'" "offset_covers bs s' (ReadNextMultiXactId s)"
    "i < n \<Longrightarrow> member_covers bs s' (new_start s + of_nat i)"
proof -
  let ?x = "ReadNextMultiXactId s"
  define t where "t = s\<lparr>member_pages := member_pages s'\<rparr>"
  have t: "extended bs (fresh_pages bs (new_range n s)) s t" using s' by (simp add: extended_def reserved_def t_def)
  have wf: "wf_mx bs s" using r by (simp add: multi_ready_def)
  note e = ExtendOffset_at [OF wf, of ?x]
  have x: "offset_covers bs s ?x \<or> MultiXactIdToOffsetEntry bs ?x = 0 \<or> ?x = FirstMultiXactId"
    using r by (simp add: multi_ready_def)
  show "offset_covers bs s' ?x" using e(2) [OF x] s' by (simp add: offset_covers_def reserved_def)
  have "wf_mx bs t" using extended_at(1) [OF t wf] .
  then show "wf_mx bs s'" using e(1) [OF x] s' by (simp add: wf_mx_def t_def reserved_def)
  have c: "member_covers bs t (nextOffset (mx s) + of_nat j)" if "j < new_count n s" for j
    using extended_covers [OF t [unfolded new_range_def] _ that] r by (auto simp: multi_ready_def)
  assume i: "i < n"
  have "member_covers bs t (new_start s + of_nat i)"
  proof (cases "nextOffset (mx s) = 0")
    case True
    then show ?thesis using c [of "Suc i"] i by (simp add: new_start_def new_count_def)
  next
    case False
    then show ?thesis using c [of i] i by (simp add: new_start_def new_count_def)
  qed
  then show "member_covers bs s' (new_start s + of_nat i)" by (simp add: member_covers_def t_def)
qed

lemma new_end:
  "nextOffset (mx s) + of_nat (new_count n s) = new_start s + of_nat n"
  by (simp add: new_start_def new_count_def)

lemma precedes_next: "MultiXactIdPrecedes x (x + 1)"
  by (simp add: MultiXactIdPrecedes_def)

lemma length_sort_members [simp]: "length (sort_members ms) = length ms" "set (sort_members ms) = set ms"
  by (simp_all add: sort_members_def)

definition makes ::
  "nat \<Rightarrow> MultiXactMember list \<Rightarrow> multixact \<Rightarrow> multixact \<Rightarrow> bool" where
  "makes bs members s s' \<longleftrightarrow> (\<exists>s1 s2. reserved bs (length members) s s1 \<and>
     recorded bs (ReadNextMultiXactId s) (new_start s) (sort_members members) s1 s2 \<and>
     s' = mXactCachePut (ReadNextMultiXactId s) (sort_members members) s2)"

lemma recorded_emit: "recorded bs x off ms (mx_emit e s) s' \<longleftrightarrow> recorded bs x off ms s s'"
  by (simp add: recorded_def mx_emit_def same_frame_def offset_at_def member_at_def offset_covers_def member_covers_def fun_eq_iff)

lemma one_update_sort [simp]: "one_update (sort_members ms) = one_update ms"
  by (simp add: one_update_def sort_members_def filter_sort)

definition create_refusal :: "server_mode \<Rightarrow> MultiXactMember list \<Rightarrow> multixact \<Rightarrow> pg_error option" where
  "create_refusal m members s =
     (if one_update members then refusal m (length members) s else Some too_many_updates)"

text \<open>
  A set of members that is not cached gets the next number, unless the set or the limits
  forbid it.
\<close>

lemma Create_cases:
  assumes r: "multi_ready bs s" and n: "length members < 2 ^ 32"
    and v: "\<And>m. m \<in> set members \<Longrightarrow> valid_member m"
    and miss: "find (\<lambda>entry. snd entry = sort_members members) (MXactCache s) = None"
  shows "case create_refusal m members s of
      Some e \<Rightarrow> MultiXactIdCreateFromMembers bs m id members s = Some (Inl e)
    | None \<Rightarrow> \<exists>s'. MultiXactIdCreateFromMembers bs m id members s = Some (Inr (ReadNextMultiXactId s, s')) \<and>
        makes bs members s s'"
proof (cases "one_update members")
  case False
  then show ?thesis using miss
    by (simp add: MultiXactIdCreateFromMembers_def mXactCacheGetBySet_def Let_def too_many_updates_def create_refusal_def)
next
  case True
  let ?x = "ReadNextMultiXactId s" and ?ms = "sort_members members"
  have bs: "20 \<le> bs" "bs < 2 ^ 31" using r by (simp_all add: multi_ready_def wf_mx_def)
  have st: "MultiXactIdCreateFromMembers bs m id members s =
      (case GetNewMultiXactId bs m id (length members) s of
            None \<Rightarrow> None
          | Some (Inl e) \<Rightarrow> Some (Inl e)
          | Some (Inr (multi, offset, s)) \<Rightarrow>
              (let s = mx_emit (XLOG_MULTIXACT_CREATE_ID multi offset ?ms) s
               in case critical (RecordNewMultiXact bs multi offset ?ms s) of
                    Inl e \<Rightarrow> Some (Inl e)
                  | Inr s \<Rightarrow> Some (Inr (multi, mXactCachePut multi ?ms s))))"
    using True miss by (simp add: MultiXactIdCreateFromMembers_def mXactCacheGetBySet_def Let_def)
  have ref: "create_refusal m members s = refusal m (length members) s" using True by (simp add: create_refusal_def)
  note new = GetNewMultiXactId_cases [OF bs, of m "length members" s]
  show ?thesis
  proof (cases "refusal m (length members) s")
    case (Some e)
    then show ?thesis using new unfolding ref st by simp
  next
    case None
    then obtain s1 where s1: "GetNewMultiXactId bs m id (length members) s = Some (Inr (?x, new_start s, s1))"
      "reserved bs (length members) s s1" using new by auto
    define t where "t = mx_emit (XLOG_MULTIXACT_CREATE_ID ?x (new_start s) ?ms) s1"
    note ready = reserved_ready [OF r s1(2)]
    have t: "wf_mx bs t" "offset_covers bs t ?x"
      "\<And>i. i < length ?ms \<Longrightarrow> member_covers bs t (new_start s + of_nat i)"
      using ready by (simp_all add: t_def wf_mx_def offset_covers_def member_covers_def)
    have st255: "mxstatus m \<le> 255" if "m \<in> set ?ms" for m
      using v [of m] that by (auto simp: valid_member_def MultiXactStatusUpdate_def elim: order_trans)
    obtain s2 where s2: "RecordNewMultiXact bs ?x (new_start s) ?ms t = Inr s2"
      "recorded bs ?x (new_start s) ?ms t s2"
      using RecordNewMultiXact_ok [where members = ?ms, OF t st255] n by auto
    have "MultiXactIdCreateFromMembers bs m id members s = Some (Inr (?x, mXactCachePut ?x ?ms s2))"
      unfolding st s1(1) using s2(1) by (simp add: t_def critical_def)
    moreover have "makes bs members s (mXactCachePut ?x ?ms s2)"
      unfolding makes_def using s1(2) s2(2) by (auto simp: t_def recorded_emit)
    ultimately show ?thesis using None ref by auto
  qed
qed

lemma ReadNext_nonzero: "ReadNextMultiXactId s \<noteq> InvalidMultiXactId"
  by (auto simp: ReadNextMultiXactId_def FirstMultiXactId_def InvalidMultiXactId_def)

lemma CachePut_fields [simp]:
  "mx (mXactCachePut x ms s) = mx s" "member_pages (mXactCachePut x ms s) = member_pages s"
  "offset_pages (mXactCachePut x ms s) = offset_pages s" "mx_recovery (mXactCachePut x ms s) = mx_recovery s"
  by (simp_all add: mXactCachePut_def Let_def)

lemma same_logs:
  assumes "member_pages s' = member_pages s" and "offset_pages s' = offset_pages s"
  shows "offset_at bs s' = offset_at bs s" "member_at bs s' = member_at bs s"
    "offset_covers bs s' = offset_covers bs s" "member_covers bs s' = member_covers bs s"
    "wf_mx bs s' = wf_mx bs s"
  using assms by (simp_all add: offset_at_def member_at_def offset_covers_def member_covers_def wf_mx_def fun_eq_iff)

text \<open>A reader's answer depends on the logs and the shared counters only.\<close>

lemma readable_same:
  assumes "member_pages s' = member_pages s" and "offset_pages s' = offset_pages s" and "mx s' = mx s"
  shows "readable bs s' multi e = readable bs s multi e" "stored_members bs s' multi e = stored_members bs s multi e"
  using same_logs [OF assms(1,2), of bs] assms(3)
  by (simp_all add: readable_def stored_members_def multi_end_def)

lemma makes_reads_back:
  assumes r: "multi_ready bs s" and mk: "makes bs ms s s'" and n: "length ms < 2 ^ 31"
    and v: "\<And>m. m \<in> set ms \<Longrightarrow> valid_member m"
  shows "readable bs s' (ReadNextMultiXactId s) (new_start s + of_nat (length ms))"
    "stored_members bs s' (ReadNextMultiXactId s) (new_start s + of_nat (length ms)) = sort_members ms"
proof -
  let ?x = "ReadNextMultiXactId s" and ?n = "length ms" and ?off = "new_start s" and ?ms = "sort_members ms"
  obtain s1 s2 where s1: "reserved bs ?n s s1" and s2: "recorded bs ?x ?off ?ms s1 s2"
    and s': "s' = mXactCachePut ?x ?ms s2"
    using mk by (auto simp: makes_def)
  note ready = reserved_ready [OF r s1]
  have mx2: "mx s2 = mx s1" using s2 by (simp add: recorded_def same_frame_def)
  have len: "unat (?off + of_nat ?n - ?off) = ?n" using n by (simp add: unat_of_nat)
  have off: "offset_at bs s2 ?x = ?off" using s2 by (simp add: recorded_def)
  have nxt: "nextMXact (mx s2) = ?x + 1" "nextOffset (mx s2) = ?off + of_nat ?n"
    "oldestMultiXactId (mx s2) = oldestMultiXactId (mx s)"
    using s1 mx2 new_end [of s ?n] by (simp_all add: reserved_def)
  have ofc: "offset_covers bs s2 ?x" using s2 ready(2) by (simp add: recorded_def)
  have memc: "member_covers bs s2 (?off + of_nat i)" if "i < ?n" for i
    using s2 ready(3) [OF that] by (simp add: recorded_def)
  have "readable bs s2 ?x (?off + of_nat ?n)"
    unfolding readable_def off len multi_end_def nxt
    using ReadNext_nonzero [of s] ofc memc n r precedes_next [of ?x] by (simp add: multi_ready_def)
  then show "readable bs s' ?x (?off + of_nat ?n)"
    using readable_same(1) [of s' s2] by (simp add: s')
  have "map (member_at bs s2) (member_offsets ?off ?n) = ?ms"
    using s2 by (intro nth_equalityI) (simp_all add: recorded_def)
  moreover have "\<forall>m \<in> set ?ms. TransactionIdIsValid (mxid m)" using v by (auto simp: valid_member_def)
  ultimately have "stored_members bs s2 ?x (?off + of_nat ?n) = ?ms"
    unfolding stored_members_def off len by (simp add: filter_True)
  then show "stored_members bs s' ?x (?off + of_nat ?n) = ?ms"
    using readable_same(2) [of s' s2] by (simp add: s')
qed

text \<open>What any backend whose cache does not have the multixact reads.\<close>

definition seen_by :: "nat \<Rightarrow> multixact \<Rightarrow> multixact" where
  "seen_by backend s = s\<lparr>MXactCache := [], MyBackendId := backend\<rparr>"

lemma read_elsewhere:
  assumes "readable bs s multi e"
  shows "\<exists>s'. GetMultiXactIdMembers bs multi allow_old (seen_by backend s) =
    Inr (Some (stored_members bs s multi e), s')"
proof -
  have "readable bs (seen_by backend s) multi e"
    using assms readable_same(1) [of "seen_by backend s" s] by (simp add: seen_by_def)
  moreover have "mXactCacheGetById multi (seen_by backend s) = None"
    by (simp add: seen_by_def mXactCacheGetById_def)
  ultimately obtain s' where "GetMultiXactIdMembers bs multi allow_old (seen_by backend s) =
      Inr (Some (stored_members bs (seen_by backend s) multi e), s')"
    using GetMembers_ok by blast
  then show ?thesis
    using readable_same(2) [of "seen_by backend s" s] by (simp add: seen_by_def)
qed

subsection \<open>Older multixacts keep their members\<close>

text \<open>
  The new pages must not be pages that an older multixact still uses; keeping them apart is
  what the limits are for.
\<close>

definition undisturbed :: "nat \<Rightarrow> nat \<Rightarrow> multixact \<Rightarrow> MultiXactId \<Rightarrow> MultiXactOffset \<Rightarrow> bool" where
  "undisturbed bs n s multi e \<longleftrightarrow>
     (MultiXactIdToOffsetEntry bs (ReadNextMultiXactId s) = 0 \<or> ReadNextMultiXactId s = FirstMultiXactId \<longrightarrow>
        \<not> offset_covers bs s (ReadNextMultiXactId s)) \<and>
     MultiXactIdPrecedes multi (ReadNextMultiXactId s + 1) \<and> Suc (unat (e - offset_at bs s multi)) < 2 ^ 31 \<and>
     (\<forall>i < unat (e - offset_at bs s multi).
        offset_at bs s multi + of_nat i \<notin> set (new_range n s) \<and>
        MXOffsetToMemberPage bs (offset_at bs s multi + of_nat i) \<notin> fresh_pages bs (new_range n s))"

lemma reserved_keeps:
  assumes s': "reserved bs n s s'"
  shows "MXOffsetToMemberPage bs y \<notin> fresh_pages bs (new_range n s) \<Longrightarrow>
      member_at bs s' y = member_at bs s y \<and> member_covers bs s' y = member_covers bs s y"
    "(MultiXactIdToOffsetEntry bs (ReadNextMultiXactId s) = 0 \<or> ReadNextMultiXactId s = FirstMultiXactId \<longrightarrow>
        \<not> offset_covers bs s (ReadNextMultiXactId s)) \<Longrightarrow> offset_covers bs s x \<Longrightarrow>
      offset_at bs s' x = offset_at bs s x \<and> offset_covers bs s' x"
  using s'
  by (auto simp: reserved_def zeroed_def member_at_def member_covers_def offset_at_def offset_covers_def
      ExtendMultiXactOffset_def ZeroMultiXactOffsetPage_def mx_emit_def Let_def split: if_splits)

lemma older_other:
  assumes "readable bs s multi e"
  shows "multi \<noteq> ReadNextMultiXactId s"
proof
  assume "multi = ReadNextMultiXactId s"
  moreover have "MultiXactIdPrecedes multi (nextMXact (mx s))" using assms by (simp add: readable_def)
  moreover have "\<not> MultiXactIdPrecedes x x" "\<not> MultiXactIdPrecedes 1 0" for x by (simp_all add: MultiXactIdPrecedes_def)
  moreover have "nextMXact (mx s) < 1 \<longleftrightarrow> nextMXact (mx s) = 0" by (simp add: word_less_nat_alt word_unat_eq_iff)
  ultimately show False by (auto simp: ReadNextMultiXactId_def FirstMultiXactId_def split: if_splits)
qed

text \<open>The newest multixact ended at the free offset; now it ends where the new one begins.\<close>

lemma older_end:
  assumes rd: "readable bs s multi e" and u: "undisturbed bs n s multi e" and r: "multi_ready bs s"
    and s1: "reserved bs n s s1" and s2: "recorded bs (ReadNextMultiXactId s) (new_start s) ms s1 s2"
  shows "multi_end bs s2 multi = Some (if e = 0 \<and> nextMXact (mx s) = multi + 1 then 1 else e)"
proof -
  let ?x = "ReadNextMultiXactId s"
  have other: "multi \<noteq> ?x" using older_other [OF rd] .
  have nxt: "nextMXact (mx s2) = ?x + 1" using s1 s2 by (simp add: reserved_def recorded_def same_frame_def)
  have fresh: "MultiXactIdToOffsetEntry bs ?x = 0 \<or> ?x = FirstMultiXactId \<longrightarrow> \<not> offset_covers bs s ?x"
    using u by (simp add: undisturbed_def)
  have end0: "multi_end bs s multi = Some e" "multi \<noteq> 0"
    using rd by (simp_all add: readable_def InvalidMultiXactId_def)
  show ?thesis
  proof (cases "nextMXact (mx s) = multi + 1")
    case True
    then have x: "next_multi multi = ?x" by (simp add: next_multi_def ReadNextMultiXactId_def)
    have "offset_at bs s2 ?x = new_start s" "offset_covers bs s2 ?x"
      using s2 reserved_ready(2) [OF r s1] by (simp_all add: recorded_def)
    moreover have "e = nextOffset (mx s)" using end0 True by (simp add: multi_end_def)
    ultimately show ?thesis
      using nxt other True by (simp add: multi_end_def x new_start_def)
  next
    case False
    have y: "offset_covers bs s (next_multi multi)" "offset_at bs s (next_multi multi) = e" "e \<noteq> 0"
      using end0 False by (auto simp: multi_end_def split: if_splits)
    have "next_multi multi \<noteq> ?x"
    proof
      assume eq: "next_multi multi = ?x"
      then have "?x \<noteq> FirstMultiXactId" using fresh y(1) by auto
      then have "nextMXact (mx s) = multi + 1"
        using eq by (auto simp: next_multi_def ReadNextMultiXactId_def split: if_splits)
      then show False using False by simp
    qed
    then have "offset_at bs s2 (next_multi multi) = e" "offset_covers bs s2 (next_multi multi)"
      using s2 reserved_keeps(2) [OF s1 fresh y(1)] y(2) by (simp_all add: recorded_def)
    then show ?thesis using nxt other False y(3) by (simp add: multi_end_def)
  qed
qed

lemma slot0_empty:
  assumes s1: "reserved bs n s s1" and s2: "recorded bs x (new_start s) ms s1 s2"
    and n: "length ms = n" "n < 2 ^ 31" and z: "nextOffset (mx s) = 0" and bs: "20 \<le> bs"
  shows "mxid (member_at bs s2 0) = 0" "member_covers bs s2 0"
proof -
  have "(1 :: uint32) + of_nat i \<noteq> 0" if "i < n" for i
  proof
    assume "(1 :: uint32) + of_nat i = 0"
    then have "(of_nat (Suc i) :: uint32) = 0" by simp
    then have "unat (of_nat (Suc i) :: uint32) = 0" by (metis unat_0)
    then show False using that n(2) by (simp add: unat_of_nat del: of_nat_Suc)
  qed
  then have "0 \<notin> set (member_offsets 1 n)" by (auto simp: member_offsets_def) 
  then have "member_at bs s2 0 = member_at bs s1 0"
    using s2 z n(1) by (simp add: recorded_def new_start_def)
  have page: "0 \<in> fresh_pages bs (new_range n s)"
    unfolding new_range_def fresh_pages_iff z new_count_def
    by (intro exI [of _ 0]) (simp add: begins_page_def MXOffsetToMemberPage_def)
  then have "member_pages s1 0 = Some (replicate (words_per_page bs) 0)"
    using s1 by (simp add: reserved_def zeroed_def)
  moreover have "MXOffsetToMemberPage bs 0 = 0" by (simp add: MXOffsetToMemberPage_def)
  moreover have "1 < words_per_page bs" using bs by (simp add: words_per_page_def)
  ultimately show "mxid (member_at bs s2 0) = 0"
    unfolding \<open>member_at bs s2 0 = member_at bs s1 0\<close> by (simp add: member_at_def page_member_def member_group_def)
  have "member_covers bs s1 0"
    using \<open>member_pages s1 0 = _\<close> \<open>MXOffsetToMemberPage bs 0 = 0\<close> by (simp add: member_covers_def)
  then show "member_covers bs s2 0" using s2 by (simp add: recorded_def)
qed

lemma older_members:
  assumes rd: "readable bs s multi e" and u: "undisturbed bs n s multi e"
    and s1: "reserved bs n s s1" and s2: "recorded bs (ReadNextMultiXactId s) (new_start s) ms s1 s2"
    and n: "length ms = n" and i: "i < unat (e - offset_at bs s multi)"
  shows "member_at bs s2 (offset_at bs s multi + of_nat i) = member_at bs s (offset_at bs s multi + of_nat i)"
    "member_covers bs s2 (offset_at bs s multi + of_nat i)"
proof -
  let ?y = "offset_at bs s multi + of_nat i"
  have y: "?y \<notin> set (new_range n s)" "MXOffsetToMemberPage bs ?y \<notin> fresh_pages bs (new_range n s)"
    using u i by (simp_all add: undisturbed_def)
  have "set (member_offsets (new_start s) n) \<subseteq> set (new_range n s)"
  proof (cases "nextOffset (mx s) = 0")
    case True
    have "1 + of_nat j \<in> set (member_offsets 0 (n + 1))" if "j < n" for j
    proof -
      have "(1 + of_nat j :: uint32) = 0 + of_nat (Suc j)" by simp
      then show ?thesis using that unfolding member_offsets_def set_map set_upt
        by (intro image_eqI [of _ _ "Suc j"]) auto
    qed
    then show ?thesis using True
      by (auto simp: new_range_def new_start_def new_count_def member_offsets_def [of _ n])
  qed (simp add: new_range_def new_start_def new_count_def)
  then have "?y \<notin> set (member_offsets (new_start s) (length ms))" using y(1) n by blast
  moreover have "member_covers bs s ?y" using rd i by (simp add: readable_def)
  ultimately show "member_at bs s2 ?y = member_at bs s ?y" "member_covers bs s2 ?y"
    using s2 reserved_keeps(1) [OF s1 y(2)] by (simp_all add: recorded_def)
qed

lemma older_kept:
  assumes rd: "readable bs s multi e" and u: "undisturbed bs (length members) s multi e" and r: "multi_ready bs s"
    and mk: "makes bs members s s'" and n: "length members < 2 ^ 31"
  shows "\<exists>e'. readable bs s' multi e' \<and> stored_members bs s' multi e' = stored_members bs s multi e"
proof -
  let ?off = "offset_at bs s multi" and ?x = "ReadNextMultiXactId s" and ?ms = "sort_members members"
  obtain s1 s2 where s1: "reserved bs (length members) s s1" and s2: "recorded bs ?x (new_start s) ?ms s1 s2"
    and s': "s' = mXactCachePut ?x ?ms s2"
    using mk by (auto simp: makes_def)
  define e' where "e' = (if e = 0 \<and> nextMXact (mx s) = multi + 1 then 1 else e)"
  have e': "multi_end bs s2 multi = Some e'" unfolding e'_def using older_end [OF rd u r s1 s2] .
  have fresh: "MultiXactIdToOffsetEntry bs ?x = 0 \<or> ?x = FirstMultiXactId \<longrightarrow> \<not> offset_covers bs s ?x"
    using u by (simp add: undisturbed_def)
  have ofc: "offset_covers bs s multi" using rd by (simp add: readable_def)
  have off: "offset_at bs s2 multi = ?off" "offset_covers bs s2 multi"
    using reserved_keeps(2) [OF s1 fresh ofc] s2 older_other [OF rd] by (simp_all add: recorded_def)
  note old = older_members [OF rd u s1 s2 length_sort_members(1)]
  have mx2: "nextMXact (mx s2) = ?x + 1" "oldestMultiXactId (mx s2) = oldestMultiXactId (mx s)"
    using s1 s2 by (simp_all add: reserved_def recorded_def same_frame_def)
  have len: "unat (e' - ?off) = unat (e - ?off) + (if e' = e then 0 else 1) \<and> (e' \<noteq> e \<longrightarrow> nextOffset (mx s) = 0)"
  proof (cases "e' = e")
    case False
    then have e: "e = 0" "e' = e + 1" "nextMXact (mx s) = multi + 1" by (simp_all add: e'_def split: if_splits)
    then have "nextOffset (mx s) = 0" using rd by (simp add: readable_def multi_end_def)
    moreover have "unat (e - ?off + 1) = unat (e - ?off) + 1"
      using u by (simp add: undisturbed_def unat_word_ariths)
    ultimately show ?thesis using False e(2) by (simp add: algebra_simps)
  qed simp
  have extra: "mxid (member_at bs s2 (?off + of_nat (unat (e - ?off)))) = 0"
    "member_covers bs s2 (?off + of_nat (unat (e - ?off)))" if ne: "e' \<noteq> e"
  proof -
    have z: "nextOffset (mx s) = 0" using len ne by simp
    have "e = 0" using ne by (simp add: e'_def split: if_splits)
    then have "?off + of_nat (unat (e - ?off)) = 0" by simp
    moreover have "20 \<le> bs" using r by (simp add: multi_ready_def wf_mx_def)
    ultimately show "mxid (member_at bs s2 (?off + of_nat (unat (e - ?off)))) = 0"
      "member_covers bs s2 (?off + of_nat (unat (e - ?off)))"
      using slot0_empty [OF s1 s2 length_sort_members(1) n z] by simp_all
  qed
  have "\<forall>i < unat (e' - ?off). member_covers bs s2 (?off + of_nat i)"
    using old(2) extra(2) len by (auto simp: less_Suc_eq)
  then have "readable bs s2 multi e'"
    using rd u len off e' mx2 by (auto simp: readable_def undisturbed_def)
  moreover have "stored_members bs s2 multi e' = stored_members bs s multi e"
  proof -
    have eq: "map (member_at bs s2) (member_offsets ?off (unat (e - ?off))) =
        map (member_at bs s) (member_offsets ?off (unat (e - ?off)))"
      using old(1) by (auto simp: member_offsets_def)
    show ?thesis
    proof (cases "e' = e")
      case True
      then show ?thesis by (simp add: stored_members_def off eq)
    next
      case False
      then have "member_offsets ?off (unat (e' - ?off)) =
          member_offsets ?off (unat (e - ?off)) @ [?off + of_nat (unat (e - ?off))]"
        using len by (simp add: member_offsets_def)
      moreover have "\<not> TransactionIdIsValid (mxid (member_at bs s2 (?off + of_nat (unat (e - ?off)))))"
        using extra(1) [OF False] by (simp add: TransactionIdIsValid_def InvalidTransactionId_def)
      ultimately show ?thesis by (simp add: stored_members_def off eq)
    qed
  qed
  ultimately show ?thesis using readable_same [of s' s2] by (auto simp: s')
qed

subsection \<open>The limit on members\<close>

text \<open>
  A range that passes the test ends before the boundary, counted round the circle from the
  start of the range. A start on the boundary itself is taken for an empty log.
\<close>

lemma would_wrap_arith:
  fixes u d b :: nat
  assumes "u < 2 ^ 32" and "d < 2 ^ 31" and "b < 2 ^ 32" and "u \<noteq> b"
  defines "f \<equiv> (if 2 ^ 32 \<le> u + d then u + d - 2 ^ 32 + 1 else u + d)"
  assumes "\<not> (if u < b then b \<le> f \<or> f < u else b \<le> f \<and> f < u)"
  shows "d < (if u < b then b - u else b + 2 ^ 32 - u)"
proof -
  have "f < u" if "2 ^ 32 \<le> u + d" using that assms(1,2) by (simp add: f_def)
  then show ?thesis using assms by (cases "2 ^ 32 \<le> u + d") (auto simp: f_def split: if_splits)
qed

lemma circular_distance:
  fixes b start :: uint32
  shows "unat (b - start) = (if unat start \<le> unat b then unat b - unat start else unat b + 2 ^ 32 - unat start)"
  unfolding unat_sub_if' by simp

lemma not_would_wrap:
  assumes "\<not> MultiXactOffsetWouldWrap boundary start distance" and "start \<noteq> boundary"
    and "unat distance < 2 ^ 31"
  shows "unat distance < unat (boundary - start)"
proof -
  let ?u = "unat start" and ?d = "unat distance" and ?b = "unat boundary"
  define fin where "fin = (if start + distance < start then start + distance + 1 else start + distance)"
  have lt: "?u < 2 ^ 32" "?d < 2 ^ 31" "?b < 2 ^ 32"
    using unsigned_less [of start, where 'a = nat] unsigned_less [of boundary, where 'a = nat] assms(3) by simp_all
  have ne: "?u \<noteq> ?b" using assms(2) by (simp add: word_unat_eq_iff)
  have fin: "unat fin = (if 2 ^ 32 \<le> ?u + ?d then ?u + ?d - 2 ^ 32 + 1 else ?u + ?d)"
  proof (cases "2 ^ 32 \<le> ?u + ?d")
    case True
    then have "(?u + ?d) mod 2 ^ 32 = ?u + ?d - 2 ^ 32" using lt by (simp add: mod_if)
    then show ?thesis
      using True lt plus_wraps [of start distance] by (simp add: fin_def unat_word_ariths)
  next
    case False
    then show ?thesis using lt plus_wraps [of start distance] by (simp add: fin_def unat_word_ariths)
  qed
  have "\<not> (if ?u < ?b then ?b \<le> unat fin \<or> unat fin < ?u else ?b \<le> unat fin \<and> unat fin < ?u)"
    using assms(1) unfolding MultiXactOffsetWouldWrap_def Let_def fin_def [symmetric]
    unfolding word_less_nat_alt word_le_nat_alt by blast
  from would_wrap_arith [OF lt ne this [unfolded fin]] show ?thesis
    using ne unfolding circular_distance by (simp split: if_splits)
qed

subsection \<open>The number that is given out twice\<close>

text \<open>
  When the lock was released and other backends used up the last number, only the local copy of
  the counter skips the invalid number 0: the counter itself goes from 0 to 1.
\<close>

lemma number_twice:
  assumes bs: "20 \<le> bs" "bs < 2 ^ 31" and m: "\<not> RecoveryInProgress m"
    and near: "near_limits (skip_invalid_multi s)" and stop: "\<not> past_multi_stop m s"
    and others: "\<And>t. nextMXact (mx (others t)) = 0" "\<And>t. \<not> offsetStopLimitKnown (mx (others t))"
  shows "\<exists>offset s'. GetNewMultiXactId bs m others n s = Some (Inr (FirstMultiXactId, offset, s')) \<and>
    ReadNextMultiXactId s' = FirstMultiXactId"
proof -
  define s0 where "s0 = skip_invalid_multi s"
  have x0: "nextMXact (mx s0) = ReadNextMultiXactId s0" "past_multi_stop m s0 = past_multi_stop m s"
    using skip_invalid_fields(1,2) [of s] by (simp_all add: s0_def refusal_fields(1))
  then obtain t where t: "multi_limit_check m (nextMXact (mx s0)) s0 = Inr t"
    using limit_checks(1) [where m = m and s = s0] stop
    by (cases "multi_limit_check m (nextMXact (mx s0)) s0") simp_all
  define s1 where "s1 = others t"
  have x1: "ReadNextMultiXactId s1 = FirstMultiXactId"
    using others(1) by (simp add: s1_def ReadNextMultiXactId_def FirstMultiXactId_def)
  define s2 where "s2 = ExtendMultiXactOffset bs FirstMultiXactId s1"
  have m2: "nextMXact (mx s2) = 0" "\<not> offsetStopLimitKnown (mx s2)"
    using others by (simp_all add: s2_def s1_def ExtendOffset_fields)
  then have lim: "members_limit_check bs k s2 = Inr s2" for k by (simp add: members_limit_check_def Let_def)
  obtain s3 where s3: "ExtendMultiXactMember bs (nextOffset (mx s2)) (int (new_count n s2)) s2 = Some s3" "mx s3 = mx s2"
    using ExtendMember_ok [OF bs, of "nextOffset (mx s2)" "new_count n s2" s2] by (auto simp: extended_def)
  have "GetNewMultiXactId bs m others n s = Some (Inr (FirstMultiXactId, new_start s2,
      upd_mx (\<lambda>m. m\<lparr>nextMXact := nextMXact m + 1, nextOffset := nextOffset m + of_nat (new_count n s2)\<rparr>) s3))"
    using m near t s3(1)
    unfolding GetNewMultiXactId_def Let_def s0_def [symmetric] new_start_def new_count_def
    by (simp add: s1_def [symmetric] x1 s2_def [symmetric] lim)
  then show ?thesis
    using m2 s3(2) by (simp add: ReadNextMultiXactId_def upd_mx_def FirstMultiXactId_def)
qed

end
