(* ===== verification/XactState.thy ===== *)
theory XactState
  imports Xact Transam
begin

section \<open>The transaction state of a backend (access/transam/xact.c)\<close>

text \<open>
  The static variables of xact.c around the stack of transaction states, the calls to other
  modules, memory contexts and resource owners, the command counter, pushing and popping.

  A function of xact.c maps the state to an error, if one is raised, and the state that it
  leaves; an error keeps the state, because the abort functions work on it. A call of another
  module is an event in the \<open>trace\<close>; it may raise an error, which the parameter \<open>raises\<close> decides
  from the calls so far, and otherwise leaves the state of this module as it was. Deferred
  triggers that run inner transactions are calls in this sense: they leave the stack as they
  found it.
\<close>

subsection \<open>State, calls and services\<close>

datatype wal_record =
    XLOG_XACT_COMMIT TransactionId uint32 nat "TransactionId list" nat
  | XLOG_XACT_COMMIT_COMPACT TransactionId "TransactionId list"
  | XLOG_XACT_ABORT TransactionId nat "TransactionId list"

datatype xact_call =
    Call string "int list"
  | Warning string
  | XLogInsert wal_record
  | XLogFlush XLogRecPtr
  | ClogCommit TransactionId "TransactionId list"
  | ClogAbort TransactionId "TransactionId list"
  | ProcArrayEnd TransactionId

text \<open>
  \<open>fetched\<close> is the single-item cache of transam.c, \<open>own_xmin\<close> the backend's \<open>TransactionXmin\<close>,
  \<open>latestXid\<close> the result of the last commit or abort record, \<open>GUCNestLevel\<close> the nesting level
  that guc.c keeps.
\<close>

record xact_backend =
  xv :: xact_vars
  fetched :: "TransactionId \<times> XidStatus \<times> XLogRecPtr"
  own_xmin :: TransactionId
  XactLastRecEnd :: XLogRecPtr
  latestXid :: TransactionId
  currentSubTransactionId :: SubTransactionId
  currentCommandId :: uint32
  currentCommandIdUsed :: bool
  XactReadOnly :: bool
  forceSyncCommit :: bool
  MyXactAccessedTempRel :: bool
  delayChkpt :: bool
  GUCNestLevel :: int
  TopTransactionContext :: bool
  TransactionAbortContext :: bool
  TopTransactionResourceOwner :: bool
  prepareGID :: "string option"
  trace :: "xact_call list"

text \<open>
  What the other modules and the configuration answer: the relations that smgr has scheduled
  for deletion, the shared invalidation messages, the position that \<open>XLogInsert\<close> returns,
  whether a memory context is empty, how often \<open>PreCommit_Portals\<close> finds something to do.
\<close>

record xact_services =
  xmode :: xact_mode
  other_backends :: "varsup \<Rightarrow> varsup"
  raises :: "xact_call list \<Rightarrow> pg_error option"
  portal_rounds :: "xact_call list \<Rightarrow> nat"
  pending_deletes :: "xact_call list \<Rightarrow> nat"
  inval_messages :: "xact_call list \<Rightarrow> nat \<times> bool"
  inserted_at :: "xact_call list \<Rightarrow> XLogRecPtr"
  empty_context :: "xact_call list \<Rightarrow> bool"
  XactHasExportedSnapshots :: "xact_call list \<Rightarrow> bool"
  synchronous_commit_on :: bool
  DefaultXactReadOnly :: bool

type_synonym outcome = "pg_error option \<times> xact_backend"

subsection \<open>Sequences of steps\<close>

fun steps :: "(xact_backend \<Rightarrow> outcome) list \<Rightarrow> xact_backend \<Rightarrow> outcome" where
  "steps [] s = (None, s)"
| "steps (f # fs) s = (case f s of (None, s) \<Rightarrow> steps fs s | (Some e, s) \<Rightarrow> (Some e, s))"

definition assign :: "(xact_backend \<Rightarrow> xact_backend) \<Rightarrow> xact_backend \<Rightarrow> outcome" where
  "assign f s = (None, f s)"

definition only :: "bool \<Rightarrow> (xact_backend \<Rightarrow> outcome) \<Rightarrow> xact_backend \<Rightarrow> outcome" where
  "only b f s = (if b then f s else (None, s))"

definition raise :: "pg_error \<Rightarrow> xact_backend \<Rightarrow> outcome" where "raise e s = (Some e, s)"

definition call :: "xact_services \<Rightarrow> xact_call \<Rightarrow> xact_backend \<Rightarrow> outcome" where
  "call e c s = (let s = s\<lparr>trace := trace s @ [c]\<rparr> in (raises e (trace s), s))"

definition calls :: "xact_services \<Rightarrow> xact_call list \<Rightarrow> xact_backend \<Rightarrow> outcome" where
  "calls e cs = steps (map (call e) cs)"

definition warn :: "string \<Rightarrow> xact_backend \<Rightarrow> outcome" where
  "warn m = assign (\<lambda>s. s\<lparr>trace := trace s @ [Warning m]\<rparr>)"

text \<open>In a critical section every error is a crash of the server.\<close>

definition in_critical :: "(xact_backend \<Rightarrow> outcome) \<Rightarrow> xact_backend \<Rightarrow> outcome" where
  "in_critical f s = (case f s of
     (Some (ERROR m), s) \<Rightarrow> (Some (PANIC m), s) | (Some (FATAL m), s) \<Rightarrow> (Some (PANIC m), s) | r \<Rightarrow> r)"

definition trans :: "xact_backend \<Rightarrow> xact_stack" where "trans s = stack (xv s)"

definition cur :: "xact_backend \<Rightarrow> TransactionStateData" where "cur s = hd (trans s)"

definition set_trans :: "xact_stack \<Rightarrow> xact_backend \<Rightarrow> xact_backend" where
  "set_trans st s = s\<lparr>xv := (xv s)\<lparr>stack := st\<rparr>\<rparr>"

definition upd_cur :: "(TransactionStateData \<Rightarrow> TransactionStateData) \<Rightarrow> xact_backend \<Rightarrow> xact_backend" where
  "upd_cur f s = (case trans s of [] \<Rightarrow> s | x # r \<Rightarrow> set_trans (f x # r) s)"

definition upd_vars :: "(varsup \<Rightarrow> varsup) \<Rightarrow> xact_backend \<Rightarrow> xact_backend" where
  "upd_vars f s = s\<lparr>xv := (xv s)\<lparr>vars := f (vars (xv s))\<rparr>\<rparr>"

definition set_xstate :: "TransState \<Rightarrow> xact_backend \<Rightarrow> outcome" where
  "set_xstate t = assign (upd_cur (\<lambda>x. x\<lparr>xstate := t\<rparr>))"

definition set_block :: "TBlockState \<Rightarrow> xact_backend \<Rightarrow> outcome" where
  "set_block b = assign (upd_cur (\<lambda>x. x\<lparr>blockState := b\<rparr>))"

definition expect_state :: "string \<Rightarrow> TransState list \<Rightarrow> xact_backend \<Rightarrow> outcome" where
  "expect_state fn ok s = (if xstate (cur s) \<in> set ok then (None, s) else warn fn s)"

text \<open>
  Functions for subtransactions follow the pointer to the parent; without one the server
  crashes.
\<close>

definition null_pointer :: pg_error where "null_pointer = PANIC ''null pointer''"

definition need_parent :: "xact_backend \<Rightarrow> outcome" where
  "need_parent s = (if tl (trans s) = [] then (Some null_pointer, s) else (None, s))"

definition parent :: "xact_backend \<Rightarrow> TransactionStateData" where "parent s = hd (tl (trans s))"

subsection \<open>Accessors\<close>

definition IsTransactionState :: "xact_backend \<Rightarrow> bool" where
  "IsTransactionState s \<longleftrightarrow> xstate (cur s) = TRANS_INPROGRESS"

definition IsAbortedTransactionBlockState :: "xact_backend \<Rightarrow> bool" where
  "IsAbortedTransactionBlockState s \<longleftrightarrow>
     blockState (cur s) = TBLOCK_ABORT \<or> blockState (cur s) = TBLOCK_SUBABORT"

definition GetTopTransactionIdIfAny :: "xact_backend \<Rightarrow> TransactionId" where
  "GetTopTransactionIdIfAny s = transactionId (last (trans s))"

definition GetCurrentTransactionIdIfAny :: "xact_backend \<Rightarrow> TransactionId" where
  "GetCurrentTransactionIdIfAny s = transactionId (cur s)"

definition MarkCurrentTransactionIdLoggedIfAny :: "xact_backend \<Rightarrow> xact_backend" where
  "MarkCurrentTransactionIdLoggedIfAny s =
     (if TransactionIdIsValid (transactionId (cur s)) then upd_cur (\<lambda>x. x\<lparr>didLogXid := True\<rparr>) s else s)"

definition GetCurrentSubTransactionId :: "xact_backend \<Rightarrow> SubTransactionId" where
  "GetCurrentSubTransactionId s = subTransactionId (cur s)"

definition GetCurrentTransactionNestLevel :: "xact_backend \<Rightarrow> int" where
  "GetCurrentTransactionNestLevel s = nestingLevel (cur s)"

definition TransactionStartedDuringRecovery :: "xact_backend \<Rightarrow> bool" where
  "TransactionStartedDuringRecovery s = startedInRecovery (cur s)"

definition ForceSyncCommit :: "xact_backend \<Rightarrow> xact_backend" where
  "ForceSyncCommit s = s\<lparr>forceSyncCommit := True\<rparr>"

definition IsSubTransaction :: "xact_backend \<Rightarrow> bool" where
  "IsSubTransaction s \<longleftrightarrow> nestingLevel (cur s) \<ge> 2"

definition IsTransactionBlock :: "xact_backend \<Rightarrow> bool" where
  "IsTransactionBlock s \<longleftrightarrow> \<not> (blockState (cur s) = TBLOCK_DEFAULT \<or> blockState (cur s) = TBLOCK_STARTED)"

definition IsTransactionOrTransactionBlock :: "xact_backend \<Rightarrow> bool" where
  "IsTransactionOrTransactionBlock s \<longleftrightarrow> blockState (cur s) \<noteq> TBLOCK_DEFAULT"

definition TransactionBlockStatusCode :: "xact_backend \<Rightarrow> char" where
  "TransactionBlockStatusCode s =
     (case blockState (cur s) of
        TBLOCK_DEFAULT \<Rightarrow> CHR ''I'' | TBLOCK_STARTED \<Rightarrow> CHR ''I''
      | TBLOCK_BEGIN \<Rightarrow> CHR ''T'' | TBLOCK_SUBBEGIN \<Rightarrow> CHR ''T'' | TBLOCK_INPROGRESS \<Rightarrow> CHR ''T''
      | TBLOCK_SUBINPROGRESS \<Rightarrow> CHR ''T'' | TBLOCK_END \<Rightarrow> CHR ''T'' | TBLOCK_SUBRELEASE \<Rightarrow> CHR ''T''
      | TBLOCK_SUBCOMMIT \<Rightarrow> CHR ''T'' | TBLOCK_PREPARE \<Rightarrow> CHR ''T''
      | TBLOCK_ABORT \<Rightarrow> CHR ''E'' | TBLOCK_SUBABORT \<Rightarrow> CHR ''E'' | TBLOCK_ABORT_END \<Rightarrow> CHR ''E''
      | TBLOCK_SUBABORT_END \<Rightarrow> CHR ''E'' | TBLOCK_ABORT_PENDING \<Rightarrow> CHR ''E''
      | TBLOCK_SUBABORT_PENDING \<Rightarrow> CHR ''E'' | TBLOCK_SUBRESTART \<Rightarrow> CHR ''E''
      | TBLOCK_SUBABORT_RESTART \<Rightarrow> CHR ''E'')"

subsection \<open>The command counter\<close>

definition GetCurrentCommandId :: "bool \<Rightarrow> xact_backend \<Rightarrow> uint32 \<times> xact_backend" where
  "GetCurrentCommandId used s =
     (currentCommandId s, if used then s\<lparr>currentCommandIdUsed := True\<rparr> else s)"

definition CommandCounterIncrement :: "xact_services \<Rightarrow> xact_backend \<Rightarrow> outcome" where
  "CommandCounterIncrement e s =
     (if currentCommandIdUsed s then
        (if currentCommandId s + 1 = 0xFFFFFFFF
         then raise (ERROR ''cannot have more than 2^32-2 commands in a transaction'') s
         else steps [assign (\<lambda>s. s\<lparr>currentCommandId := currentCommandId s + 1, currentCommandIdUsed := False\<rparr>),
                (\<lambda>s. call e (Call ''SnapshotSetCommandId'' [uint (currentCommandId s)]) s),
                calls e [Call ''AtCCI_RelationMap'' [], Call ''CommandEndInvalidationMessages'' []]] s)
      else (None, s))"

subsection \<open>Memory contexts and resource owners\<close>

definition AtStart_Memory :: "xact_services \<Rightarrow> xact_backend \<Rightarrow> outcome" where
  "AtStart_Memory e = steps [
     (\<lambda>s. only (\<not> TransactionAbortContext s) (call e (Call ''AllocSetContextCreate TransactionAbortContext'' [])) s),
     assign (\<lambda>s. s\<lparr>TransactionAbortContext := True\<rparr>),
     call e (Call ''AllocSetContextCreate TopTransactionContext'' []),
     assign (\<lambda>s. upd_cur (\<lambda>x. x\<lparr>curTransactionContext := True\<rparr>) (s\<lparr>TopTransactionContext := True\<rparr>))]"

definition AtStart_ResourceOwner :: "xact_services \<Rightarrow> xact_backend \<Rightarrow> outcome" where
  "AtStart_ResourceOwner e = steps [
     call e (Call ''ResourceOwnerCreate TopTransaction'' []),
     assign (\<lambda>s. upd_cur (\<lambda>x. x\<lparr>curTransactionOwner := True\<rparr>) (s\<lparr>TopTransactionResourceOwner := True\<rparr>))]"

definition AtSubStart_Memory :: "xact_services \<Rightarrow> xact_backend \<Rightarrow> outcome" where
  "AtSubStart_Memory e = steps [
     call e (Call ''AllocSetContextCreate CurTransactionContext'' []),
     assign (upd_cur (\<lambda>x. x\<lparr>curTransactionContext := True\<rparr>))]"

definition AtSubStart_ResourceOwner :: "xact_services \<Rightarrow> xact_backend \<Rightarrow> outcome" where
  "AtSubStart_ResourceOwner e = steps [need_parent,
     call e (Call ''ResourceOwnerCreate SubTransaction'' []),
     assign (upd_cur (\<lambda>x. x\<lparr>curTransactionOwner := True\<rparr>))]"

definition AtCommit_Memory :: "xact_services \<Rightarrow> xact_backend \<Rightarrow> outcome" where
  "AtCommit_Memory e = steps [
     call e (Call ''MemoryContextDelete TopTransactionContext'' []),
     assign (\<lambda>s. upd_cur (\<lambda>x. x\<lparr>curTransactionContext := False\<rparr>) (s\<lparr>TopTransactionContext := False\<rparr>))]"

definition AtSubCommit_Memory :: "xact_services \<Rightarrow> xact_backend \<Rightarrow> outcome" where
  "AtSubCommit_Memory e = steps [need_parent,
     (\<lambda>s. only (empty_context e (trace s)) (steps [
        call e (Call ''MemoryContextDelete CurTransactionContext'' []),
        assign (upd_cur (\<lambda>x. x\<lparr>curTransactionContext := False\<rparr>))]) s)]"

definition AtAbort_Memory :: "xact_services \<Rightarrow> xact_backend \<Rightarrow> outcome" where
  "AtAbort_Memory e s = call e (Call (if TransactionAbortContext s then ''MemoryContextSwitchTo TransactionAbortContext''
     else ''MemoryContextSwitchTo TopMemoryContext'') []) s"

definition AtSubAbort_Memory :: "xact_services \<Rightarrow> xact_backend \<Rightarrow> outcome" where
  "AtSubAbort_Memory e = call e (Call ''MemoryContextSwitchTo TransactionAbortContext'' [])"

definition AtCleanup_Memory :: "xact_services \<Rightarrow> xact_backend \<Rightarrow> outcome" where
  "AtCleanup_Memory e = steps [
     (\<lambda>s. only (TransactionAbortContext s)
        (call e (Call ''MemoryContextResetAndDeleteChildren TransactionAbortContext'' [])) s),
     (\<lambda>s. only (TopTransactionContext s) (call e (Call ''MemoryContextDelete TopTransactionContext'' [])) s),
     assign (\<lambda>s. upd_cur (\<lambda>x. x\<lparr>curTransactionContext := False\<rparr>) (s\<lparr>TopTransactionContext := False\<rparr>))]"

definition AtSubCleanup_Memory :: "xact_services \<Rightarrow> xact_backend \<Rightarrow> outcome" where
  "AtSubCleanup_Memory e = steps [need_parent,
     (\<lambda>s. only (TransactionAbortContext s)
        (call e (Call ''MemoryContextResetAndDeleteChildren TransactionAbortContext'' [])) s),
     (\<lambda>s. only (curTransactionContext (cur s)) (call e (Call ''MemoryContextDelete CurTransactionContext'' [])) s),
     assign (upd_cur (\<lambda>x. x\<lparr>curTransactionContext := False\<rparr>))]"

text \<open>\<open>AtEOXact_GUC\<close> resets the nesting level of guc.c.\<close>

definition AtEOXact_GUC :: "xact_services \<Rightarrow> bool \<Rightarrow> int \<Rightarrow> xact_backend \<Rightarrow> outcome" where
  "AtEOXact_GUC e isCommit nestLevel = steps [
     call e (Call ''AtEOXact_GUC'' [of_bool isCommit, nestLevel]),
     assign (\<lambda>s. s\<lparr>GUCNestLevel := nestLevel - 1\<rparr>)]"

subsection \<open>Pushing and popping\<close>

definition PushTransaction :: "xact_services \<Rightarrow> xact_backend \<Rightarrow> outcome" where
  "PushTransaction e = steps [
     call e (Call ''MemoryContextAllocZero TransactionStateData'' []),
     (\<lambda>s. if currentSubTransactionId s + 1 = 0
          then raise (ERROR ''cannot have more than 2^32-1 subtransactions in a transaction'') s
          else assign (\<lambda>s. s\<lparr>currentSubTransactionId := currentSubTransactionId s + 1,
                             GUCNestLevel := GUCNestLevel s + 1\<rparr>) s),
     assign (\<lambda>s. set_trans (\<lparr>transactionId = InvalidTransactionId, subTransactionId = currentSubTransactionId s,
          savepoint = None, savepointLevel = savepointLevel (cur s), xstate = TRANS_DEFAULT,
          blockState = TBLOCK_SUBBEGIN, nestingLevel = nestingLevel (cur s) + 1, gucNestLevel = GUCNestLevel s,
          curTransactionContext = False, curTransactionOwner = False, childXids = [], maxChildXids = 0,
          prevXactReadOnly = XactReadOnly s, startedInRecovery = False, didLogXid = False\<rparr> # trans s) s)]"

definition PopTransaction :: "xact_backend \<Rightarrow> outcome" where
  "PopTransaction = steps [
     expect_state ''PopTransaction'' [TRANS_DEFAULT],
     (\<lambda>s. if tl (trans s) = [] then raise (FATAL ''PopTransaction with no parent'') s
          else (None, set_trans (tl (trans s)) s))]"

end
