(* ===== verification/XactEnd.thy ===== *)
theory XactEnd
  imports XactState
begin

section \<open>Starting and ending transactions (access/transam/xact.c)\<close>

text \<open>
  Commit, prepare, abort and cleanup of top transactions and of subtransactions, each with
  all its calls in the order of the code, and the commit and abort records. Interrupt holdoff
  and timestamps are left out.
\<close>

subsection \<open>Commit and abort records\<close>

definition insert_wal :: "xact_services \<Rightarrow> wal_record \<Rightarrow> xact_backend \<Rightarrow> outcome" where
  "insert_wal e r = steps [call e (XLogInsert r), assign (\<lambda>s. s\<lparr>XactLastRecEnd := inserted_at e (trace s)\<rparr>)]"

definition update_clog :: "(clog \<Rightarrow> clog result) \<Rightarrow> xact_backend \<Rightarrow> outcome" where
  "update_clog f s = (case f (xact_log (vars (xv s))) of
     Inl err \<Rightarrow> (Some err, s) | Inr c \<Rightarrow> (None, upd_vars (\<lambda>v. v\<lparr>xact_log := c\<rparr>) s))"

definition XACT_COMPLETION_UPDATE_RELCACHE_FILE :: uint32 where "XACT_COMPLETION_UPDATE_RELCACHE_FILE = 1"
definition XACT_COMPLETION_FORCE_SYNC_COMMIT :: uint32 where "XACT_COMPLETION_FORCE_SYNC_COMMIT = 2"

definition commit_record ::
  "xact_services \<Rightarrow> TransactionId \<Rightarrow> nat \<Rightarrow> TransactionId list \<Rightarrow> nat \<times> bool \<Rightarrow> xact_backend \<Rightarrow> wal_record" where
  "commit_record e xid nrels children msgs s =
     (if nrels > 0 \<or> fst msgs > 0 \<or> snd msgs \<or> forceSyncCommit s \<or> XLogLogicalInfoActive (xmode e)
      then XLOG_XACT_COMMIT xid
             ((if snd msgs then XACT_COMPLETION_UPDATE_RELCACHE_FILE else 0) OR
              (if forceSyncCommit s then XACT_COMPLETION_FORCE_SYNC_COMMIT else 0)) nrels children (fst msgs)
      else XLOG_XACT_COMMIT_COMPACT xid children)"

text \<open>The flush of the record, or its postponement, and then the commit log.\<close>

definition flush_and_commit ::
  "xact_services \<Rightarrow> TransactionId \<Rightarrow> TransactionId list \<Rightarrow> bool \<Rightarrow> bool \<Rightarrow> xact_backend \<Rightarrow> outcome" where
  "flush_and_commit e xid children markXidCommitted flush =
     (if flush
      then steps [(\<lambda>s. call e (XLogFlush (XactLastRecEnd s)) s),
             only markXidCommitted (steps [
               call e (ClogCommit xid children),
               update_clog (TransactionIdCommitTree (block_size (xmode e)) xid children)])]
      else steps [(\<lambda>s. call e (Call ''XLogSetAsyncXactLSN'' [uint (XactLastRecEnd s)]) s),
             only markXidCommitted (steps [
               call e (ClogCommit xid children),
               (\<lambda>s. update_clog (TransactionIdAsyncCommitTree (block_size (xmode e)) xid children
                       (XactLastRecEnd s)) s)])])"

definition RecordTransactionCommit :: "xact_services \<Rightarrow> xact_backend \<Rightarrow> outcome" where
  "RecordTransactionCommit e s =
     (let xid = GetTopTransactionIdIfAny s;
          markXidCommitted = TransactionIdIsValid xid;
          nrels = pending_deletes e (trace s);
          children = xactGetCommittedChildren (trans s);
          msgs = (if XLogStandbyInfoActive (xmode e) then inval_messages e (trace s) else (0, False));
          wrote_xlog = (XactLastRecEnd s \<noteq> 0);
          flush = (wrote_xlog \<and> markXidCommitted \<and> synchronous_commit_on e \<or> forceSyncCommit s \<or> nrels > 0)
      in if \<not> markXidCommitted \<and> nrels \<noteq> 0
         then raise (ERROR ''cannot commit a transaction that deleted files but has no xid'') s
         else if \<not> markXidCommitted \<and> \<not> wrote_xlog then (None, s\<lparr>latestXid := InvalidTransactionId\<rparr>)
         else steps [
           only markXidCommitted (call e (Call ''BufmgrCommit'' [])),
           (if markXidCommitted then in_critical (steps [
               assign (\<lambda>s. s\<lparr>delayChkpt := True\<rparr>),
               (\<lambda>s. insert_wal e (commit_record e xid nrels children msgs s) s),
               flush_and_commit e xid children True flush,
               assign (\<lambda>s. s\<lparr>delayChkpt := False\<rparr>)])
            else flush_and_commit e xid children False flush),
           assign (\<lambda>s. s\<lparr>latestXid := TransactionIdLatest xid children\<rparr>),
           only (wrote_xlog \<and> markXidCommitted) (\<lambda>s. call e (Call ''SyncRepWaitForLSN'' [uint (XactLastRecEnd s)]) s),
           assign (\<lambda>s. s\<lparr>XactLastRecEnd := 0\<rparr>)] s)"

definition observer :: "xact_backend \<Rightarrow> backend" where
  "observer s = \<lparr>pg_clog = xact_log (vars (xv s)), pg_subtrans = sub_log (vars (xv s)), TransactionXmin = own_xmin s,
     cachedFetchXid = fst (fetched s), cachedFetchXidStatus = fst (snd (fetched s)),
     cachedCommitLSN = snd (snd (fetched s))\<rparr>"

definition check_not_committed :: "xact_services \<Rightarrow> TransactionId \<Rightarrow> xact_backend \<Rightarrow> outcome" where
  "check_not_committed e xid s =
     (case TransactionIdDidCommit (block_size (xmode e)) xid (observer s) of
        None \<Rightarrow> raise LOOP s
      | Some (Inl err) \<Rightarrow> raise err s
      | Some (Inr (True, b)) \<Rightarrow> raise (PANIC ''cannot abort transaction, it was already committed'') s
      | Some (Inr (False, b)) \<Rightarrow>
          (None, s\<lparr>fetched := (cachedFetchXid b, cachedFetchXidStatus b, cachedCommitLSN b)\<rparr>))"

definition reset_last_rec :: "bool \<Rightarrow> xact_backend \<Rightarrow> outcome" where
  "reset_last_rec isSubXact = only (\<not> isSubXact) (assign (\<lambda>s. s\<lparr>XactLastRecEnd := 0\<rparr>))"

definition RecordTransactionAbort :: "xact_services \<Rightarrow> bool \<Rightarrow> xact_backend \<Rightarrow> outcome" where
  "RecordTransactionAbort e isSubXact s =
     (let xid = GetCurrentTransactionIdIfAny s; children = xactGetCommittedChildren (trans s)
      in if \<not> TransactionIdIsValid xid
         then steps [reset_last_rec isSubXact, assign (\<lambda>s. s\<lparr>latestXid := InvalidTransactionId\<rparr>)] s
         else steps [
           check_not_committed e xid,
           in_critical (steps [
             (\<lambda>s. insert_wal e (XLOG_XACT_ABORT xid (pending_deletes e (trace s)) children) s),
             only (\<not> isSubXact) (\<lambda>s. call e (Call ''XLogSetAsyncXactLSN'' [uint (XactLastRecEnd s)]) s),
             call e (ClogAbort xid children),
             update_clog (TransactionIdAbortTree (block_size (xmode e)) xid children)]),
           assign (\<lambda>s. s\<lparr>latestXid := TransactionIdLatest xid children\<rparr>),
           only isSubXact (call e (Call ''XidCacheRemoveRunningXids'' (map uint (xid # children)))),
           reset_last_rec isSubXact] s)"

text \<open>The entry of the backend in the process array is emptied when the transaction ends.\<close>

definition clear_myproc :: "xact_backend \<Rightarrow> xact_backend" where
  "clear_myproc = upd_vars (\<lambda>v. v\<lparr>my := \<lparr>proc_xid = InvalidTransactionId, subxids = [], overflowed = False\<rparr>\<rparr>)"

definition end_in_procarray :: "xact_services \<Rightarrow> xact_backend \<Rightarrow> outcome" where
  "end_in_procarray e = steps [(\<lambda>s. call e (ProcArrayEnd (latestXid s)) s), assign clear_myproc]"

subsection \<open>Top transactions\<close>

definition reset_top :: "TransactionStateData \<Rightarrow> TransactionStateData" where
  "reset_top x = x\<lparr>transactionId := InvalidTransactionId, subTransactionId := 0, nestingLevel := 0,
     gucNestLevel := 0, childXids := [], maxChildXids := 0\<rparr>"

definition drop_owner :: "xact_backend \<Rightarrow> xact_backend" where
  "drop_owner s = upd_cur (\<lambda>x. x\<lparr>curTransactionOwner := False\<rparr>) (s\<lparr>TopTransactionResourceOwner := False\<rparr>)"

definition StartTransaction :: "xact_services \<Rightarrow> xact_backend \<Rightarrow> outcome" where
  "StartTransaction e = steps [
     assign (\<lambda>s. set_trans [last (trans s)] s),
     expect_state ''StartTransaction'' [TRANS_DEFAULT],
     set_xstate TRANS_START,
     assign (\<lambda>s. upd_cur (\<lambda>x. x\<lparr>transactionId := InvalidTransactionId,
         startedInRecovery := RecoveryInProgress (serverMode (xmode e)), subTransactionId := 1, didLogXid := False\<rparr>)
       (s\<lparr>XactReadOnly := (RecoveryInProgress (serverMode (xmode e)) \<or> DefaultXactReadOnly e),
          forceSyncCommit := False, MyXactAccessedTempRel := False, currentSubTransactionId := 1,
          currentCommandId := 0, currentCommandIdUsed := False, xv := (xv s)\<lparr>unreportedXids := []\<rparr>\<rparr>)),
     AtStart_Memory e,
     AtStart_ResourceOwner e,
     calls e [Call ''GetNextLocalTransactionId'' [], Call ''VirtualXactLockTableInsert'' [],
       Call ''pgstat_report_xact_timestamp'' []],
     assign (upd_cur (\<lambda>x. x\<lparr>nestingLevel := 1, gucNestLevel := 1, childXids := [], maxChildXids := 0\<rparr>)),
     calls e [Call ''AtStart_GUC'' []],
     assign (\<lambda>s. s\<lparr>GUCNestLevel := 1\<rparr>),
     calls e [Call ''AtStart_Inval'' [], Call ''AcceptInvalidationMessages'' [], Call ''AfterTriggerBeginXact'' []],
     set_xstate TRANS_INPROGRESS]"

definition fire_deferred :: "xact_services \<Rightarrow> bool \<Rightarrow> xact_backend \<Rightarrow> outcome" where
  "fire_deferred e isPrepare s = calls e (concat (replicate (Suc (portal_rounds e (trace s)))
     [Call ''AfterTriggerFireDeferred'' [], Call ''PreCommit_Portals'' [of_bool isPrepare]])) s"

definition CommitTransaction :: "xact_services \<Rightarrow> xact_backend \<Rightarrow> outcome" where
  "CommitTransaction e = steps [
     expect_state ''CommitTransaction'' [TRANS_INPROGRESS],
     fire_deferred e False,
     calls e [Call ''CallXactCallbacks XACT_EVENT_PRE_COMMIT'' [], Call ''AfterTriggerEndXact'' [1],
       Call ''PreCommit_on_commit_actions'' [], Call ''AtEOXact_LargeObject'' [1],
       Call ''PreCommit_CheckForSerializationFailure'' [], Call ''PreCommit_Notify'' [],
       Call ''AtEOXact_RelationMap'' [1]],
     set_xstate TRANS_COMMIT,
     RecordTransactionCommit e,
     end_in_procarray e,
     calls e [Call ''CallXactCallbacks XACT_EVENT_COMMIT'' [],
       Call ''ResourceOwnerRelease RESOURCE_RELEASE_BEFORE_LOCKS'' [1, 1],
       Call ''AtEOXact_Buffers'' [1], Call ''AtEOXact_RelationCache'' [1], Call ''AtEOXact_Inval'' [1],
       Call ''AtEOXact_MultiXact'' [], Call ''ResourceOwnerRelease RESOURCE_RELEASE_LOCKS'' [1, 1],
       Call ''ResourceOwnerRelease RESOURCE_RELEASE_AFTER_LOCKS'' [1, 1], Call ''smgrDoPendingDeletes'' [1],
       Call ''AtEOXact_CatCache'' [1], Call ''AtCommit_Notify'' []],
     AtEOXact_GUC e True 1,
     calls e [Call ''AtEOXact_SPI'' [1], Call ''AtEOXact_on_commit_actions'' [1], Call ''AtEOXact_Namespace'' [1],
       Call ''AtEOXact_SMgr'' [], Call ''AtEOXact_Files'' [], Call ''AtEOXact_ComboCid'' [],
       Call ''AtEOXact_HashTables'' [1], Call ''AtEOXact_PgStat'' [1], Call ''AtEOXact_Snapshot'' [1],
       Call ''pgstat_report_xact_timestamp'' [0], Call ''ResourceOwnerDelete'' []],
     assign drop_owner,
     AtCommit_Memory e,
     assign (upd_cur reset_top),
     set_xstate TRANS_DEFAULT]"

definition prepare_body :: "xact_services \<Rightarrow> TransactionId \<Rightarrow> xact_backend \<Rightarrow> outcome" where
  "prepare_body e xid = steps [
     expect_state ''PrepareTransaction'' [TRANS_INPROGRESS],
     fire_deferred e True,
     calls e [Call ''CallXactCallbacks XACT_EVENT_PRE_PREPARE'' [], Call ''AfterTriggerEndXact'' [1],
       Call ''PreCommit_on_commit_actions'' [], Call ''AtEOXact_LargeObject'' [1],
       Call ''PreCommit_CheckForSerializationFailure'' []],
     (\<lambda>s. only (MyXactAccessedTempRel s)
        (raise (ERROR ''cannot PREPARE a transaction that has operated on temporary tables'')) s),
     (\<lambda>s. only (XactHasExportedSnapshots e (trace s))
        (raise (ERROR ''cannot PREPARE a transaction that has exported snapshots'')) s),
     set_xstate TRANS_PREPARE,
     calls e [Call ''BufmgrCommit'' [], Call ''MarkAsPreparing'' [uint xid]],
     assign (\<lambda>s. s\<lparr>prepareGID := None\<rparr>),
     calls e [Call ''StartPrepare'' [], Call ''AtPrepare_Notify'' [], Call ''AtPrepare_Locks'' [],
       Call ''AtPrepare_PredicateLocks'' [], Call ''AtPrepare_PgStat'' [], Call ''AtPrepare_MultiXact'' [],
       Call ''AtPrepare_RelationMap'' [], Call ''EndPrepare'' []],
     assign (\<lambda>s. s\<lparr>XactLastRecEnd := 0\<rparr>),
     calls e [Call ''ProcArrayClearTransaction'' []],
     assign clear_myproc,
     calls e [Call ''CallXactCallbacks XACT_EVENT_PREPARE'' [],
       Call ''ResourceOwnerRelease RESOURCE_RELEASE_BEFORE_LOCKS'' [1, 1],
       Call ''AtEOXact_Buffers'' [1], Call ''AtEOXact_RelationCache'' [1], Call ''PostPrepare_PgStat'' [],
       Call ''PostPrepare_Inval'' [], Call ''PostPrepare_smgr'' [], Call ''PostPrepare_MultiXact'' [uint xid],
       Call ''PostPrepare_Locks'' [uint xid], Call ''PostPrepare_PredicateLocks'' [uint xid],
       Call ''ResourceOwnerRelease RESOURCE_RELEASE_LOCKS'' [1, 1],
       Call ''ResourceOwnerRelease RESOURCE_RELEASE_AFTER_LOCKS'' [1, 1], Call ''PostPrepare_Twophase'' [],
       Call ''AtEOXact_CatCache'' [1]],
     AtEOXact_GUC e True 1,
     calls e [Call ''AtEOXact_SPI'' [1], Call ''AtEOXact_on_commit_actions'' [1], Call ''AtEOXact_Namespace'' [1],
       Call ''AtEOXact_SMgr'' [], Call ''AtEOXact_Files'' [], Call ''AtEOXact_ComboCid'' [],
       Call ''AtEOXact_HashTables'' [1], Call ''AtEOXact_Snapshot'' [1], Call ''pgstat_report_xact_timestamp'' [0],
       Call ''ResourceOwnerDelete'' []],
     assign drop_owner,
     AtCommit_Memory e,
     assign (upd_cur reset_top),
     set_xstate TRANS_DEFAULT]"

definition PrepareTransaction :: "xact_services \<Rightarrow> xact_backend \<Rightarrow> outcome" where
  "PrepareTransaction e s =
     (case GetCurrentTransactionId (xmode e) (other_backends e) (xv s) of
        Inl err \<Rightarrow> raise err s
      | Inr (xid, v) \<Rightarrow> prepare_body e xid (s\<lparr>xv := v\<rparr>))"

text \<open>What both abort functions do first.\<close>

definition release_low_level :: "xact_call list" where
  "release_low_level = [Call ''LWLockReleaseAll'' [], Call ''AbortBufferIO'' [], Call ''UnlockBuffers'' [],
     Call ''LockErrorCleanup'' [], Call ''reschedule_timeouts'' [], Call ''PG_SETMASK UnBlockSig'' []]"

definition AbortTransaction :: "xact_services \<Rightarrow> xact_backend \<Rightarrow> outcome" where
  "AbortTransaction e = steps [
     AtAbort_Memory e,
     calls e release_low_level,
     expect_state ''AbortTransaction'' [TRANS_INPROGRESS, TRANS_PREPARE],
     set_xstate TRANS_ABORT,
     calls e [Call ''SetUserIdAndSecContext'' [], Call ''AfterTriggerEndXact'' [0], Call ''AtAbort_Portals'' [],
       Call ''AtEOXact_LargeObject'' [0], Call ''AtAbort_Notify'' [], Call ''AtEOXact_RelationMap'' [0],
       Call ''AtAbort_Twophase'' []],
     RecordTransactionAbort e False,
     end_in_procarray e,
     (\<lambda>s. only (TopTransactionResourceOwner s) (steps [
        calls e [Call ''CallXactCallbacks XACT_EVENT_ABORT'' [],
          Call ''ResourceOwnerRelease RESOURCE_RELEASE_BEFORE_LOCKS'' [0, 1],
          Call ''AtEOXact_Buffers'' [0], Call ''AtEOXact_RelationCache'' [0], Call ''AtEOXact_Inval'' [0],
          Call ''AtEOXact_MultiXact'' [], Call ''ResourceOwnerRelease RESOURCE_RELEASE_LOCKS'' [0, 1],
          Call ''ResourceOwnerRelease RESOURCE_RELEASE_AFTER_LOCKS'' [0, 1], Call ''smgrDoPendingDeletes'' [0],
          Call ''AtEOXact_CatCache'' [0]],
        AtEOXact_GUC e False 1,
        calls e [Call ''AtEOXact_SPI'' [0], Call ''AtEOXact_on_commit_actions'' [0],
          Call ''AtEOXact_Namespace'' [0], Call ''AtEOXact_SMgr'' [], Call ''AtEOXact_Files'' [],
          Call ''AtEOXact_ComboCid'' [], Call ''AtEOXact_HashTables'' [0], Call ''AtEOXact_PgStat'' [0],
          Call ''pgstat_report_xact_timestamp'' [0]]]) s)]"

definition CleanupTransaction :: "xact_services \<Rightarrow> xact_backend \<Rightarrow> outcome" where
  "CleanupTransaction e = steps [
     (\<lambda>s. only (xstate (cur s) \<noteq> TRANS_ABORT) (raise (FATAL ''CleanupTransaction: unexpected state'')) s),
     calls e [Call ''AtCleanup_Portals'' [], Call ''AtEOXact_Snapshot'' [0]],
     (\<lambda>s. only (TopTransactionResourceOwner s) (call e (Call ''ResourceOwnerDelete'' [])) s),
     assign drop_owner,
     AtCleanup_Memory e,
     assign (upd_cur reset_top),
     set_xstate TRANS_DEFAULT]"

subsection \<open>Subtransactions\<close>

definition subs :: "xact_backend \<Rightarrow> int list" where
  "subs s = [uint (subTransactionId (cur s)), uint (subTransactionId (parent s))]"

definition StartSubTransaction :: "xact_services \<Rightarrow> xact_backend \<Rightarrow> outcome" where
  "StartSubTransaction e = steps [
     expect_state ''StartSubTransaction'' [TRANS_DEFAULT],
     set_xstate TRANS_START,
     AtSubStart_Memory e,
     AtSubStart_ResourceOwner e,
     calls e [Call ''AtSubStart_Inval'' [], Call ''AtSubStart_Notify'' [], Call ''AfterTriggerBeginSubXact'' []],
     set_xstate TRANS_INPROGRESS,
     need_parent,
     (\<lambda>s. call e (Call ''CallSubXactCallbacks SUBXACT_EVENT_START_SUB'' (subs s)) s)]"

definition subcommit_children :: "xact_backend \<Rightarrow> outcome" where
  "subcommit_children s = (case trans s of
     x # p # r \<Rightarrow> (case AtSubCommit_childXids x p of
         Inl err \<Rightarrow> (Some err, s) | Inr (x, p) \<Rightarrow> (None, set_trans (x # p # r) s))
   | _ \<Rightarrow> (Some null_pointer, s))"

definition has_xid :: "xact_backend \<Rightarrow> bool" where
  "has_xid s = TransactionIdIsValid (transactionId (cur s))"

definition CommitSubTransaction :: "xact_services \<Rightarrow> xact_backend \<Rightarrow> outcome" where
  "CommitSubTransaction e = steps [
     expect_state ''CommitSubTransaction'' [TRANS_INPROGRESS],
     need_parent,
     (\<lambda>s. call e (Call ''CallSubXactCallbacks SUBXACT_EVENT_PRE_COMMIT_SUB'' (subs s)) s),
     set_xstate TRANS_COMMIT,
     CommandCounterIncrement e,
     (\<lambda>s. only (has_xid s) subcommit_children s),
     (\<lambda>s. calls e [Call ''AfterTriggerEndSubXact'' [1], Call ''AtSubCommit_Portals'' (subs s),
        Call ''AtEOSubXact_LargeObject'' (1 # subs s), Call ''AtSubCommit_Notify'' [],
        Call ''CallSubXactCallbacks SUBXACT_EVENT_COMMIT_SUB'' (subs s),
        Call ''ResourceOwnerRelease RESOURCE_RELEASE_BEFORE_LOCKS'' [1, 0],
        Call ''AtEOSubXact_RelationCache'' (1 # subs s), Call ''AtEOSubXact_Inval'' [1],
        Call ''AtSubCommit_smgr'' []] s),
     (\<lambda>s. only (has_xid s) (call e (Call ''XactLockTableDelete'' [uint (transactionId (cur s))])) s),
     calls e [Call ''ResourceOwnerRelease RESOURCE_RELEASE_LOCKS'' [1, 0],
       Call ''ResourceOwnerRelease RESOURCE_RELEASE_AFTER_LOCKS'' [1, 0]],
     (\<lambda>s. AtEOXact_GUC e True (gucNestLevel (cur s)) s),
     (\<lambda>s. calls e [Call ''AtEOSubXact_SPI'' [1, uint (subTransactionId (cur s))],
        Call ''AtEOSubXact_on_commit_actions'' (1 # subs s), Call ''AtEOSubXact_Namespace'' (1 # subs s),
        Call ''AtEOSubXact_Files'' (1 # subs s), Call ''AtEOSubXact_HashTables'' [1, nestingLevel (cur s)],
        Call ''AtEOSubXact_PgStat'' [1, nestingLevel (cur s)],
        Call ''AtSubCommit_Snapshot'' [nestingLevel (cur s)]] s),
     assign (\<lambda>s. s\<lparr>XactReadOnly := prevXactReadOnly (cur s)\<rparr>),
     calls e [Call ''ResourceOwnerDelete'' []],
     assign (upd_cur (\<lambda>x. x\<lparr>curTransactionOwner := False\<rparr>)),
     AtSubCommit_Memory e,
     set_xstate TRANS_DEFAULT,
     PopTransaction]"

definition AtSubAbort_childXids :: "TransactionStateData \<Rightarrow> TransactionStateData" where
  "AtSubAbort_childXids x = x\<lparr>childXids := [], maxChildXids := 0\<rparr>"

definition AbortSubTransaction :: "xact_services \<Rightarrow> xact_backend \<Rightarrow> outcome" where
  "AbortSubTransaction e = steps [
     AtSubAbort_Memory e,
     calls e release_low_level,
     expect_state ''AbortSubTransaction'' [TRANS_INPROGRESS],
     set_xstate TRANS_ABORT,
     calls e [Call ''SetUserIdAndSecContext'' []],
     (\<lambda>s. only (curTransactionOwner (cur s)) (steps [
        need_parent,
        (\<lambda>s. calls e [Call ''AfterTriggerEndSubXact'' [0], Call ''AtSubAbort_Portals'' (subs s),
           Call ''AtEOSubXact_LargeObject'' (0 # subs s), Call ''AtSubAbort_Notify'' []] s),
        RecordTransactionAbort e True,
        (\<lambda>s. only (has_xid s) (assign (upd_cur AtSubAbort_childXids)) s),
        (\<lambda>s. calls e [Call ''CallSubXactCallbacks SUBXACT_EVENT_ABORT_SUB'' (subs s),
           Call ''ResourceOwnerRelease RESOURCE_RELEASE_BEFORE_LOCKS'' [0, 0],
           Call ''AtEOSubXact_RelationCache'' (0 # subs s), Call ''AtEOSubXact_Inval'' [0],
           Call ''ResourceOwnerRelease RESOURCE_RELEASE_LOCKS'' [0, 0],
           Call ''ResourceOwnerRelease RESOURCE_RELEASE_AFTER_LOCKS'' [0, 0], Call ''AtSubAbort_smgr'' []] s),
        (\<lambda>s. AtEOXact_GUC e False (gucNestLevel (cur s)) s),
        (\<lambda>s. calls e [Call ''AtEOSubXact_SPI'' [0, uint (subTransactionId (cur s))],
           Call ''AtEOSubXact_on_commit_actions'' (0 # subs s), Call ''AtEOSubXact_Namespace'' (0 # subs s),
           Call ''AtEOSubXact_Files'' (0 # subs s), Call ''AtEOSubXact_HashTables'' [0, nestingLevel (cur s)],
           Call ''AtEOSubXact_PgStat'' [0, nestingLevel (cur s)],
           Call ''AtSubAbort_Snapshot'' [nestingLevel (cur s)]] s)]) s),
     assign (\<lambda>s. s\<lparr>XactReadOnly := prevXactReadOnly (cur s)\<rparr>)]"

definition CleanupSubTransaction :: "xact_services \<Rightarrow> xact_backend \<Rightarrow> outcome" where
  "CleanupSubTransaction e = steps [
     expect_state ''CleanupSubTransaction'' [TRANS_ABORT],
     (\<lambda>s. call e (Call ''AtSubCleanup_Portals'' [uint (subTransactionId (cur s))]) s),
     need_parent,
     (\<lambda>s. only (curTransactionOwner (cur s)) (call e (Call ''ResourceOwnerDelete'' [])) s),
     assign (upd_cur (\<lambda>x. x\<lparr>curTransactionOwner := False\<rparr>)),
     AtSubCleanup_Memory e,
     set_xstate TRANS_DEFAULT,
     PopTransaction]"

end
