(* ===== verification/XactFrames.thy ===== *)
theory XactFrames
  imports XactEnd
begin

section \<open>What the transaction functions leave alone\<close>

text \<open>
  The state machine of xact.c works on a few fields of the stack: the low-level and block states,
  the savepoint names and the nesting levels. They are the \<open>view\<close> of the stack; the functions
  that start and end transactions change it in few places. \<open>frames f\<close> says that \<open>f\<close> leaves the
  view alone, whether it raises an error or not.
\<close>

subsection \<open>The view of the stack\<close>

type_synonym level_view = "TransState \<times> TBlockState \<times> string option \<times> int \<times> int"

definition level_view :: "TransactionStateData \<Rightarrow> level_view" where
  "level_view x = (xstate x, blockState x, savepoint x, savepointLevel x, nestingLevel x)"

definition view :: "xact_backend \<Rightarrow> level_view list" where "view s = map level_view (trans s)"

definition frames :: "(xact_backend \<Rightarrow> outcome) \<Rightarrow> bool" where
  "frames f \<longleftrightarrow> (\<forall>s. view (snd (f s)) = view s)"

lemma framesD: "frames f \<Longrightarrow> f s = (r, s') \<Longrightarrow> view s' = view s"
  unfolding frames_def by (metis snd_conv)

lemma trans_simps [simp]:
  "trans (set_trans st s) = st" "trans (upd_vars g s) = trans s"
  "trans (upd_cur f s) = (case trans s of [] \<Rightarrow> [] | x # r \<Rightarrow> f x # r)"
  by (simp_all add: trans_def set_trans_def upd_vars_def upd_cur_def split: list.splits)

lemma view_simps [simp]:
  "view (set_trans st s) = map level_view st" "view (upd_vars f s) = view s"
  by (simp_all add: view_def)

lemma view_upd_cur:
  "(\<And>x. level_view (f x) = level_view x) \<Longrightarrow> view (upd_cur f s) = view s"
  by (auto simp: view_def split: list.splits)

declare steps.simps(2) [simp del]

named_theorems frames \<open>functions that leave the view of the stack alone\<close>

lemma steps_view:
  "view (snd (f s)) = view s \<Longrightarrow> (\<And>t. view (snd (steps fs t)) = view t) \<Longrightarrow> view (snd (steps (f # fs) s)) = view s"
  by (cases "f s") (auto simp: steps.simps(2) split: option.splits)

lemma frames_steps [frames]: "frames (steps [])" "frames f \<Longrightarrow> frames (steps fs) \<Longrightarrow> frames (steps (f # fs))"
  unfolding frames_def by (simp, use steps_view in blast)

lemma view_steps: "frames (steps fs) \<Longrightarrow> view (snd (steps fs s)) = view s"
  by (simp add: frames_def)

lemma view_call [simp]: "view (snd (call e c s)) = view s"
  by (simp add: call_def Let_def view_def trans_def)

lemma view_calls [simp]: "view (snd (calls e cs s)) = view s"
proof -
  have "frames (call e c)" for c by (simp add: frames_def)
  then have "frames (calls e cs)"
    unfolding calls_def by (induction cs) (simp_all add: frames)
  then show ?thesis by (simp add: frames_def)
qed

lemma view_fields [simp]:
  "view (s\<lparr>trace := a\<rparr>) = view s" "view (s\<lparr>latestXid := b\<rparr>) = view s" "view (s\<lparr>XactLastRecEnd := c\<rparr>) = view s"
  "view (s\<lparr>delayChkpt := d\<rparr>) = view s" "view (s\<lparr>fetched := g\<rparr>) = view s" "view (s\<lparr>XactReadOnly := h\<rparr>) = view s"
  "view (s\<lparr>GUCNestLevel := i\<rparr>) = view s" "view (s\<lparr>prepareGID := j\<rparr>) = view s"
  "view (s\<lparr>TopTransactionContext := k\<rparr>) = view s" "view (s\<lparr>TransactionAbortContext := l\<rparr>) = view s"
  "view (s\<lparr>TopTransactionResourceOwner := m\<rparr>) = view s" "view (s\<lparr>currentCommandId := n\<rparr>) = view s"
  "view (s\<lparr>currentCommandIdUsed := q\<rparr>) = view s" "view (s\<lparr>currentSubTransactionId := t\<rparr>) = view s"
  "view (s\<lparr>forceSyncCommit := u\<rparr>) = view s" "view (s\<lparr>MyXactAccessedTempRel := v\<rparr>) = view s"
  by (simp_all add: view_def trans_def)

lemma frames_basic [frames]:
  "frames (\<lambda>s. call e (c s) s)" "frames (call e c')" "frames (\<lambda>s. calls e (cs s) s)" "frames (calls e cs')"
  "frames (warn m)" "frames (raise err)" "frames (\<lambda>s. raise err s)" "frames need_parent" "frames (expect_state fn ok)"
  by (auto simp: frames_def warn_def assign_def raise_def need_parent_def expect_state_def)

lemma frames_only [frames]:
  "frames f \<Longrightarrow> frames (only b f)" "(\<And>t. frames (g t)) \<Longrightarrow> frames (\<lambda>s. only (c s) (g s) s)" "frames f \<Longrightarrow> frames (in_critical f)"
  by (auto simp: frames_def only_def in_critical_def split: prod.splits option.splits pg_error.splits)
    (metis snd_conv)+

lemma frames_assign [frames]: "frames (assign f) \<longleftrightarrow> (\<forall>s. view (f s) = view s)"
  by (simp add: frames_def assign_def)

lemma view_upd [simp]: "(\<And>x. level_view (f x) = level_view x) \<Longrightarrow> view (upd_cur f s) = view s"
  by (rule view_upd_cur)

lemma frames_CCI [frames]: "frames (CommandCounterIncrement e)"
proof -
  have "frames (steps [assign (\<lambda>s. s\<lparr>currentCommandId := currentCommandId s + 1, currentCommandIdUsed := False\<rparr>),
      (\<lambda>s. call e (Call ''SnapshotSetCommandId'' [uint (currentCommandId s)]) s),
      calls e [Call ''AtCCI_RelationMap'' [], Call ''CommandEndInvalidationMessages'' []]])"
    by (simp add: frames)
  then show ?thesis
    unfolding CommandCounterIncrement_def frames_def by (simp add: raise_def)
qed

lemma frames_memory [frames]:
  "frames (AtStart_Memory e)" "frames (AtStart_ResourceOwner e)" "frames (AtSubStart_Memory e)"
  "frames (AtSubStart_ResourceOwner e)" "frames (AtCommit_Memory e)" "frames (AtAbort_Memory e)"
  "frames (AtSubAbort_Memory e)" "frames (AtCleanup_Memory e)" "frames (AtSubCleanup_Memory e)"
  "frames (AtEOXact_GUC e b n)" "frames (\<lambda>s. AtEOXact_GUC e b (k s) s)" "frames (AtSubCommit_Memory e)"
proof -
  have "frames (AtEOXact_GUC e b n)" for n by (simp add: AtEOXact_GUC_def frames)
  then show "frames (AtEOXact_GUC e b n)" "frames (\<lambda>s. AtEOXact_GUC e b (k s) s)" by (simp_all add: frames_def)
  show "frames (AtAbort_Memory e)" by (simp add: frames_def AtAbort_Memory_def)
qed (simp_all add: frames AtStart_Memory_def AtStart_ResourceOwner_def AtSubStart_Memory_def
      AtSubStart_ResourceOwner_def AtCommit_Memory_def AtSubAbort_Memory_def AtCleanup_Memory_def
      AtSubCleanup_Memory_def level_view_def AtSubCommit_Memory_def)

lemma view_assigned:
  assumes "AssignTransactionId c others i a = Inr a'"
  shows "map level_view (stack a') = map level_view (stack a)"
proof -
  have upd: "map level_view (xs[j := f (xs ! j)]) = map level_view xs" if "level_view (f (xs ! j)) = level_view (xs ! j)"
    for f and xs :: xact_stack and j
    by (cases "j < length xs") (auto simp: map_update that intro: nth_equalityI simp: nth_list_update)
  have report: "map level_view (stack (report_assignment l xid b)) = map level_view (stack b)" for l xid b
  proof (cases "stack b = []")
    case False
    then have "last (stack b) = stack b ! (length (stack b) - 1)" by (rule last_conv_nth)
    then show ?thesis
      by (simp add: report_assignment_def Let_def upd level_view_def)
  qed (simp add: report_assignment_def Let_def)
  have one: "map level_view (stack b') = map level_view (stack b)" if "assign_one c others j b = Inr b'" for j b b'
    using that by (auto simp: assign_one_def Let_def report upd level_view_def split: sum.splits prod.splits)
  have all: "map level_view (stack b') = map level_view (stack b)" if "foldM (assign_one c others) js b = Inr b'" for js b b'
    using that
  proof (induction js arbitrary: b)
    case (Cons j js)
    then show ?case using one by (auto split: sum.splits)
  qed simp
  show ?thesis
    using assms one all unfolding AssignTransactionId_def Let_def by (metis (no_types, lifting) sum.case sum.exhaust sum.inject(2) sum.simps(4))
qed

lemma frames_records [frames]:
  "frames (RecordTransactionCommit e)" "frames (RecordTransactionAbort e b)" "frames (end_in_procarray e)"
  "frames (fire_deferred e b)"
proof -
  have clog: "frames (update_clog f)" "frames (\<lambda>s. update_clog (g s) s)" for f g
    by (simp_all add: frames_def update_clog_def split: sum.splits)
  have wal: "frames (insert_wal e r)" "frames (\<lambda>s. insert_wal e (h s) s)" for r h
  proof -
    have "frames (insert_wal e r)" for r by (simp add: insert_wal_def frames)
    then show "frames (insert_wal e r)" "frames (\<lambda>s. insert_wal e (h s) s)" by (simp_all add: frames_def)
  qed
  have flush: "frames (flush_and_commit e xid children b f)" for xid children b f
    by (simp add: frames flush_and_commit_def clog)
  have check: "frames (check_not_committed e xid)" for xid
    by (simp add: frames_def check_not_committed_def raise_def split: option.splits sum.splits prod.splits bool.splits)
  have reset: "frames (reset_last_rec b)" for b by (simp add: frames reset_last_rec_def)
  have only_wal: "frames (only b' (\<lambda>s. insert_wal e (h s) s))" for b' h using wal by (simp add: frames)
  show "frames (end_in_procarray e)"
    by (simp add: frames end_in_procarray_def clear_myproc_def)
  show "frames (fire_deferred e b)" by (simp add: frames_def fire_deferred_def)
  show "frames (RecordTransactionCommit e)"
    unfolding frames_def RecordTransactionCommit_def Let_def
    by (simp add: frames wal flush view_steps raise_def)
  show "frames (RecordTransactionAbort e b)"
    unfolding frames_def RecordTransactionAbort_def Let_def
    by (simp add: frames wal clog check reset view_steps)
qed

subsection \<open>Popping shortens the stack\<close>

text \<open>What the termination of the recursive functions rests on.\<close>

definition depth :: "xact_backend \<Rightarrow> nat" where "depth s = length (trans s)"

lemma depth_view: "depth s = length (view s)"
  by (simp add: depth_def view_def)

definition same_depth :: "(xact_backend \<Rightarrow> outcome) \<Rightarrow> bool" where
  "same_depth f \<longleftrightarrow> (\<forall>s. depth (snd (f s)) = depth s)"

named_theorems depths \<open>functions that keep the height of the stack\<close>

lemma frames_depth [depths]: "frames f \<Longrightarrow> same_depth f"
  by (simp add: same_depth_def frames_def depth_view)

lemma depth_upd_cur [simp]: "depth (upd_cur f s) = depth s"
  by (simp add: depth_def split: list.splits)

lemma depths_set [depths]: "same_depth (set_xstate t)" "same_depth (set_block b)"
  by (simp_all add: same_depth_def set_xstate_def set_block_def assign_def)

lemma depths_steps [depths]:
  "same_depth (steps [])" "same_depth f \<Longrightarrow> same_depth (steps fs) \<Longrightarrow> same_depth (steps (f # fs))"
  unfolding same_depth_def
  by (simp, metis (no_types, lifting) steps.simps(2) option.exhaust option.simps(4,5) prod.case prod.collapse snd_conv)

lemma steps_append:
  "steps (fs @ gs) s = (case steps fs s of (None, s) \<Rightarrow> steps gs s | (Some err, s) \<Rightarrow> (Some err, s))"
  by (induction fs arbitrary: s) (simp_all add: steps.simps(2) split: prod.splits option.splits)

lemma steps_single [simp]: "steps [f] s = f s"
  by (simp add: steps.simps(2) split: prod.splits option.splits)

lemma Pop_shorter: "PopTransaction s = (None, s') \<Longrightarrow> depth s' < depth s"
  by (auto simp: PopTransaction_def steps.simps(2) expect_state_def warn_def assign_def raise_def depth_def trans_def
      set_trans_def split: if_splits) (metis Suc_pred diff_less length_greater_0_conv lessI list.sel(2) zero_less_one)+

lemma pop_last:
  assumes "steps fs s = (None, s')" and "same_depth (steps (butlast fs))" and "fs \<noteq> []" and "last fs = PopTransaction"
  shows "depth s' < depth s"
proof -
  have "steps (butlast fs @ [PopTransaction]) s = (None, s')"
    using assms(1,3,4) append_butlast_last_id by metis
  then obtain s1 where "steps (butlast fs) s = (None, s1)" "PopTransaction s1 = (None, s')"
    unfolding steps_append by (auto split: prod.splits option.splits)
  then show ?thesis using Pop_shorter [of s1 s'] assms(2) unfolding same_depth_def by (metis snd_conv)
qed

lemma frames_children [frames]: "frames subcommit_children"
  by (auto simp: frames_def subcommit_children_def view_def level_view_def AtSubCommit_childXids_def Let_def
      split: list.splits sum.splits if_splits)

lemma CleanupSub_shorter: "CleanupSubTransaction e s = (None, s') \<Longrightarrow> depth s' < depth s"
  unfolding CleanupSubTransaction_def by (erule pop_last) (simp_all add: depths frames level_view_def)

lemma CommitSub_shorter: "CommitSubTransaction e s = (None, s') \<Longrightarrow> depth s' < depth s"
  unfolding CommitSubTransaction_def by (erule pop_last) (simp_all add: depths frames level_view_def)

lemma AbortSub_depth: "AbortSubTransaction e s = (r, s') \<Longrightarrow> depth s' = depth s"
proof -
  have "same_depth (AbortSubTransaction e)"
    unfolding AbortSubTransaction_def
    by (simp add: depths frames level_view_def AtSubAbort_childXids_def)
  then show "AbortSubTransaction e s = (r, s') \<Longrightarrow> depth s' = depth s"
    unfolding same_depth_def by (metis snd_conv)
qed

lemma AbortCleanupSub_shorter:
  "steps [AbortSubTransaction e, CleanupSubTransaction e] s = (None, s') \<Longrightarrow> depth s' < depth s"
  using AbortSub_depth CleanupSub_shorter by (auto simp: steps.simps(2) split: prod.splits option.splits) metis

end
