(* ===== verification/XactBlock.thy ===== *)
theory XactBlock
  imports XactFrames
begin

section \<open>Transaction blocks and savepoints (access/transam/xact.c)\<close>

text \<open>
  The state machine of the client's commands: what BEGIN, COMMIT, ROLLBACK, PREPARE, SAVEPOINT,
  RELEASE and ROLLBACK TO do to the block states, what the end of a command or an error makes
  of them, and how the traffic cop (tcop/postgres.c, tcop/utility.c) drives it.
\<close>

definition unexpected :: "string \<Rightarrow> xact_backend \<Rightarrow> outcome" where
  "unexpected fn = raise (FATAL (fn @ '': unexpected state''))"

text \<open>A failed assertion aborts the server like a \<open>PANIC\<close>.\<close>

definition failed_assertion :: pg_error where "failed_assertion = PANIC ''BadState''"

definition assert_state :: "(xact_backend \<Rightarrow> bool) \<Rightarrow> xact_backend \<Rightarrow> outcome" where
  "assert_state P s = (if P s then (None, s) else (Some failed_assertion, s))"

subsection \<open>Commands that change block states only\<close>

definition BeginTransactionBlock :: "xact_backend \<Rightarrow> outcome" where
  "BeginTransactionBlock s =
     (case blockState (cur s) of
        TBLOCK_STARTED \<Rightarrow> set_block TBLOCK_BEGIN s
      | TBLOCK_INPROGRESS \<Rightarrow> warn ''there is already a transaction in progress'' s
      | TBLOCK_SUBINPROGRESS \<Rightarrow> warn ''there is already a transaction in progress'' s
      | TBLOCK_ABORT \<Rightarrow> warn ''there is already a transaction in progress'' s
      | TBLOCK_SUBABORT \<Rightarrow> warn ''there is already a transaction in progress'' s
      | _ \<Rightarrow> unexpected ''BeginTransactionBlock'' s)"

text \<open>
  The loops that give the first \<open>k\<close> levels, from the current one outwards, a new block state;
  a state for which \<open>f\<close> has none is a fatal error.
\<close>

fun mark :: "(TBlockState \<Rightarrow> TBlockState option) \<Rightarrow> nat \<Rightarrow> xact_stack \<Rightarrow> bool \<times> xact_stack" where
  "mark f 0 st = (True, st)"
| "mark f (Suc k) [] = (True, [])"
| "mark f (Suc k) (x # st) = (case f (blockState x) of
     None \<Rightarrow> (False, x # st)
   | Some b \<Rightarrow> (case mark f k st of (ok, st) \<Rightarrow> (ok, x\<lparr>blockState := b\<rparr> # st)))"

definition mark_levels :: "string \<Rightarrow> (TBlockState \<Rightarrow> TBlockState option) \<Rightarrow> nat \<Rightarrow> xact_backend \<Rightarrow> outcome" where
  "mark_levels fn f k s = (case mark f k (trans s) of
     (True, st) \<Rightarrow> (None, set_trans st s) | (False, st) \<Rightarrow> unexpected fn (set_trans st s))"

definition mark_top :: "string \<Rightarrow> (TBlockState \<Rightarrow> TBlockState option) \<Rightarrow> xact_backend \<Rightarrow> outcome" where
  "mark_top fn f s = (case f (blockState (last (trans s))) of
     None \<Rightarrow> unexpected fn s
   | Some b \<Rightarrow> (None, set_trans (butlast (trans s) @ [(last (trans s))\<lparr>blockState := b\<rparr>]) s))"

text \<open>All subtransactions, then the top transaction.\<close>

definition mark_all ::
  "string \<Rightarrow> (TBlockState \<Rightarrow> TBlockState option) \<Rightarrow> (TBlockState \<Rightarrow> TBlockState option) \<Rightarrow> xact_backend \<Rightarrow> outcome" where
  "mark_all fn fsub ftop = steps [(\<lambda>s. mark_levels fn fsub (length (trans s) - 1) s), mark_top fn ftop]"

definition commit_sub :: "TBlockState \<Rightarrow> TBlockState option" where
  "commit_sub b = (if b = TBLOCK_SUBINPROGRESS then Some TBLOCK_SUBCOMMIT else None)"

definition commit_top :: "TBlockState \<Rightarrow> TBlockState option" where
  "commit_top b = (if b = TBLOCK_INPROGRESS then Some TBLOCK_END else None)"

definition abort_sub :: "TBlockState \<Rightarrow> TBlockState option" where
  "abort_sub b = (if b = TBLOCK_SUBINPROGRESS then Some TBLOCK_SUBABORT_PENDING
     else if b = TBLOCK_SUBABORT then Some TBLOCK_SUBABORT_END else None)"

definition abort_top :: "TBlockState \<Rightarrow> TBlockState option" where
  "abort_top b = (if b = TBLOCK_INPROGRESS then Some TBLOCK_ABORT_PENDING
     else if b = TBLOCK_ABORT then Some TBLOCK_ABORT_END else None)"

text \<open>The result is the return value of the code with the outcome.\<close>

definition EndTransactionBlock :: "xact_backend \<Rightarrow> bool \<times> outcome" where
  "EndTransactionBlock s =
     (case blockState (cur s) of
        TBLOCK_INPROGRESS \<Rightarrow> (True, set_block TBLOCK_END s)
      | TBLOCK_ABORT \<Rightarrow> (False, set_block TBLOCK_ABORT_END s)
      | TBLOCK_SUBINPROGRESS \<Rightarrow> (True, mark_all ''EndTransactionBlock'' commit_sub commit_top s)
      | TBLOCK_SUBABORT \<Rightarrow> (False, mark_all ''EndTransactionBlock'' abort_sub abort_top s)
      | TBLOCK_STARTED \<Rightarrow> (True, warn ''there is no transaction in progress'' s)
      | _ \<Rightarrow> (False, unexpected ''EndTransactionBlock'' s))"

definition PrepareTransactionBlock :: "xact_services \<Rightarrow> string \<Rightarrow> xact_backend \<Rightarrow> bool \<times> outcome" where
  "PrepareTransactionBlock e gid s =
     (case EndTransactionBlock s of
        (_, Some err, s) \<Rightarrow> (False, Some err, s)
      | (False, None, s) \<Rightarrow> (False, None, s)
      | (True, None, s) \<Rightarrow>
          if blockState (last (trans s)) = TBLOCK_END
          then (True, steps [call e (Call ''MemoryContextStrdup'' []),
                  assign (\<lambda>s. set_trans (butlast (trans s) @ [(last (trans s))\<lparr>blockState := TBLOCK_PREPARE\<rparr>])
                    (s\<lparr>prepareGID := Some gid\<rparr>))] s)
          else (False, None, s))"

definition UserAbortTransactionBlock :: "xact_backend \<Rightarrow> outcome" where
  "UserAbortTransactionBlock s =
     (case blockState (cur s) of
        TBLOCK_INPROGRESS \<Rightarrow> set_block TBLOCK_ABORT_PENDING s
      | TBLOCK_ABORT \<Rightarrow> set_block TBLOCK_ABORT_END s
      | TBLOCK_SUBINPROGRESS \<Rightarrow> mark_all ''UserAbortTransactionBlock'' abort_sub abort_top s
      | TBLOCK_SUBABORT \<Rightarrow> mark_all ''UserAbortTransactionBlock'' abort_sub abort_top s
      | TBLOCK_STARTED \<Rightarrow>
          steps [warn ''there is no transaction in progress'', set_block TBLOCK_ABORT_PENDING] s
      | _ \<Rightarrow> unexpected ''UserAbortTransactionBlock'' s)"

subsection \<open>Savepoints\<close>

definition push_named :: "xact_services \<Rightarrow> string option \<Rightarrow> xact_backend \<Rightarrow> outcome" where
  "push_named e name = steps [PushTransaction e,
     only (name \<noteq> None) (steps [call e (Call ''MemoryContextStrdup'' []),
       assign (upd_cur (\<lambda>x. x\<lparr>savepoint := name\<rparr>))])]"

definition DefineSavepoint :: "xact_services \<Rightarrow> string option \<Rightarrow> xact_backend \<Rightarrow> outcome" where
  "DefineSavepoint e name s =
     (if blockState (cur s) \<in> {TBLOCK_INPROGRESS, TBLOCK_SUBINPROGRESS}
      then push_named e name s else unexpected ''DefineSavepoint'' s)"

definition no_such_savepoint :: pg_error where
  "no_such_savepoint = ERROR ''no such savepoint''"

text \<open>The number of levels inside of the innermost one with the name.\<close>

definition levels_inside :: "string \<Rightarrow> xact_stack \<Rightarrow> nat" where
  "levels_inside name st = length (takeWhile (\<lambda>x. savepoint x \<noteq> Some name) st)"

definition with_target :: "string \<Rightarrow> (nat \<Rightarrow> xact_backend \<Rightarrow> outcome) \<Rightarrow> xact_backend \<Rightarrow> outcome" where
  "with_target name f s =
     (let k = levels_inside name (trans s)
      in if k = length (trans s) then raise no_such_savepoint s
         else if savepointLevel (trans s ! k) \<noteq> savepointLevel (cur s) then raise no_such_savepoint s
         else f k s)"

definition ReleaseSavepoint :: "string \<Rightarrow> xact_backend \<Rightarrow> outcome" where
  "ReleaseSavepoint name s =
     (case blockState (cur s) of
        TBLOCK_INPROGRESS \<Rightarrow> raise no_such_savepoint s
      | TBLOCK_SUBINPROGRESS \<Rightarrow>
          with_target name (\<lambda>k. mark_levels ''ReleaseSavepoint'' (\<lambda>_. Some TBLOCK_SUBRELEASE) (Suc k)) s
      | _ \<Rightarrow> unexpected ''ReleaseSavepoint'' s)"

definition restart_sub :: "TBlockState \<Rightarrow> TBlockState option" where
  "restart_sub b = (if b = TBLOCK_SUBINPROGRESS then Some TBLOCK_SUBRESTART
     else if b = TBLOCK_SUBABORT then Some TBLOCK_SUBABORT_RESTART else None)"

definition mark_target :: "string \<Rightarrow> (TBlockState \<Rightarrow> TBlockState option) \<Rightarrow> nat \<Rightarrow> xact_backend \<Rightarrow> outcome" where
  "mark_target fn f k s = (case f (blockState (trans s ! k)) of
     None \<Rightarrow> unexpected fn s
   | Some b \<Rightarrow> (None, set_trans ((trans s)[k := (trans s ! k)\<lparr>blockState := b\<rparr>]) s))"

definition RollbackToSavepoint :: "string \<Rightarrow> xact_backend \<Rightarrow> outcome" where
  "RollbackToSavepoint name s =
     (let rollback = with_target name (\<lambda>k. steps [mark_levels ''RollbackToSavepoint'' abort_sub k,
                       mark_target ''RollbackToSavepoint'' restart_sub k])
      in case blockState (cur s) of
        TBLOCK_INPROGRESS \<Rightarrow> raise no_such_savepoint s
      | TBLOCK_ABORT \<Rightarrow> raise no_such_savepoint s
      | TBLOCK_SUBINPROGRESS \<Rightarrow> rollback s
      | TBLOCK_SUBABORT \<Rightarrow> rollback s
      | _ \<Rightarrow> unexpected ''RollbackToSavepoint'' s)"

subsection \<open>The start and the end of a command\<close>

definition StartTransactionCommand :: "xact_services \<Rightarrow> xact_backend \<Rightarrow> outcome" where
  "StartTransactionCommand e s =
     (case blockState (cur s) of
        TBLOCK_DEFAULT \<Rightarrow> steps [StartTransaction e, set_block TBLOCK_STARTED] s
      | TBLOCK_INPROGRESS \<Rightarrow> (None, s) | TBLOCK_SUBINPROGRESS \<Rightarrow> (None, s)
      | TBLOCK_ABORT \<Rightarrow> (None, s) | TBLOCK_SUBABORT \<Rightarrow> (None, s)
      | _ \<Rightarrow> raise (ERROR ''StartTransactionCommand: unexpected state'') s)"

text \<open>The loop that commits subtransactions while their block state is \<open>b\<close>.\<close>

function commit_while :: "xact_services \<Rightarrow> TBlockState \<Rightarrow> xact_backend \<Rightarrow> outcome" where
  "commit_while e b s =
     (case CommitSubTransaction e s of
        (Some err, s) \<Rightarrow> (Some err, s)
      | (None, s) \<Rightarrow> if blockState (cur s) = b then commit_while e b s else (None, s))"
  by pat_completeness auto
termination
  by (relation "measure (\<lambda>(_, _, s). depth s)") (auto dest: CommitSub_shorter [OF sym])

declare commit_while.simps [simp del]

text \<open>A rolled back savepoint is defined again, with its name.\<close>

definition restart_savepoint :: "xact_services \<Rightarrow> bool \<Rightarrow> xact_backend \<Rightarrow> outcome" where
  "restart_savepoint e live s =
     (let name = savepoint (cur s); level = savepointLevel (cur s)
      in steps [assign (upd_cur (\<lambda>x. x\<lparr>savepoint := None\<rparr>)),
           only live (AbortSubTransaction e),
           CleanupSubTransaction e,
           DefineSavepoint e None,
           assign (upd_cur (\<lambda>x. x\<lparr>savepoint := name, savepointLevel := level\<rparr>)),
           StartSubTransaction e,
           set_block TBLOCK_SUBINPROGRESS] s)"

function CommitTransactionCommand :: "xact_services \<Rightarrow> xact_backend \<Rightarrow> outcome" where
  "CommitTransactionCommand e s =
     (case blockState (cur s) of
        TBLOCK_DEFAULT \<Rightarrow> unexpected ''CommitTransactionCommand'' s
      | TBLOCK_STARTED \<Rightarrow> steps [CommitTransaction e, set_block TBLOCK_DEFAULT] s
      | TBLOCK_BEGIN \<Rightarrow> set_block TBLOCK_INPROGRESS s
      | TBLOCK_INPROGRESS \<Rightarrow> CommandCounterIncrement e s
      | TBLOCK_SUBINPROGRESS \<Rightarrow> CommandCounterIncrement e s
      | TBLOCK_END \<Rightarrow> steps [CommitTransaction e, set_block TBLOCK_DEFAULT] s
      | TBLOCK_ABORT \<Rightarrow> (None, s)
      | TBLOCK_SUBABORT \<Rightarrow> (None, s)
      | TBLOCK_ABORT_END \<Rightarrow> steps [CleanupTransaction e, set_block TBLOCK_DEFAULT] s
      | TBLOCK_ABORT_PENDING \<Rightarrow>
          steps [AbortTransaction e, CleanupTransaction e, set_block TBLOCK_DEFAULT] s
      | TBLOCK_PREPARE \<Rightarrow> steps [PrepareTransaction e, set_block TBLOCK_DEFAULT] s
      | TBLOCK_SUBBEGIN \<Rightarrow> steps [StartSubTransaction e, set_block TBLOCK_SUBINPROGRESS] s
      | TBLOCK_SUBRELEASE \<Rightarrow> commit_while e TBLOCK_SUBRELEASE s
      | TBLOCK_SUBCOMMIT \<Rightarrow> steps [commit_while e TBLOCK_SUBCOMMIT,
          (\<lambda>s. if blockState (cur s) = TBLOCK_END
               then steps [CommitTransaction e, set_block TBLOCK_DEFAULT] s
               else if blockState (cur s) = TBLOCK_PREPARE
               then steps [PrepareTransaction e, set_block TBLOCK_DEFAULT] s
               else raise (ERROR ''CommitTransactionCommand: unexpected state'') s)] s
      | TBLOCK_SUBABORT_END \<Rightarrow>
          (case CleanupSubTransaction e s of
             (Some err, s) \<Rightarrow> (Some err, s) | (None, s) \<Rightarrow> CommitTransactionCommand e s)
      | TBLOCK_SUBABORT_PENDING \<Rightarrow>
          (case steps [AbortSubTransaction e, CleanupSubTransaction e] s of
             (Some err, s) \<Rightarrow> (Some err, s) | (None, s) \<Rightarrow> CommitTransactionCommand e s)
      | TBLOCK_SUBRESTART \<Rightarrow> restart_savepoint e True s
      | TBLOCK_SUBABORT_RESTART \<Rightarrow> restart_savepoint e False s)"
  by pat_completeness auto
termination
  by (relation "measure (\<lambda>(_, s). depth s)")
    (auto dest: CleanupSub_shorter [OF sym] AbortCleanupSub_shorter [OF sym])

declare CommitTransactionCommand.simps [simp del]

subsection \<open>After an error\<close>

definition abort_idle :: "xact_services \<Rightarrow> xact_backend \<Rightarrow> outcome" where
  "abort_idle e s = (if xstate (cur s) = TRANS_DEFAULT then (None, s)
     else steps [(\<lambda>s. only (xstate (cur s) = TRANS_START) (set_xstate TRANS_INPROGRESS) s),
            AbortTransaction e, CleanupTransaction e] s)"

definition abort_to_idle :: "xact_services \<Rightarrow> xact_backend \<Rightarrow> outcome" where
  "abort_to_idle e = steps [AbortTransaction e, CleanupTransaction e, set_block TBLOCK_DEFAULT]"

definition cleanup_to_idle :: "xact_services \<Rightarrow> xact_backend \<Rightarrow> outcome" where
  "cleanup_to_idle e = steps [CleanupTransaction e, set_block TBLOCK_DEFAULT]"

function AbortCurrentTransaction :: "xact_services \<Rightarrow> xact_backend \<Rightarrow> outcome" where
  "AbortCurrentTransaction e s =
     (let pop_live = (case steps [AbortSubTransaction e, CleanupSubTransaction e] s of
             (Some err, s) \<Rightarrow> (Some err, s) | (None, s) \<Rightarrow> AbortCurrentTransaction e s);
          pop_dead = (case CleanupSubTransaction e s of
             (Some err, s) \<Rightarrow> (Some err, s) | (None, s) \<Rightarrow> AbortCurrentTransaction e s)
      in case blockState (cur s) of
        TBLOCK_DEFAULT \<Rightarrow> abort_idle e s
      | TBLOCK_STARTED \<Rightarrow> abort_to_idle e s
      | TBLOCK_BEGIN \<Rightarrow> abort_to_idle e s
      | TBLOCK_INPROGRESS \<Rightarrow> steps [AbortTransaction e, set_block TBLOCK_ABORT] s
      | TBLOCK_END \<Rightarrow> abort_to_idle e s
      | TBLOCK_ABORT \<Rightarrow> (None, s)
      | TBLOCK_SUBABORT \<Rightarrow> (None, s)
      | TBLOCK_ABORT_END \<Rightarrow> cleanup_to_idle e s
      | TBLOCK_ABORT_PENDING \<Rightarrow> abort_to_idle e s
      | TBLOCK_PREPARE \<Rightarrow> abort_to_idle e s
      | TBLOCK_SUBINPROGRESS \<Rightarrow> steps [AbortSubTransaction e, set_block TBLOCK_SUBABORT] s
      | TBLOCK_SUBBEGIN \<Rightarrow> pop_live
      | TBLOCK_SUBRELEASE \<Rightarrow> pop_live
      | TBLOCK_SUBCOMMIT \<Rightarrow> pop_live
      | TBLOCK_SUBABORT_PENDING \<Rightarrow> pop_live
      | TBLOCK_SUBRESTART \<Rightarrow> pop_live
      | TBLOCK_SUBABORT_END \<Rightarrow> pop_dead
      | TBLOCK_SUBABORT_RESTART \<Rightarrow> pop_dead)"
  by pat_completeness auto
termination
  by (relation "measure (\<lambda>(_, s). depth s)")
    (auto dest: CleanupSub_shorter [OF sym] AbortCleanupSub_shorter [OF sym])

declare AbortCurrentTransaction.simps [simp del]

text \<open>One round of the loop of \<open>AbortOutOfAnyTransaction\<close>, which goes on until the block state is the default.\<close>

definition abort_level :: "xact_services \<Rightarrow> xact_backend \<Rightarrow> outcome" where
  "abort_level e s =
     (case blockState (cur s) of
        TBLOCK_DEFAULT \<Rightarrow> abort_idle e s
      | TBLOCK_STARTED \<Rightarrow> abort_to_idle e s | TBLOCK_BEGIN \<Rightarrow> abort_to_idle e s
      | TBLOCK_INPROGRESS \<Rightarrow> abort_to_idle e s | TBLOCK_END \<Rightarrow> abort_to_idle e s
      | TBLOCK_ABORT_PENDING \<Rightarrow> abort_to_idle e s | TBLOCK_PREPARE \<Rightarrow> abort_to_idle e s
      | TBLOCK_ABORT \<Rightarrow> cleanup_to_idle e s | TBLOCK_ABORT_END \<Rightarrow> cleanup_to_idle e s
      | TBLOCK_SUBABORT \<Rightarrow> CleanupSubTransaction e s
      | TBLOCK_SUBABORT_END \<Rightarrow> CleanupSubTransaction e s
      | TBLOCK_SUBABORT_RESTART \<Rightarrow> CleanupSubTransaction e s
      | _ \<Rightarrow> steps [AbortSubTransaction e, CleanupSubTransaction e] s)"

partial_function (option) AbortOutOfAnyTransaction :: "xact_services \<Rightarrow> xact_backend \<Rightarrow> outcome option" where
  "AbortOutOfAnyTransaction e s =
     (case abort_level e s of
        (Some err, s) \<Rightarrow> Some (Some err, s)
      | (None, s) \<Rightarrow> if blockState (cur s) \<noteq> TBLOCK_DEFAULT then AbortOutOfAnyTransaction e s else Some (None, s))"

subsection \<open>Subtransactions of the server itself\<close>

definition BeginInternalSubTransaction :: "xact_services \<Rightarrow> string option \<Rightarrow> xact_backend \<Rightarrow> outcome" where
  "BeginInternalSubTransaction e name = steps [
     (\<lambda>s. if blockState (cur s) \<in> {TBLOCK_STARTED, TBLOCK_INPROGRESS, TBLOCK_END, TBLOCK_PREPARE, TBLOCK_SUBINPROGRESS}
          then push_named e name s else unexpected ''BeginInternalSubTransaction'' s),
     CommitTransactionCommand e,
     StartTransactionCommand e]"

definition ReleaseCurrentSubTransaction :: "xact_services \<Rightarrow> xact_backend \<Rightarrow> outcome" where
  "ReleaseCurrentSubTransaction e s =
     (if blockState (cur s) \<noteq> TBLOCK_SUBINPROGRESS
      then raise (ERROR ''ReleaseCurrentSubTransaction: unexpected state'') s
      else steps [assert_state (\<lambda>s. xstate (cur s) = TRANS_INPROGRESS),
             CommitSubTransaction e,
             assert_state (\<lambda>s. xstate (cur s) = TRANS_INPROGRESS)] s)"

definition RollbackAndReleaseCurrentSubTransaction :: "xact_services \<Rightarrow> xact_backend \<Rightarrow> outcome" where
  "RollbackAndReleaseCurrentSubTransaction e s =
     (if blockState (cur s) \<notin> {TBLOCK_SUBINPROGRESS, TBLOCK_SUBABORT}
      then unexpected ''RollbackAndReleaseCurrentSubTransaction'' s
      else steps [only (blockState (cur s) = TBLOCK_SUBINPROGRESS) (AbortSubTransaction e),
             CleanupSubTransaction e,
             assert_state (\<lambda>s. blockState (cur s) \<in> {TBLOCK_SUBINPROGRESS, TBLOCK_INPROGRESS, TBLOCK_STARTED})] s)"

subsection \<open>Commands that need a block, or must not be in one\<close>

definition PreventTransactionChain :: "bool \<Rightarrow> string \<Rightarrow> xact_backend \<Rightarrow> outcome" where
  "PreventTransactionChain isTopLevel stmtType s =
     (if IsTransactionBlock s then raise (ERROR (stmtType @ '' cannot run inside a transaction block'')) s
      else if IsSubTransaction s then raise (ERROR (stmtType @ '' cannot run inside a subtransaction'')) s
      else if \<not> isTopLevel
      then raise (ERROR (stmtType @ '' cannot be executed from a function or multi-command string'')) s
      else if blockState (cur s) \<noteq> TBLOCK_DEFAULT \<and> blockState (cur s) \<noteq> TBLOCK_STARTED
      then raise (FATAL ''cannot prevent transaction chain'') s
      else (None, s))"

definition CheckTransactionChain :: "bool \<Rightarrow> bool \<Rightarrow> string \<Rightarrow> xact_backend \<Rightarrow> outcome" where
  "CheckTransactionChain isTopLevel throwError stmtType s =
     (let m = stmtType @ '' can only be used in transaction blocks''
      in if IsTransactionBlock s then (None, s)
         else if IsSubTransaction s then (None, s)
         else if \<not> isTopLevel then (None, s)
         else if throwError then raise (ERROR m) s else warn m s)"

definition WarnNoTransactionChain :: "bool \<Rightarrow> string \<Rightarrow> xact_backend \<Rightarrow> outcome" where
  "WarnNoTransactionChain isTopLevel = CheckTransactionChain isTopLevel False"

definition RequireTransactionChain :: "bool \<Rightarrow> string \<Rightarrow> xact_backend \<Rightarrow> outcome" where
  "RequireTransactionChain isTopLevel = CheckTransactionChain isTopLevel True"

definition IsInTransactionChain :: "bool \<Rightarrow> xact_backend \<Rightarrow> bool" where
  "IsInTransactionChain isTopLevel s \<longleftrightarrow>
     IsTransactionBlock s \<or> IsSubTransaction s \<or> \<not> isTopLevel \<or>
     blockState (cur s) \<noteq> TBLOCK_DEFAULT \<and> blockState (cur s) \<noteq> TBLOCK_STARTED"

subsection \<open>The traffic cop\<close>

text \<open>
  A simple query of one statement. Of BEGIN the options are kept, each set by a call that may
  fail; any other statement is a function of the state, which a theorem restricts: it stands for
  the whole run of the statement's portal. \<open>report\<close> is the return value of the functions that may
  turn a commit into a rollback; the completion tag is an event.
\<close>

datatype statement =
    TRANS_STMT_BEGIN "string list"
  | TRANS_STMT_COMMIT
  | TRANS_STMT_PREPARE string
  | TRANS_STMT_COMMIT_PREPARED string
  | TRANS_STMT_ROLLBACK_PREPARED string
  | TRANS_STMT_ROLLBACK
  | TRANS_STMT_SAVEPOINT string
  | TRANS_STMT_RELEASE string
  | TRANS_STMT_ROLLBACK_TO string
  | OtherStmt "xact_backend \<Rightarrow> outcome"

definition IsTransactionExitStmt :: "statement \<Rightarrow> bool" where
  "IsTransactionExitStmt stmt = (case stmt of
     TRANS_STMT_COMMIT \<Rightarrow> True | TRANS_STMT_PREPARE gid \<Rightarrow> True | TRANS_STMT_ROLLBACK \<Rightarrow> True
   | TRANS_STMT_ROLLBACK_TO name \<Rightarrow> True | _ \<Rightarrow> False)"

definition report :: "bool \<times> outcome \<Rightarrow> outcome" where
  "report r = (case r of
     (False, None, s) \<Rightarrow> warn ''completionTag ROLLBACK'' s | (_, out) \<Rightarrow> out)"

definition PreventCommandDuringRecovery :: "xact_services \<Rightarrow> xact_backend \<Rightarrow> outcome" where
  "PreventCommandDuringRecovery e =
     only (RecoveryInProgress (serverMode (xmode e))) (raise (ERROR ''cannot execute during recovery''))"

definition ProcessTransactionStmt :: "xact_services \<Rightarrow> bool \<Rightarrow> statement \<Rightarrow> xact_backend \<Rightarrow> outcome" where
  "ProcessTransactionStmt e isTopLevel stmt =
     (case stmt of
        TRANS_STMT_BEGIN opts \<Rightarrow> steps [BeginTransactionBlock, calls e (map (\<lambda>opt. Call ''SetPGVariable'' []) opts)]
      | TRANS_STMT_COMMIT \<Rightarrow> (\<lambda>s. report (EndTransactionBlock s))
      | TRANS_STMT_PREPARE gid \<Rightarrow> steps [PreventCommandDuringRecovery e,
          (\<lambda>s. report (PrepareTransactionBlock e gid s))]
      | TRANS_STMT_COMMIT_PREPARED gid \<Rightarrow> steps [PreventTransactionChain isTopLevel ''COMMIT PREPARED'',
          PreventCommandDuringRecovery e, call e (Call ''FinishPreparedTransaction'' [1])]
      | TRANS_STMT_ROLLBACK_PREPARED gid \<Rightarrow> steps [PreventTransactionChain isTopLevel ''ROLLBACK PREPARED'',
          PreventCommandDuringRecovery e, call e (Call ''FinishPreparedTransaction'' [0])]
      | TRANS_STMT_ROLLBACK \<Rightarrow> UserAbortTransactionBlock
      | TRANS_STMT_SAVEPOINT name \<Rightarrow> steps [RequireTransactionChain isTopLevel ''SAVEPOINT'',
          DefineSavepoint e (Some name)]
      | TRANS_STMT_RELEASE name \<Rightarrow> steps [RequireTransactionChain isTopLevel ''RELEASE SAVEPOINT'',
          ReleaseSavepoint name]
      | TRANS_STMT_ROLLBACK_TO name \<Rightarrow> steps [RequireTransactionChain isTopLevel ''ROLLBACK TO SAVEPOINT'',
          RollbackToSavepoint name]
      | OtherStmt body \<Rightarrow> body)"

text \<open>
  \<open>xact_started\<close> is false when a query arrives: the first \<open>start_xact_command\<close> starts the
  command, the second one has nothing to do, and so has the last \<open>finish_xact_command\<close>.
\<close>

definition start_xact_command :: "xact_services \<Rightarrow> xact_backend \<Rightarrow> outcome" where
  "start_xact_command e = steps [StartTransactionCommand e, call e (Call ''enable_timeout_after'' [])]"

definition finish_xact_command :: "xact_services \<Rightarrow> xact_backend \<Rightarrow> outcome" where
  "finish_xact_command e = steps [call e (Call ''disable_timeout'' []), CommitTransactionCommand e]"

text \<open>
  \<open>exec_simple_query\<close> in three parts. Before the statement acts: the start of the command, parsing,
  the refusal of most statements in a failed block, the checks for a cancel request, analysis and
  planning (the snapshot that they may need is part of the call), the portal and, for a
  transaction statement, \<open>PortalRun\<close> down to \<open>ProcessUtility\<close>. Then the statement itself with
  the end of the command, and at last the messages that report it.
\<close>

definition is_TransactionStmt :: "statement \<Rightarrow> bool" where
  "is_TransactionStmt stmt = (case stmt of OtherStmt body \<Rightarrow> False | _ \<Rightarrow> True)"

definition exec_query_start :: "xact_services \<Rightarrow> statement \<Rightarrow> xact_backend \<Rightarrow> outcome" where
  "exec_query_start e stmt = steps [
     call e (Call ''pgstat_report_activity'' []),
     start_xact_command e,
     calls e [Call ''drop_unnamed_stmt'' [], Call ''pg_parse_query'' [], Call ''check_log_statement'' []],
     calls e [Call ''CreateCommandTag'' [], Call ''set_ps_display'' [], Call ''BeginCommand'' []],
     (\<lambda>s. only (IsAbortedTransactionBlockState s \<and> \<not> IsTransactionExitStmt stmt)
        (raise (ERROR ''current transaction is aborted, commands ignored until end of transaction block'')) s),
     call e (Call ''CHECK_FOR_INTERRUPTS'' []),
     calls e [Call ''pg_analyze_and_rewrite'' [], Call ''pg_plan_queries'' []],
     call e (Call ''CHECK_FOR_INTERRUPTS'' []),
     calls e [Call ''CreatePortal'' [], Call ''PortalDefineQuery'' [], Call ''PortalStart'' [],
       Call ''PortalSetResultFormat'' [], Call ''CreateDestReceiver'' []],
     only (is_TransactionStmt stmt) (calls e [Call ''PortalRun'' [], Call ''CHECK_FOR_INTERRUPTS'' [],
       Call ''check_xact_readonly'' []])]"

definition exec_query_run :: "xact_services \<Rightarrow> statement \<Rightarrow> xact_backend \<Rightarrow> outcome" where
  "exec_query_run e stmt = steps [
     ProcessTransactionStmt e True stmt,
     calls e [Call ''MarkPortalDone'' [], Call ''rDestroy'' [], Call ''PortalDrop'' []],
     finish_xact_command e]"

definition exec_query_end :: "xact_services \<Rightarrow> xact_backend \<Rightarrow> outcome" where
  "exec_query_end e = calls e [Call ''EndCommand'' [], Call ''check_log_duration'' []]"

definition exec_simple_query :: "xact_services \<Rightarrow> statement \<Rightarrow> xact_backend \<Rightarrow> outcome" where
  "exec_simple_query e stmt = steps [exec_query_start e stmt, exec_query_run e stmt, exec_query_end e]"

text \<open>
  The main loop: after an error the handler at its head reports it and aborts the current
  transaction. An error in the handler enters it again, until the stack of errors is full. The
  clean-up of a walsender and of a replication slot, which few backends have, counts as a call.
\<close>

definition handle_error :: "xact_services \<Rightarrow> xact_backend \<Rightarrow> outcome" where
  "handle_error e = steps [
     calls e [Call ''disable_all_timeouts'' [], Call ''DisableNotifyInterrupt'' [],
       Call ''DisableCatchupInterrupt'' [], Call ''pq_comm_reset'' [], Call ''EmitErrorReport'' []],
     AbortCurrentTransaction e,
     calls e [Call ''WalSndErrorCleanup'' [], Call ''ReplicationSlotRelease'' [], Call ''FlushErrorState'' []]]"

definition ERRORDATA_STACK_SIZE :: nat where "ERRORDATA_STACK_SIZE = 5"

fun error_handler :: "nat \<Rightarrow> xact_services \<Rightarrow> xact_backend \<Rightarrow> outcome" where
  "error_handler 0 e s = (Some (PANIC ''ERRORDATA_STACK_SIZE exceeded''), s)"
| "error_handler (Suc k) e s = (case handle_error e s of
     (Some (ERROR m), s) \<Rightarrow> error_handler k e s | r \<Rightarrow> r)"

text \<open>
  The first component says whether the statement failed. Errors worse than \<open>ERROR\<close> end the
  process.
\<close>

definition PostgresMain_command :: "xact_services \<Rightarrow> statement \<Rightarrow> xact_backend \<Rightarrow> bool \<times> outcome" where
  "PostgresMain_command e stmt s =
     (case exec_simple_query e stmt s of
        (None, s) \<Rightarrow> (False, None, s)
      | (Some (ERROR m), s) \<Rightarrow> (True, error_handler ERRORDATA_STACK_SIZE e s)
      | (Some err, s) \<Rightarrow> (True, Some err, s))"

end
