(* ===== verification/XactSession.thy ===== *)
theory XactSession
  imports XactBlock
begin

section \<open>Sessions refine a stack of savepoints\<close>

text \<open>
  For a client a session is idle, in a transaction block or in a failed one, with a list of
  savepoint names. Here every command of the traffic cop is proved to refine the command on
  this abstract state, whatever calls of other modules raise errors on the way, and no reachable
  state makes a function of xact.c raise a fatal error.
\<close>

subsection \<open>Errors that are not fatal\<close>

definition only_errors :: "xact_services \<Rightarrow> bool" where
  "only_errors e \<longleftrightarrow> (\<forall>t m. raises e t \<noteq> Some (FATAL m))"

definition calm :: "(xact_backend \<Rightarrow> outcome) \<Rightarrow> bool" where
  "calm f \<longleftrightarrow> (\<forall>s m. fst (f s) \<noteq> Some (FATAL m))"

named_theorems calm \<open>functions that raise no fatal error\<close>

lemma calm_Nil [calm]: "calm (steps [])" "calm (Pair None)"
  by (simp_all add: calm_def)

lemma calm_step [calm]:
  assumes "calm f" and "calm (steps fs)"
  shows "calm (steps (f # fs))"
  unfolding calm_def
proof (intro allI)
  fix s m
  obtain r s' where f: "f s = (r, s')" by (cases "f s")
  show "fst (steps (f # fs) s) \<noteq> Some (FATAL m)"
    using assms(1)[unfolded calm_def, rule_format, of s m] assms(2)[unfolded calm_def, rule_format, of s' m]
    by (cases r) (simp_all add: steps.simps(2) f)
qed

lemma calm_at: "calm f \<Longrightarrow> fst (f s) \<noteq> Some (FATAL m)"
  by (simp add: calm_def)

lemma calm_pointwise: "(\<And>t. calm (g t)) \<Longrightarrow> calm (\<lambda>s. g (c s) s)"
  by (simp add: calm_def)

lemma calm_call [calm]:
  assumes e: "only_errors e"
  shows "calm (call e c)" "calm (\<lambda>s. call e (c' s) s)" "calm (calls e cs)" "calm (\<lambda>s. calls e (cs' s) s)"
proof -
  show c: "calm (call e c)" for c using e by (simp add: calm_def call_def Let_def only_errors_def)
  then show "calm (\<lambda>s. call e (c' s) s)" by (rule calm_pointwise)
  show *: "calm (calls e cs)" for cs unfolding calls_def by (induction cs) (simp_all add: calm c)
  then show "calm (\<lambda>s. calls e (cs' s) s)" by (rule calm_pointwise)
qed

lemma calm_basic [calm]:
  "calm (assign f)" "calm (warn m)" "calm (expect_state fn ok)" "calm need_parent" "calm (set_xstate t)"
  "calm (set_block b)" "calm (raise (ERROR m))" "calm (\<lambda>s. raise (ERROR m) s)"
  by (simp_all add: calm_def assign_def warn_def expect_state_def need_parent_def set_xstate_def set_block_def raise_def
      null_pointer_def)

lemma calm_only [calm]: "calm f \<Longrightarrow> calm (only b f)" "(\<And>t. calm (g t)) \<Longrightarrow> calm (\<lambda>s. only (c s) (g s) s)"
  by (simp_all add: calm_def only_def)

lemma calm_critical [calm]: "calm (in_critical h)"
  unfolding calm_def in_critical_def by (simp split: prod.split option.split pg_error.split)

lemma calm_CCI [calm]: "only_errors e \<Longrightarrow> calm (CommandCounterIncrement e)"
  unfolding CommandCounterIncrement_def calm_def
  by (intro allI) (simp add: raise_def, simp only: calm_at calm not_False_eq_True simp_thms)

lemma calm_memory [calm]:
  assumes e: "only_errors e"
  shows "calm (AtStart_Memory e)" "calm (AtStart_ResourceOwner e)" "calm (AtSubStart_Memory e)"
    "calm (AtSubStart_ResourceOwner e)" "calm (AtCommit_Memory e)" "calm (AtAbort_Memory e)"
    "calm (AtSubAbort_Memory e)" "calm (AtCleanup_Memory e)" "calm (AtSubCleanup_Memory e)"
    "calm (AtEOXact_GUC e b n)" "calm (\<lambda>s. AtEOXact_GUC e b (k s) s)" "calm (AtSubCommit_Memory e)"
proof -
  show *: "calm (AtEOXact_GUC e b n)" for n by (simp add: AtEOXact_GUC_def calm e)
  then show "calm (\<lambda>s. AtEOXact_GUC e b (k s) s)" by (rule calm_pointwise)
  show "calm (AtAbort_Memory e)"
    unfolding calm_def AtAbort_Memory_def using calm_at [OF calm_call(1) [OF e]] by blast
qed (simp_all add: calm e AtStart_Memory_def AtStart_ResourceOwner_def AtSubStart_Memory_def
      AtSubStart_ResourceOwner_def AtCommit_Memory_def AtSubAbort_Memory_def AtCleanup_Memory_def
      AtSubCleanup_Memory_def AtSubCommit_Memory_def)

text \<open>The functions of the other theories that return an error.\<close>

lemma log_fetch_calm: "TransactionLogFetch bs x b \<noteq> Inl (FATAL m)"
  by (simp add: TransactionLogFetch_def TransactionIdGetStatus_def SimpleLruReadPage_def Let_def
      split: sum.split option.split prod.split)

lemma get_parent_calm: "SubTransGetParent bs x st \<noteq> Inl (FATAL m)"
  by (auto simp: SubTransGetParent_def SubTransReadPage_def Let_def split: sum.splits option.splits)

lemma did_commit_calm: "TransactionIdDidCommit bs x b \<noteq> Some (Inl (FATAL m))"
proof -
  have "TransactionIdDidCommit bs x b = Some r \<Longrightarrow> r \<noteq> Inl (FATAL m)" for r
    by (rule TransactionIdDidCommit.raw_induct [of "\<lambda>_ _ _ r. r \<noteq> Inl (FATAL m)"])
      (auto simp: log_fetch_calm get_parent_calm split: sum.splits if_splits)
  then show ?thesis by blast
qed

lemma new_xid_calm: "GetNewTransactionId bs mode other isSub v \<noteq> Inl (FATAL m)"
  by (auto simp: GetNewTransactionId_def xid_limit_check_def Let_def split: sum.splits if_splits prod.splits)

lemma set_parent_calm: "SubTransSetParent bs x p st \<noteq> Inl (FATAL m)"
  by (auto simp: SubTransSetParent_def SubTransReadPage_def Let_def split: sum.splits option.splits if_splits)

lemma assign_one_calm: "assign_one c others i a \<noteq> Inl (FATAL m)"
  using new_xid_calm set_parent_calm
  by (auto simp: assign_one_def Let_def split: sum.splits prod.splits if_splits)

lemma foldM_calm: "(\<And>x r. f x r \<noteq> Inl err) \<Longrightarrow> foldM f xs r \<noteq> Inl err"
  by (induction xs arbitrary: r) (auto split: sum.splits)

lemma current_xid_calm: "GetCurrentTransactionId c others a \<noteq> Inl (FATAL m)"
proof -
  have "AssignTransactionId c others i b \<noteq> Inl (FATAL m)" for i b
    using foldM_calm [of "assign_one c others" "FATAL m", OF assign_one_calm] assign_one_calm
    by (auto simp: AssignTransactionId_def Let_def split: sum.split)
  then show ?thesis by (auto simp: GetCurrentTransactionId_def split: sum.split)
qed

lemma calm_children [calm]: "calm subcommit_children"
  by (auto simp: calm_def subcommit_children_def null_pointer_def AtSubCommit_childXids_def Let_def
      split: list.splits sum.splits if_splits)

lemma calm_records [calm]:
  assumes e: "only_errors e"
  shows "calm (RecordTransactionCommit e)" "calm (RecordTransactionAbort e b)" "calm (end_in_procarray e)"
    "calm (fire_deferred e b)"
proof -
  have check: "calm (check_not_committed e xid)" for xid
    using did_commit_calm by (auto simp: calm_def check_not_committed_def raise_def
        split: option.split sum.split prod.split bool.split)
  have flush: "calm (flush_and_commit e xid children False f)" for xid children f
    by (simp add: flush_and_commit_def calm e only_def [abs_def])
  show "calm (end_in_procarray e)" by (simp add: end_in_procarray_def calm e)
  show "calm (fire_deferred e b)" unfolding fire_deferred_def by (rule calm_call(4) [OF e])
  show "calm (RecordTransactionCommit e)"
    unfolding calm_def RecordTransactionCommit_def Let_def
    by (intro allI) (simp add: raise_def calm_at calm e flush)
  show "calm (RecordTransactionAbort e b)"
    unfolding calm_def RecordTransactionAbort_def Let_def reset_last_rec_def
    by (intro allI) (simp add: calm_at calm e check)
qed

subsection \<open>Steps on views\<close>

text \<open>
  \<open>gives f v w E\<close>: from a state with the view \<open>v\<close> the function \<open>f\<close> leads to one with the view \<open>w\<close>,
  or raises an error, which is not fatal, in a state whose view satisfies \<open>E\<close>. A quiet function
  has no effect on the view.
\<close>

definition gives ::
  "(xact_backend \<Rightarrow> outcome) \<Rightarrow> level_view list \<Rightarrow> level_view list \<Rightarrow> (level_view list \<Rightarrow> bool) \<Rightarrow> bool" where
  "gives f v w E \<longleftrightarrow> (\<forall>s. view s = v \<longrightarrow> (case f s of
     (None, s') \<Rightarrow> view s' = w | (Some err, s') \<Rightarrow> (\<forall>m. err \<noteq> FATAL m) \<and> E (view s')))"

definition quiet :: "(xact_backend \<Rightarrow> outcome) \<Rightarrow> bool" where
  "quiet f \<longleftrightarrow> frames f \<and> calm f"

lemma gives_quiet: "quiet f \<Longrightarrow> E v \<Longrightarrow> gives f v v E"
  unfolding quiet_def gives_def frames_def calm_def by (auto split: prod.split option.split) (metis fst_conv snd_conv)+

lemma gives_cong: "(\<And>s. view s = v \<Longrightarrow> f s = g s) \<Longrightarrow> gives g v w E \<Longrightarrow> gives f v w E"
  by (simp add: gives_def)

lemma gives_raise: "E v \<Longrightarrow> gives (raise (ERROR m)) v w E"
  by (simp add: gives_def raise_def)

lemma gives_assign: "(\<And>s. view s = v \<Longrightarrow> view (g s) = w) \<Longrightarrow> gives (assign g) v w E"
  by (simp add: gives_def assign_def)

lemma gives_step:
  assumes "gives f v w E" and "gives (steps fs) w x E"
  shows "gives (steps (f # fs)) v x E"
  unfolding gives_def
proof (intro allI impI)
  fix s assume "view s = v"
  then have f: "case f s of (None, s') \<Rightarrow> view s' = w | (Some err, s') \<Rightarrow> (\<forall>m. err \<noteq> FATAL m) \<and> E (view s')"
    using assms(1) by (simp add: gives_def)
  obtain r s' where r: "f s = (r, s')" by (cases "f s")
  show "case steps (f # fs) s of (None, s') \<Rightarrow> view s' = x | (Some err, s') \<Rightarrow> (\<forall>m. err \<noteq> FATAL m) \<and> E (view s')"
  proof (cases r)
    case None
    then have "view s' = w" using f r by simp
    then show ?thesis using assms(2) None by (simp add: gives_def steps.simps(2) r)
  qed (use f r in \<open>simp add: steps.simps(2)\<close>)
qed

lemma gives_Nil: "gives (steps []) v v E"
  by (simp add: gives_def)

lemma gives_id: "gives (Pair None) v v E"
  by (simp add: gives_def)

text \<open>The rules of a sequence, the rest of the sequence first.\<close>

lemma gives_quiet_step: "gives (steps fs) v x E \<Longrightarrow> quiet f \<Longrightarrow> E v \<Longrightarrow> gives (steps (f # fs)) v x E"
  by (rule gives_step [OF gives_quiet])

lemma view_ConsD: "view s = a # v \<Longrightarrow> \<exists>c cs. trans s = c # cs \<and> level_view c = a \<and> map level_view cs = v"
  by (cases "trans s") (auto simp: view_def)

lemma gives_upd: "(\<And>c. level_view c = a \<Longrightarrow> level_view (g c) = a') \<Longrightarrow> gives (assign (upd_cur g)) (a # v) (a' # v) E"
  by (rule gives_assign) (auto simp: view_def dest!: view_ConsD)

lemma gives_xstate: "gives (set_xstate t) ((x, b, n, l, d) # v) ((t, b, n, l, d) # v) E"
  unfolding set_xstate_def by (rule gives_upd) (simp add: level_view_def)

lemma gives_block: "gives (set_block t) ((x, b, n, l, d) # v) ((x, t, n, l, d) # v) E"
  unfolding set_block_def by (rule gives_upd) (simp add: level_view_def)

lemma gives_reset: "gives (assign (upd_cur reset_top)) ((x, b, n, l, d) # v) ((x, b, n, l, 0) # v) E"
  by (rule gives_upd) (simp add: level_view_def reset_top_def)

lemmas gives_rules = gives_step [OF gives_xstate] gives_step [OF gives_block] gives_step [OF gives_reset] gives_quiet_step

lemma cur_of_view: "view s = (x, b, n, l, d) # v \<Longrightarrow>
    xstate (cur s) = x \<and> blockState (cur s) = b \<and> savepoint (cur s) = n \<and> savepointLevel (cur s) = l \<and>
    nestingLevel (cur s) = d"
  by (auto simp: cur_def level_view_def dest!: view_ConsD)

lemma steps_one: "steps [f] = f"
  by (rule ext) simp

lemma view_clear [simp]: "view (clear_myproc s) = view s"
  by (simp add: clear_myproc_def)

subsection \<open>What each function does to the view\<close>

lemma gives_skip: "(\<And>s. view s = v \<Longrightarrow> \<not> c s) \<Longrightarrow> gives (\<lambda>s. only (c s) (g s) s) v v E"
  by (simp add: gives_def only_def)

lemma gives_pop: "gives PopTransaction ((TRANS_DEFAULT, b, n, l, d) # a # v) (a # v) E"
proof (rule gives_cong)
  fix s assume "view s = (TRANS_DEFAULT, b, n, l, d) # a # v"
  then show "PopTransaction s = assign (\<lambda>s. set_trans (tl (trans s)) s) s"
    using cur_of_view by (auto simp: PopTransaction_def steps.simps(2) expect_state_def assign_def dest!: view_ConsD)
next
  show "gives (assign (\<lambda>s. set_trans (tl (trans s)) s)) ((TRANS_DEFAULT, b, n, l, d) # a # v) (a # v) E"
    by (rule gives_assign) (auto dest!: view_ConsD)
qed

lemmas gives_all = gives_step [OF gives_pop] gives_rules
lemmas quiet_simps = quiet_def frames calm level_view_def

lemma gives_Commit:
  assumes e: "only_errors e" and "\<And>y. E ((y, b, n, l, d) # v)"
  shows "gives (CommitTransaction e) ((x, b, n, l, d) # v) ((TRANS_DEFAULT, b, n, l, 0) # v) E"
  unfolding CommitTransaction_def
  by ((rule gives_all)+, rule gives_Nil) (simp_all add: quiet_simps drop_owner_def assms)

lemma gives_Abort:
  assumes e: "only_errors e" and "E ((x, b, n, l, d) # v)" "E ((TRANS_ABORT, b, n, l, d) # v)"
  shows "gives (AbortTransaction e) ((x, b, n, l, d) # v) ((TRANS_ABORT, b, n, l, d) # v) E"
  unfolding AbortTransaction_def
  by ((rule gives_all)+, rule gives_Nil) (simp_all add: quiet_simps assms)

lemma gives_Cleanup:
  assumes e: "only_errors e" and "E ((TRANS_ABORT, b, n, l, d) # v)"
  shows "gives (CleanupTransaction e) ((TRANS_ABORT, b, n, l, d) # v) ((TRANS_DEFAULT, b, n, l, 0) # v) E"
  unfolding CleanupTransaction_def
  by (rule gives_step [OF gives_skip], use cur_of_view in blast, (rule gives_all)+, rule gives_Nil)
    (simp_all add: quiet_simps drop_owner_def assms)

lemma gives_Prepare:
  assumes e: "only_errors e" and "\<And>y. E ((y, b, n, l, d) # v)"
  shows "gives (PrepareTransaction e) ((x, b, n, l, d) # v) ((TRANS_DEFAULT, b, n, l, 0) # v) E"
proof -
  let ?v = "(x, b, n, l, d) # v" and ?w = "(TRANS_DEFAULT, b, n, l, 0) # v"
  have body: "gives (prepare_body e xid) ?v ?w E" for xid
    unfolding prepare_body_def
    by ((rule gives_all)+, rule gives_Nil) (simp_all add: quiet_simps drop_owner_def assms)
  have same: "view (s\<lparr>xv := a\<rparr>) = view s"
    if "GetCurrentTransactionId (xmode e) (other_backends e) (xv s) = Inr (xid, a)" for s xid a
    using that view_assigned [of "xmode e" "other_backends e" 0 "xv s" a]
    by (auto simp: GetCurrentTransactionId_def view_def trans_def split: if_splits sum.splits)
  show ?thesis
    unfolding gives_def
  proof (intro allI impI)
    fix s assume s: "view s = ?v"
    show "case PrepareTransaction e s of (None, s') \<Rightarrow> view s' = ?w
        | (Some err, s') \<Rightarrow> (\<forall>m. err \<noteq> FATAL m) \<and> E (view s')"
      using body [unfolded gives_def] same s current_xid_calm assms
      by (auto simp: PrepareTransaction_def raise_def split: sum.split)
  qed
qed

lemma gives_Start:
  assumes e: "only_errors e" and "E [(TRANS_DEFAULT, b, n, l, d)]" "\<And>y k. y \<noteq> TRANS_DEFAULT \<Longrightarrow> E [(y, b, n, l, k)]"
  shows "gives (StartTransaction e) [(TRANS_DEFAULT, b, n, l, d)] [(TRANS_INPROGRESS, b, n, l, 1)] E"
proof -
  have one: "gives (assign (\<lambda>s. set_trans [last (trans s)] s)) [a] [a] E" for a
    by (rule gives_assign) (auto dest!: view_ConsD)
  have nest: "gives (assign (upd_cur (\<lambda>x. x\<lparr>nestingLevel := 1, gucNestLevel := 1, childXids := [], maxChildXids := 0\<rparr>)))
      [(x, b, n, l, d)] [(x, b, n, l, 1)] E" for x d
    by (rule gives_upd) (simp add: level_view_def)
  have vars: "view (upd_cur (\<lambda>x. x\<lparr>transactionId := t, startedInRecovery := r, subTransactionId := i, didLogXid := f\<rparr>)
     (s\<lparr>XactReadOnly := r1, forceSyncCommit := r2, MyXactAccessedTempRel := r3, currentSubTransactionId := r4,
        currentCommandId := r5, currentCommandIdUsed := r6, xv := (xv s)\<lparr>unreportedXids := []\<rparr>\<rparr>)) = view s"
    for t r i f s r1 r2 r3 r4 r5 r6
    by (auto simp: view_def trans_def upd_cur_def set_trans_def level_view_def split: list.split)
  show ?thesis
    unfolding StartTransaction_def
    by (rule gives_step [OF one], (rule gives_step [OF nest] gives_all)+, rule gives_Nil)
      (simp_all add: quiet_simps vars assms)
qed

lemma gives_StartSub:
  assumes e: "only_errors e" and "\<And>y. E ((y, b, n, l, d) # v)"
  shows "gives (StartSubTransaction e) ((x, b, n, l, d) # v) ((TRANS_INPROGRESS, b, n, l, d) # v) E"
  unfolding StartSubTransaction_def
  by ((rule gives_all)+, rule gives_Nil) (simp_all add: quiet_simps assms)

lemma gives_CommitSub:
  assumes e: "only_errors e" and "\<And>y. E ((y, b, n, l, d) # a # v)"
  shows "gives (CommitSubTransaction e) ((x, b, n, l, d) # a # v) (a # v) E"
  unfolding CommitSubTransaction_def
  by ((rule gives_all)+, rule gives_Nil) (simp_all add: quiet_simps assms)

lemma gives_AbortSub:
  assumes e: "only_errors e" and "\<And>y. E ((y, b, n, l, d) # v)"
  shows "gives (AbortSubTransaction e) ((x, b, n, l, d) # v) ((TRANS_ABORT, b, n, l, d) # v) E"
  unfolding AbortSubTransaction_def
  by ((rule gives_all)+, rule gives_Nil) (simp_all add: quiet_simps AtSubAbort_childXids_def assms)

lemma gives_CleanupSub:
  assumes e: "only_errors e" and "E ((x, b, n, l, d) # a # v)"
  shows "gives (CleanupSubTransaction e) ((x, b, n, l, d) # a # v) (a # v) E"
  unfolding CleanupSubTransaction_def
  by ((rule gives_all)+, rule gives_Nil) (simp_all add: quiet_simps assms)

lemma gives_push:
  assumes e: "only_errors e" and "E ((x, b, n, l, d) # v)" "E ((TRANS_DEFAULT, TBLOCK_SUBBEGIN, None, l, d + 1) # (x, b, n, l, d) # v)"
  shows "gives (push_named e name) ((x, b, n, l, d) # v)
      ((TRANS_DEFAULT, TBLOCK_SUBBEGIN, name, l, d + 1) # (x, b, n, l, d) # v) E"
proof -
  let ?v = "(x, b, n, l, d) # v" and ?w = "\<lambda>name. (TRANS_DEFAULT, TBLOCK_SUBBEGIN, name, l, d + 1) # (x, b, n, l, d) # v"
  have count: "quiet (\<lambda>s. if currentSubTransactionId s + 1 = 0 then raise (ERROR m) s
      else assign (\<lambda>s. s\<lparr>currentSubTransactionId := currentSubTransactionId s + 1, GUCNestLevel := GUCNestLevel s + 1\<rparr>) s)" for m
    by (simp add: quiet_def frames_def calm_def raise_def assign_def)
  have push: "gives (PushTransaction e) ?v (?w None) E"
    unfolding PushTransaction_def
    by (rule gives_quiet_step [rotated], simp add: quiet_simps e, simp add: assms,
        rule gives_quiet_step [OF _ count], unfold steps_one, rule gives_assign)
      (use cur_of_view in \<open>auto simp: assms level_view_def dest!: view_ConsD\<close>)
  have name: "gives (only (name \<noteq> None) (steps [call e (Call ''MemoryContextStrdup'' []),
       assign (upd_cur (\<lambda>x. x\<lparr>savepoint := name\<rparr>))])) (?w None) (?w name) E"
  proof (cases name)
    case (Some nm)
    then show ?thesis
      by (simp add: only_def [abs_def])
        (rule gives_quiet_step, unfold steps_one, rule gives_upd, simp_all add: quiet_simps assms)
  qed (simp add: only_def [abs_def] gives_def)
  show ?thesis
    unfolding push_named_def by (rule gives_step [OF push]) (unfold steps_one, rule name)
qed

end
