(* ===== verification/SessionSteps.thy ===== *)
theory SessionSteps
  imports XactSession
begin

section \<open>The session of a client\<close>

text \<open>
  The abstract session, its views, what each statement makes of it, and the proof that the
  traffic cop implements this.
\<close>

subsection \<open>Sessions and their views\<close>

text \<open>
  Savepoints, the innermost first. A failed block keeps its savepoints, to which the client may
  roll back.
\<close>

datatype session = Idle | Block "string list" | Failed "string list"

definition top_level :: "TransState \<Rightarrow> TBlockState \<Rightarrow> int \<Rightarrow> level_view" where
  "top_level x b l = (x, b, None, l, 1)"

definition sub_level :: "TransState \<Rightarrow> TBlockState \<Rightarrow> string \<Rightarrow> int \<Rightarrow> nat \<Rightarrow> level_view" where
  "sub_level x b n l k = (x, b, Some n, l, int k + 2)"

text \<open>A block without failure.\<close>

fun block_view :: "int \<Rightarrow> string list \<Rightarrow> level_view list" where
  "block_view l [] = [top_level TRANS_INPROGRESS TBLOCK_INPROGRESS l]"
| "block_view l (n # ns) = sub_level TRANS_INPROGRESS TBLOCK_SUBINPROGRESS n l (length ns) # block_view l ns"

definition idle_view :: "int \<Rightarrow> level_view list" where
  "idle_view l = [(TRANS_DEFAULT, TBLOCK_DEFAULT, None, l, 0)]"

fun session_view :: "int \<Rightarrow> session \<Rightarrow> level_view list" where
  "session_view l Idle = idle_view l"
| "session_view l (Block ns) = block_view l ns"
| "session_view l (Failed []) = [top_level TRANS_ABORT TBLOCK_ABORT l]"
| "session_view l (Failed (n # ns)) = sub_level TRANS_ABORT TBLOCK_SUBABORT n l (length ns) # block_view l ns"

text \<open>
  \<open>doomed l T v\<close>: from the view \<open>v\<close> an abort of the current transaction leads to the session \<open>T\<close>.
\<close>

fun doomed :: "int \<Rightarrow> session \<Rightarrow> level_view list \<Rightarrow> bool" where
  "doomed l T [] = False"
| "doomed l T [(x, b, n, l', d)] = (n = None \<and> l' = l \<and>
     (if b = TBLOCK_DEFAULT then T = Idle \<and> (x = TRANS_DEFAULT \<longrightarrow> d = 0)
      else if b \<in> {TBLOCK_STARTED, TBLOCK_BEGIN, TBLOCK_END, TBLOCK_ABORT_PENDING, TBLOCK_PREPARE} then T = Idle
      else if b = TBLOCK_ABORT_END then T = Idle \<and> x = TRANS_ABORT
      else if b = TBLOCK_INPROGRESS then T = Failed [] \<and> d = 1
      else b = TBLOCK_ABORT \<and> T = Failed [] \<and> x = TRANS_ABORT \<and> d = 1))"
| "doomed l T ((x, b, n, l', d) # a # v) =
     (if b \<in> {TBLOCK_SUBINPROGRESS, TBLOCK_SUBABORT}
      then (case T of
          Failed (m # ns) \<Rightarrow> n = Some m \<and> l' = l \<and> d = int (length ns) + 2 \<and> a # v = block_view l ns \<and>
            (b = TBLOCK_SUBABORT \<longrightarrow> x = TRANS_ABORT)
        | _ \<Rightarrow> False)
      else b \<in> {TBLOCK_SUBBEGIN, TBLOCK_SUBRELEASE, TBLOCK_SUBCOMMIT, TBLOCK_SUBABORT_PENDING, TBLOCK_SUBRESTART,
               TBLOCK_SUBABORT_END, TBLOCK_SUBABORT_RESTART} \<and> doomed l T (a # v))"

text \<open>The savepoint that a command names, counted from the innermost one.\<close>

definition find_savepoint :: "string \<Rightarrow> string list \<Rightarrow> nat option" where
  "find_savepoint n ns = (if n \<in> set ns then Some (length (takeWhile (\<lambda>m. m \<noteq> n) ns)) else None)"

text \<open>
  The session after a statement: what it is after success, if that is possible, and what it is
  when anything has failed. In recovery nothing can be prepared.
\<close>

fun client_step :: "bool \<Rightarrow> statement \<Rightarrow> session \<Rightarrow> session option \<times> session" where
  "client_step rec (TRANS_STMT_BEGIN opts) Idle = (Some (Block []), Idle)"
| "client_step rec (TRANS_STMT_COMMIT) Idle = (Some Idle, Idle)"
| "client_step rec (TRANS_STMT_ROLLBACK) Idle = (Some Idle, Idle)"
| "client_step rec (TRANS_STMT_SAVEPOINT n) Idle = (None, Idle)"
| "client_step rec (TRANS_STMT_RELEASE n) Idle = (None, Idle)"
| "client_step rec (TRANS_STMT_ROLLBACK_TO n) Idle = (None, Idle)"
| "client_step rec (OtherStmt f) Idle = (Some Idle, Idle)"
| "client_step rec stmt Idle = (if rec then None else Some Idle, Idle)"
| "client_step rec (TRANS_STMT_BEGIN opts) (Block ns) = (Some (Block ns), Failed ns)"
| "client_step rec (TRANS_STMT_COMMIT) (Block ns) = (Some Idle, Idle)"
| "client_step rec (TRANS_STMT_ROLLBACK) (Block ns) = (Some Idle, Idle)"
| "client_step rec (TRANS_STMT_PREPARE gid) (Block ns) = (if rec then (None, Failed ns) else (Some Idle, Idle))"
| "client_step rec (TRANS_STMT_COMMIT_PREPARED gid) (Block ns) = (None, Failed ns)"
| "client_step rec (TRANS_STMT_ROLLBACK_PREPARED gid) (Block ns) = (None, Failed ns)"
| "client_step rec (TRANS_STMT_SAVEPOINT n) (Block ns) = (Some (Block (n # ns)), Failed ns)"
| "client_step rec (TRANS_STMT_RELEASE n) (Block ns) = (case find_savepoint n ns of
     None \<Rightarrow> (None, Failed ns) | Some k \<Rightarrow> (Some (Block (drop (Suc k) ns)), Failed (drop (Suc k) ns)))"
| "client_step rec (TRANS_STMT_ROLLBACK_TO n) (Block ns) = (case find_savepoint n ns of
     None \<Rightarrow> (None, Failed ns) | Some k \<Rightarrow> (Some (Block (drop k ns)), Failed (drop (Suc k) ns)))"
| "client_step rec (OtherStmt f) (Block ns) = (Some (Block ns), Failed ns)"
| "client_step rec (TRANS_STMT_COMMIT) (Failed ns) = (Some Idle, Idle)"
| "client_step rec (TRANS_STMT_ROLLBACK) (Failed ns) = (Some Idle, Idle)"
| "client_step rec (TRANS_STMT_PREPARE gid) (Failed ns) = (if rec then (None, Failed ns) else (Some Idle, Idle))"
| "client_step rec (TRANS_STMT_ROLLBACK_TO n) (Failed ns) = (case find_savepoint n ns of
     None \<Rightarrow> (None, Failed ns) | Some k \<Rightarrow> (Some (Block (drop k ns)), Failed (drop (Suc k) ns)))"
| "client_step rec stmt (Failed ns) = (None, Failed ns)"

subsection \<open>Aborting\<close>

lemma gives_weaken: "gives f v w E \<Longrightarrow> (\<And>u. E u \<Longrightarrow> E' u) \<Longrightarrow> gives f v w E'"
  unfolding gives_def by (auto split: prod.splits option.splits)

lemma doomed_any:
  "b \<in> {TBLOCK_STARTED, TBLOCK_BEGIN, TBLOCK_END, TBLOCK_ABORT_PENDING, TBLOCK_PREPARE} \<Longrightarrow>
     doomed l Idle [(x, b, None, l, d)]"
  "b \<in> {TBLOCK_SUBBEGIN, TBLOCK_SUBRELEASE, TBLOCK_SUBCOMMIT, TBLOCK_SUBABORT_PENDING, TBLOCK_SUBRESTART,
     TBLOCK_SUBABORT_END, TBLOCK_SUBABORT_RESTART} \<Longrightarrow> doomed l T ((x, b, n, l', d) # v) \<longleftrightarrow> doomed l T v"
  by auto (cases v, auto)+

lemma gives_then:
  assumes "gives f v w E" and "gives g w x E"
  shows "gives (\<lambda>s. case f s of (Some err, s) \<Rightarrow> (Some err, s) | (None, s) \<Rightarrow> g s) v x E"
proof (rule gives_cong)
  show "gives (steps [f, g]) v x E"
    by (rule gives_step [OF assms(1)]) (unfold steps_one, rule assms(2))
qed (simp add: steps.simps(2) split: prod.split option.split)

lemma gives_abort_to_idle:
  assumes e: "only_errors e" and b: "b \<in> {TBLOCK_STARTED, TBLOCK_BEGIN, TBLOCK_END, TBLOCK_ABORT_PENDING, TBLOCK_PREPARE}"
  shows "gives (abort_to_idle e) [(x, b, None, l, d)] (idle_view l) (doomed l Idle)"
  unfolding abort_to_idle_def idle_view_def
  by (rule gives_step [OF gives_Abort [OF e]], (rule doomed_any(1) [OF b])+, rule gives_step [OF gives_Cleanup [OF e]],
      rule doomed_any(1) [OF b], unfold steps_one, rule gives_block)

lemma gives_cleanup_to_idle:
  assumes e: "only_errors e"
  shows "gives (cleanup_to_idle e) [(TRANS_ABORT, TBLOCK_ABORT_END, None, l, d)] (idle_view l) (doomed l Idle)"
  unfolding cleanup_to_idle_def idle_view_def
  by (rule gives_step [OF gives_Cleanup], rule e, simp, unfold steps_one, rule gives_block)

lemma gives_abort_idle:
  assumes e: "only_errors e" and "x = TRANS_DEFAULT \<longrightarrow> d = 0"
    and E: "\<And>y. (y = TRANS_DEFAULT \<longrightarrow> x = TRANS_DEFAULT) \<Longrightarrow> E [(y, TBLOCK_DEFAULT, None, l, d)]"
  shows "gives (abort_idle e) [(x, TBLOCK_DEFAULT, None, l, d)] (idle_view l) E"
proof (cases "x = TRANS_DEFAULT")
  case True
  show ?thesis
    by (rule gives_cong [where g = "Pair None"])
      (use True assms(2) cur_of_view in \<open>auto simp: abort_idle_def idle_view_def gives_def\<close>)
next
  case False
  let ?fix = "\<lambda>s. only (xstate (cur s) = TRANS_START) (set_xstate TRANS_INPROGRESS) s"
  let ?y = "if x = TRANS_START then TRANS_INPROGRESS else x"
  have first: "gives ?fix [(x, TBLOCK_DEFAULT, None, l, d)] [(?y, TBLOCK_DEFAULT, None, l, d)] E"
  proof (cases "x = TRANS_START")
    case True
    show ?thesis
      by (rule gives_cong [where g = "set_xstate TRANS_INPROGRESS"])
        (use True cur_of_view gives_xstate in \<open>auto simp: only_def\<close>)
  next
    case False
    show ?thesis using False by simp (rule gives_skip, use False cur_of_view in blast)
  qed
  show ?thesis
  proof (rule gives_cong)
    show "gives (steps [?fix, AbortTransaction e, CleanupTransaction e])
        [(x, TBLOCK_DEFAULT, None, l, d)] (idle_view l) E"
      unfolding idle_view_def
      by (rule gives_step [OF first], rule gives_step [OF gives_Abort [OF e]], rule E, use False in simp, rule E, simp, unfold steps_one,
          rule gives_Cleanup [OF e], rule E, simp)
  qed (use False cur_of_view in \<open>auto simp: abort_idle_def\<close>)
qed

lemma live_not_Nil [simp]: "block_view l ns \<noteq> []"
  by (cases ns) simp_all

text \<open>Two shapes of the functions that pop levels.\<close>

lemma gives_pop_dead:
  assumes e: "only_errors e" and "doomed l T (a # v)" and "gives f (a # v) w (doomed l T)"
    and "b \<in> {TBLOCK_SUBBEGIN, TBLOCK_SUBRELEASE, TBLOCK_SUBCOMMIT, TBLOCK_SUBABORT_PENDING, TBLOCK_SUBRESTART,
     TBLOCK_SUBABORT_END, TBLOCK_SUBABORT_RESTART}"
  shows "gives (\<lambda>s. case CleanupSubTransaction e s of (Some err, s) \<Rightarrow> (Some err, s) | (None, s) \<Rightarrow> f s)
    ((x, b, n, l', d) # a # v) w (doomed l T)"
  by (rule gives_then [OF gives_CleanupSub [OF e] assms(3)]) (use assms doomed_any(2) in blast)

lemma gives_pop_live:
  assumes e: "only_errors e" and "doomed l T (a # v)" and "gives f (a # v) w (doomed l T)"
    and "b \<in> {TBLOCK_SUBBEGIN, TBLOCK_SUBRELEASE, TBLOCK_SUBCOMMIT, TBLOCK_SUBABORT_PENDING, TBLOCK_SUBRESTART,
     TBLOCK_SUBABORT_END, TBLOCK_SUBABORT_RESTART}"
  shows "gives (\<lambda>s. case steps [AbortSubTransaction e, CleanupSubTransaction e] s of
      (Some err, s) \<Rightarrow> (Some err, s) | (None, s) \<Rightarrow> f s) ((x, b, n, l', d) # a # v) w (doomed l T)"
proof -
  have *: "doomed l T ((y, b, n, l', d) # a # v)" for y using assms doomed_any(2) by blast
  show ?thesis
    by (rule gives_then [OF gives_step [OF gives_AbortSub [OF e] ] assms(3)], rule *, unfold steps_one,
        rule gives_CleanupSub [OF e], rule *)
qed

theorem gives_AbortCurrent:
  assumes e: "only_errors e" and "doomed l T v"
  shows "gives (AbortCurrentTransaction e) v (session_view l T) (doomed l T)"
  using assms(2)
proof (induction l T v rule: doomed.induct)
  case (2 l T x b n l' d)
  let ?v = "[(x, b, n, l', d)]"
  note unf = AbortCurrentTransaction.simps Let_def
  from 2 have n: "n = None" "l' = l" by simp_all
  consider "b = TBLOCK_DEFAULT" "T = Idle" "x = TRANS_DEFAULT \<longrightarrow> d = 0"
    | "b \<in> {TBLOCK_STARTED, TBLOCK_BEGIN, TBLOCK_END, TBLOCK_ABORT_PENDING, TBLOCK_PREPARE}" "T = Idle"
    | "b = TBLOCK_ABORT_END" "T = Idle" "x = TRANS_ABORT"
    | "b = TBLOCK_INPROGRESS" "T = Failed []" "d = 1"
    | "b = TBLOCK_ABORT" "T = Failed []" "x = TRANS_ABORT" "d = 1"
    using 2 by (auto split: if_splits)
  then show ?case
  proof cases
    case 1
    show ?thesis
      by (rule gives_cong [where g = "abort_idle e"])
        (use 1 n cur_of_view in \<open>auto simp: unf intro!: gives_abort_idle [OF e]\<close>)
  next
    case 2
    show ?thesis
      by (rule gives_cong [where g = "abort_to_idle e"])
        (use 2 n cur_of_view gives_abort_to_idle [OF e] in \<open>auto simp: unf\<close>)
  next
    case 3
    show ?thesis
      by (rule gives_cong [where g = "cleanup_to_idle e"])
        (use 3 n cur_of_view gives_cleanup_to_idle [OF e] in \<open>auto simp: unf\<close>)
  next
    case 4
    have "gives (steps [AbortTransaction e, set_block TBLOCK_ABORT]) ?v (session_view l T) (doomed l T)"
      by (rule gives_step [OF gives_Abort [OF e]]) (use 4 n gives_block in \<open>simp_all add: top_level_def steps_one\<close>)
    then show ?thesis
      by (rule gives_cong [rotated]) (use 4 n cur_of_view in \<open>auto simp: unf\<close>)
  next
    case 5
    show ?thesis
      by (rule gives_cong [where g = "Pair None"])
        (use 5 n cur_of_view in \<open>auto simp: unf gives_def top_level_def\<close>)
  qed
next
  case (3 l T x b n l' d a v)
  let ?v = "(x, b, n, l', d) # a # v"
  note unf = AbortCurrentTransaction.simps Let_def
  let ?rest = "\<lambda>s. AbortCurrentTransaction e s"
  consider (sub) m ns where "b = TBLOCK_SUBINPROGRESS \<or> b = TBLOCK_SUBABORT \<and> x = TRANS_ABORT" "T = Failed (m # ns)"
      "n = Some m" "l' = l" "d = int (length ns) + 2" "a # v = block_view l ns"
    | (pop) "b \<in> {TBLOCK_SUBBEGIN, TBLOCK_SUBRELEASE, TBLOCK_SUBCOMMIT, TBLOCK_SUBABORT_PENDING, TBLOCK_SUBRESTART,
        TBLOCK_SUBABORT_END, TBLOCK_SUBABORT_RESTART}" "b \<notin> {TBLOCK_SUBINPROGRESS, TBLOCK_SUBABORT}" "doomed l T (a # v)"
    using 3(2) by (auto split: if_splits session.splits list.splits)
  then show ?case
  proof cases
    case sub
    have T: "session_view l T = (TRANS_ABORT, TBLOCK_SUBABORT, n, l', d) # a # v"
      using sub by (simp add: sub_level_def)
    show ?thesis
    proof (cases "b = TBLOCK_SUBABORT")
      case True
      show ?thesis
        by (rule gives_cong [where g = "Pair None"])
          (use True sub cur_of_view in \<open>auto simp: unf gives_def sub_level_def\<close>)
    next
      case False
      have "doomed l T ((y, b, n, l', d) # a # v)" for y
        using 3(2) False sub(1) by (simp split: session.splits list.splits)
      then have "gives (steps [AbortSubTransaction e, set_block TBLOCK_SUBABORT]) ?v (session_view l T) (doomed l T)"
        unfolding T by (rule gives_step [OF gives_AbortSub [OF e]]) (unfold steps_one, rule gives_block)
      then show ?thesis
        by (rule gives_cong [rotated]) (use False sub cur_of_view in \<open>auto simp: unf\<close>)
    qed
  next
    case pop
    have IH: "gives ?rest (a # v) (session_view l T) (doomed l T)" using 3(1) pop by simp
    note dead = gives_pop_dead [OF e pop(3) IH pop(1)] and alive = gives_pop_live [OF e pop(3) IH pop(1)]
    show ?thesis
    proof (cases "b \<in> {TBLOCK_SUBABORT_END, TBLOCK_SUBABORT_RESTART}")
      case True
      then show ?thesis by (intro gives_cong [OF _ dead]) (use cur_of_view in \<open>auto simp: unf\<close>)
    next
      case False
      then show ?thesis by (intro gives_cong [OF _ alive]) (use pop(1) cur_of_view in \<open>auto simp: unf\<close>)
    qed
  qed
qed simp

subsection \<open>Marking levels\<close>

fun level_block :: "level_view \<Rightarrow> TBlockState" where "level_block (x, b, r) = b"

fun remark :: "(TBlockState \<Rightarrow> TBlockState option) \<Rightarrow> level_view \<Rightarrow> level_view" where
  "remark f (x, b, r) = (x, the (f b), r)"

lemma level_block_view [simp]: "level_block (level_view c) = blockState c"
  by (simp add: level_view_def)

lemma remark_view: "level_view (c\<lparr>blockState := the (f (blockState c))\<rparr>) = remark f (level_view c)"
  by (simp add: level_view_def)

lemma mark_total:
  "\<forall>c\<in>set (take k st). f (blockState c) \<noteq> None \<Longrightarrow>
   mark f k st = (True, map (\<lambda>c. c\<lparr>blockState := the (f (blockState c))\<rparr>) (take k st) @ drop k st)"
  by (induction f k st rule: mark.induct) auto

lemma gives_mark:
  assumes "\<forall>a\<in>set (take k v). f (level_block a) \<noteq> None"
  shows "gives (mark_levels fn f k) v (map (remark f) (take k v) @ drop k v) E"
proof -
  have "mark_levels fn f k s = (None, set_trans
      (map (\<lambda>c. c\<lparr>blockState := the (f (blockState c))\<rparr>) (take k (trans s)) @ drop k (trans s)) s)" if "view s = v" for s
    using assms that by (subst mark_levels_def, subst mark_total) (auto simp: view_def take_map)
  then show ?thesis
    by (auto simp: gives_def view_def take_map drop_map remark_view comp_def)
qed

lemma gives_mark_top:
  assumes "f (level_block q) = Some b"
  shows "gives (mark_top fn f) (p @ [q]) (p @ [remark f q]) E"
  unfolding gives_def
proof (intro allI impI)
  fix s assume "view s = p @ [q]"
  then obtain cs c where c: "trans s = cs @ [c]" "map level_view cs = p" "level_view c = q"
    by (auto simp: view_def map_eq_append_conv)
  then show "case mark_top fn f s of (None, s') \<Rightarrow> view s' = p @ [remark f q]
      | (Some err, s') \<Rightarrow> (\<forall>m. err \<noteq> FATAL m) \<and> E (view s')"
    using assms remark_view [of f c] by (auto simp: mark_top_def)
qed

lemma gives_mark_all:
  assumes "\<forall>a\<in>set p. fsub (level_block a) \<noteq> None" and "ftop (level_block q) = Some b"
  shows "gives (mark_all fn fsub ftop) (p @ [q]) (map (remark fsub) p @ [remark ftop q]) E"
proof -
  have "gives (\<lambda>s. mark_levels fn fsub (length (trans s) - 1) s) (p @ [q]) (map (remark fsub) p @ [q]) E"
  proof (rule gives_cong)
    show "gives (mark_levels fn fsub (length p)) (p @ [q]) (map (remark fsub) p @ [q]) E"
      using gives_mark [of "length p" "p @ [q]" fsub fn E] assms(1) by simp
  next
    fix s assume "view s = p @ [q]"
    then have "length (trans s) = length (p @ [q])" by (metis length_map view_def)
    then show "mark_levels fn fsub (length (trans s) - 1) s = mark_levels fn fsub (length p) s" by simp
  qed
  then show ?thesis
    unfolding mark_all_def by (rule gives_step) (unfold steps_one, rule gives_mark_top, rule assms(2))
qed

lemma gives_mark_target:
  assumes "f (level_block a) = Some b"
  shows "gives (mark_target fn f (length p)) (p @ a # v) (p @ remark f a # v) E"
  unfolding gives_def
proof (intro allI impI)
  fix s assume "view s = p @ a # v"
  then obtain cs c ds where c: "trans s = cs @ c # ds" "map level_view cs = p" "level_view c = a" "map level_view ds = v"
    by (auto simp: view_def map_eq_append_conv map_eq_Cons_conv)
  then show "case mark_target fn f (length p) s of (None, s') \<Rightarrow> view s' = p @ remark f a # v
      | (Some err, s') \<Rightarrow> (\<forall>m. err \<noteq> FATAL m) \<and> E (view s')"
    using assms remark_view [of f c] by (auto simp: mark_target_def nth_append list_update_append)
qed

subsection \<open>The end of a command\<close>

definition popped :: "TBlockState set" where
  "popped = {TBLOCK_SUBBEGIN, TBLOCK_SUBRELEASE, TBLOCK_SUBCOMMIT, TBLOCK_SUBABORT_PENDING, TBLOCK_SUBRESTART,
     TBLOCK_SUBABORT_END, TBLOCK_SUBABORT_RESTART}"

lemma doomed_append:
  "\<forall>a\<in>set p. level_block a \<in> popped \<Longrightarrow> v \<noteq> [] \<Longrightarrow> doomed l T (p @ v) = doomed l T v"
proof (induction p)
  case (Cons a p)
  then show ?case by (cases a; cases "p @ v") (auto simp: popped_def)
qed simp

lemma gives_commit_while:
  assumes e: "only_errors e" and "\<forall>a\<in>set p. level_block a = b" and "b \<in> popped"
    and "p \<noteq> []" and "v \<noteq> []" and "level_block (hd v) \<noteq> b" and "doomed l T v"
  shows "gives (commit_while e b) (p @ v) v (doomed l T)"
  using assms(2,4)
proof (induction p)
  case (Cons a p)
  obtain x n l' d where a: "a = (x, b, n, l', d)" using Cons(2) by (cases a) auto
  obtain a' v' where v': "p @ v = a' # v'" using assms(5) by (cases "p @ v") auto
  have dm: "doomed l T ((y, b, n, l', d) # p @ v)" for y
    using doomed_append [of "(y, b, n, l', d) # p" v l T] assms(3,5,7) Cons(2) by auto
  have next_level: "blockState (cur s) = level_block (hd (p @ v))" if "view s = p @ v" for s
    using that v' cur_of_view by (cases a') auto
  let ?g = "\<lambda>s. if blockState (cur s) = b then commit_while e b s else (None, s)"
  have "gives ?g (p @ v) v (doomed l T)"
  proof (cases "p = []")
    case True
    show ?thesis
      unfolding True append_Nil by (rule gives_cong [OF _ gives_id]) (use True next_level assms(6) in auto)
  next
    case False
    then have "level_block (hd (p @ v)) = b" using Cons(2) by (cases p) auto
    then show ?thesis
      by (intro gives_cong [OF _ Cons.IH]) (use next_level Cons(2) False in auto)
  qed
  then have "gives (\<lambda>s. case CommitSubTransaction e s of (Some err, s) \<Rightarrow> (Some err, s) | (None, s) \<Rightarrow> ?g s)
      ((x, b, n, l', d) # p @ v) v (doomed l T)"
    unfolding v' by (intro gives_then [OF gives_CommitSub [OF e]]) (use dm v' in auto)
  then show ?case
    unfolding a append_Cons by (rule gives_cong [rotated]) (subst commit_while.simps, rule refl)
qed simp

lemma gives_end_pops:
  assumes e: "only_errors e" and "\<forall>a\<in>set p. level_block a \<in> {TBLOCK_SUBABORT_PENDING, TBLOCK_SUBABORT_END}"
    and "v \<noteq> []" and "doomed l T v" and "gives (CommitTransactionCommand e) v w (doomed l T)"
  shows "gives (CommitTransactionCommand e) (p @ v) w (doomed l T)"
  using assms(2)
proof (induction p)
  case (Cons a p)
  obtain x b n l' d where a: "a = (x, b, n, l', d)" by (cases a)
  obtain a' v' where v': "p @ v = a' # v'" using assms(3) by (cases "p @ v") auto
  have b: "b \<in> {TBLOCK_SUBABORT_PENDING, TBLOCK_SUBABORT_END}" using Cons(2) a by simp
  have dm: "doomed l T (a' # v')"
    using doomed_append [of p v l T] assms(3,4) Cons(2) v' by (auto simp: popped_def)
  have IH: "gives (CommitTransactionCommand e) (a' # v') w (doomed l T)" using Cons v' by simp
  have "b \<in> {TBLOCK_SUBBEGIN, TBLOCK_SUBRELEASE, TBLOCK_SUBCOMMIT, TBLOCK_SUBABORT_PENDING, TBLOCK_SUBRESTART,
     TBLOCK_SUBABORT_END, TBLOCK_SUBABORT_RESTART}" using b by auto
  note dead = gives_pop_dead [OF e dm IH this] and alive = gives_pop_live [OF e dm IH this]
  show ?case
    unfolding a append_Cons v'
  proof (cases "b = TBLOCK_SUBABORT_END")
    case True
    show "gives (CommitTransactionCommand e) ((x, b, n, l', d) # a' # v') w (doomed l T)"
      by (rule gives_cong [OF _ dead]) (use True cur_of_view in \<open>auto simp: CommitTransactionCommand.simps [of e]\<close>)
  next
    case False
    show "gives (CommitTransactionCommand e) ((x, b, n, l', d) # a' # v') w (doomed l T)"
      by (rule gives_cong [OF _ alive]) (use False b cur_of_view in \<open>auto simp: CommitTransactionCommand.simps [of e]\<close>)
  qed
qed (use assms in simp)

text \<open>The top transaction.\<close>

lemma gives_end_idle:
  assumes e: "only_errors e" and b: "b \<in> {TBLOCK_STARTED, TBLOCK_END, TBLOCK_PREPARE, TBLOCK_ABORT_PENDING}"
  shows "gives (CommitTransactionCommand e) [(x, b, None, l, d)] (idle_view l) (doomed l Idle)"
proof -
  have dm: "doomed l Idle [(y, b, None, l, d)]" for y using b by auto
  have commit: "gives (steps [CommitTransaction e, set_block TBLOCK_DEFAULT]) [(x, b, None, l, d)] (idle_view l) (doomed l Idle)"
    unfolding idle_view_def by (rule gives_step [OF gives_Commit [OF e]], rule dm, unfold steps_one, rule gives_block)
  have prepare: "gives (steps [PrepareTransaction e, set_block TBLOCK_DEFAULT]) [(x, b, None, l, d)] (idle_view l) (doomed l Idle)"
    unfolding idle_view_def by (rule gives_step [OF gives_Prepare [OF e]], rule dm, unfold steps_one, rule gives_block)
  have abort: "gives (abort_to_idle e) [(x, b, None, l, d)] (idle_view l) (doomed l Idle)" if "b = TBLOCK_ABORT_PENDING"
    using that by (intro gives_abort_to_idle [OF e]) simp
  note unf = CommitTransactionCommand.simps [of e] abort_to_idle_def
  consider "b \<in> {TBLOCK_STARTED, TBLOCK_END}" | "b = TBLOCK_PREPARE" | "b = TBLOCK_ABORT_PENDING" using b by blast
  then show ?thesis
  proof cases
    case 1
    then show ?thesis by (intro gives_cong [OF _ commit]) (use cur_of_view in \<open>auto simp: unf\<close>)
  next
    case 2
    then show ?thesis by (intro gives_cong [OF _ prepare]) (use cur_of_view in \<open>auto simp: unf\<close>)
  next
    case 3
    then show ?thesis by (intro gives_cong [OF _ abort]) (use cur_of_view in \<open>auto simp: unf\<close>)
  qed
qed

lemma gives_end_failed:
  assumes e: "only_errors e"
  shows "gives (CommitTransactionCommand e) [(TRANS_ABORT, TBLOCK_ABORT_END, None, l, d)] (idle_view l) (doomed l Idle)"
  by (rule gives_cong [OF _ gives_cleanup_to_idle [OF e]])
    (use cur_of_view in \<open>auto simp: CommitTransactionCommand.simps [of e] cleanup_to_idle_def\<close>)

lemma gives_end_begin:
  "gives (CommitTransactionCommand e) [(TRANS_INPROGRESS, TBLOCK_BEGIN, None, l, 1)] (block_view l []) E"
  by (rule gives_cong [where g = "set_block TBLOCK_INPROGRESS"])
    (use cur_of_view gives_block in \<open>auto simp: CommitTransactionCommand.simps [of e] top_level_def\<close>)

lemma doomed_session: "doomed l (case T of Block ns \<Rightarrow> Failed ns | _ \<Rightarrow> T) (session_view l T)"
proof -
  have 1: "doomed l (Failed ns) (block_view l ns)" for ns
    by (cases ns; cases "block_view l (tl ns)") (auto simp: top_level_def sub_level_def)
  have 2: "doomed l (Failed ns) (session_view l (Failed ns))" for ns
    by (cases ns; cases "block_view l (tl ns)") (auto simp: top_level_def sub_level_def)
  show ?thesis using 1 2 by (cases T) (auto simp: idle_view_def)
qed

lemmas doomed_live [simp] = doomed_session [where T = "Block ns" for ns, simplified]

lemma gives_end_live:
  assumes e: "only_errors e"
  shows "gives (CommitTransactionCommand e) (block_view l ns) (block_view l ns) (doomed l (Failed ns))"
proof (rule gives_cong)
  fix s assume s: "view s = block_view l ns"
  then show "CommitTransactionCommand e s = CommandCounterIncrement e s"
    by (cases ns) (use cur_of_view in \<open>auto simp: CommitTransactionCommand.simps [of e] top_level_def sub_level_def\<close>)
qed (simp add: gives_quiet quiet_simps e)

text \<open>A new level, for SAVEPOINT and for ROLLBACK TO.\<close>

lemma live_head: "\<exists>b d r. block_view l ns = (TRANS_INPROGRESS, b, map_option id (case ns of [] \<Rightarrow> None | n # _ \<Rightarrow> Some n), l, d) # r \<and>
    b \<in> {TBLOCK_INPROGRESS, TBLOCK_SUBINPROGRESS} \<and> d = int (length ns) + 1"
  by (cases ns) (auto simp: top_level_def sub_level_def)

lemma doomed_begun [simp]: "doomed l T ((x, TBLOCK_SUBBEGIN, n, l', d) # v) = doomed l T v"
  by (rule doomed_any(2)) simp

lemma gives_define:
  assumes e: "only_errors e"
  shows "gives (DefineSavepoint e n) (block_view l ns)
      ((TRANS_DEFAULT, TBLOCK_SUBBEGIN, n, l, int (length ns) + 2) # block_view l ns) (doomed l (Failed ns))"
proof -
  obtain b m d r where h: "block_view l ns = (TRANS_INPROGRESS, b, m, l, d) # r" "b \<in> {TBLOCK_INPROGRESS, TBLOCK_SUBINPROGRESS}"
      "d = int (length ns) + 1"
    using live_head [of l ns] by blast
  have "gives (push_named e n) ((TRANS_INPROGRESS, b, m, l, d) # r)
      ((TRANS_DEFAULT, TBLOCK_SUBBEGIN, n, l, d + 1) # (TRANS_INPROGRESS, b, m, l, d) # r) (doomed l (Failed ns))"
    using gives_push [OF e] doomed_live [of l ns] h(1) by simp
  moreover have "d + 1 = int (length ns) + 2" using h by simp
  ultimately show ?thesis
    unfolding h(1) by (intro gives_cong [where f = "DefineSavepoint e n" and g = "push_named e n"])
      (use h cur_of_view in \<open>auto simp: DefineSavepoint_def add.commute\<close>)
qed

lemma gives_end_subbegin:
  assumes e: "only_errors e"
  shows "gives (CommitTransactionCommand e) ((TRANS_DEFAULT, TBLOCK_SUBBEGIN, Some n, l, int (length ns) + 2) # block_view l ns)
      (block_view l (n # ns)) (doomed l (Failed ns))"
proof (rule gives_cong)
  show "gives (steps [StartSubTransaction e, set_block TBLOCK_SUBINPROGRESS])
      ((TRANS_DEFAULT, TBLOCK_SUBBEGIN, Some n, l, int (length ns) + 2) # block_view l ns) (block_view l (n # ns)) (doomed l (Failed ns))"
    by (rule gives_step [OF gives_StartSub [OF e]], simp, unfold steps_one block_view.simps sub_level_def, rule gives_block)
qed (use cur_of_view in \<open>auto simp: CommitTransactionCommand.simps [of e]\<close>)

lemma gives_end_restart:
  assumes e: "only_errors e" and b: "b = TBLOCK_SUBRESTART \<and> alive \<or> b = TBLOCK_SUBABORT_RESTART \<and> \<not> alive"
  shows "gives (CommitTransactionCommand e) ((x, b, Some n, l, d) # block_view l ns) (block_view l (n # ns)) (doomed l (Failed ns))"
proof -
  let ?E = "doomed l (Failed ns)"
  have dm: "?E ((y, b, m, l, d') # block_view l ns)" for y m d' using b doomed_any(2) by auto
  obtain a r where h: "block_view l ns = a # r" by (cases "block_view l ns") auto
  have unname: "gives (assign (upd_cur (\<lambda>x. x\<lparr>savepoint := None\<rparr>))) ((x, b, Some n, l, d) # block_view l ns)
      ((x, b, None, l, d) # block_view l ns) ?E"
    by (rule gives_upd) (simp add: level_view_def)
  have abort: "gives (only alive (AbortSubTransaction e)) ((x, b, None, l, d) # block_view l ns)
      ((if alive then TRANS_ABORT else x, b, None, l, d) # block_view l ns) ?E"
    using gives_AbortSub [OF e] dm by (simp add: only_def [abs_def] gives_id)
  have name: "gives (assign (upd_cur (\<lambda>x. x\<lparr>savepoint := Some n, savepointLevel := l\<rparr>)))
      ((TRANS_DEFAULT, TBLOCK_SUBBEGIN, None, l, k) # block_view l ns) ((TRANS_DEFAULT, TBLOCK_SUBBEGIN, Some n, l, k) # block_view l ns) ?E" for k
    by (rule gives_upd) (simp add: level_view_def)
  have cleanup: "gives (CleanupSubTransaction e) ((y, b, None, l, d) # block_view l ns) (block_view l ns) ?E" for y
    unfolding h by (rule gives_CleanupSub [OF e]) (rule dm [unfolded h])
  show ?thesis
  proof (rule gives_cong)
    show "gives (steps [assign (upd_cur (\<lambda>x. x\<lparr>savepoint := None\<rparr>)), only alive (AbortSubTransaction e),
           CleanupSubTransaction e, DefineSavepoint e None,
           assign (upd_cur (\<lambda>x. x\<lparr>savepoint := Some n, savepointLevel := l\<rparr>)),
           StartSubTransaction e, set_block TBLOCK_SUBINPROGRESS]) ((x, b, Some n, l, d) # block_view l ns) (block_view l (n # ns)) ?E"
      by (rule gives_step [OF unname], rule gives_step [OF abort], rule gives_step [OF cleanup],
          rule gives_step [OF gives_define [OF e]], rule gives_step [OF name],
          rule gives_step [OF gives_StartSub [OF e]], simp, unfold steps_one block_view.simps sub_level_def, rule gives_block)
  qed (use b cur_of_view in \<open>auto simp: CommitTransactionCommand.simps [of e] restart_savepoint_def Let_def\<close>)
qed

subsection \<open>The statements\<close>

lemma gives_fail:
  "(\<And>s. view s = v \<Longrightarrow> \<exists>m. f s = (Some (ERROR m), s)) \<Longrightarrow> E v \<Longrightarrow> gives f v w E"
  "(\<And>s. view s = v \<Longrightarrow> \<exists>m. f s = (Some (ERROR m), s)) \<Longrightarrow> E v \<Longrightarrow> gives (steps (f # fs)) v w E"
  by (fastforce simp: gives_def steps.simps(2))+

lemma gives_same: "(\<And>s. view s = v \<Longrightarrow> f s = (None, s)) \<Longrightarrow> gives f v v E"
  by (simp add: gives_def)

text \<open>The savepoint that a name means.\<close>

definition named :: "int \<Rightarrow> string list \<Rightarrow> level_view list \<Rightarrow> bool" where
  "named l ns v \<longleftrightarrow> map (\<lambda>(x, b, n, l, d). (n, l)) v = map (\<lambda>n. (Some n, l)) ns @ [(None, l)]"

lemma named_session: "named l ns (session_view l (Failed ns))" "named l ns (block_view l ns)"
proof -
  show "named l ns (block_view l ns)" for ns by (induction ns) (simp_all add: named_def top_level_def sub_level_def)
  then show "named l ns (session_view l (Failed ns))" by (cases ns) (simp_all add: named_def top_level_def sub_level_def)
qed

lemma target_of:
  assumes "named l ns v" and "view s = v"
  shows "levels_inside n (trans s) = (case find_savepoint n ns of None \<Rightarrow> length (trans s) | Some k \<Rightarrow> k)"
    and "k < length (trans s) \<Longrightarrow> savepointLevel (trans s ! k) = savepointLevel (cur s)"
    and "length (trans s) = Suc (length ns)"
proof -
  let ?f = "\<lambda>c. (savepoint c, savepointLevel c)" and ?ps = "map (\<lambda>n. (Some n, l)) ns @ [(None, l)]"
  have "map ?f (trans s) = map (\<lambda>(x, b, n, l, d). (n, l)) (view s)"
    by (simp add: view_def level_view_def)
  then have ps: "map ?f (trans s) = ?ps"
    using assms by (simp add: named_def)
  show len: "length (trans s) = Suc (length ns)" using arg_cong [OF ps, of length] by simp
  have "levels_inside n (trans s) = length (takeWhile (\<lambda>p. fst p \<noteq> Some n) (map ?f (trans s)))"
    by (simp add: levels_inside_def takeWhile_map comp_def)
  also have "\<dots> = (case find_savepoint n ns of None \<Rightarrow> length (trans s) | Some k \<Rightarrow> k)"
  proof (cases "n \<in> set ns")
    case True
    then show ?thesis unfolding ps by (subst takeWhile_append1) (auto simp: find_savepoint_def takeWhile_map comp_def)
  next
    case False
    then show ?thesis unfolding ps by (subst takeWhile_append2) (auto simp: find_savepoint_def len)
  qed
  finally show "levels_inside n (trans s) = (case find_savepoint n ns of None \<Rightarrow> length (trans s) | Some k \<Rightarrow> k)" .
  have "savepointLevel (trans s ! k) = l" if "k < length (trans s)" for k
    using that arg_cong [OF ps, of "\<lambda>ps. snd (ps ! k)"] len by (simp add: nth_append split: if_splits)
  then show "k < length (trans s) \<Longrightarrow> savepointLevel (trans s ! k) = savepointLevel (cur s)"
    using len by (metis cur_def hd_conv_nth length_greater_0_conv zero_less_Suc)
qed

lemma find_less: "find_savepoint n ns = Some k \<Longrightarrow> k < length ns"
  by (induction ns arbitrary: k) (auto simp: find_savepoint_def split: if_splits)

lemma gives_target:
  assumes "named l ns v"
  shows "find_savepoint n ns = None \<Longrightarrow> E v \<Longrightarrow> gives (with_target n f) v w E"
    and "find_savepoint n ns = Some k \<Longrightarrow> gives (f k) v w E \<Longrightarrow> gives (with_target n f) v w E"
proof -
  show "gives (with_target n f) v w E" if "find_savepoint n ns = None" "E v"
    by (rule gives_fail) (use target_of [OF assms] that in \<open>auto simp: with_target_def raise_def no_such_savepoint_def\<close>)
  show "gives (with_target n f) v w E" if k: "find_savepoint n ns = Some k" "gives (f k) v w E"
  proof (rule gives_cong [OF _ k(2)])
    fix s assume s: "view s = v"
    then show "with_target n f s = f k s"
      using target_of [OF assms s] k(1) find_less [OF k(1)] by (simp add: with_target_def Let_def)
  qed
qed

lemma gives_report: "gives (\<lambda>s. snd (f s)) v w E \<Longrightarrow> gives (\<lambda>s. report (f s)) v w E"
proof -
  have r: "report r = (if \<not> fst r \<and> fst (snd r) = None then warn ''completionTag ROLLBACK'' (snd (snd r)) else snd r)" for r
    by (cases r) (auto simp: report_def split: option.split bool.split)
  assume f: "gives (\<lambda>s. snd (f s)) v w E"
  show ?thesis
    unfolding gives_def
  proof (intro allI impI)
    fix s assume "view s = v"
    then have "case snd (f s) of (None, s') \<Rightarrow> view s' = w | (Some err, s') \<Rightarrow> (\<forall>m. err \<noteq> FATAL m) \<and> E (view s')"
      using f by (simp add: gives_def)
    then show "case report (f s) of (None, s') \<Rightarrow> view s' = w | (Some err, s') \<Rightarrow> (\<forall>m. err \<noteq> FATAL m) \<and> E (view s')"
      unfolding r by (cases "f s") (auto simp: warn_def assign_def split: prod.splits option.splits)
  qed
qed

lemma live_split:
  "\<exists>p. block_view l ns = p @ [top_level TRANS_INPROGRESS TBLOCK_INPROGRESS l] \<and> length p = length ns \<and>
     (\<forall>a\<in>set p. level_block a = TBLOCK_SUBINPROGRESS)"
proof (induction ns)
  case (Cons n ns)
  then obtain p where "block_view l ns = p @ [top_level TRANS_INPROGRESS TBLOCK_INPROGRESS l]" "length p = length ns"
    "\<forall>a\<in>set p. level_block a = TBLOCK_SUBINPROGRESS" by blast
  then show ?case
    by (intro exI [of _ "sub_level TRANS_INPROGRESS TBLOCK_SUBINPROGRESS n l (length ns) # p"]) (simp add: sub_level_def)
qed simp

lemma remark_block [simp]: "f (level_block a) = Some b \<Longrightarrow> level_block (remark f a) = b"
  by (cases a) simp

end
