(* ===== verification/SessionRefine.thy ===== *)
theory SessionRefine
  imports SessionSteps
begin

section \<open>The traffic cop implements the session\<close>

text \<open>
  For each statement the marks that it leaves on the levels, what the end of the command makes of
  them, and the simulation.
\<close>

subsection \<open>Marks of the statements that end a block\<close>

lemma cur_block: "view s = v \<Longrightarrow> v \<noteq> [] \<Longrightarrow> blockState (cur s) = level_block (hd v)"
  using cur_of_view by (cases v) auto

lemma gives_End_live:
  assumes "\<forall>a\<in>set p. level_block a = TBLOCK_SUBINPROGRESS" and "level_block q = TBLOCK_INPROGRESS"
  shows "gives (\<lambda>s. snd (EndTransactionBlock s)) (p @ [q]) (map (remark commit_sub) p @ [remark commit_top q]) E"
proof (cases p)
  case Nil
  then show ?thesis
    by (cases q) (use assms(2) in \<open>auto intro!: gives_cong [OF _ gives_block] simp: EndTransactionBlock_def cur_block commit_top_def\<close>)
next
  case (Cons a r)
  have "gives (mark_all ''EndTransactionBlock'' commit_sub commit_top) (p @ [q]) (map (remark commit_sub) p @ [remark commit_top q]) E"
    using assms by (intro gives_mark_all) (auto simp: commit_sub_def commit_top_def)
  then show ?thesis
    by (rule gives_cong [rotated]) (use assms Cons in \<open>auto simp: EndTransactionBlock_def cur_block\<close>)
qed

definition aborted_levels :: "level_view list \<Rightarrow> level_view \<Rightarrow> bool" where
  "aborted_levels p q \<longleftrightarrow> (\<forall>a\<in>set p. level_block a \<in> {TBLOCK_SUBINPROGRESS, TBLOCK_SUBABORT}) \<and>
     (if p = [] then level_block q = TBLOCK_ABORT
      else level_block (hd p) = TBLOCK_SUBABORT \<and> level_block q = TBLOCK_INPROGRESS)"

lemma gives_mark_abort:
  assumes "\<forall>a\<in>set p. level_block a \<in> {TBLOCK_SUBINPROGRESS, TBLOCK_SUBABORT}"
    and "level_block q \<in> {TBLOCK_INPROGRESS, TBLOCK_ABORT}"
  shows "gives (mark_all fn abort_sub abort_top) (p @ [q]) (map (remark abort_sub) p @ [remark abort_top q]) E"
proof -
  obtain b where "abort_top (level_block q) = Some b" using assms(2) by (auto simp: abort_top_def)
  then show ?thesis using assms(1) by (intro gives_mark_all) (auto simp: abort_sub_def)
qed

lemma gives_End_failed:
  assumes "aborted_levels p q"
  shows "gives (\<lambda>s. snd (EndTransactionBlock s)) (p @ [q]) (map (remark abort_sub) p @ [remark abort_top q]) E"
proof (cases p)
  case Nil
  then show ?thesis
    by (cases q) (use assms in \<open>auto intro!: gives_cong [OF _ gives_block] simp: EndTransactionBlock_def cur_block
        abort_top_def aborted_levels_def\<close>)
next
  case (Cons a r)
  have "gives (mark_all ''EndTransactionBlock'' abort_sub abort_top) (p @ [q]) (map (remark abort_sub) p @ [remark abort_top q]) E"
    using assms Cons by (intro gives_mark_abort) (auto simp: aborted_levels_def)
  then show ?thesis
    by (rule gives_cong [rotated]) (use assms Cons in \<open>auto simp: EndTransactionBlock_def cur_block aborted_levels_def\<close>)
qed

lemma gives_UserAbort:
  assumes "\<forall>a\<in>set p. level_block a \<in> {TBLOCK_SUBINPROGRESS, TBLOCK_SUBABORT}"
    and "level_block q \<in> {TBLOCK_INPROGRESS, TBLOCK_ABORT}"
  shows "gives UserAbortTransactionBlock (p @ [q]) (map (remark abort_sub) p @ [remark abort_top q]) E"
proof (cases p)
  case Nil
  then show ?thesis
    by (cases q) (use assms in \<open>auto intro!: gives_cong [OF _ gives_block] simp: UserAbortTransactionBlock_def cur_block
        abort_top_def\<close>)
next
  case (Cons a r)
  show ?thesis
    by (rule gives_cong [OF _ gives_mark_abort [OF assms, of "''UserAbortTransactionBlock''"]])
      (use assms Cons in \<open>auto simp: UserAbortTransactionBlock_def cur_block\<close>)
qed

lemma gives_end_abort:
  assumes e: "only_errors e" and p: "\<forall>a\<in>set p. level_block a \<in> {TBLOCK_SUBINPROGRESS, TBLOCK_SUBABORT}"
    and q: "b = TBLOCK_INPROGRESS \<or> b = TBLOCK_ABORT \<and> x = TRANS_ABORT"
  shows "gives (CommitTransactionCommand e) (map (remark abort_sub) p @ [remark abort_top (x, b, None, l, d)])
      (idle_view l) (doomed l Idle)"
proof -
  let ?q = "remark abort_top (x, b, None, l, d)"
  have dm: "doomed l Idle [?q]" using q by (auto simp: abort_top_def)
  have top: "gives (CommitTransactionCommand e) [?q] (idle_view l) (doomed l Idle)"
    using q gives_end_idle [OF e, of TBLOCK_ABORT_PENDING] gives_end_failed [OF e] by (auto simp: abort_top_def)
  show ?thesis
    by (rule gives_end_pops [OF e _ _ dm top]) (use p in \<open>auto simp: abort_sub_def split: if_splits\<close>)
qed

lemma doomed_abort:
  assumes "\<forall>a\<in>set p. level_block a \<in> {TBLOCK_SUBINPROGRESS, TBLOCK_SUBABORT}"
    and "b = TBLOCK_INPROGRESS \<or> b = TBLOCK_ABORT \<and> x = TRANS_ABORT"
  shows "doomed l Idle (map (remark abort_sub) p @ [remark abort_top (x, b, None, l, d)])"
proof (subst doomed_append)
  show "\<forall>a\<in>set (map (remark abort_sub) p). level_block a \<in> popped" using assms(1) by (auto simp: abort_sub_def popped_def)
qed (use assms(2) in \<open>auto simp: abort_top_def\<close>)

lemma gives_end_commit:
  assumes e: "only_errors e" and b: "b \<in> {TBLOCK_END, TBLOCK_PREPARE}" and p: "\<forall>a\<in>set p. level_block a = TBLOCK_SUBCOMMIT"
  shows "gives (CommitTransactionCommand e) (p @ [(x, b, None, l, d)]) (idle_view l) (doomed l Idle)"
proof (cases "p = []")
  case True
  then show ?thesis using gives_end_idle [OF e, of b] b by auto
next
  case False
  let ?q = "(x, b, None, l, d)"
  have dm: "doomed l Idle [?q]" using b by auto
  have loop: "gives (commit_while e TBLOCK_SUBCOMMIT) (p @ [?q]) [?q] (doomed l Idle)"
    by (rule gives_commit_while [OF e p]) (use False b dm in \<open>auto simp: popped_def\<close>)
  have "gives (\<lambda>s. if blockState (cur s) = TBLOCK_END then steps [CommitTransaction e, set_block TBLOCK_DEFAULT] s
       else if blockState (cur s) = TBLOCK_PREPARE then steps [PrepareTransaction e, set_block TBLOCK_DEFAULT] s
       else raise (ERROR ''CommitTransactionCommand: unexpected state'') s) [?q] (idle_view l) (doomed l Idle)"
    by (rule gives_cong [OF _ gives_end_idle [OF e, of b]])
      (use b cur_of_view in \<open>auto simp: CommitTransactionCommand.simps [of e]\<close>)
  note all = gives_step [OF loop, unfolded steps_one, of "[_]", unfolded steps_one, OF this]
  show ?thesis
    by (rule gives_cong [OF _ all]) (use False p in \<open>auto simp: CommitTransactionCommand.simps [of e] cur_block hd_append\<close>)
qed

subsection \<open>Levels of a session\<close>

lemma live_at:
  "k < length ns \<Longrightarrow> \<exists>p. block_view l ns =
     p @ sub_level TRANS_INPROGRESS TBLOCK_SUBINPROGRESS (ns ! k) l (length ns - Suc k) # block_view l (drop (Suc k) ns) \<and>
     length p = k \<and> (\<forall>a\<in>set p. level_block a = TBLOCK_SUBINPROGRESS)"
proof (induction ns arbitrary: k)
  case (Cons n ns)
  show ?case
  proof (cases k)
    case (Suc j)
    then obtain p where "block_view l ns = p @ sub_level TRANS_INPROGRESS TBLOCK_SUBINPROGRESS (ns ! j) l (length ns - Suc j) #
        block_view l (drop (Suc j) ns)" "length p = j" "\<forall>a\<in>set p. level_block a = TBLOCK_SUBINPROGRESS"
      using Cons by auto
    then show ?thesis
      by (intro exI [of _ "sub_level TRANS_INPROGRESS TBLOCK_SUBINPROGRESS n l (length ns) # p"])
        (simp add: Suc sub_level_def)
  qed simp
qed simp

lemma failed_at:
  assumes "k < length ns"
  shows "\<exists>p x b d. session_view l (Failed ns) = p @ (x, b, Some (ns ! k), l, d) # block_view l (drop (Suc k) ns) \<and> length p = k \<and>
     b \<in> {TBLOCK_SUBINPROGRESS, TBLOCK_SUBABORT} \<and> (\<forall>a\<in>set p. level_block a \<in> {TBLOCK_SUBINPROGRESS, TBLOCK_SUBABORT})"
proof (cases ns)
  case (Cons n ms)
  let ?h = "sub_level TRANS_ABORT TBLOCK_SUBABORT n l (length ms)"
  show ?thesis
  proof (cases k)
    case 0
    then show ?thesis by (intro exI [of _ "[]"]) (auto simp: Cons sub_level_def)
  next
    case (Suc j)
    obtain p where "block_view l ms = p @ sub_level TRANS_INPROGRESS TBLOCK_SUBINPROGRESS (ms ! j) l (length ms - Suc j) #
        block_view l (drop (Suc j) ms)" "length p = j" "\<forall>a\<in>set p. level_block a = TBLOCK_SUBINPROGRESS"
      using live_at [of j ms l] assms Cons Suc by auto
    then show ?thesis by (intro exI [of _ "?h # p"]) (auto simp: Cons Suc sub_level_def)
  qed
qed (use assms in simp)

lemma failed_split:
  "\<exists>p x b. session_view l (Failed ns) = p @ [(x, b, None, l, 1)] \<and> aborted_levels p (x, b, None, l, 1) \<and>
     (\<forall>a\<in>set p. level_block a \<in> {TBLOCK_SUBINPROGRESS, TBLOCK_SUBABORT}) \<and>
     (b = TBLOCK_INPROGRESS \<or> b = TBLOCK_ABORT \<and> x = TRANS_ABORT)"
proof (cases ns)
  case (Cons n ms)
  obtain p where "block_view l ms = p @ [top_level TRANS_INPROGRESS TBLOCK_INPROGRESS l]" "\<forall>a\<in>set p. level_block a = TBLOCK_SUBINPROGRESS"
    using live_split [of l ms] by blast
  then show ?thesis
    by (intro exI [of _ "sub_level TRANS_ABORT TBLOCK_SUBABORT n l (length ms) # p"])
      (auto simp: Cons aborted_levels_def top_level_def sub_level_def)
qed (auto simp: aborted_levels_def top_level_def)

lemma find_nth: "find_savepoint n ns = Some k \<Longrightarrow> ns ! k = n \<and> drop k ns = n # drop (Suc k) ns"
proof -
  assume k: "find_savepoint n ns = Some k"
  then have "ns ! k = n"
    using nth_length_takeWhile [of "\<lambda>m. m \<noteq> n" ns] find_less [OF k] by (auto simp: find_savepoint_def split: if_splits)
  then show ?thesis using find_less [OF k] by (simp add: Cons_nth_drop_Suc [symmetric])
qed

subsection \<open>The savepoint commands\<close>

lemma gives_rollback_to:
  assumes e: "only_errors e" and v: "v = p @ (x, b, Some n, l, d) # block_view l r" and k: "length p = k"
    and b: "b \<in> {TBLOCK_SUBINPROGRESS, TBLOCK_SUBABORT}"
    and p: "\<forall>a\<in>set p. level_block a \<in> {TBLOCK_SUBINPROGRESS, TBLOCK_SUBABORT}"
    and nm: "named l ns v" and f: "find_savepoint n ns = Some k"
  shows "\<exists>u. gives (RollbackToSavepoint n) v u (doomed l (Failed r)) \<and> doomed l (Failed r) u \<and>
      gives (CommitTransactionCommand e) u (block_view l (n # r)) (doomed l (Failed r))"
proof -
  let ?E = "doomed l (Failed r)" and ?a = "(x, b, Some n, l, d)"
  let ?u = "map (remark abort_sub) p @ remark restart_sub ?a # block_view l r"
  have "\<forall>a\<in>set (take k v). abort_sub (level_block a) \<noteq> None"
    using p k by (auto simp: v abort_sub_def)
  then have marks: "gives (mark_levels fn abort_sub k) v (map (remark abort_sub) p @ ?a # block_view l r) ?E" for fn
    using gives_mark [of k v abort_sub fn ?E] k by (simp add: v)
  have target: "gives (mark_target fn restart_sub k) (map (remark abort_sub) p @ ?a # block_view l r) ?u ?E" for fn
  proof -
    obtain b' where "restart_sub b = Some b'" using b by (auto simp: restart_sub_def)
    then show ?thesis
      using gives_mark_target [of restart_sub ?a _ fn "map (remark abort_sub) p" "block_view l r" ?E] k by simp
  qed
  have both: "gives (with_target n (\<lambda>k. steps [mark_levels ''RollbackToSavepoint'' abort_sub k,
      mark_target ''RollbackToSavepoint'' restart_sub k])) v ?u ?E"
    by (rule gives_target(2) [OF nm f], rule gives_step [OF marks], unfold steps_one, rule target)
  have hd: "level_block (hd v) \<in> {TBLOCK_SUBINPROGRESS, TBLOCK_SUBABORT}" and ne: "v \<noteq> []"
    using b p by (cases p; simp add: v)+
  have roll: "gives (RollbackToSavepoint n) v ?u ?E"
    by (rule gives_cong [OF _ both]) (use hd ne in \<open>auto simp: RollbackToSavepoint_def Let_def cur_block\<close>)
  obtain b' alive where b': "remark restart_sub ?a = (x, b', Some n, l, d)"
      "b' = TBLOCK_SUBRESTART \<and> alive \<or> b' = TBLOCK_SUBABORT_RESTART \<and> \<not> alive"
    using b that [of TBLOCK_SUBRESTART True] that [of TBLOCK_SUBABORT_RESTART False] by (auto simp: restart_sub_def)
  have dm: "doomed l (Failed r) (remark restart_sub ?a # block_view l r)"
    unfolding b'(1) using b'(2) doomed_any(2) [of b' l "Failed r" x "Some n" l d "block_view l r"] by auto
  then have "gives (CommitTransactionCommand e) ?u (block_view l (n # r)) ?E"
    using gives_end_restart [OF e b'(2)] p unfolding b'(1)
    by (intro gives_end_pops [OF e]) (auto simp: abort_sub_def)
  moreover have "\<forall>a\<in>set (map (remark abort_sub) p). level_block a \<in> popped"
    using p by (auto simp: abort_sub_def popped_def)
  then have "doomed l (Failed r) ?u" using dm by (subst doomed_append) simp_all
  ultimately show ?thesis using roll by blast
qed

lemma gives_release:
  assumes e: "only_errors e" and f: "find_savepoint n ns = Some k"
  shows "\<exists>u. gives (ReleaseSavepoint n) (block_view l ns) u (doomed l (Failed (drop (Suc k) ns))) \<and>
      doomed l (Failed (drop (Suc k) ns)) u \<and>
      gives (CommitTransactionCommand e) u (block_view l (drop (Suc k) ns)) (doomed l (Failed (drop (Suc k) ns)))"
proof -
  let ?r = "drop (Suc k) ns" let ?E = "doomed l (Failed ?r)" and ?f = "\<lambda>_. Some TBLOCK_SUBRELEASE"
  obtain p a where v: "block_view l ns = p @ a # block_view l ?r" "length p = k" "\<forall>a\<in>set p. level_block a = TBLOCK_SUBINPROGRESS"
      "level_block a = TBLOCK_SUBINPROGRESS"
    using live_at [OF find_less [OF f], of l] by (auto simp: sub_level_def)
  let ?q = "map (remark ?f) (p @ [a])"
  have marks: "gives (mark_levels fn ?f (Suc k)) (block_view l ns) (?q @ block_view l ?r) ?E" for fn
    using gives_mark [of "Suc k" "block_view l ns" ?f fn ?E] by (simp add: v)
  have both: "gives (with_target n (\<lambda>k. mark_levels ''ReleaseSavepoint'' ?f (Suc k))) (block_view l ns) (?q @ block_view l ?r) ?E"
    by (rule gives_target(2) [OF named_session(2) f]) (rule marks)
  have hd: "level_block (hd (block_view l ns)) = TBLOCK_SUBINPROGRESS" using v by (cases p) auto
  have "gives (ReleaseSavepoint n) (block_view l ns) (?q @ block_view l ?r) ?E"
    by (rule gives_cong [OF _ both]) (use hd in \<open>auto simp: ReleaseSavepoint_def cur_block\<close>)
  moreover have "gives (commit_while e TBLOCK_SUBRELEASE) (?q @ block_view l ?r) (block_view l ?r) ?E"
    by (rule gives_commit_while [OF e]) (auto simp: popped_def live_head, cases ?r, auto simp: top_level_def sub_level_def)
  then have "gives (CommitTransactionCommand e) (?q @ block_view l ?r) (block_view l ?r) ?E"
  proof (rule gives_cong [rotated])
    have "level_block (hd (?q @ block_view l ?r)) = TBLOCK_SUBRELEASE" by (cases p; cases a; cases "hd p") auto
    then show "CommitTransactionCommand e s = commit_while e TBLOCK_SUBRELEASE s" if "view s = ?q @ block_view l ?r" for s
      using cur_block [OF that] by (simp add: CommitTransactionCommand.simps [of e])
  qed
  moreover have "doomed l (Failed ?r) (?q @ block_view l ?r)" by (subst doomed_append) (auto simp: popped_def)
  ultimately show ?thesis by blast
qed

subsection \<open>The simulation\<close>

definition in_command :: "int \<Rightarrow> session \<Rightarrow> level_view list" where
  "in_command l S = (case S of Idle \<Rightarrow> [top_level TRANS_INPROGRESS TBLOCK_STARTED l] | _ \<Rightarrow> session_view l S)"

text \<open>An error outside the statement itself: a block fails as a whole.\<close>

definition fail_session :: "session \<Rightarrow> session" where
  "fail_session S = (case S of Block ns \<Rightarrow> Failed ns | _ \<Rightarrow> S)"

lemma fail_session_simps [simp]:
  "fail_session Idle = Idle" "fail_session (Block ns) = Failed ns" "fail_session (Failed ns) = Failed ns"
  by (simp_all add: fail_session_def)

lemma doomed_rest: "doomed l (fail_session S) (session_view l S)" "doomed l (fail_session S) (in_command l S)"
  using doomed_session [of l S] by (cases S; simp add: fail_session_def in_command_def top_level_def)+

lemma doomed_stays: "doomed l T v \<Longrightarrow> fail_session T = T"
  by (induction l T v rule: doomed.induct) (auto split: if_splits session.splits)

lemma gives_begin_command:
  assumes e: "only_errors e"
  shows "gives (StartTransactionCommand e) (session_view l S) (in_command l S) (doomed l (fail_session S))"
proof (cases S)
  case Idle
  let ?v = "[(TRANS_DEFAULT, TBLOCK_DEFAULT, None, l, 0)]"
  have "gives (steps [StartTransaction e, set_block TBLOCK_STARTED]) ?v (in_command l S) (doomed l Idle)"
    unfolding in_command_def Idle session.case top_level_def
    by (rule gives_step [OF gives_Start [OF e]], simp, simp, unfold steps_one, rule gives_block)
  then show ?thesis
    unfolding Idle session_view.simps idle_view_def fail_session_simps
    by (rule gives_cong [rotated]) (use cur_of_view in \<open>auto simp: StartTransactionCommand_def\<close>)
next
  case (Block ns)
  then show ?thesis
    by (cases ns) (auto intro!: gives_same simp: in_command_def StartTransactionCommand_def cur_block top_level_def sub_level_def)
next
  case (Failed ns)
  then show ?thesis
    by (cases ns) (auto intro!: gives_same simp: in_command_def StartTransactionCommand_def cur_block top_level_def sub_level_def)
qed

lemma gives_never: "(\<And>u. gives f v u E) \<Longrightarrow> gives (steps (f # fs)) v w E"
proof -
  assume f: "\<And>u. gives f v u E"
  have ne: "fst (f s) \<noteq> None" if "view s = v" for s
    using f [of "[]", unfolded gives_def, rule_format, OF that]
      f [of "[undefined]", unfolded gives_def, rule_format, OF that] by (cases "f s"; cases "fst (f s)") simp_all
  have *: "\<exists>err. f s = (Some err, snd (f s))" if "view s = v" for s
    using ne [OF that] by (cases "f s") auto
  show ?thesis
    unfolding gives_def
  proof (intro allI impI)
    fix s assume s: "view s = v"
    obtain err where "f s = (Some err, snd (f s))" using * [OF s] by blast
    then show "case steps (f # fs) s of (None, s') \<Rightarrow> view s' = w | (Some err, s') \<Rightarrow> (\<forall>m. err \<noteq> FATAL m) \<and> E (view s')"
      using f [of "[]", unfolded gives_def, rule_format, OF s] by (cases "f s") (simp add: steps.simps(2))
  qed
qed

text \<open>The part of a query before the statement acts, and the statements that a failed block refuses.\<close>

definition refused :: "session \<Rightarrow> statement \<Rightarrow> bool" where
  "refused S stmt \<longleftrightarrow> (case S of Failed ns \<Rightarrow> \<not> IsTransactionExitStmt stmt | _ \<Rightarrow> False)"

lemma aborted_in_command:
  "view s = in_command l S \<Longrightarrow> IsAbortedTransactionBlockState s \<longleftrightarrow> (case S of Failed ns \<Rightarrow> True | _ \<Rightarrow> False)"
  by (cases S; cases "case S of Block ns \<Rightarrow> ns | Failed ns \<Rightarrow> ns | _ \<Rightarrow> []")
    (auto simp: in_command_def IsAbortedTransactionBlockState_def cur_block top_level_def sub_level_def)

lemma quiet_only: "quiet f \<Longrightarrow> quiet (only b f)"
  by (simp add: quiet_simps)

lemma gives_query_start:
  assumes e: "only_errors e" and w: "refused S stmt \<or> w = in_command l S"
  shows "gives (exec_query_start e stmt) (session_view l S) w (doomed l (fail_session S))"
proof -
  let ?v = "session_view l S" and ?w = "in_command l S" and ?E = "doomed l (fail_session S)"
  have q: "quiet (calls e cs)" "quiet (call e c)" "quiet (only b (calls e cs))" for b c cs by (simp_all add: quiet_simps e)
  note quietly = gives_quiet_step [where E = ?E and v = ?w, OF _ _ doomed_rest(2)]
  have begin': "gives (start_xact_command e) ?v ?w ?E"
    unfolding start_xact_command_def
    by (rule gives_step [OF gives_begin_command [OF e]], rule quietly [OF gives_Nil q(2)])
  let ?check = "\<lambda>s. only (IsAbortedTransactionBlockState s \<and> \<not> IsTransactionExitStmt stmt)
      (raise (ERROR ''current transaction is aborted, commands ignored until end of transaction block'')) s"
  have check: "gives (steps (?check # fs)) ?w w ?E" if "gives (steps fs) ?w ?w ?E" for fs
  proof (cases "refused S stmt")
    case True
    show ?thesis
      by (rule gives_fail(2) [where E = ?E and v = ?w, OF _ doomed_rest(2)])
        (use True aborted_in_command in \<open>auto simp: only_def raise_def refused_def split: session.splits\<close>)
  next
    case False
    then have "gives ?check ?w ?w ?E"
      by (intro gives_skip) (use aborted_in_command in \<open>fastforce simp: refused_def split: session.splits\<close>)
    then show ?thesis using w False that by (auto intro: gives_step)
  qed
  show ?thesis
    unfolding exec_query_start_def
    by (rule gives_quiet_step [where E = ?E and v = ?v, OF _ q(2) doomed_rest(1)], rule gives_step [OF begin'], rule quietly [OF _ q(1)],
        rule quietly [OF _ q(1)], rule check, (rule quietly [OF _ q(1)] quietly [OF _ q(2)] quietly [OF _ q(3)])+, rule gives_Nil)
qed

text \<open>What a statement has to do, from the state in which it acts to the end of its command.\<close>

definition implements :: "xact_services \<Rightarrow> int \<Rightarrow> statement \<Rightarrow> session \<Rightarrow> session option \<times> session \<Rightarrow> bool" where
  "implements e l stmt S r \<longleftrightarrow> refused S stmt \<or>
     (\<forall>w. (case fst r of None \<Rightarrow> True | Some T \<Rightarrow> w = session_view l T) \<longrightarrow>
        gives (exec_query_run e stmt) (in_command l S) w (doomed l (snd r)))"

lemma implements_ok:
  assumes e: "only_errors e" and "gives (ProcessTransactionStmt e True stmt) (in_command l S) u (doomed l F)"
    and d: "doomed l F u" and "gives (CommitTransactionCommand e) u (session_view l T) (doomed l F)"
  shows "implements e l stmt S (Some T, F)"
proof -
  have q: "quiet (calls e cs)" "quiet (call e c)" for cs c by (simp_all add: quiet_simps e)
  have "gives (finish_xact_command e) u (session_view l T) (doomed l F)"
    unfolding finish_xact_command_def by (rule gives_quiet_step [where E = "doomed l F" and v = u, OF _ q(2) d]) (simp add: steps_one assms(4))
  then have "gives (exec_query_run e stmt) (in_command l S) (session_view l T) (doomed l F)"
    unfolding exec_query_run_def
    by (intro gives_step [OF assms(2)] gives_quiet_step [where E = "doomed l F" and v = u, OF _ q(1) d]) (simp add: steps_one)
  then show ?thesis by (simp add: implements_def)
qed

lemma implements_fail:
  assumes "\<And>u. gives (ProcessTransactionStmt e True stmt) (in_command l S) u (doomed l F)"
  shows "implements e l stmt S (None, F)"
  unfolding implements_def exec_query_run_def using gives_never [OF assms] by simp

definition ordinary :: "statement \<Rightarrow> bool" where
  "ordinary stmt \<longleftrightarrow> (case stmt of OtherStmt f \<Rightarrow> frames f \<and> calm f | _ \<Rightarrow> True)"

abbreviation in_recovery :: "xact_services \<Rightarrow> bool" where
  "in_recovery e \<equiv> RecoveryInProgress (serverMode (xmode e))"

lemma gives_not_in_recovery:
  "in_recovery e \<Longrightarrow> E v \<Longrightarrow> gives (steps (PreventCommandDuringRecovery e # fs)) v w E"
  "\<not> in_recovery e \<Longrightarrow> gives (steps fs) v w E \<Longrightarrow> gives (steps (PreventCommandDuringRecovery e # fs)) v w E"
proof -
  show "gives (steps (PreventCommandDuringRecovery e # fs)) v w E" if "in_recovery e" "E v"
    by (rule gives_fail(2)) (use that in \<open>auto simp: PreventCommandDuringRecovery_def only_def raise_def\<close>)
  show "gives (steps (PreventCommandDuringRecovery e # fs)) v w E" if "\<not> in_recovery e" "gives (steps fs) v w E"
    by (rule gives_step [OF gives_same that(2)]) (use that(1) in \<open>simp add: PreventCommandDuringRecovery_def only_def\<close>)
qed

text \<open>Sessions without a block.\<close>

lemma idle_implements:
  assumes e: "only_errors e" and "ordinary stmt"
  shows "implements e l stmt Idle (client_step (in_recovery e) stmt Idle)"
proof -
  let ?v = "[(TRANS_INPROGRESS, TBLOCK_STARTED, None, l, 1)]" and ?E = "doomed l Idle"
  have v: "in_command l Idle = ?v" by (simp add: in_command_def top_level_def)
  have at: "blockState (cur s) = TBLOCK_STARTED \<and> nestingLevel (cur s) = 1" if "view s = ?v" for s
    using cur_of_view [OF that] by simp
  have last: "blockState (last (trans s)) = TBLOCK_STARTED" if "view s = ?v" for s
    using that by (auto simp: level_view_def dest!: view_ConsD)
  note fin = gives_end_idle [OF e, of TBLOCK_STARTED TRANS_INPROGRESS l 1, simplified]
  have ok: "implements e l stmt Idle (Some Idle, Idle)"
    if "gives (ProcessTransactionStmt e True stmt) ?v ?v ?E" for stmt
    by (rule implements_ok [OF e, where u = ?v]) (use that fin in \<open>simp_all add: v\<close>)
  have bad: "implements e l stmt Idle (None, Idle)"
    if "\<And>u. gives (ProcessTransactionStmt e True stmt) ?v u ?E" for stmt
    by (rule implements_fail) (use that in \<open>simp_all add: v\<close>)
  have quiet_calls: "quiet (calls e cs)" "quiet (call e c)" "quiet (warn m)" for cs c m by (simp_all add: quiet_simps e)
  have no_chain: "gives (steps (PreventTransactionChain True m # fs)) ?v u ?E" if "gives (steps fs) ?v u ?E" for m fs u
    by (rule gives_step [OF gives_same that])
      (use at in \<open>simp add: PreventTransactionChain_def IsTransactionBlock_def IsSubTransaction_def\<close>)
  have need_chain: "gives (steps (RequireTransactionChain True m # fs)) ?v u ?E" for m fs u
    by (rule gives_fail(2)) (use at in \<open>auto simp: RequireTransactionChain_def CheckTransactionChain_def Let_def
        IsTransactionBlock_def IsSubTransaction_def raise_def\<close>)
  have prepared: "implements e l stmt Idle (if in_recovery e then None else Some Idle, Idle)"
    if p: "ProcessTransactionStmt e True stmt = steps [PreventTransactionChain True m, PreventCommandDuringRecovery e, call e c]"
    for stmt m c
  proof (cases "in_recovery e")
    case True
    then have "gives (ProcessTransactionStmt e True stmt) ?v u ?E" for u
      unfolding p by (intro no_chain gives_not_in_recovery(1)) simp_all
    then show ?thesis using bad True by simp
  next
    case False
    then have "gives (ProcessTransactionStmt e True stmt) ?v ?v ?E"
      unfolding p by (intro no_chain gives_not_in_recovery(2)) (unfold steps_one, auto intro: gives_quiet quiet_calls)
    then show ?thesis using ok False by simp
  qed
  show ?thesis
  proof (cases stmt)
    case (TRANS_STMT_BEGIN opts)
    let ?u = "[(TRANS_INPROGRESS, TBLOCK_BEGIN, None, l, 1)]"
    have "gives BeginTransactionBlock ?v ?u ?E"
      by (rule gives_cong [OF _ gives_block]) (use at in \<open>simp add: BeginTransactionBlock_def\<close>)
    then have "gives (steps [BeginTransactionBlock, calls e cs]) ?v ?u ?E" for cs
      by (rule gives_step) (unfold steps_one, rule gives_quiet, rule quiet_calls, simp)
    then show ?thesis
      unfolding TRANS_STMT_BEGIN client_step.simps
      by (intro implements_ok [OF e, where u = ?u])
        (use gives_end_begin in \<open>simp_all add: v ProcessTransactionStmt_def\<close>)
  next
    case TRANS_STMT_COMMIT
    have "gives (\<lambda>s. report (EndTransactionBlock s)) ?v ?v ?E"
      by (rule gives_report, rule gives_cong [OF _ gives_quiet [OF quiet_calls(3)]])
        (use at in \<open>auto simp: EndTransactionBlock_def\<close>)
    then show ?thesis unfolding TRANS_STMT_COMMIT client_step.simps by (intro ok) (simp add: ProcessTransactionStmt_def)
  next
    case (TRANS_STMT_PREPARE gid)
    have "gives (\<lambda>s. report (PrepareTransactionBlock e gid s)) ?v ?v ?E"
    proof (rule gives_report, rule gives_cong [OF _ gives_quiet [OF quiet_calls(3)]])
      fix s assume s: "view s = ?v"
      then have "view (snd (warn m s)) = ?v" for m by (simp add: warn_def assign_def)
      then have "blockState (last (trans (snd (warn m s)))) = TBLOCK_STARTED" for m by (rule last)
      then show "snd (PrepareTransactionBlock e gid s) = warn ''there is no transaction in progress'' s"
        using at [OF s] by (simp add: PrepareTransactionBlock_def EndTransactionBlock_def warn_def assign_def)
    qed simp
    then have "\<not> in_recovery e \<Longrightarrow> gives (ProcessTransactionStmt e True stmt) ?v ?v ?E"
      unfolding TRANS_STMT_PREPARE ProcessTransactionStmt_def statement.case
      by (intro gives_not_in_recovery(2)) (simp_all add: steps_one)
    moreover have "in_recovery e \<Longrightarrow> gives (ProcessTransactionStmt e True stmt) ?v u ?E" for u
      unfolding TRANS_STMT_PREPARE ProcessTransactionStmt_def statement.case
      by (intro gives_not_in_recovery(1)) simp_all
    ultimately show ?thesis using ok bad by (simp add: TRANS_STMT_PREPARE)
  next
    case (TRANS_STMT_COMMIT_PREPARED gid)
    show ?thesis unfolding TRANS_STMT_COMMIT_PREPARED client_step.simps
      by (rule prepared) (simp add: ProcessTransactionStmt_def)
  next
    case (TRANS_STMT_ROLLBACK_PREPARED gid)
    show ?thesis unfolding TRANS_STMT_ROLLBACK_PREPARED client_step.simps
      by (rule prepared) (simp add: ProcessTransactionStmt_def)
  next
    case TRANS_STMT_ROLLBACK
    let ?u = "[(TRANS_INPROGRESS, TBLOCK_ABORT_PENDING, None, l, 1)]"
    have "gives (steps [warn m, set_block TBLOCK_ABORT_PENDING]) ?v ?u ?E" for m
      by (rule gives_quiet_step, unfold steps_one, rule gives_block, rule quiet_calls, simp)
    then have "gives UserAbortTransactionBlock ?v ?u ?E"
      by (rule gives_cong [rotated]) (use at in \<open>simp add: UserAbortTransactionBlock_def\<close>)
    then show ?thesis
      unfolding TRANS_STMT_ROLLBACK client_step.simps
      by (intro implements_ok [OF e, where u = ?u])
        (use gives_end_idle [OF e] in \<open>simp_all add: v ProcessTransactionStmt_def\<close>)
  next
    case (TRANS_STMT_SAVEPOINT n)
    show ?thesis unfolding TRANS_STMT_SAVEPOINT client_step.simps
      by (rule bad) (simp add: ProcessTransactionStmt_def need_chain)
  next
    case (TRANS_STMT_RELEASE n)
    show ?thesis unfolding TRANS_STMT_RELEASE client_step.simps
      by (rule bad) (simp add: ProcessTransactionStmt_def need_chain)
  next
    case (TRANS_STMT_ROLLBACK_TO n)
    show ?thesis unfolding TRANS_STMT_ROLLBACK_TO client_step.simps
      by (rule bad) (simp add: ProcessTransactionStmt_def need_chain)
  next
    case (OtherStmt f)
    then have "quiet f" using assms(2) by (simp add: ordinary_def quiet_def)
    then show ?thesis unfolding OtherStmt client_step.simps
      by (intro ok) (simp add: ProcessTransactionStmt_def gives_quiet)
  qed
qed

text \<open>Sessions in a block.\<close>

lemma gives_Prepare_marks:
  assumes e: "only_errors e" and End: "gives (\<lambda>s. snd (EndTransactionBlock s)) v (p @ [(x, TBLOCK_END, r)]) E"
    and t: "\<And>s. view s = v \<Longrightarrow> fst (EndTransactionBlock s)" and E: "E (p @ [(x, TBLOCK_END, r)])"
  shows "gives (\<lambda>s. snd (PrepareTransactionBlock e gid s)) v (p @ [(x, TBLOCK_PREPARE, r)]) E"
proof -
  let ?mark = "\<lambda>s. set_trans (butlast (trans s) @ [(last (trans s))\<lparr>blockState := TBLOCK_PREPARE\<rparr>]) (s\<lparr>prepareGID := Some gid\<rparr>)"
  have split: "\<exists>cs c. trans s = cs @ [c] \<and> map level_view cs = p \<and> level_view c = (x, TBLOCK_END, r)"
    if "view s = p @ [(x, TBLOCK_END, r)]" for s
    using that by (auto simp: view_def map_eq_append_conv)
  have mark: "gives (steps [call e (Call ''MemoryContextStrdup'' []), assign ?mark]) (p @ [(x, TBLOCK_END, r)])
      (p @ [(x, TBLOCK_PREPARE, r)]) E"
    by (rule gives_quiet_step, unfold steps_one, rule gives_assign, drule split)
      (auto simp: level_view_def, simp_all add: quiet_simps e E)
  show ?thesis
  proof (rule gives_cong [OF _ gives_step [OF End mark]])
    fix s assume s: "view s = v"
    obtain o1 s1 where End_s: "EndTransactionBlock s = (True, o1, s1)"
      using t [OF s] by (cases "EndTransactionBlock s") auto
    show "snd (PrepareTransactionBlock e gid s) = steps [\<lambda>s. snd (EndTransactionBlock s),
        call e (Call ''MemoryContextStrdup'' []), assign ?mark] s"
    proof (cases o1)
      case None
      then have "view s1 = p @ [(x, TBLOCK_END, r)]"
        using End [unfolded gives_def, rule_format, OF s] End_s by simp
      then have "blockState (last (trans s1)) = TBLOCK_END" using split by (fastforce simp: level_view_def)
      then show ?thesis using None by (simp add: PrepareTransactionBlock_def End_s steps.simps(2) [of _ "_ # _"])
    qed (simp add: PrepareTransactionBlock_def End_s steps.simps(2) [of _ "_ # _"])
  qed
qed

lemma block_implements:
  assumes e: "only_errors e" and "ordinary stmt"
  shows "implements e l stmt (Block ns) (client_step (in_recovery e) stmt (Block ns))"
proof -
  let ?v = "block_view l ns"
  have v: "in_command l (Block ns) = ?v" by (simp add: in_command_def)
  obtain p where p: "?v = p @ [(TRANS_INPROGRESS, TBLOCK_INPROGRESS, None, l, 1)]"
      "\<forall>a\<in>set p. level_block a = TBLOCK_SUBINPROGRESS" "length p = length ns"
    using live_split [of l ns] by (auto simp: top_level_def)
  have p': "\<forall>a\<in>set p. level_block a \<in> {TBLOCK_SUBINPROGRESS, TBLOCK_SUBABORT}" using p(2) by simp
  have at: "blockState (cur s) \<in> {TBLOCK_INPROGRESS, TBLOCK_SUBINPROGRESS}" if "view s = ?v" for s
    using cur_block [OF that] by (cases ns) (simp_all add: top_level_def sub_level_def)
  then have in_block: "IsTransactionBlock s" if "view s = ?v" for s
    using that by (fastforce simp: IsTransactionBlock_def)
  let ?c = "map (remark commit_sub) p"
  have committed: "\<forall>a\<in>set ?c. level_block a = TBLOCK_SUBCOMMIT" using p(2) by (auto simp: commit_sub_def)
  have End: "gives (\<lambda>s. snd (EndTransactionBlock s)) ?v (?c @ [(TRANS_INPROGRESS, TBLOCK_END, None, l, 1)]) E" for E
    using gives_End_live [OF p(2), of "(TRANS_INPROGRESS, TBLOCK_INPROGRESS, None, l, 1)" E] by (simp add: p(1) commit_top_def)
  have True_End: "fst (EndTransactionBlock s)" if "view s = ?v" for s
    using at [OF that] by (auto simp: EndTransactionBlock_def)
  have ended: "b \<in> {TBLOCK_END, TBLOCK_PREPARE} \<Longrightarrow> doomed l Idle (?c @ [(TRANS_INPROGRESS, b, None, l, 1)])" for b
    using committed by (subst doomed_append) (auto simp: popped_def)
  note ok = implements_ok [OF e, where S = "Block ns" and l = l, unfolded v]
    and bad = implements_fail [where S = "Block ns" and l = l, unfolded v]
  have quiet_calls: "quiet (calls e cs)" "quiet (call e c)" "quiet (warn m)" for cs c m by (simp_all add: quiet_simps e)
  have in_chain: "gives (steps (RequireTransactionChain True m # fs)) ?v u E" if "gives (steps fs) ?v u E" for m fs u E
    by (rule gives_step [OF gives_same that])
      (simp add: RequireTransactionChain_def CheckTransactionChain_def Let_def in_block)
  have no_chain: "gives (steps (PreventTransactionChain True m # fs)) ?v u (doomed l (Failed ns))" for m fs u
    by (rule gives_fail(2)) (use in_block in \<open>auto simp: PreventTransactionChain_def raise_def\<close>)
  have bad_name: "gives (with_target n f) ?v u (doomed l (Failed ns))" if "find_savepoint n ns = None" for n f u
    by (rule gives_target(1) [OF named_session(2) that]) simp
  have no_name: "gives (raise no_such_savepoint) ?v u (doomed l (Failed ns))" for u
    unfolding no_such_savepoint_def by (rule gives_raise) simp
  show ?thesis
  proof (cases stmt)
    case (TRANS_STMT_BEGIN opts)
    have "gives BeginTransactionBlock ?v ?v (doomed l (Failed ns))"
      by (rule gives_cong [OF _ gives_quiet [OF quiet_calls(3) [of "''there is already a transaction in progress''"]]])
        (use at in \<open>fastforce simp: BeginTransactionBlock_def\<close>, simp)
    then have "gives (steps [BeginTransactionBlock, calls e cs]) ?v ?v (doomed l (Failed ns))" for cs
      by (rule gives_step) (unfold steps_one, rule gives_quiet, rule quiet_calls, simp)
    then show ?thesis
      unfolding TRANS_STMT_BEGIN client_step.simps
      by (intro ok [where u = ?v]) (use gives_end_live [OF e] in \<open>simp_all add: ProcessTransactionStmt_def\<close>)
  next
    case TRANS_STMT_COMMIT
    show ?thesis
      unfolding TRANS_STMT_COMMIT client_step.simps
      by (rule ok [where u = "?c @ [(TRANS_INPROGRESS, TBLOCK_END, None, l, 1)]"])
        (use gives_report [OF End] gives_end_commit [OF e _ committed] ended in \<open>simp_all add: ProcessTransactionStmt_def\<close>)
  next
    case (TRANS_STMT_PREPARE gid)
    let ?u = "?c @ [(TRANS_INPROGRESS, TBLOCK_PREPARE, None, l, 1)]"
    have "gives (\<lambda>s. report (PrepareTransactionBlock e gid s)) ?v ?u (doomed l Idle)"
      by (rule gives_report, rule gives_Prepare_marks [OF e End], rule True_End, assumption, simp add: ended)
    then have "\<not> in_recovery e \<Longrightarrow> gives (ProcessTransactionStmt e True stmt) ?v ?u (doomed l Idle)"
      unfolding TRANS_STMT_PREPARE ProcessTransactionStmt_def statement.case
      by (intro gives_not_in_recovery(2)) (simp_all add: steps_one)
    then have "\<not> in_recovery e \<Longrightarrow> ?thesis"
      using gives_end_commit [OF e _ committed, of TBLOCK_PREPARE TRANS_INPROGRESS l 1] ended
      by (simp add: TRANS_STMT_PREPARE) (rule ok [where u = ?u], simp_all)
    moreover have "gives (ProcessTransactionStmt e True stmt) ?v u (doomed l (Failed ns))" if "in_recovery e" for u
      unfolding TRANS_STMT_PREPARE ProcessTransactionStmt_def statement.case
      by (rule gives_not_in_recovery(1)) (use that in simp_all)
    then have "in_recovery e \<Longrightarrow> ?thesis" by (simp add: TRANS_STMT_PREPARE) (rule bad, simp_all)
    ultimately show ?thesis by blast
  next
    case (TRANS_STMT_COMMIT_PREPARED gid)
    show ?thesis unfolding TRANS_STMT_COMMIT_PREPARED client_step.simps
      by (rule bad) (simp_all add: ProcessTransactionStmt_def no_chain)
  next
    case (TRANS_STMT_ROLLBACK_PREPARED gid)
    show ?thesis unfolding TRANS_STMT_ROLLBACK_PREPARED client_step.simps
      by (rule bad) (simp_all add: ProcessTransactionStmt_def no_chain)
  next
    case TRANS_STMT_ROLLBACK
    let ?q = "(TRANS_INPROGRESS, TBLOCK_INPROGRESS, None, l, 1)"
    have "doomed l Idle (map (remark abort_sub) p @ [remark abort_top ?q])" by (rule doomed_abort) (use p' in simp_all)
    then show ?thesis
      unfolding TRANS_STMT_ROLLBACK client_step.simps
      by (intro ok [where u = "map (remark abort_sub) p @ [remark abort_top ?q]"])
        (use gives_UserAbort [OF p', of ?q] gives_end_abort [OF e p'] in \<open>simp_all add: ProcessTransactionStmt_def p(1)\<close>)
  next
    case (TRANS_STMT_SAVEPOINT n)
    show ?thesis
      unfolding TRANS_STMT_SAVEPOINT client_step.simps
      by (rule ok) (simp add: ProcessTransactionStmt_def, rule in_chain, unfold steps_one, rule gives_define [OF e],
          simp, unfold session_view.simps, rule gives_end_subbegin [OF e])
  next
    case (TRANS_STMT_RELEASE n)
    show ?thesis
    proof (cases "find_savepoint n ns")
      case None
      have "gives (ReleaseSavepoint n) ?v u (doomed l (Failed ns))" for u
      proof (cases "level_block (hd ?v) = TBLOCK_SUBINPROGRESS")
        case True
        show ?thesis by (rule gives_cong [OF _ bad_name [OF None]]) (use True in \<open>auto simp: ReleaseSavepoint_def cur_block\<close>)
      next
        case False
        then show ?thesis by (intro gives_cong [OF _ no_name]) (use at cur_block in \<open>fastforce simp: ReleaseSavepoint_def\<close>)
      qed
      then show ?thesis
        by (simp add: TRANS_STMT_RELEASE None) (rule bad, simp_all add: ProcessTransactionStmt_def in_chain steps_one)
    next
      case (Some k)
      obtain u where "gives (ReleaseSavepoint n) ?v u (doomed l (Failed (drop (Suc k) ns)))" "doomed l (Failed (drop (Suc k) ns)) u"
        "gives (CommitTransactionCommand e) u (block_view l (drop (Suc k) ns)) (doomed l (Failed (drop (Suc k) ns)))"
        using gives_release [OF e Some, of l] by blast
      then show ?thesis
        by (simp add: TRANS_STMT_RELEASE Some)
          (rule ok [where u = u], simp_all add: ProcessTransactionStmt_def in_chain steps_one)
    qed
  next
    case (TRANS_STMT_ROLLBACK_TO n)
    show ?thesis
    proof (cases "find_savepoint n ns")
      case None
      have "gives (RollbackToSavepoint n) ?v u (doomed l (Failed ns))" for u
      proof (cases "level_block (hd ?v) = TBLOCK_SUBINPROGRESS")
        case True
        show ?thesis
          by (rule gives_cong [OF _ bad_name [OF None]]) (use True in \<open>auto simp: RollbackToSavepoint_def Let_def cur_block\<close>)
      next
        case False
        then show ?thesis by (intro gives_cong [OF _ no_name]) (use at cur_block in \<open>fastforce simp: RollbackToSavepoint_def\<close>)
      qed
      then show ?thesis
        by (simp add: TRANS_STMT_ROLLBACK_TO None) (rule bad, simp_all add: ProcessTransactionStmt_def in_chain steps_one)
    next
      case (Some k)
      obtain q where q: "?v = q @ (TRANS_INPROGRESS, TBLOCK_SUBINPROGRESS, Some n, l, int (length ns - Suc k) + 2) #
          block_view l (drop (Suc k) ns)" "length q = k" "\<forall>a\<in>set q. level_block a \<in> {TBLOCK_SUBINPROGRESS, TBLOCK_SUBABORT}"
        using live_at [OF find_less [OF Some], of l] find_nth [OF Some] by (auto simp: sub_level_def)
      obtain u where "gives (RollbackToSavepoint n) ?v u (doomed l (Failed (drop (Suc k) ns)))" "doomed l (Failed (drop (Suc k) ns)) u"
        "gives (CommitTransactionCommand e) u (block_view l (drop k ns)) (doomed l (Failed (drop (Suc k) ns)))"
        using gives_rollback_to [OF e q(1,2) _ q(3) named_session(2) Some] find_nth [OF Some] by auto
      then show ?thesis
        by (simp add: TRANS_STMT_ROLLBACK_TO Some)
          (rule ok [where u = u], simp_all add: ProcessTransactionStmt_def in_chain steps_one)
    qed
  next
    case (OtherStmt f)
    then have "quiet f" using assms(2) by (simp add: ordinary_def quiet_def)
    then show ?thesis
      unfolding OtherStmt client_step.simps
      by (intro ok [where u = ?v]) (use gives_end_live [OF e] in \<open>simp_all add: ProcessTransactionStmt_def gives_quiet\<close>)
  qed
qed

text \<open>Failed blocks.\<close>

lemma failed_implements:
  assumes e: "only_errors e"
  shows "implements e l stmt (Failed ns) (client_step (in_recovery e) stmt (Failed ns))"
proof -
  let ?v = "session_view l (Failed ns)"
  have v: "in_command l (Failed ns) = ?v" by (simp add: in_command_def)
  obtain p x b where p: "?v = p @ [(x, b, None, l, 1)]" "aborted_levels p (x, b, None, l, 1)"
      "\<forall>a\<in>set p. level_block a \<in> {TBLOCK_SUBINPROGRESS, TBLOCK_SUBABORT}"
      "b = TBLOCK_INPROGRESS \<or> b = TBLOCK_ABORT \<and> x = TRANS_ABORT"
    using failed_split [of l ns] by blast
  let ?u = "map (remark abort_sub) p @ [remark abort_top (x, b, None, l, 1)]"
  have dm: "doomed l (Failed ns) ?v" using doomed_session [of l "Failed ns"] by simp
  have at: "blockState (cur s) \<in> {TBLOCK_ABORT, TBLOCK_SUBABORT}" if "view s = ?v" for s
    using cur_block [OF that] by (cases ns) (simp_all add: top_level_def sub_level_def)
  then have in_block: "IsTransactionBlock s" if "view s = ?v" for s
    using that by (fastforce simp: IsTransactionBlock_def)
  note ok = implements_ok [OF e, where S = "Failed ns" and l = l, unfolded v]
    and bad = implements_fail [where S = "Failed ns" and l = l, unfolded v]
  have End: "gives (\<lambda>s. snd (EndTransactionBlock s)) ?v ?u E" for E
    unfolding p(1) by (rule gives_End_failed [OF p(2)])
  have False_End: "\<not> fst (EndTransactionBlock s)" if "view s = ?v" for s
    using at [OF that] by (auto simp: EndTransactionBlock_def)
  have finish: "doomed l Idle ?u" "gives (CommitTransactionCommand e) ?u (session_view l Idle) (doomed l Idle)"
    using gives_end_abort [OF e p(3,4)] doomed_abort [OF p(3,4)] by simp_all
  have in_chain: "gives (steps (RequireTransactionChain True m # fs)) ?v u E" if "gives (steps fs) ?v u E" for m fs u E
    by (rule gives_step [OF gives_same that])
      (simp add: RequireTransactionChain_def CheckTransactionChain_def Let_def in_block)
  have refused: "implements e l stmt (Failed ns) (None, Failed ns)" if "\<not> IsTransactionExitStmt stmt" for stmt
    using that by (simp add: implements_def refused_def)
  show ?thesis
  proof (cases stmt)
    case TRANS_STMT_COMMIT
    show ?thesis
      unfolding TRANS_STMT_COMMIT client_step.simps
      by (rule ok [where u = ?u])
        (use gives_report [OF End] finish in \<open>simp_all add: ProcessTransactionStmt_def IsTransactionExitStmt_def\<close>)
  next
    case (TRANS_STMT_PREPARE gid)
    have "gives (\<lambda>s. snd (PrepareTransactionBlock e gid s)) ?v ?u (doomed l Idle)"
    proof (rule gives_cong [OF _ End])
      fix s assume "view s = ?v"
      then have "\<not> fst (EndTransactionBlock s)" by (rule False_End)
      then show "snd (PrepareTransactionBlock e gid s) = snd (EndTransactionBlock s)"
        by (cases "EndTransactionBlock s") (auto simp: PrepareTransactionBlock_def split: option.split)
    qed
    then have "gives (\<lambda>s. report (PrepareTransactionBlock e gid s)) ?v ?u (doomed l Idle)" by (rule gives_report)
    then have "\<not> in_recovery e \<Longrightarrow> gives (ProcessTransactionStmt e True stmt) ?v ?u (doomed l Idle)"
      unfolding TRANS_STMT_PREPARE ProcessTransactionStmt_def statement.case
      by (intro gives_not_in_recovery(2)) (simp_all add: steps_one)
    then have "\<not> in_recovery e \<Longrightarrow> ?thesis"
      by (simp add: TRANS_STMT_PREPARE) (rule ok [where u = ?u], use finish in \<open>simp_all add: IsTransactionExitStmt_def\<close>)
    moreover have "gives (ProcessTransactionStmt e True stmt) ?v u (doomed l (Failed ns))" if "in_recovery e" for u
      unfolding TRANS_STMT_PREPARE ProcessTransactionStmt_def statement.case
      by (rule gives_not_in_recovery(1)) (use that dm in simp_all)
    then have "in_recovery e \<Longrightarrow> ?thesis"
      by (simp add: TRANS_STMT_PREPARE) (rule bad, simp_all add: IsTransactionExitStmt_def)
    ultimately show ?thesis by blast
  next
    case TRANS_STMT_ROLLBACK
    have "gives UserAbortTransactionBlock ?v ?u (doomed l Idle)"
      unfolding p(1) by (rule gives_UserAbort [OF p(3)]) (use p(4) in auto)
    then show ?thesis
      unfolding TRANS_STMT_ROLLBACK client_step.simps
      by (intro ok [where u = ?u])
        (use finish in \<open>simp_all add: ProcessTransactionStmt_def IsTransactionExitStmt_def\<close>)
  next
    case (TRANS_STMT_ROLLBACK_TO n)
    show ?thesis
    proof (cases "find_savepoint n ns")
      case None
      have "gives (RollbackToSavepoint n) ?v u (doomed l (Failed ns))" for u
      proof (rule gives_cong)
        have "gives (with_target n f) ?v u (doomed l (Failed ns))" for f
          by (rule gives_target(1) [OF named_session(1)], rule None, rule dm)
        moreover have "gives (raise no_such_savepoint) ?v u (doomed l (Failed ns))"
          unfolding no_such_savepoint_def by (rule gives_raise, rule dm)
        ultimately show "gives (if ns = [] then raise no_such_savepoint
            else with_target n (\<lambda>k. steps [mark_levels ''RollbackToSavepoint'' abort_sub k,
                       mark_target ''RollbackToSavepoint'' restart_sub k])) ?v u (doomed l (Failed ns))" by (cases ns) simp_all
      qed (cases ns, auto simp: RollbackToSavepoint_def Let_def cur_block top_level_def sub_level_def)
      then show ?thesis
        by (simp add: TRANS_STMT_ROLLBACK_TO None)
          (rule bad, simp_all add: ProcessTransactionStmt_def IsTransactionExitStmt_def in_chain steps_one)
    next
      case (Some k)
      obtain q x b d where q: "?v = q @ (x, b, Some n, l, d) # block_view l (drop (Suc k) ns)" "length q = k"
          "b \<in> {TBLOCK_SUBINPROGRESS, TBLOCK_SUBABORT}" "\<forall>a\<in>set q. level_block a \<in> {TBLOCK_SUBINPROGRESS, TBLOCK_SUBABORT}"
        using failed_at [OF find_less [OF Some], of l] find_nth [OF Some] by auto
      obtain u where "gives (RollbackToSavepoint n) ?v u (doomed l (Failed (drop (Suc k) ns)))" "doomed l (Failed (drop (Suc k) ns)) u"
        "gives (CommitTransactionCommand e) u (block_view l (drop k ns)) (doomed l (Failed (drop (Suc k) ns)))"
        using gives_rollback_to [OF e q named_session(1) Some] find_nth [OF Some] by auto
      then show ?thesis
        by (simp add: TRANS_STMT_ROLLBACK_TO Some)
          (rule ok [where u = u], simp_all add: ProcessTransactionStmt_def IsTransactionExitStmt_def in_chain steps_one)
    qed
  qed (simp_all add: refused IsTransactionExitStmt_def)
qed

theorem statement_implements:
  assumes "only_errors e" and "ordinary stmt"
  shows "implements e l stmt S (client_step (in_recovery e) stmt S)"
  using assms idle_implements block_implements failed_implements by (cases S) blast+

subsection \<open>The main loop\<close>

text \<open>
  An error sends the main loop to its handler, which may fail itself. From every state that leads
  to the session \<open>F\<close> it either reaches \<open>F\<close> or ends the process.
\<close>

lemma gives_handle_error:
  assumes e: "only_errors e" and d: "doomed l F v"
  shows "gives (handle_error e) v (session_view l F) (doomed l F)"
proof -
  have q: "quiet (calls e cs)" for cs by (simp add: quiet_simps e)
  have "doomed l F (session_view l F)" using doomed_rest(1) [of l F] doomed_stays [OF d] by simp
  then have "gives (steps [calls e cs]) (session_view l F) (session_view l F) (doomed l F)" for cs
    unfolding steps_one by (intro gives_quiet [OF q])
  then show ?thesis
    unfolding handle_error_def
    by (intro gives_quiet_step [where E = "doomed l F" and v = v, OF _ q d] gives_step [OF gives_AbortCurrent [OF e d]])
qed

lemma gives_outcome:
  "gives f v w E \<Longrightarrow> view s = v \<Longrightarrow> f s = (r, t) \<Longrightarrow>
     case r of None \<Rightarrow> view t = w | Some err \<Rightarrow> (\<forall>m. err \<noteq> FATAL m) \<and> E (view t)"
  by (auto simp: gives_def)

lemma gives_none:
  assumes "\<And>w. gives f v w E" and "view s = v"
  shows "f s \<noteq> (None, t)"
proof
  assume "f s = (None, t)"
  from gives_outcome [OF assms(1) assms(2) this, of "[]"] gives_outcome [OF assms(1) assms(2) this, of "[undefined]"]
  show False by simp
qed

lemma error_handler_outcome:
  assumes e: "only_errors e"
  shows "doomed l F (view s) \<Longrightarrow> case error_handler k e s of
     (None, t) \<Rightarrow> view t = session_view l F | (Some err, t) \<Rightarrow> \<forall>m. err \<noteq> FATAL m \<and> err \<noteq> ERROR m"
proof (induction k arbitrary: s)
  case (Suc k)
  obtain r t where h: "handle_error e s = (r, t)" by (cases "handle_error e s")
  note out = gives_outcome [OF gives_handle_error [OF e Suc.prems] refl h]
  show ?case
  proof (cases r)
    case (Some err)
    then show ?thesis using out Suc.IH [of t] by (cases err) (simp_all add: h)
  qed (use out in \<open>simp add: h\<close>)
qed simp

text \<open>
  The session after a failed command, by the place of its first error: before the statement acts,
  while it acts or its command ends, or when the success is reported.
\<close>

definition failure_session ::
  "xact_services \<Rightarrow> statement \<Rightarrow> session option \<times> session \<Rightarrow> session \<Rightarrow> xact_backend \<Rightarrow> session" where
  "failure_session e stmt r S s = (case exec_query_start e stmt s of
     (Some err, s) \<Rightarrow> fail_session S
   | (None, s) \<Rightarrow> (case exec_query_run e stmt s of
       (Some err, s) \<Rightarrow> snd r
     | (None, s) \<Rightarrow> (case fst r of None \<Rightarrow> snd r | Some T \<Rightarrow> fail_session T)))"

text \<open>
  The outcome of a command of the main loop, for the client: success, or failure after which the
  session goes on, or the end of the process.
\<close>

definition refines :: "int \<Rightarrow> session option \<Rightarrow> session \<Rightarrow> bool \<times> outcome \<Rightarrow> bool" where
  "refines l ok failure out = (case out of (failed, err, s) \<Rightarrow>
     (case err of
        None \<Rightarrow> if failed then view s = session_view l failure
                else (\<exists>T. ok = Some T \<and> view s = session_view l T)
      | Some err \<Rightarrow> failed \<and> (\<forall>m. err \<noteq> FATAL m \<and> err \<noteq> ERROR m)))"

lemma refines_failure:
  assumes e: "only_errors e" and x: "exec_simple_query e stmt s = (Some err, s1)"
    and d: "(\<forall>m. err \<noteq> FATAL m) \<and> doomed l F (view s1)"
  shows "refines l ok F (PostgresMain_command e stmt s)"
  using d error_handler_outcome [OF e, of l F s1 ERRORDATA_STACK_SIZE]
  by (cases err) (auto simp: refines_def PostgresMain_command_def x split: prod.split option.split)

lemma refused_step: "refused S stmt \<Longrightarrow> client_step rec stmt S = (None, S)"
  by (cases stmt) (auto simp: refused_def IsTransactionExitStmt_def split: session.splits)

theorem main_loop_refines:
  assumes e: "only_errors e" and "ordinary stmt" and s: "view s = session_view l S" and r: "client_step (in_recovery e) stmt S = r"
  shows "refines l (fst r) (failure_session e stmt r S s) (PostgresMain_command e stmt s)"
proof -
  obtain o1 s1 where 1: "exec_query_start e stmt s = (o1, s1)" by (cases "exec_query_start e stmt s")
  obtain o2 s2 where 2: "exec_query_run e stmt s1 = (o2, s2)" by (cases "exec_query_run e stmt s1")
  obtain o3 s3 where 3: "exec_query_end e s2 = (o3, s3)" by (cases "exec_query_end e s2")
  note unf = exec_simple_query_def steps.simps(2) 1 2 3
  show ?thesis
  proof (cases o1)
    case (Some err)
    have "refused S stmt \<or> in_command l S = in_command l S" by simp
    note out = gives_outcome [OF gives_query_start [OF e this] s 1]
    show ?thesis
      by (rule refines_failure [OF e, where err = err and ?s1.0 = s1])
        (use out Some in \<open>simp_all add: unf failure_session_def\<close>)
  next
    case None
    have live: "\<not> refused S stmt"
    proof
      assume "refused S stmt"
      then have "gives (exec_query_start e stmt) (session_view l S) w (doomed l (fail_session S))" for w
        by (intro gives_query_start [OF e]) simp
      from gives_none [OF this s, of s1] show False using 1 None by simp
    qed
    then have "refused S stmt \<or> in_command l S = in_command l S" by simp
    from gives_outcome [OF gives_query_start [OF e this] s 1] have s1: "view s1 = in_command l S" using None by simp
    have run: "gives (exec_query_run e stmt) (in_command l S) w (doomed l (snd r))"
      if "case fst r of None \<Rightarrow> True | Some T \<Rightarrow> w = session_view l T" for w
      using statement_implements [OF e assms(2), of l S] live that by (simp add: implements_def r)
    show ?thesis
    proof (cases o2)
      case (Some err)
      have "case fst r of None \<Rightarrow> True | Some T \<Rightarrow> (case fst r of None \<Rightarrow> [] | Some T \<Rightarrow> session_view l T) = session_view l T"
        by (simp split: option.split)
      note out = gives_outcome [OF run [OF this] s1 2]
      show ?thesis
        by (rule refines_failure [OF e, where err = err and ?s1.0 = s2])
          (use out Some None in \<open>simp_all add: unf failure_session_def\<close>)
    next
      case done2: None
      have "fst r \<noteq> None"
      proof
        assume "fst r = None"
        from gives_none [OF run s1, of s2] this 2 done2 show False by simp
      qed
      then obtain T where T: "fst r = Some T" by blast
      have s2: "view s2 = session_view l T"
        using gives_outcome [OF run s1 2, of "session_view l T"] T done2 by simp
      have "gives (exec_query_end e) (session_view l T) (session_view l T) (doomed l (fail_session T))"
        unfolding exec_query_end_def by (rule gives_quiet) (simp_all add: quiet_simps e doomed_rest)
      note out = gives_outcome [OF this s2 3]
      show ?thesis
      proof (cases o3)
        case (Some err)
        show ?thesis
          by (rule refines_failure [OF e, where err = err and ?s1.0 = s3])
            (use out Some None done2 T in \<open>simp_all add: unf failure_session_def\<close>)
      qed (use out None done2 T in \<open>simp add: refines_def PostgresMain_command_def unf\<close>)
    qed
  qed
qed

subsection \<open>The end of a backend\<close>

text \<open>
  \<open>AbortOutOfAnyTransaction\<close> runs when a backend exits, in any state that an error may have left.
\<close>

definition recoverable :: "int \<Rightarrow> level_view list \<Rightarrow> bool" where
  "recoverable l v \<longleftrightarrow> (\<exists>T. doomed l T v) \<and> (tl v \<noteq> [] \<longrightarrow> level_block (last v) \<noteq> TBLOCK_DEFAULT)"

lemma recoverable_top:
  "recoverable l [(x, b, n, l', d)] \<longleftrightarrow> n = None \<and> l' = l \<and>
     (b = TBLOCK_DEFAULT \<and> (x = TRANS_DEFAULT \<longrightarrow> d = 0) \<or>
      b \<in> {TBLOCK_STARTED, TBLOCK_BEGIN, TBLOCK_END, TBLOCK_ABORT_PENDING, TBLOCK_PREPARE} \<or>
      b \<in> {TBLOCK_ABORT_END, TBLOCK_ABORT} \<and> x = TRANS_ABORT \<and> (b = TBLOCK_ABORT \<longrightarrow> d = 1) \<or>
      b = TBLOCK_INPROGRESS \<and> d = 1)"
  by (cases b) (auto simp: recoverable_def)

lemma recoverable_sub:
  assumes "recoverable l ((x, b, n, l', d) # a # v)"
  shows "recoverable l (a # v)" "b \<in> popped \<union> {TBLOCK_SUBINPROGRESS, TBLOCK_SUBABORT}"
    "b \<noteq> TBLOCK_SUBABORT \<Longrightarrow> recoverable l ((y, b, n, l', d) # a # v)"
    "level_block (last (a # v)) \<noteq> TBLOCK_DEFAULT"
proof -
  obtain T where T: "doomed l T ((x, b, n, l', d) # a # v)" using assms by (auto simp: recoverable_def)
  have last: "level_block (last (a # v)) \<noteq> TBLOCK_DEFAULT" using assms by (simp add: recoverable_def split: if_splits)
  have "\<exists>T. doomed l T (a # v)"
  proof (cases "b \<in> {TBLOCK_SUBINPROGRESS, TBLOCK_SUBABORT}")
    case True
    then obtain m ns where "a # v = block_view l ns" using T by (auto split: session.splits list.splits)
    then show ?thesis using doomed_live by metis
  qed (use T in auto)
  then show "recoverable l (a # v)" using last by (cases v) (simp_all add: recoverable_def)
  show "b \<in> popped \<union> {TBLOCK_SUBINPROGRESS, TBLOCK_SUBABORT}"
    using T by (auto simp: popped_def split: if_splits)
  show "recoverable l ((y, b, n, l', d) # a # v)" if "b \<noteq> TBLOCK_SUBABORT"
  proof -
    have "doomed l T ((y, b, n, l', d) # a # v)" using T that by (simp split: if_splits session.splits list.splits)
    then show ?thesis using last unfolding recoverable_def by (metis last_ConsR list.distinct(1))
  qed
  show "level_block (last (a # v)) \<noteq> TBLOCK_DEFAULT" by (rule last)
qed

lemma gives_abort_level_top:
  assumes e: "only_errors e" and r: "recoverable l [a]"
  shows "gives (abort_level e) [a] (idle_view l) (recoverable l)"
proof -
  obtain x b n l' d where a: "a = (x, b, n, l', d)" by (cases a)
  have n: "n = None" "l' = l" using r by (simp_all add: a recoverable_top)
  have abort: "gives (abort_to_idle e) [(x, b, None, l, d)] (idle_view l) (recoverable l)"
    if "recoverable l [(x, b, None, l, d)]" "recoverable l [(TRANS_ABORT, b, None, l, d)]"
    unfolding abort_to_idle_def idle_view_def
    by (rule gives_step [OF gives_Abort [OF e]], rule that(1), rule that(2), rule gives_step [OF gives_Cleanup [OF e]],
        rule that(2), unfold steps_one, rule gives_block)
  have cleanup: "gives (cleanup_to_idle e) [(TRANS_ABORT, b, None, l, d)] (idle_view l) (recoverable l)"
    if "recoverable l [(TRANS_ABORT, b, None, l, d)]"
    unfolding cleanup_to_idle_def idle_view_def
    by (rule gives_step [OF gives_Cleanup [OF e]], rule that, unfold steps_one, rule gives_block)
  consider "b = TBLOCK_DEFAULT" "x = TRANS_DEFAULT \<longrightarrow> d = 0"
    | "b \<in> {TBLOCK_ABORT_END, TBLOCK_ABORT}" "x = TRANS_ABORT" "b = TBLOCK_ABORT \<longrightarrow> d = 1"
    | "b \<in> {TBLOCK_STARTED, TBLOCK_BEGIN, TBLOCK_END, TBLOCK_ABORT_PENDING, TBLOCK_PREPARE} \<or> b = TBLOCK_INPROGRESS \<and> d = 1"
    using r by (auto simp: a recoverable_top)
  then show ?thesis
  proof cases
    case 1
    have idle: "gives (abort_idle e) [(x, b, None, l, d)] (idle_view l) (recoverable l)"
      unfolding 1(1) by (rule gives_abort_idle [OF e 1(2)]) (use 1(2) in \<open>auto simp: recoverable_top\<close>)
    show ?thesis
      unfolding a n by (rule gives_cong [OF _ idle]) (use 1 cur_of_view in \<open>auto simp: abort_level_def\<close>)
  next
    case 2
    have "recoverable l [(TRANS_ABORT, b, None, l, d)]" using 2 by (auto simp: recoverable_top)
    then show ?thesis
      unfolding a n 2(2) by (intro gives_cong [OF _ cleanup]) (use 2 cur_of_view in \<open>auto simp: abort_level_def\<close>)
  next
    case 3
    then have "recoverable l [(y, b, None, l, d)]" for y by (auto simp: recoverable_top)
    then show ?thesis
      unfolding a n by (intro gives_cong [OF _ abort]) (use 3 cur_of_view in \<open>auto simp: abort_level_def\<close>)
  qed
qed

lemma gives_abort_level_sub:
  assumes e: "only_errors e" and r: "recoverable l (a # c # v)"
  shows "gives (abort_level e) (a # c # v) (c # v) (recoverable l)"
proof -
  obtain x b n l' d where a: "a = (x, b, n, l', d)" by (cases a)
  note sub = recoverable_sub [OF r [unfolded a]]
  show ?thesis
  proof (cases "b \<in> {TBLOCK_SUBABORT, TBLOCK_SUBABORT_END, TBLOCK_SUBABORT_RESTART}")
    case True
    have "gives (CleanupSubTransaction e) ((x, b, n, l', d) # c # v) (c # v) (recoverable l)"
      by (rule gives_CleanupSub [OF e]) (use r a in simp)
    then show ?thesis
      unfolding a by (rule gives_cong [rotated]) (use True cur_of_view in \<open>auto simp: abort_level_def\<close>)
  next
    case False
    then have *: "recoverable l ((y, b, n, l', d) # c # v)" for y using sub(3) by simp
    have "gives (steps [AbortSubTransaction e, CleanupSubTransaction e]) ((x, b, n, l', d) # c # v) (c # v) (recoverable l)"
      by (rule gives_step [OF gives_AbortSub [OF e]], rule *, unfold steps_one, rule gives_CleanupSub [OF e], rule *)
    then show ?thesis
      unfolding a by (rule gives_cong [rotated]) (use False sub(2) cur_of_view in \<open>auto simp: abort_level_def popped_def\<close>)
  qed
qed

lemma abort_out_ends:
  assumes e: "only_errors e" and "recoverable l (view s)"
  shows "\<exists>r t. AbortOutOfAnyTransaction e s = Some (r, t) \<and>
    (case r of None \<Rightarrow> view t = session_view l Idle | Some err \<Rightarrow> (\<forall>m. err \<noteq> FATAL m) \<and> recoverable l (view t))"
  using assms(2)
proof (induction "length (view s)" arbitrary: s rule: less_induct)
  case less
  obtain r t where t: "abort_level e s = (r, t)" by (cases "abort_level e s")
  note unf = AbortOutOfAnyTransaction.simps [of e s] t
  have "view s \<noteq> []" using less(2) by (auto simp: recoverable_def)
  then consider (one) a where "view s = [a]" | (more) a c v where "view s = a # c # v"
    by (cases "view s" rule: list.exhaust; cases "tl (view s)") auto
  then show ?case
  proof cases
    case one
    have g: "case r of None \<Rightarrow> view t = idle_view l | Some err \<Rightarrow> (\<forall>m. err \<noteq> FATAL m) \<and> recoverable l (view t)"
      using gives_abort_level_top [OF e, of l a, unfolded gives_def, rule_format, OF _ one] less(2) one t by simp
    then have "r = None \<Longrightarrow> blockState (cur t) = TBLOCK_DEFAULT" using cur_of_view by (simp add: idle_view_def)
    then show ?thesis using g by (cases r) (simp_all add: unf)
  next
    case more
    have g: "case r of None \<Rightarrow> view t = c # v | Some err \<Rightarrow> (\<forall>m. err \<noteq> FATAL m) \<and> recoverable l (view t)"
      using gives_abort_level_sub [OF e, of l a c v, unfolded gives_def, rule_format, OF _ more] less(2) more t by simp
    show ?thesis
    proof (cases r)
      case None
      obtain x b n l' d where a: "a = (x, b, n, l', d)" by (cases a)
      have r: "recoverable l (c # v)" using recoverable_sub(1) less(2) more a by metis
      have "\<exists>r u. AbortOutOfAnyTransaction e t = Some (r, u) \<and>
        (case r of None \<Rightarrow> view u = session_view l Idle | Some err \<Rightarrow> (\<forall>m. err \<noteq> FATAL m) \<and> recoverable l (view u))"
        using less(1) [of t] g r more None by simp
      moreover have "blockState (cur t) \<noteq> TBLOCK_DEFAULT"
      proof (cases v)
        case Nil
        then show ?thesis using recoverable_sub(4) less(2) more a g None cur_block [of t "c # v"] by fastforce
      next
        case (Cons c' v')
        obtain y b2 n2 l2 d2 where c: "c = (y, b2, n2, l2, d2)" by (cases c)
        have "b2 \<in> popped \<union> {TBLOCK_SUBINPROGRESS, TBLOCK_SUBABORT}"
          using recoverable_sub(2) [of l y b2 n2 l2 d2 c' v'] r c Cons by simp
        then show ?thesis using g None cur_block [of t "c # v"] c by (auto simp: popped_def)
      qed
      ultimately show ?thesis using None by (simp add: unf)
    qed (use g in \<open>simp add: unf\<close>)
  qed
qed

lemma session_recoverable: "recoverable l (session_view l S)"
proof -
  have block_view: "level_block (last (block_view l ns)) \<noteq> TBLOCK_DEFAULT" for ns
    using live_split [of l ns] by (auto simp: top_level_def)
  have "tl (session_view l S) \<noteq> [] \<longrightarrow> level_block (last (session_view l S)) \<noteq> TBLOCK_DEFAULT"
    using block_view by (cases "(l, S)" rule: session_view.cases) (auto simp: idle_view_def)
  then show ?thesis using doomed_session [of l S] unfolding recoverable_def by blast
qed

subsection \<open>Runs of a session\<close>

text \<open>The commands of a client one after the other; \<open>None\<close> when the process has ended.\<close>

fun run_session :: "xact_services \<Rightarrow> statement list \<Rightarrow> xact_backend \<Rightarrow> xact_backend option" where
  "run_session e [] s = Some s"
| "run_session e (c # cs) s = (case PostgresMain_command e c s of
     (_, None, s) \<Rightarrow> run_session e cs s | (_, Some err, s) \<Rightarrow> None)"

text \<open>
  What a command may leave behind: the session after success, the one after an error outside the
  statement, and the one after an error in it.
\<close>

definition client_outcomes :: "bool \<Rightarrow> statement \<Rightarrow> session \<Rightarrow> session list" where
  "client_outcomes rec c S = (case client_step rec c S of
     (None, F) \<Rightarrow> [fail_session S, F]
   | (Some T, F) \<Rightarrow> [T, fail_session S, F, fail_session T])"

fun client_sessions :: "bool \<Rightarrow> statement list \<Rightarrow> session \<Rightarrow> session list" where
  "client_sessions rec [] S = [S]"
| "client_sessions rec (c # cs) S = concat (map (client_sessions rec cs) (client_outcomes rec c S))"

definition session_status :: "session \<Rightarrow> char" where
  "session_status S = (case S of Idle \<Rightarrow> CHR ''I'' | Block ns \<Rightarrow> CHR ''T'' | Failed ns \<Rightarrow> CHR ''E'')"

lemma status_of_view: "view s = session_view l S \<Longrightarrow> TransactionBlockStatusCode s = session_status S"
  by (cases "(l, S)" rule: session_view.cases)
    (auto simp: TransactionBlockStatusCode_def session_status_def cur_block idle_view_def top_level_def sub_level_def,
     rename_tac ns, case_tac ns, auto simp: cur_block top_level_def sub_level_def)

lemma failure_outcome: "failure_session e c (ok, F) S s \<in> {fail_session S, F} \<union> set_option (map_option fail_session ok)"
  by (auto simp: failure_session_def split: prod.split option.split)

lemma command_outcome:
  assumes "only_errors e" and "ordinary c" and "view s = session_view l S" and "PostgresMain_command e c s = (failed, None, t)"
  shows "\<exists>T \<in> set (client_outcomes (in_recovery e) c S). view t = session_view l T"
proof -
  obtain ok F where r: "client_step (in_recovery e) c S = (ok, F)" by (cases "client_step (in_recovery e) c S")
  have "set (client_outcomes (in_recovery e) c S) = {fail_session S, F} \<union> set_option ok \<union> set_option (map_option fail_session ok)"
    by (auto simp: client_outcomes_def r split: option.split)
  moreover have "refines l ok (failure_session e c (ok, F) S s) (failed, None, t)"
    using main_loop_refines [OF assms(1-3) r] assms(4) by simp
  ultimately show ?thesis using failure_outcome [of e c ok F S s] by (cases failed) (auto simp: refines_def)
qed

lemma run_at_rest:
  assumes e: "only_errors e" and "list_all ordinary cs" and "view s = session_view l S" and "run_session e cs s = Some t"
  shows "\<exists>T \<in> set (client_sessions (in_recovery e) cs S). view t = session_view l T"
  using assms(2-4)
proof (induction cs arbitrary: s S)
  case (Cons c cs)
  obtain failed u where u: "PostgresMain_command e c s = (failed, None, u)" "run_session e cs u = Some t"
    using Cons.prems(3) by (auto split: prod.splits option.splits)
  obtain T where "T \<in> set (client_outcomes (in_recovery e) c S)" "view u = session_view l T"
    using command_outcome [OF e _ Cons.prems(2) u(1)] Cons.prems(1) by auto
  then show ?case using Cons.IH [of u T] Cons.prems(1) u(2) by auto
qed simp

text \<open>A ROLLBACK that succeeds ends the block; one that fails early may be sent again.\<close>

lemma rollback_idle:
  assumes "only_errors e" and "view s = session_view l S"
  shows "case PostgresMain_command e TRANS_STMT_ROLLBACK s of
      (failed, None, t) \<Rightarrow> view t = session_view l Idle \<or> failed \<and> view t = session_view l (fail_session S)
    | (failed, Some err, t) \<Rightarrow> \<forall>m. err \<noteq> FATAL m \<and> err \<noteq> ERROR m"
proof -
  have r: "client_step rec TRANS_STMT_ROLLBACK S = (Some Idle, Idle)" for rec by (cases S) auto
  obtain failed err t where out: "PostgresMain_command e TRANS_STMT_ROLLBACK s = (failed, err, t)"
    by (cases "PostgresMain_command e TRANS_STMT_ROLLBACK s")
  have "refines l (Some Idle) (failure_session e TRANS_STMT_ROLLBACK (Some Idle, Idle) S s) (failed, err, t)"
    using main_loop_refines [OF assms(1) _ assms(2) r] by (simp add: ordinary_def out)
  then show ?thesis
    using failure_outcome [of e TRANS_STMT_ROLLBACK "Some Idle" Idle S s]
    by (cases failed; cases err) (auto simp: refines_def out)
qed

subsection \<open>Subtransactions of the server itself\<close>

text \<open>
  An exception block of a procedural language: whether its body ends normally, and the
  subtransaction is released, or fails, and it is rolled back, the outer levels are as before. The
  assertion at the end of the rollback refuses two of the block states in which it may begin.
\<close>

definition caught :: "(xact_backend \<Rightarrow> outcome) \<Rightarrow> xact_backend \<Rightarrow> outcome" where
  "caught f s = (None, snd (f s))"

lemma exception_block_levels:
  assumes e: "only_errors e" and f: "frames f" "calm f" and v: "v = (TRANS_INPROGRESS, b, n, l, d) # r"
    and b: "b \<in> {TBLOCK_STARTED, TBLOCK_INPROGRESS, TBLOCK_END, TBLOCK_PREPARE, TBLOCK_SUBINPROGRESS}"
  shows "gives (steps [BeginInternalSubTransaction e name, f, ReleaseCurrentSubTransaction e]) v v (\<lambda>u. \<exists>p. u = p @ v)"
    and "view u = (TRANS_INPROGRESS, TBLOCK_SUBINPROGRESS, name, l, d + 1) # v \<Longrightarrow>
      RollbackAndReleaseCurrentSubTransaction e u = (case steps [AbortSubTransaction e, CleanupSubTransaction e] u of
        (None, t) \<Rightarrow> (if b \<in> {TBLOCK_END, TBLOCK_PREPARE} then Some failed_assertion else None, t) | r \<Rightarrow> r)"
    and "gives (steps [BeginInternalSubTransaction e name, caught f, RollbackAndReleaseCurrentSubTransaction e]) v v
      (\<lambda>u. \<exists>p. u = p @ v)"
    and "b \<in> {TBLOCK_END, TBLOCK_PREPARE} \<Longrightarrow> view s = v \<Longrightarrow>
      fst (steps [BeginInternalSubTransaction e name, caught f, RollbackAndReleaseCurrentSubTransaction e] s) \<noteq> None"
proof -
  let ?E = "\<lambda>u. \<exists>p. u = p @ v" and ?w = "(TRANS_INPROGRESS, TBLOCK_SUBINPROGRESS, name, l, d + 1) # v"
  have E: "?E (a # v)" "?E v" for a by (intro exI [of _ "[a]"], simp) (intro exI [of _ "[]"], simp)
  have push: "gives (\<lambda>s. if blockState (cur s) \<in> {TBLOCK_STARTED, TBLOCK_INPROGRESS, TBLOCK_END, TBLOCK_PREPARE, TBLOCK_SUBINPROGRESS}
      then push_named e name s else unexpected ''BeginInternalSubTransaction'' s) v
      ((TRANS_DEFAULT, TBLOCK_SUBBEGIN, name, l, d + 1) # v) ?E"
  proof (rule gives_cong)
    show "gives (push_named e name) v ((TRANS_DEFAULT, TBLOCK_SUBBEGIN, name, l, d + 1) # v) ?E"
      using E unfolding v by (intro gives_push [OF e]) simp_all
  qed (use b v cur_of_view in auto)
  have start: "gives (CommitTransactionCommand e) ((TRANS_DEFAULT, TBLOCK_SUBBEGIN, name, l, d + 1) # v) ?w ?E"
  proof (rule gives_cong)
    show "gives (steps [StartSubTransaction e, set_block TBLOCK_SUBINPROGRESS])
        ((TRANS_DEFAULT, TBLOCK_SUBBEGIN, name, l, d + 1) # v) ?w ?E"
      by (rule gives_step [OF gives_StartSub [OF e]], rule E, unfold steps_one, rule gives_block)
  qed (use cur_of_view in \<open>auto simp: CommitTransactionCommand.simps [of e]\<close>)
  have idle: "gives (StartTransactionCommand e) ?w ?w ?E"
    by (rule gives_same) (use cur_of_view in \<open>auto simp: StartTransactionCommand_def\<close>)
  have begin': "gives (BeginInternalSubTransaction e name) v ?w ?E"
    unfolding BeginInternalSubTransaction_def
    by (rule gives_step [OF push], rule gives_step [OF start], unfold steps_one, rule idle)
  have release: "gives (ReleaseCurrentSubTransaction e) ?w v ?E"
  proof (rule gives_cong)
    have ok: "gives (assert_state (\<lambda>s. xstate (cur s) = TRANS_INPROGRESS)) ((TRANS_INPROGRESS, x) # y)
        ((TRANS_INPROGRESS, x) # y) ?E" for x y
      by (rule gives_same) (cases x, use cur_of_view in \<open>auto simp: assert_state_def\<close>)
    have commit: "gives (CommitSubTransaction e) ?w v ?E" using E unfolding v by (intro gives_CommitSub [OF e]) simp
    have closing: "gives (assert_state (\<lambda>s. xstate (cur s) = TRANS_INPROGRESS)) v v ?E" unfolding v by (rule ok [unfolded v])
    show "gives (steps [assert_state (\<lambda>s. xstate (cur s) = TRANS_INPROGRESS), CommitSubTransaction e,
        assert_state (\<lambda>s. xstate (cur s) = TRANS_INPROGRESS)]) ?w v ?E"
      by (rule gives_step [OF ok], rule gives_step [OF commit], unfold steps_one, rule closing)
  qed (use cur_of_view in \<open>auto simp: ReleaseCurrentSubTransaction_def\<close>)
  have pops: "gives (steps [AbortSubTransaction e, CleanupSubTransaction e]) ?w v ?E"
    using E unfolding v
    by (intro gives_step [OF gives_AbortSub [OF e]]) (simp, unfold steps_one, rule gives_CleanupSub [OF e], simp)
  have exact: "RollbackAndReleaseCurrentSubTransaction e u = (case steps [AbortSubTransaction e, CleanupSubTransaction e] u of
        (None, t) \<Rightarrow> (if b \<in> {TBLOCK_END, TBLOCK_PREPARE} then Some failed_assertion else None, t) | r \<Rightarrow> r)"
    if u: "view u = ?w" for u
  proof -
    obtain r1 u1 where 1: "AbortSubTransaction e u = (r1, u1)" by (cases "AbortSubTransaction e u")
    obtain r2 u2 where 2: "CleanupSubTransaction e u1 = (r2, u2)" by (cases "CleanupSubTransaction e u1")
    have "r1 = None \<and> r2 = None \<longrightarrow> blockState (cur u2) = b"
      using gives_outcome [OF pops u] 1 2 cur_of_view [of u2] by (auto simp: steps.simps(2) v)
    then show ?thesis
      using cur_of_view [OF u] b 1 2
      by (auto simp: RollbackAndReleaseCurrentSubTransaction_def steps.simps(2) only_def assert_state_def split: option.split)
  qed
  then show "view u = ?w \<Longrightarrow> RollbackAndReleaseCurrentSubTransaction e u =
      (case steps [AbortSubTransaction e, CleanupSubTransaction e] u of
        (None, t) \<Rightarrow> (if b \<in> {TBLOCK_END, TBLOCK_PREPARE} then Some failed_assertion else None, t) | r \<Rightarrow> r)" .
  have rollback: "gives (RollbackAndReleaseCurrentSubTransaction e) ?w x ?E"
    if "b \<notin> {TBLOCK_END, TBLOCK_PREPARE} \<Longrightarrow> x = v" for x
    unfolding gives_def
  proof (intro allI impI)
    fix u assume u: "view u = ?w"
    obtain r u2 where 2: "steps [AbortSubTransaction e, CleanupSubTransaction e] u = (r, u2)"
      by (cases "steps [AbortSubTransaction e, CleanupSubTransaction e] u")
    show "case RollbackAndReleaseCurrentSubTransaction e u of (None, s') \<Rightarrow> view s' = x
        | (Some err, s') \<Rightarrow> (\<forall>m. err \<noteq> FATAL m) \<and> ?E (view s')"
      using gives_outcome [OF pops u 2] that E(2) by (cases r) (auto simp: exact [OF u] 2 failed_assertion_def)
  qed
  have body: "gives f ?w ?w ?E" using f E by (intro gives_quiet) (simp_all add: quiet_def)
  have caught: "gives (caught f) ?w ?w ?E" using f(1) by (simp add: gives_def caught_def frames_def)
  have all: "gives (steps [BeginInternalSubTransaction e name, caught f, RollbackAndReleaseCurrentSubTransaction e]) v x ?E"
    if "b \<notin> {TBLOCK_END, TBLOCK_PREPARE} \<Longrightarrow> x = v" for x
    by (rule gives_step [OF begin' gives_step [OF caught]]) (unfold steps_one, rule rollback [OF that])
  show "gives (steps [BeginInternalSubTransaction e name, caught f, RollbackAndReleaseCurrentSubTransaction e]) v v ?E"
    by (rule all) simp
  show "fst (steps [BeginInternalSubTransaction e name, caught f, RollbackAndReleaseCurrentSubTransaction e] s) \<noteq> None"
    if "b \<in> {TBLOCK_END, TBLOCK_PREPARE}" "view s = v"
  proof -
    have "gives (steps [BeginInternalSubTransaction e name, caught f, RollbackAndReleaseCurrentSubTransaction e]) v x ?E" for x
      by (rule all) (use that(1) in simp)
    from gives_none [OF this that(2)] show ?thesis by (metis prod.collapse)
  qed
  show "gives (steps [BeginInternalSubTransaction e name, f, ReleaseCurrentSubTransaction e]) v v ?E"
    by (rule gives_step [OF begin' gives_step [OF body]]) (unfold steps_one, rule release)
qed

end
