(* ===== verification/XactCommit.thy ===== *)
theory XactCommit
  imports XactFrames
begin

section \<open>The order of a commit, and its finality\<close>

text \<open>
  The write-ahead rule of a commit: its WAL record comes before the commit log, and is flushed
  before it when the commit is synchronous. Once the commit log says committed, no error on
  the way to the end of the transaction lets the backend abort it.
\<close>

subsection \<open>The events of a commit\<close>

definition must_flush :: "xact_services \<Rightarrow> xact_backend \<Rightarrow> bool" where
  "must_flush e s \<longleftrightarrow> XactLastRecEnd s \<noteq> 0 \<and> synchronous_commit_on e \<or> forceSyncCommit s \<or> pending_deletes e (trace s) > 0"

definition this_record :: "xact_services \<Rightarrow> xact_backend \<Rightarrow> wal_record" where
  "this_record e s = commit_record e (GetTopTransactionIdIfAny s) (pending_deletes e (trace s))
     (xactGetCommittedChildren (trans s)) (if XLogStandbyInfoActive (xmode e) then inval_messages e (trace s) else (0, False)) s"

definition record_end :: "xact_services \<Rightarrow> xact_backend \<Rightarrow> XLogRecPtr" where
  "record_end e s = inserted_at e (trace s @ [Call ''BufmgrCommit'' [], XLogInsert (this_record e s)])"

definition commit_events :: "xact_services \<Rightarrow> xact_backend \<Rightarrow> xact_call list" where
  "commit_events e s = [Call ''BufmgrCommit'' [], XLogInsert (this_record e s),
     if must_flush e s then XLogFlush (record_end e s) else Call ''XLogSetAsyncXactLSN'' [uint (record_end e s)],
     ClogCommit (GetTopTransactionIdIfAny s) (xactGetCommittedChildren (trans s))] @
     (if XactLastRecEnd s \<noteq> 0 then [Call ''SyncRepWaitForLSN'' [uint (record_end e s)]] else [])"

definition committed_log :: "xact_services \<Rightarrow> xact_backend \<Rightarrow> clog result" where
  "committed_log e s =
     (if must_flush e s
      then TransactionIdCommitTree (block_size (xmode e)) (GetTopTransactionIdIfAny s) (xactGetCommittedChildren (trans s))
      else TransactionIdAsyncCommitTree (block_size (xmode e)) (GetTopTransactionIdIfAny s)
        (xactGetCommittedChildren (trans s)) (record_end e s)) (xact_log (vars (xv s)))"

text \<open>
  How far a commit got: the number of events, whether the commit log has changed, and what the
  error tells.
\<close>

definition commit_progress :: "xact_services \<Rightarrow> xact_backend \<Rightarrow> outcome \<Rightarrow> bool" where
  "commit_progress e s out \<longleftrightarrow> (\<exists>k.
     trace (snd out) = trace s @ take k (commit_events e s) \<and>
     (if k = length (commit_events e s) \<and> (fst out = None \<or> k = 5)
      then committed_log e s = Inr (xact_log (vars (xv (snd out)))) \<and> delayChkpt (snd out) = False
      else xact_log (vars (xv (snd out))) = xact_log (vars (xv s))) \<and>
     (fst out = None \<longrightarrow> k = length (commit_events e s)) \<and>
     (\<forall>m. fst out = Some (ERROR m) \<or> fst out = Some (FATAL m) \<longrightarrow> k = 1 \<or> k = 5))"

lemma call_at: "call e c s = (raises e (trace s @ [c]), s\<lparr>trace := trace s @ [c]\<rparr>)"
  by (simp add: call_def Let_def)

lemma commit_record_cong: "forceSyncCommit t = forceSyncCommit s \<Longrightarrow> commit_record e x n c m t = commit_record e x n c m s"
  by (simp add: commit_record_def)

lemma only_True: "only True f = f"
  by (rule ext) (simp add: only_def)

lemma steps_call:
  "steps (call e c # fs) s = (case raises e (trace s @ [c]) of
     None \<Rightarrow> steps fs (s\<lparr>trace := trace s @ [c]\<rparr>) | Some err \<Rightarrow> (Some err, s\<lparr>trace := trace s @ [c]\<rparr>))"
  by (simp add: steps.simps(2) call_at)

text \<open>The critical section by itself.\<close>

definition crashes :: "pg_error \<Rightarrow> pg_error" where
  "crashes err = (case err of ERROR m \<Rightarrow> PANIC m | FATAL m \<Rightarrow> PANIC m | r \<Rightarrow> r)"

lemma in_critical_eq: "in_critical f s = (map_option crashes (fst (f s)), snd (f s))"
  by (cases "f s"; cases "fst (f s)") (auto simp: in_critical_def crashes_def split: pg_error.split)

lemma not_plain: "crashes err \<noteq> ERROR m" "crashes err \<noteq> FATAL m"
  by (cases err; simp add: crashes_def)+

definition critical_part :: "xact_services \<Rightarrow> xact_backend \<Rightarrow> xact_backend \<Rightarrow> outcome" where
  "critical_part e s = steps [assign (\<lambda>s. s\<lparr>delayChkpt := True\<rparr>), (\<lambda>t. insert_wal e (this_record e s) t),
     flush_and_commit e (GetTopTransactionIdIfAny s) (xactGetCommittedChildren (trans s)) True (must_flush e s),
     assign (\<lambda>s. s\<lparr>delayChkpt := False\<rparr>)]"

lemma critical_progress:
  assumes "trace t = trace s @ [Call ''BufmgrCommit'' []]" and "xact_log (vars (xv t)) = xact_log (vars (xv s))"
  shows "\<exists>k. trace (snd (critical_part e s t)) = trace s @ take k (commit_events e s) \<and>
    (if fst (critical_part e s t) = None
     then k = 4 \<and> committed_log e s = Inr (xact_log (vars (xv (snd (critical_part e s t))))) \<and>
       delayChkpt (snd (critical_part e s t)) = False \<and> XactLastRecEnd (snd (critical_part e s t)) = record_end e s
     else k \<in> {2, 3, 4} \<and> xact_log (vars (xv (snd (critical_part e s t)))) = xact_log (vars (xv s)))"
proof -
  let ?ev = "commit_events e s"
  note unf = critical_part_def steps.simps(2) call_at insert_wal_def assign_def flush_and_commit_def only_def
    update_clog_def upd_vars_def commit_events_def committed_log_def record_end_def
  show ?thesis
  proof (cases "raises e (trace s @ take 2 ?ev)")
    case (Some err)
    then show ?thesis by (intro exI [of _ 2]) (simp add: unf assms)
  next
    case r2: None
    show ?thesis
    proof (cases "raises e (trace s @ take 3 ?ev)")
      case (Some err)
      then show ?thesis using r2 by (cases "must_flush e s"; intro exI [of _ 3]) (simp_all add: unf assms)
    next
      case r3: None
      show ?thesis
      proof (cases "raises e (trace s @ take 4 ?ev)")
        case (Some err)
        then show ?thesis using r2 r3 by (cases "must_flush e s"; intro exI [of _ 4]) (simp_all add: unf assms)
      next
        case r4: None
        then show ?thesis using r2 r3
          by (cases "must_flush e s"; cases "committed_log e s"; intro exI [of _ 4]) (simp_all add: unf assms)
      qed
    qed
  qed
qed

definition after_commit :: "xact_backend \<Rightarrow> xact_services \<Rightarrow> (xact_backend \<Rightarrow> outcome) list" where
  "after_commit s e =
     [assign (\<lambda>t. t\<lparr>latestXid := TransactionIdLatest (GetTopTransactionIdIfAny s) (xactGetCommittedChildren (trans s))\<rparr>),
      only (XactLastRecEnd s \<noteq> 0) (\<lambda>t. call e (Call ''SyncRepWaitForLSN'' [uint (XactLastRecEnd t)]) t),
      assign (\<lambda>t. t\<lparr>XactLastRecEnd := 0\<rparr>)]"

lemma commit_shape:
  assumes x: "TransactionIdIsValid (GetTopTransactionIdIfAny s)"
  shows "RecordTransactionCommit e s =
    steps (call e (Call ''BufmgrCommit'' []) # in_critical (critical_part e s) # after_commit s e) s"
proof -
  let ?b = "Call ''BufmgrCommit'' []" and ?tail = "after_commit s e"
  let ?s1 = "s\<lparr>trace := trace s @ [?b]\<rparr>"
  let ?msgs = "if XLogStandbyInfoActive (xmode e) then inval_messages e (trace s) else (0, False)"
    let ?crit = "steps [assign (\<lambda>s. s\<lparr>delayChkpt := True\<rparr>),
       (\<lambda>t. insert_wal e (commit_record e (GetTopTransactionIdIfAny s) (pending_deletes e (trace s))
          (xactGetCommittedChildren (trans s)) ?msgs t) t),
       flush_and_commit e (GetTopTransactionIdIfAny s) (xactGetCommittedChildren (trans s)) True (must_flush e s),
       assign (\<lambda>s. s\<lparr>delayChkpt := False\<rparr>)]"
  have "?crit ?s1 = critical_part e s ?s1"
      by (simp add: critical_part_def steps.simps(2) [of "assign _"] steps.simps(2) [of "\<lambda>t. insert_wal _ (_ t) t"]
          steps.simps(2) [of "insert_wal _ _"] assign_def this_record_def commit_record_def)
  then have crit: "in_critical ?crit ?s1 = in_critical (critical_part e s) ?s1" by (simp add: in_critical_eq)
  have "RecordTransactionCommit e s = steps (call e ?b # in_critical ?crit # ?tail) s"
      using x by (simp add: RecordTransactionCommit_def Let_def only_True must_flush_def after_commit_def)
  then show ?thesis
      unfolding steps_call steps.simps(2) [of "in_critical _"] crit .
qed

lemma commit_ordered:
  assumes x: "TransactionIdIsValid (GetTopTransactionIdIfAny s)"
  shows "commit_progress e s (RecordTransactionCommit e s)"
proof -
  let ?b = "Call ''BufmgrCommit'' []" and ?ev = "commit_events e s" and ?tail = "after_commit s e"
  let ?s1 = "s\<lparr>trace := trace s @ [?b]\<rparr>"
  note main = commit_shape [OF x, of e]
  obtain o2 s2 where c: "critical_part e s ?s1 = (o2, s2)" by (cases "critical_part e s ?s1")
  have "\<exists>k. trace s2 = trace s @ take k ?ev \<and>
    (if o2 = None then k = 4 \<and> committed_log e s = Inr (xact_log (vars (xv s2))) \<and> delayChkpt s2 = False \<and>
        XactLastRecEnd s2 = record_end e s
     else k \<in> {2, 3, 4} \<and> xact_log (vars (xv s2)) = xact_log (vars (xv s)))"
    using critical_progress [of ?s1 s e, unfolded c fst_conv snd_conv] by simp
  then obtain k where k: "trace s2 = trace s @ take k ?ev"
    "if o2 = None then k = 4 \<and> committed_log e s = Inr (xact_log (vars (xv s2))) \<and> delayChkpt s2 = False \<and>
        XactLastRecEnd s2 = record_end e s
     else k \<in> {2, 3, 4} \<and> xact_log (vars (xv s2)) = xact_log (vars (xv s))" by blast
  show ?thesis
  proof (cases "raises e (trace s @ [?b])")
    case (Some err)
    then show ?thesis
      unfolding main commit_progress_def by (intro exI [of _ 1]) (simp add: steps_call commit_events_def)
  next
    case None
    then have run: "RecordTransactionCommit e s = (case o2 of None \<Rightarrow> steps ?tail s2 | Some err \<Rightarrow> (Some (crashes err), s2))"
      unfolding main by (simp add: steps_call steps.simps(2) [of "in_critical _"] in_critical_eq c split: option.split)
    show ?thesis
    proof (cases o2)
      case (Some err)
      then show ?thesis
        unfolding run commit_progress_def by (intro exI [of _ k]) (use k Some not_plain in auto)
    next
      case None
      then have at: "trace s2 = trace s @ take 4 ?ev" "committed_log e s = Inr (xact_log (vars (xv s2)))"
          "delayChkpt s2 = False" "XactLastRecEnd s2 = record_end e s"
        using k by auto
      show ?thesis
        unfolding run None option.case commit_progress_def
        by (cases "XactLastRecEnd s = 0"; cases "raises e (trace s @ ?ev)"; intro exI [of _ "length ?ev"])
          (simp_all add: after_commit_def steps.simps(2) assign_def only_def call_at at commit_events_def)
    qed
  qed
qed

lemma commit_succeeds:
  assumes "TransactionIdIsValid (GetTopTransactionIdIfAny s)" and none: "\<And>t. raises e t = None" and "committed_log e s = Inr c"
  shows "fst (RecordTransactionCommit e s) = None"
proof -
  have "fst (critical_part e s t) = None" if "xact_log (vars (xv t)) = xact_log (vars (xv s))" "trace t = trace s @ [Call ''BufmgrCommit'' []]" for t
    using assms(3) that
    by (cases "must_flush e s") (simp_all add: critical_part_def steps.simps(2) call_at none insert_wal_def assign_def
        flush_and_commit_def only_def update_clog_def committed_log_def record_end_def)
  then have crit: "fst (in_critical (critical_part e s) (s\<lparr>trace := trace s @ [Call ''BufmgrCommit'' []]\<rparr>)) = None"
    by (simp add: in_critical_eq)
  have "fst (steps (after_commit s e) t) = None" for t
    by (simp add: after_commit_def steps.simps(2) assign_def only_def call_at none)
  then show ?thesis
    using crit unfolding commit_shape [OF assms(1)] steps_call none option.case steps.simps(2) [of "in_critical _"]
    by (auto split: prod.split option.split)
qed

subsection \<open>A commit is final\<close>

text \<open>
  \<open>calm_about\<close>: a step leaves alone what decides whether a transaction has committed, and inserts
  no WAL record.
\<close>

definition verdict_state :: "xact_backend \<Rightarrow> varsup \<times> (TransactionId \<times> XidStatus \<times> XLogRecPtr) \<times> TransactionId \<times> TransactionId list" where
  "verdict_state s = (vars (xv s), fetched s, own_xmin s, map transactionId (trans s))"

definition no_record :: "xact_call \<Rightarrow> bool" where
  "no_record c \<longleftrightarrow> (case c of Call n xs \<Rightarrow> True | Warning m \<Rightarrow> True | _ \<Rightarrow> False)"

definition harmless :: "xact_backend \<Rightarrow> xact_backend \<Rightarrow> bool" where
  "harmless s t \<longleftrightarrow> verdict_state t = verdict_state s \<and> (\<exists>cs. trace t = trace s @ cs \<and> list_all no_record cs)"

lemma harmless_refl [simp]: "harmless s s"
  by (simp add: harmless_def)

lemma harmless_trans: "harmless s t \<Longrightarrow> harmless t u \<Longrightarrow> harmless s u"
  by (auto simp: harmless_def)

definition bystander :: "(xact_backend \<Rightarrow> outcome) \<Rightarrow> bool" where
  "bystander f \<longleftrightarrow> (\<forall>s. harmless s (snd (f s)))"

lemma bystander_steps: "bystander (steps [])" "bystander f \<Longrightarrow> bystander (steps fs) \<Longrightarrow> bystander (steps (f # fs))"
proof -
  show "bystander (steps (f # fs))" if "bystander f" "bystander (steps fs)"
    unfolding bystander_def
  proof
    fix s
    obtain r t where f: "f s = (r, t)" by (cases "f s")
    then have "harmless s t" "harmless t (snd (steps fs t))"
      using that unfolding bystander_def by (metis snd_conv)+
    then show "harmless s (snd (steps (f # fs) s))"
      by (cases r) (auto simp: steps.simps(2) f intro: harmless_trans)
  qed
qed (simp add: bystander_def)

lemma bystander_call: "bystander (call e (Call n xs))"
  by (simp add: bystander_def harmless_def call_at verdict_state_def trans_def no_record_def)

lemma bystander_calls: "list_all no_record cs \<Longrightarrow> bystander (calls e cs)"
proof (induction cs)
  case (Cons c cs)
  have "bystander (call e c)"
    using Cons.prems by (simp add: bystander_def harmless_def call_at verdict_state_def trans_def)
  then show ?case using Cons by (simp add: calls_def bystander_steps)
qed (simp add: calls_def bystander_steps)

lemma abort_prefix_harmless:
  "bystander (steps [AtAbort_Memory e, calls e release_low_level,
     expect_state ''AbortTransaction'' [TRANS_INPROGRESS, TRANS_PREPARE], set_xstate TRANS_ABORT,
     calls e [Call ''SetUserIdAndSecContext'' [], Call ''AfterTriggerEndXact'' [0], Call ''AtAbort_Portals'' [],
       Call ''AtEOXact_LargeObject'' [0], Call ''AtAbort_Notify'' [], Call ''AtEOXact_RelationMap'' [0],
       Call ''AtAbort_Twophase'' []]])"
proof -
  have "bystander (AtAbort_Memory e)"
    unfolding bystander_def AtAbort_Memory_def using bystander_call unfolding bystander_def by blast
  moreover have "bystander (expect_state fn ok)" for fn ok
    by (simp add: bystander_def expect_state_def warn_def assign_def harmless_def verdict_state_def trans_def no_record_def)
  moreover have "bystander (set_xstate t)" for t
    by (simp add: bystander_def set_xstate_def assign_def harmless_def verdict_state_def upd_cur_def trans_def set_trans_def
        split: list.split)
  ultimately show ?thesis
    by (intro bystander_steps bystander_calls) (simp_all add: release_low_level_def no_record_def)
qed

lemma abort_refused:
  assumes "wf_clog (block_size (xmode e)) (xact_log (vars (xv s)))" and "clog_covers (block_size (xmode e)) (xact_log (vars (xv s))) xid"
    and x: "TransactionIdIsNormal xid" and "xid_status (block_size (xmode e)) (xact_log (vars (xv s))) xid = TRANSACTION_STATUS_COMMITTED"
    and "cache_ok (block_size (xmode e)) (observer s)" and st: "map transactionId (trans s) = [xid]"
  shows "\<exists>err t. AbortTransaction e s = (Some err, t) \<and> harmless s t"
proof -
  let ?bs = "block_size (xmode e)"
  let ?pre = "[AtAbort_Memory e, calls e release_low_level,
     expect_state ''AbortTransaction'' [TRANS_INPROGRESS, TRANS_PREPARE], set_xstate TRANS_ABORT,
     calls e [Call ''SetUserIdAndSecContext'' [], Call ''AfterTriggerEndXact'' [0], Call ''AtAbort_Portals'' [],
       Call ''AtEOXact_LargeObject'' [0], Call ''AtAbort_Notify'' [], Call ''AtEOXact_RelationMap'' [0],
       Call ''AtAbort_Twophase'' []]]"
  obtain post where split: "AbortTransaction e = steps (?pre @ RecordTransactionAbort e False # post)"
    unfolding AbortTransaction_def by simp
  obtain r t where pre: "steps ?pre s = (r, t)" by (cases "steps ?pre s")
  have h: "harmless s t" using abort_prefix_harmless [of e] unfolding bystander_def by (metis pre snd_conv)
  have v: "vars (xv t) = vars (xv s)" "observer t = observer s" "map transactionId (trans t) = [xid]"
    using h st by (simp_all add: harmless_def verdict_state_def observer_def)
  have cur: "GetCurrentTransactionIdIfAny t = xid"
    using v(3) by (cases "trans t") (auto simp: GetCurrentTransactionIdIfAny_def cur_def)
  obtain b where "TransactionLogFetch ?bs xid (observer s) = Inr (TRANSACTION_STATUS_COMMITTED, b)"
    using GetStatus_covers [OF assms(1,2)] assms(4,5) x normal_valid [OF x]
    by (cases "xid = cachedFetchXid (observer s)")
      (auto simp: TransactionLogFetch_def cache_ok_def TransactionIdIsValid_def observer_def)
  then have "TransactionIdDidCommit ?bs xid (observer t) = Some (Inr (True, b))"
    by (simp add: v TransactionIdDidCommit.simps [of _ _ "observer s"])
  then have "RecordTransactionAbort e False t = (Some (PANIC ''cannot abort transaction, it was already committed''), t)"
    using x by (simp add: RecordTransactionAbort_def Let_def cur normal_valid steps.simps(2) check_not_committed_def raise_def)
  then have rest: "steps (RecordTransactionAbort e False # post) t = (Some (PANIC ''cannot abort transaction, it was already committed''), t)"
    by (simp add: steps.simps(2) [of "RecordTransactionAbort e False"])
  show ?thesis
    unfolding split steps_append pre using h rest by (cases r) auto
qed

text \<open>What a commit record leaves alone.\<close>

definition session_part :: "xact_backend \<Rightarrow> xact_stack \<times> (TransactionId \<times> XidStatus \<times> XLogRecPtr) \<times> TransactionId \<times> subtrans" where
  "session_part s = (trans s, fetched s, own_xmin s, sub_log (vars (xv s)))"

definition keeps_session :: "(xact_backend \<Rightarrow> outcome) \<Rightarrow> bool" where
  "keeps_session f \<longleftrightarrow> (\<forall>s. session_part (snd (f s)) = session_part s)"

lemma keeps_steps: "keeps_session (steps [])" "keeps_session f \<Longrightarrow> keeps_session (steps fs) \<Longrightarrow> keeps_session (steps (f # fs))"
proof -
  show "keeps_session (steps (f # fs))" if "keeps_session f" "keeps_session (steps fs)"
    unfolding keeps_session_def
  proof
    fix s
    obtain r t where f: "f s = (r, t)" by (cases "f s")
    then have "session_part t = session_part s" "session_part (snd (steps fs t)) = session_part t"
      using that unfolding keeps_session_def by (metis snd_conv)+
    then show "session_part (snd (steps (f # fs) s)) = session_part s"
      by (cases r) (simp_all add: steps.simps(2) f)
  qed
qed (simp add: keeps_session_def)

lemma commit_keeps_session: "keeps_session (RecordTransactionCommit e)"
proof -
  have call: "keeps_session (call e c)" "keeps_session (\<lambda>s. call e (g s) s)" for c g
    by (simp_all add: keeps_session_def call_at session_part_def trans_def)
  have clog: "keeps_session (update_clog f)" "keeps_session (\<lambda>s. update_clog (g s) s)" for f g
    by (simp_all add: keeps_session_def update_clog_def session_part_def trans_def upd_vars_def split: sum.split)
  have fields: "keeps_session (assign (\<lambda>s. s\<lparr>delayChkpt := b\<rparr>))" "keeps_session (assign (\<lambda>s. s\<lparr>latestXid := x\<rparr>))"
      "keeps_session (assign (\<lambda>s. s\<lparr>XactLastRecEnd := g s\<rparr>))" for b x g
    by (simp_all add: keeps_session_def assign_def session_part_def trans_def)
  have only: "keeps_session f \<Longrightarrow> keeps_session (only b f)" for b f by (simp add: keeps_session_def only_def)
  have wal: "keeps_session (insert_wal e r)" for r unfolding insert_wal_def by (intro keeps_steps call fields)
  then have wal': "keeps_session (\<lambda>s. insert_wal e (r s) s)" for r by (simp add: keeps_session_def)
  have flush: "keeps_session (flush_and_commit e x c b f)" for x c b f
    unfolding flush_and_commit_def by (cases f; simp; intro keeps_steps call only clog)
  have crit: "keeps_session f \<Longrightarrow> keeps_session (in_critical f)" for f by (simp add: keeps_session_def in_critical_eq)
  show ?thesis
    unfolding keeps_session_def RecordTransactionCommit_def Let_def
  proof (rule allI, goal_cases)
    case (1 s)
    have "keeps_session (steps fs) \<Longrightarrow> session_part (snd (steps fs s)) = session_part s" for fs
      by (simp add: keeps_session_def)
    moreover have "session_part (s\<lparr>latestXid := x\<rparr>) = session_part s" for x by (simp add: session_part_def trans_def)
    ultimately show ?case
      using keeps_steps call fields only wal' flush crit by (simp add: raise_def)
  qed
qed

lemma commit_final:
  assumes st: "trans s = [x]" and x: "TransactionIdIsNormal (transactionId x)"
    and wf: "wf_clog (block_size (xmode e)) (xact_log (vars (xv s)))"
    and cov: "\<And>y. y \<in> insert (transactionId x) (set (childXids x)) \<Longrightarrow>
      clog_covers (block_size (xmode e)) (xact_log (vars (xv s))) y"
    and prog: "undecided (block_size (xmode e)) (xact_log (vars (xv s))) (transactionId x) (set (childXids x))"
    and cache: "cache_ok (block_size (xmode e)) (observer s)"
    and ok: "RecordTransactionCommit e s = (None, t)"
  shows "\<exists>err u. AbortTransaction e t = (Some err, u) \<and>
    (\<forall>y \<in> insert (transactionId x) (set (childXids x)).
      xid_status (block_size (xmode e)) (xact_log (vars (xv u))) y = TRANSACTION_STATUS_COMMITTED) \<and>
    (\<exists>cs. trace u = trace s @ commit_events e s @ cs \<and> list_all no_record cs)"
proof -
  let ?bs = "block_size (xmode e)" and ?c = "xact_log (vars (xv s))" and ?d = "xact_log (vars (xv t))"
  have id: "GetTopTransactionIdIfAny s = transactionId x" "xactGetCommittedChildren (trans s) = childXids x"
    using st by (simp_all add: GetTopTransactionIdIfAny_def xactGetCommittedChildren_def)
  have progress: "committed_log e s = Inr ?d" "trace t = trace s @ commit_events e s"
    using commit_ordered [of s e] normal_valid [OF x] by (auto simp: id ok commit_progress_def split: if_splits)
  have final: "final_status TRANSACTION_STATUS_COMMITTED" by (simp add: final_status_def)
  have "\<exists>c'. TransactionIdSetTreeStatus ?bs (transactionId x) (childXids x) TRANSACTION_STATUS_COMMITTED lsn ?c = Inr c' \<and>
    wf_clog ?bs c' \<and> (\<forall>y. clog_covers ?bs ?c y \<longrightarrow> clog_covers ?bs c' y) \<and>
    (\<forall>y. xid_status ?bs c' y = (if y \<in> insert (transactionId x) (set (childXids x))
      then TRANSACTION_STATUS_COMMITTED else xid_status ?bs ?c y))" for lsn
    using SetTreeStatus_final [OF wf normal_valid [OF x] final cov, where lsn = lsn] by blast
  then have "\<exists>c'. committed_log e s = Inr c' \<and> wf_clog ?bs c' \<and> (\<forall>y. clog_covers ?bs ?c y \<longrightarrow> clog_covers ?bs c' y) \<and>
    (\<forall>y. xid_status ?bs c' y = (if y \<in> insert (transactionId x) (set (childXids x))
      then TRANSACTION_STATUS_COMMITTED else xid_status ?bs ?c y))"
    unfolding committed_log_def id TransactionIdCommitTree_def TransactionIdAsyncCommitTree_def
    by (cases "must_flush e s") (simp_all only: if_True if_False)
  then have d: "wf_clog ?bs ?d" "\<forall>y. clog_covers ?bs ?c y \<longrightarrow> clog_covers ?bs ?d y"
    "\<forall>y. xid_status ?bs ?d y = (if y \<in> insert (transactionId x) (set (childXids x))
      then TRANSACTION_STATUS_COMMITTED else xid_status ?bs ?c y)"
    using progress(1) by auto
  have same: "session_part t = session_part s" using commit_keeps_session [of e] ok unfolding keeps_session_def by (metis snd_conv)
  then have parts: "trans t = [x]" "fetched t = fetched s" by (simp_all add: session_part_def st)
  have "cache_ok ?bs (observer t)"
    using cache d(3) prog parts status_distinct
    by (auto simp: cache_ok_def observer_def undecided_def final_status_def)
  then obtain err u where u: "AbortTransaction e t = (Some err, u)" "harmless t u"
    using abort_refused [of e t "transactionId x"] d cov x parts by auto
  then have "xact_log (vars (xv u)) = ?d" by (simp add: harmless_def verdict_state_def)
  moreover obtain cs where "trace u = trace t @ cs" "list_all no_record cs" using u(2) by (auto simp: harmless_def)
  ultimately show ?thesis using u d(3) progress(2) by (intro exI [of _ err] exI [of _ u]) auto
qed

end
