(* ===== verification/Spec2Isabelle.thy ===== *)
theory Spec2Isabelle
  imports RelidSets HashAny FsmPage Busy MultixactMake SessionRefine XactCommit
begin

text \<open>
  This development models the transaction machinery of the PostgreSQL 9.4.4 server that the
  Agens SQL bundle is built on (src/postgresql-9.4.4), with three of its self-contained data
  structures. Paths below are relative to src/postgresql-9.4.4/src.

  \<^bold>\<open>The program and its parts.\<close> A transaction gets a 32-bit identifier from a counter that wraps
  around (varsup.c). Its outcome is two bits in the commit log pg_clog (clog.c); the parent of a
  subtransaction is in pg_subtrans (subtrans.c); transam.c reads both to decide whether a
  transaction committed or aborted. Running transactions are advertised in the process array
  (procarray.c), from which snapshots and the horizon of VACUUM are computed; on a standby the
  array is replaced by KnownAssignedXids, which WAL replay maintains. A row that several
  transactions lock names a multixact, a number for a set of members (multixact.c). The
  visibility functions (tqual.c) put all of this together to decide which tuples a command sees,
  and leave hint bits in the tuples. xact.c keeps the stack of a backend's nested transactions;
  the commands of the client mark its levels, and at the end of each command, or after an error,
  the marks decide which levels are started, committed, aborted or popped.

  \<^bold>\<open>Theories and the code they model.\<close>
  \<^item> Prelude: error values, machine words, two loop shapes, generic lemmas.
  \<^item> IntSet, Bitmapset, RelidSets: include/nodes/bitmapset.h, backend/nodes/bitmapset.c and two
    clients of it (rewriteManip.c, the HOT update check of heapam.c).
  \<^item> HashAny: backend/access/hash/hashfunc.c.
  \<^item> FsmPage: backend/storage/freespace (fsmpage.c, and the address arithmetic of freespace.c).
  \<^item> Xid: include/access/transam.h and the comparisons of transam.c. Identifiers in a window of
    2^31 from a base are ordered by their distance \<open>age\<close> from it, and all invariants use this.
  \<^item> XidLog: the interface \<open>xid_log\<close> of a log with one entry for each transaction; Clog and
    Subtrans (clog.c, subtrans.c) interpret it.
  \<^item> Transam: the verdicts of transam.c with its one-entry cache. Varsup: varsup.c.
  \<^item> Htup: the tuple header of htup_details.h and the combo command ids of combocid.c.
    Tqual: tqual.c over a record \<open>xact_env\<close> of the questions it asks. Visibility: the
    specifications, the relation \<open>hint_step\<close> of a hint that may be set, and the locale
    \<open>xact_world\<close> in which every function of Tqual is proved correct.
  \<^item> KnownAssigned, Standby: the standby half of procarray.c. ProcArray: the other half.
    Horizon: the process array as a system of steps.
  \<^item> Xact: the transaction stack and the assignment of identifiers of xact.c. XactState: the
    state of a backend around the stack, the calls it makes, memory contexts and resource owners.
    XactEnd: start, commit, prepare, abort and cleanup of transactions and subtransactions.
    XactBlock: the block state machine, savepoints, and the traffic cop of postgres.c and
    utility.c. A function of these returns the error, if one is raised, and the state it leaves;
    calls of other modules are events, and \<open>raises\<close> decides which of them fail.
  \<^item> XactFrames: what the functions leave alone of the \<open>view\<close> of the stack. XactSession: the rules
    \<open>gives\<close> for steps on views. SessionSteps, SessionRefine: the abstract \<open>session\<close> and the
    simulation. XactCommit: the events of a commit and its finality.
  \<^item> Multixact: multixact.c. MultixactLog: its two logs as maps, which also interpret \<open>xid_log\<close>.
    MultixactMake: the creation of multixacts.
  \<^item> Server: the state of a whole server. \<open>server_env\<close> answers the questions of Tqual by the
    models of the functions the code calls, and \<open>xact_world\<close> is interpreted on it.
    Removal: VACUUM against snapshots. Busy: the example state of the witnesses.

  \<^bold>\<open>Conventions.\<close> State is passed explicitly, a record for what a C file keeps in shared or static
  memory. Errors are \<open>Inl\<close> of the severity and the message. Integers are words of the C width.
  SLRU buffers are transparent: a log is a map from page numbers to pages, a page that does not
  exist is an error (or zeroes, during recovery). Locks are not modelled; where a function
  releases one in the middle, what others do meanwhile is a parameter. A loop that may not end is
  a \<open>partial_function\<close>, and a theorem says when it ends; there is no fuel, and the one bound on a
  recursion, \<open>ERRORDATA_STACK_SIZE\<close> nested errors in the error handler, is the code's. The block size
  and the limits from the configuration are parameters, with the bounds a theorem needs in its
  premises. Assertions are left out, except those that a theorem turns on, in the release and the
  rollback of internal subtransactions (\<open>assert_state\<close>) and in the HOT update check, where a failed
  one ends the server.

  \<^bold>\<open>What the theorems show.\<close> C1 to C8: commits of transaction trees are atomic, verdicts follow the
  log, assignment respects the wraparound limits. C9 to C16: each visibility function
  implements its specification on a consistent server state, hints are true and durable,
  snapshots record exactly the running transactions, VACUUM's horizon is a lower bound and
  spares every snapshot. C17 to C19: backend slots and the stack of transactions. C20 to C26:
  the traffic cop refines the client's session wherever an error strikes, errors are handled from
  every state, a commit obeys the write-ahead rule and is final. C27 and C28: the standby's array and its start. C29
  to C32: multixacts read back, keep their members, get their pages and stay before the limit.
  The rest: bitmap sets, hash functions, free space map pages.

  \<^bold>\<open>Not modelled.\<close> I/O, the contents of WAL and of buffers (events at most); lock.c and the deadlock
  detector; what the other modules do when xact.c calls them at the start or the end of a
  transaction (a call may raise an error, and else leaves the state of xact.c as it was), which
  covers deferred triggers, resource owners, portals and the two-phase files of a prepared
  transaction; the loop over the statements of a query string and the extended query protocol; what
  parsing, planning and the portals do (calls that may fail); the exit of a backend after \<open>FATAL\<close>;
  replay of commit records; truncation of the logs; logical decoding; every other subsystem of
  the server and every other package of Agens SQL. These are I/O, shared-memory protocols or
  code over catalog contents, whose models would be mostly parameters.
\<close>

section \<open>The commit log\<close>

text \<open>
  The example the witnesses use: a cluster with 8-byte pages, transaction 3 with its
  subtransactions 4 (on the same commit log page) and 35 (on the next one), nothing decided.
\<close>

definition ex_clog :: clog where
  "ex_clog = \<lparr>pages = (\<lambda>n. if n < 2 then Some (zero_page 8) else None), InRecovery = False\<rparr>"

definition ex_subtrans :: subtrans where
  "ex_subtrans = \<lparr>parent_pages = (\<lambda>n. if n < 18 then Some
     (if n = 2 then [3, 0] else if n = 17 then [0, 4] else [0, 0]) else None), recovering = False\<rparr>"

lemma ex_wf: "wf_clog 8 ex_clog"
  by (auto simp: wf_clog_def ex_clog_def zero_page_wf split: if_splits)

lemma ex_covers: "x \<in> {3, 4, 35} \<Longrightarrow> clog_covers 8 ex_clog x"
  by (auto simp: clog_covers_def ex_clog_def TransactionIdToPage_def CLOG_XACTS_PER_PAGE_def)

lemma ex_status: "xid_status 8 ex_clog x = TRANSACTION_STATUS_IN_PROGRESS"
  by (simp add: xid_status_def ex_clog_def zero_page_status)

lemma ex_parents: "parent_of 8 ex_subtrans 3 = 0" "parent_of 8 ex_subtrans 4 = 3"
  "parent_of 8 ex_subtrans 35 = 4"
  by (simp_all add: parent_of_def ex_subtrans_def SubTransToPage_def TransactionIdToEntry_def
      SUBTRANS_XACTS_PER_PAGE_def)

lemma ex_subtrans_wf: "wf_subtrans 8 ex_subtrans"
  by (simp add: wf_subtrans_def ex_subtrans_def SUBTRANS_XACTS_PER_PAGE_def)

lemma ex_subtrans_covers: "x \<in> {3, 4, 5, 35} \<Longrightarrow> subtrans_covers 8 ex_subtrans x"
  by (auto simp: subtrans_covers_def ex_subtrans_def SubTransToPage_def SUBTRANS_XACTS_PER_PAGE_def)

lemma ex_precedes:
  "TransactionIdPrecedes 3 4" "TransactionIdPrecedes 4 35" "\<not> TransactionIdPrecedes 3 3"
  "\<not> TransactionIdPrecedes 4 3" "\<not> TransactionIdPrecedes 35 3"
  by (simp_all add: TransactionIdPrecedes_def TransactionIdIsNormal_def xid_constants status_defs)

lemma ex_parents_ok: "parents_ok 8 ex_subtrans 3 {3, 4, 35}"
  using ex_subtrans_wf ex_subtrans_covers
  by (simp add: parents_ok_def ex_parents ex_precedes xid_constants status_defs TransactionIdIsNormal_def)

lemma ex_tree: "linked_tree 8 ex_subtrans 3 3 (set [4, 35])"
  using ex_parents_ok
  by (simp add: linked_tree_def ex_parents ex_precedes TransactionIdIsNormal_def xid_constants status_defs)

lemma ex_undecided: "undecided 8 ex_clog 3 (set [4, 35])"
  by (simp add: undecided_def ex_status)

text \<open>
  C1: Commit of a transaction tree is atomic for concurrent checkers at every moment of the
  update. The run of TransactionIdSetTreeStatus(COMMITTED) lists the log after each single
  status bit that it sets, page by page in the order of the code, from the log before (number 0)
  to the log it returns; there is one write, number m, such that in the logs up to it
  TransactionIdDidCommit returns false for all members of the tree and in all later ones true
  for all of them, whatever a correct cache the observer has.
\<close>

theorem commit_is_atomic:
  assumes "linked_tree bs s xmin xid (set xids)" and "wf_clog bs c"
    and "\<And>x. x \<in> insert xid (set xids) \<Longrightarrow> clog_covers bs c x"
    and "undecided bs c xid (set xids)"
  shows "\<exists>cs c'. TransactionIdSetTreeStatus_run bs xid xids TRANSACTION_STATUS_COMMITTED lsn c = Inr (cs, c') \<and>
    TransactionIdSetTreeStatus bs xid xids TRANSACTION_STATUS_COMMITTED lsn c = Inr c' \<and>
    (c # cs) ! length cs = c' \<and>
    (\<exists>m < length cs. \<forall>k \<le> length cs. \<forall>ob. observes bs ((c # cs) ! k) s xmin ob \<longrightarrow>
       (\<forall>t \<in> insert xid (set xids). \<exists>ob'. TransactionIdDidCommit bs t ob = Some (Inr (m < k, ob'))))"
proof -
  obtain cs c' where "TransactionIdSetTreeStatus_run bs xid xids TRANSACTION_STATUS_COMMITTED lsn c = Inr (cs, c')"
    "(c # cs) ! length cs = c'"
    "\<exists>m < length cs. \<forall>k \<le> length cs. \<forall>ob. observes bs ((c # cs) ! k) s xmin ob \<longrightarrow>
       (\<forall>t \<in> insert xid (set xids). \<exists>ob'. TransactionIdDidCommit bs t ob = Some (Inr (m < k, ob')))"
    using commit_run_atomic [OF assms, of lsn] by blast
  then show ?thesis by (intro exI [of _ cs] exI [of _ c'] conjI) (simp_all add: TransactionIdSetTreeStatus_def)
qed

theorem commit_is_atomic_witness:
  "\<exists>cs c'. TransactionIdSetTreeStatus_run 8 3 [4, 35] TRANSACTION_STATUS_COMMITTED 0 ex_clog = Inr (cs, c') \<and>
    TransactionIdSetTreeStatus 8 3 [4, 35] TRANSACTION_STATUS_COMMITTED 0 ex_clog = Inr c' \<and>
    (ex_clog # cs) ! length cs = c' \<and>
    (\<exists>m < length cs. \<forall>k \<le> length cs. \<forall>ob. observes 8 ((ex_clog # cs) ! k) ex_subtrans 3 ob \<longrightarrow>
       (\<forall>t \<in> insert 3 (set [4, 35]). \<exists>ob'. TransactionIdDidCommit 8 t ob = Some (Inr (m < k, ob'))))"
  using ex_covers by (intro commit_is_atomic [OF ex_tree ex_wf _ ex_undecided]) auto

text \<open>
  C2: Setting a transaction tree to a final status succeeds; afterwards TransactionIdGetStatus
  reports that status for exactly the members of the tree, the old status for every other
  transaction whose page exists, and an LSN that is never smaller than before and at least the
  commit record's LSN for the tree.
\<close>

theorem commit_log_update:
  assumes "wf_clog bs c" and "TransactionIdIsValid xid" and "final_status s"
    and "\<And>x. x \<in> insert xid (set xids) \<Longrightarrow> clog_covers bs c x"
  shows "\<exists>c'. TransactionIdSetTreeStatus bs xid xids s lsn c = Inr c' \<and> wf_clog bs c' \<and>
    (\<forall>y. clog_covers bs c y \<longrightarrow> (\<exists>old oldlsn newlsn.
       TransactionIdGetStatus bs y c = Inr (old, oldlsn) \<and>
       TransactionIdGetStatus bs y c' =
         Inr (if y \<in> insert xid (set xids) then s else old, newlsn) \<and>
       oldlsn \<le> newlsn \<and> (y \<in> insert xid (set xids) \<longrightarrow> lsn \<le> newlsn)))"
proof -
  obtain c' where c': "TransactionIdSetTreeStatus bs xid xids s lsn c = Inr c'" "wf_clog bs c'"
    "\<And>y. clog_covers bs c y \<Longrightarrow> clog_covers bs c' y"
    "\<And>y. xid_status bs c' y = (if y \<in> insert xid (set xids) then s else xid_status bs c y)"
    "\<And>y. xid_lsn bs c y \<le> xid_lsn bs c' y"
    "\<And>x. x \<in> insert xid (set xids) \<Longrightarrow> lsn \<le> xid_lsn bs c' x"
    using SetTreeStatus_final [OF assms(1-4)] by blast
  then show ?thesis
    using GetStatus_covers [OF assms(1)] GetStatus_covers [OF c'(2)]
    by (intro exI [of _ c']) auto
qed

theorem commit_log_update_witness:
  "\<exists>c'. TransactionIdSetTreeStatus 8 3 [4, 35] TRANSACTION_STATUS_ABORTED 7 ex_clog = Inr c' \<and>
    TransactionIdGetStatus 8 35 c' = Inr (TRANSACTION_STATUS_ABORTED, snd (projr (TransactionIdGetStatus 8 35 c')))"
  using commit_log_update [OF ex_wf, of 3 TRANSACTION_STATUS_ABORTED "[4, 35]" 7]
    ex_covers [of 35] ex_covers
  by (fastforce simp: final_status_def TransactionIdIsValid_def xid_constants status_defs)

text \<open>
  C3: TransactionIdDidCommit and TransactionIdDidAbort return (the walk over the parents of
  subcommitted transactions ends) and answer exactly the commit log's rules: committed if so
  marked or if the chain of parents ends in a committed one, aborted if so marked, orphaned or
  with an aborted ancestor; the two are never both true, the logs are unchanged and the
  single-item cache stays correct.
\<close>

theorem commit_verdicts:
  assumes "logs_ok bs b X" and "cache_ok bs b" and "x \<in> X" and "TransactionIdIsValid x"
  shows "\<exists>yes no b1 b2. TransactionIdDidCommit bs x b = Some (Inr (yes, b1)) \<and>
    TransactionIdDidAbort bs x b = Some (Inr (no, b2)) \<and> \<not> (yes \<and> no) \<and>
    yes = committed (logged_status bs b) (parent_of bs (pg_subtrans b)) (TransactionXmin b) x \<and>
    no = aborted (logged_status bs b) (parent_of bs (pg_subtrans b)) (TransactionXmin b) x \<and>
    same_logs b b1 \<and> cache_ok bs b1 \<and> same_logs b b2 \<and> cache_ok bs b2"
  using DidCommit_ok [OF assms] DidAbort_ok [OF assms] committed_not_aborted by fast

definition ex_backend :: backend where
  "ex_backend = \<lparr>pg_clog = ex_clog, pg_subtrans = ex_subtrans, TransactionXmin = 3,
     cachedFetchXid = 0, cachedFetchXidStatus = 0, cachedCommitLSN = 0\<rparr>"

theorem commit_verdicts_witness:
  "\<exists>yes no b1 b2. TransactionIdDidCommit 8 35 ex_backend = Some (Inr (yes, b1)) \<and>
    TransactionIdDidAbort 8 35 ex_backend = Some (Inr (no, b2)) \<and> \<not> (yes \<and> no)"
proof -
  have "logs_ok 8 ex_backend {3, 4, 35}"
    using ex_wf ex_parents_ok ex_covers by (simp add: logs_ok_def ex_backend_def)
  moreover have "cache_ok 8 ex_backend"
    by (simp add: cache_ok_def ex_backend_def xid_constants status_defs)
  ultimately show ?thesis
    using commit_verdicts [of 8 ex_backend "{3, 4, 35}" 35]
    by (auto simp: TransactionIdIsValid_def xid_constants status_defs)
qed

text \<open>
  SubTransGetTopmostTransaction terminates and returns an ancestor of the given transaction at which the
  walk has to stop: one older than TransactionXmin, or one that has no parent.
\<close>

theorem topmost_transaction:
  assumes "parents_ok bs s xmin X" and "x \<in> X" and "TransactionIdIsValid x"
  shows "\<exists>r. SubTransGetTopmostTransaction bs xmin x s = Some (Inr r) \<and>
    (\<lambda>a b. b = parent_of bs s a)\<^sup>*\<^sup>* x r \<and>
    (TransactionIdPrecedes r xmin \<or> \<not> TransactionIdIsNormal r \<or> parent_of bs s r = InvalidTransactionId)"
  using topmost_loop_ok [OF assms] by (simp add: SubTransGetTopmostTransaction_def walk_ends_def)

theorem topmost_transaction_witness:
  "\<exists>r. SubTransGetTopmostTransaction 8 3 35 ex_subtrans = Some (Inr r)"
  using topmost_transaction [OF ex_parents_ok, of 35] by (auto simp: TransactionIdIsValid_def xid_constants status_defs)

text \<open>
  What SubTransSetParent stores SubTransGetParent returns, and the parent of no other transaction
  changes.
\<close>

theorem subtrans_store:
  assumes "wf_subtrans bs s" and "subtrans_covers bs s x" and "TransactionIdIsNormal x"
  shows "\<exists>s'. SubTransSetParent bs x up s = Inr s' \<and> SubTransGetParent bs x s' = Inr up \<and>
    (\<forall>y. y \<noteq> x \<and> subtrans_covers bs s y \<longrightarrow> SubTransGetParent bs y s' = SubTransGetParent bs y s)"
proof -
  obtain s' where s': "SubTransSetParent bs x up s = Inr s'" "wf_subtrans bs s'"
    "\<And>y. subtrans_covers bs s y \<Longrightarrow> subtrans_covers bs s' y"
    "parent_of bs s' = (parent_of bs s)(x := up)"
    using SetParent_ok [OF assms(1,2)] by blast
  have "SubTransGetParent bs y s' = SubTransGetParent bs y s" if "y \<noteq> x" "subtrans_covers bs s y" for y
    using GetParent_covers [OF assms(1) that(2)] GetParent_covers [OF s'(2), of y] s'(3) [OF that(2)]
      s'(4) that(1)
    by (cases "TransactionIdIsNormal y") (simp_all add: SubTransGetParent_def)
  then show ?thesis
    using s' GetParent_covers [OF s'(2) s'(3) [OF assms(2)] assms(3)] by auto
qed

theorem subtrans_store_witness:
  "\<exists>s'. SubTransSetParent 8 5 3 ex_subtrans = Inr s' \<and> SubTransGetParent 8 5 s' = Inr 3"
  using subtrans_store [OF ex_subtrans_wf ex_subtrans_covers, of 5 3]
  by (auto simp: TransactionIdIsNormal_def xid_constants status_defs)

section \<open>Transaction identifiers\<close>

text \<open>
  C4: On a set of normal transaction identifiers within 2^31 of a base, the four modulo-2^32
  comparisons are the comparisons of one linear order (the distance from the base), and
  TransactionIdLatest returns the latest member of a transaction tree.
\<close>

theorem xid_order:
  assumes "xid_window base (insert xid (set xids))"
  shows "(\<forall>a \<in> insert xid (set xids). \<forall>b \<in> insert xid (set xids).
      (TransactionIdPrecedes a b \<longleftrightarrow> age base a < age base b) \<and>
      (TransactionIdPrecedesOrEquals a b \<longleftrightarrow> \<not> TransactionIdPrecedes b a) \<and>
      (TransactionIdFollows a b \<longleftrightarrow> TransactionIdPrecedes b a) \<and>
      (TransactionIdFollowsOrEquals a b \<longleftrightarrow> \<not> TransactionIdPrecedes a b)) \<and>
    TransactionIdLatest xid xids \<in> insert xid (set xids) \<and>
    (\<forall>x \<in> insert xid (set xids). TransactionIdPrecedesOrEquals x (TransactionIdLatest xid xids))"
  using TransactionIdLatest_max [OF assms] Precedes_window [OF assms] by (simp add: not_less)

theorem xid_order_witness:
  "TransactionIdPrecedes 4294967290 5 \<and> TransactionIdLatest 4294967290 [5] \<in> {4294967290, 5}"
proof -
  have window: "xid_window 4294967280 (insert 4294967290 (set [5]))"
    by (simp add: xid_window_def TransactionIdIsNormal_def age_def xid_constants status_defs)
  show ?thesis using xid_order [OF window] by (simp add: age_def)
qed

text \<open>
  Advancing a normal transaction identifier gives a normal one that follows it, also across the
  wraparound at 2^32 that skips the permanent identifiers, and retreating undoes it.
\<close>

theorem xid_advance:
  assumes "TransactionIdIsNormal xid"
  shows "TransactionIdIsNormal (TransactionIdAdvance xid) \<and>
    TransactionIdPrecedes xid (TransactionIdAdvance xid) \<and>
    TransactionIdRetreat (TransactionIdAdvance xid) = xid"
  using assms by (simp add: Advance_normal Advance_Follows Retreat_Advance)

theorem xid_advance_witness:
  "TransactionIdAdvance 0xFFFFFFFF = 3 \<and> TransactionIdRetreat 3 = 0xFFFFFFFF"
proof -
  have "TransactionIdIsNormal 0xFFFFFFFF" by (simp add: TransactionIdIsNormal_def xid_constants status_defs)
  moreover have "TransactionIdAdvance 0xFFFFFFFF = 3" by (simp add: TransactionIdAdvance_def xid_constants status_defs)
  ultimately show ?thesis using xid_advance [of "0xFFFFFFFF"] by simp
qed

text \<open>
  C5: The wraparound protection works as long as no other backend changes the variable cache
  while GetNewTransactionId has released XidGenLock for its messages (the parameter others;
  without that assumption an identifier past the stop limit can be assigned, which the code
  leaves to its slack of 1M). With the limits that SetTransactionIdLimit computes, for any
  autovacuum_freeze_max_age guc.c admits, GetNewTransactionId in a server under a postmaster
  either refuses or assigns an identifier that the oldest one in the cluster still logically
  precedes or equals, and again leaves room for the next call.
\<close>

theorem xid_assignment_safe:
  assumes "TransactionIdIsNormal oldest" and "unat maxage \<le> 2000000000"
    and "cache s = (cache (SetTransactionIdLimit m r maxage oldest db s0))\<lparr>nextXid := next\<rparr>"
    and "TransactionIdIsNormal next"
    and "age oldest next \<le> age oldest (stop_limit (wrap_limit oldest)) + 3"
    and "IsUnderPostmaster m" and "\<not> IsBootstrapProcessingMode m"
    and "\<And>t. cache (others t) = cache t"
    and "GetNewTransactionId bs m others sub s = Inr (xid, s')"
  shows "TransactionIdPrecedesOrEquals oldest xid \<and>
    TransactionIdPrecedes xid (stop_limit (wrap_limit oldest)) \<and>
    age oldest (nextXid (cache s')) \<le> age oldest (stop_limit (wrap_limit oldest)) + 3 \<and>
    TransactionIdIsNormal (nextXid (cache s'))"
proof -
  let ?c = "cache (SetTransactionIdLimit m r maxage oldest db s0)"
  have fields: "oldestXid ?c = oldest" "xidStopLimit ?c = stop_limit (wrap_limit oldest)"
    by (simp_all add: SetTransactionIdLimit_def Let_def)
  have limits: "limits_ok ?c" by (rule SetTransactionIdLimit_limits [OF assms(1,2)])
  then have room: "xid_room (cache s)"
    using assms(3-5) by (simp add: xid_room_def limits_ok_def fields)
  note new = GetNewTransactionId_room_others [OF room assms(6-9)]
  have old: "oldestXid (cache s) = oldest" "xidStopLimit (cache s) = stop_limit (wrap_limit oldest)"
    "nextXid (cache s) = next"
    using assms(3) fields by simp_all
  have bound: "age oldest (stop_limit (wrap_limit oldest)) + 999000 < 2 ^ 31"
    "TransactionIdIsNormal (stop_limit (wrap_limit oldest))"
    using limits by (simp_all add: limits_ok_def fields)
  have xid: "TransactionIdIsNormal xid" "age oldest xid < age oldest (stop_limit (wrap_limit oldest))"
    using new(1,3) old assms(4) by simp_all
  have "TransactionIdPrecedesOrEquals oldest xid"
    using Precedes_age(2) [OF assms(1) xid(1), of oldest] xid bound by (simp add: age_def)
  moreover have "TransactionIdPrecedes xid (stop_limit (wrap_limit oldest))"
    using Precedes_age(1) [OF xid(1) bound(2), of oldest] xid bound by simp
  ultimately show ?thesis
    using new(2,4,5) old by (simp add: xid_room_def)
qed

definition ex_varsup :: varsup where
  "ex_varsup = \<lparr>cache = \<lparr>nextOid = 0, oidCount = 0, nextXid = 3, oldestXid = 3, xidVacLimit = 0,
      xidWarnLimit = 0, xidStopLimit = 0, xidWrapLimit = 0, oldestXidDB = 0\<rparr>,
    xact_log = ex_clog, sub_log = ex_subtrans,
    my = \<lparr>proc_xid = 0, subxids = [], overflowed = False\<rparr>, events = []\<rparr>"

definition ex_mode :: server_mode where
  "ex_mode = \<lparr>IsBootstrapProcessingMode = False, RecoveryInProgress = False,
     IsUnderPostmaster = True, IsPostmasterEnvironment = True\<rparr>"

theorem xid_assignment_safe_witness:
  "\<exists>s'. GetNewTransactionId 8 ex_mode id False
      (SetTransactionIdLimit ex_mode False 200000000 3 1 ex_varsup) = Inr (3, s') \<and>
    TransactionIdPrecedesOrEquals 3 3 \<and> TransactionIdPrecedes 3 (stop_limit (wrap_limit 3))"
proof -
  let ?s = "SetTransactionIdLimit ex_mode False 200000000 3 1 ex_varsup"
  have nx: "nextXid (cache ?s) = 3"
    by (simp add: SetTransactionIdLimit_def Let_def ex_varsup_def)
  then have same: "cache ?s = (cache ?s)\<lparr>nextXid := 3\<rparr>" by (cases "cache ?s") simp
  have "\<not> TransactionIdFollowsOrEquals 3 (xidVacLimit (cache ?s))"
    by (simp add: SetTransactionIdLimit_def Let_def vac_limit_def TransactionIdFollowsOrEquals_def
        TransactionIdIsNormal_def xid_constants status_defs)
  then have "\<exists>s'. GetNewTransactionId 8 ex_mode id False ?s = Inr (3, s')"
    using nx by (simp add: GetNewTransactionId_def ex_mode_def Let_def)
  then obtain s' where s': "GetNewTransactionId 8 ex_mode id False ?s = Inr (3, s')" ..
  have "TransactionIdPrecedesOrEquals 3 3 \<and> TransactionIdPrecedes 3 (stop_limit (wrap_limit 3))"
    using xid_assignment_safe [OF _ _ same _ _ _ _ _ s']
    by (simp add: TransactionIdIsNormal_def xid_constants status_defs ex_mode_def age_def)
  with s' show ?thesis by blast
qed

text \<open>
  C6: A newly assigned transaction has its commit log page and is in progress there. TrimCLOG at
  the end of recovery blanks the page from the next identifier on and changes nothing before it;
  from then on, through any run of assignments (while one of them has released its lock, the
  others run too), of final statuses set for assigned identifiers and of changes outside the log
  and the counter, every GetNewTransactionId that returns gives an identifier whose status reads
  as in progress, and leaves the log blank from the next one on.
\<close>

theorem new_xid_in_progress:
  assumes "wf_clog bs c" and "clog_covers bs c (nextXid (cache s))"
    and "TransactionIdIsNormal (nextXid (cache s))" and "\<not> IsBootstrapProcessingMode m"
  shows "\<exists>c'. TrimCLOG bs (nextXid (cache s)) c = Inr c' \<and> fresh_from bs c' (nextXid (cache s)) \<and>
    (\<forall>y. unat y < unat (nextXid (cache s)) \<longrightarrow> xid_status bs c' y = xid_status bs c y) \<and>
    (\<forall>t others sub xid t'. xid_run bs m (s\<lparr>xact_log := c'\<rparr>) t \<and> (\<forall>u. xid_run bs m u (others u)) \<and>
       GetNewTransactionId bs m others sub t = Inr (xid, t') \<longrightarrow>
       TransactionIdGetStatus bs xid (xact_log t') =
         Inr (TRANSACTION_STATUS_IN_PROGRESS, xid_lsn bs (xact_log t') xid) \<and>
       fresh_from bs (xact_log t') (nextXid (cache t')))"
proof -
  obtain c' where c': "TrimCLOG bs (nextXid (cache s)) c = Inr c'" "wf_clog bs c'"
    "fresh_from bs c' (nextXid (cache s))"
    "\<forall>y. unat y < unat (nextXid (cache s)) \<longrightarrow> xid_status bs c' y = xid_status bs c y"
    using TrimCLOG_fresh [OF assms(1,2)] by (auto simp: not_le)
  then have ready: "clog_ready bs (s\<lparr>xact_log := c'\<rparr>)"
    using assms(3) by (simp add: clog_ready_def)
  have "TransactionIdGetStatus bs xid (xact_log t') =
         Inr (TRANSACTION_STATUS_IN_PROGRESS, xid_lsn bs (xact_log t') xid) \<and>
       fresh_from bs (xact_log t') (nextXid (cache t'))"
    if "xid_run bs m (s\<lparr>xact_log := c'\<rparr>) t" "\<forall>u. xid_run bs m u (others u)"
      "GetNewTransactionId bs m others sub t = Inr (xid, t')" for t others sub xid t'
    using GetNewTransactionId_ready [OF xid_run_ready [OF that(1) assms(4) ready] _ assms(4) that(3)]
      xid_run_ready [OF spec [OF that(2)] assms(4)]
    by (simp add: clog_ready_def)
  with c'(1,3,4) show ?thesis by blast
qed

theorem new_xid_in_progress_witness:
  "\<exists>c' t t'. TrimCLOG 8 3 ex_clog = Inr c' \<and>
    GetNewTransactionId 8 ex_mode id False
      (SetTransactionIdLimit ex_mode False 200000000 3 1 ex_varsup\<lparr>xact_log := c'\<rparr>) = Inr (3, t) \<and>
    GetNewTransactionId 8 ex_mode id True t = Inr (4, t') \<and>
    TransactionIdGetStatus 8 4 (xact_log t') =
      Inr (TRANSACTION_STATUS_IN_PROGRESS, xid_lsn 8 (xact_log t') 4)"
proof -
  let ?s = "SetTransactionIdLimit ex_mode False 200000000 3 1 ex_varsup"
  have limits: "nextXid (cache ?s) = 3" "xidVacLimit (cache ?s) = 200000003"
    by (simp_all add: SetTransactionIdLimit_def Let_def ex_varsup_def vac_limit_def xid_constants)
  have start: "clog_covers 8 ex_clog 3" "TransactionIdIsNormal 3" "\<not> IsBootstrapProcessingMode ex_mode"
    using ex_covers [of 3] by (simp_all add: ex_mode_def TransactionIdIsNormal_def xid_constants status_defs)
  obtain c' where c': "TrimCLOG 8 3 ex_clog = Inr c'"
    "\<And>t others sub xid t'. xid_run 8 ex_mode (?s\<lparr>xact_log := c'\<rparr>) t \<Longrightarrow>
       (\<And>u. xid_run 8 ex_mode u (others u)) \<Longrightarrow>
       GetNewTransactionId 8 ex_mode others sub t = Inr (xid, t') \<Longrightarrow>
       TransactionIdGetStatus 8 xid (xact_log t') =
         Inr (TRANSACTION_STATUS_IN_PROGRESS, xid_lsn 8 (xact_log t') xid)"
    using new_xid_in_progress [OF ex_wf, of ?s ex_mode, unfolded limits(1), OF start] by blast
  have early: "\<not> TransactionIdFollowsOrEquals 3 200000003" "\<not> TransactionIdFollowsOrEquals 4 200000003"
    by (simp_all add: TransactionIdFollowsOrEquals_def TransactionIdIsNormal_def xid_constants status_defs)
  obtain t where t: "GetNewTransactionId 8 ex_mode id False (?s\<lparr>xact_log := c'\<rparr>) = Inr (3, t)"
    "nextXid (cache t) = 4" "xidVacLimit (cache t) = 200000003"
    using early limits by (simp add: GetNewTransactionId_def ex_mode_def Let_def TransactionIdAdvance_def xid_constants)
  obtain t' where t': "GetNewTransactionId 8 ex_mode id True t = Inr (4, t')"
    using early t(2,3) by (simp add: GetNewTransactionId_def ex_mode_def Let_def)
  have idle: "xid_run 8 ex_mode u (id u)" for u by (simp add: run_start)
  have "xid_run 8 ex_mode (?s\<lparr>xact_log := c'\<rparr>) t"
    by (rule run_assign [OF run_start idle t(1)])
  from c'(2) [OF this idle t'] c'(1) t(1) t' show ?thesis by blast
qed



text \<open>
  C8: Under a postmaster GetNewObjectId never returns a reserved object identifier, also after
  the 32-bit counter wraps around, and never one at or past the limit that the last WAL record
  announced: when the prefetched identifiers are used up a new record is written first.
\<close>

theorem oid_assignment:
  assumes "oid_logged s lim" and "IsPostmasterEnvironment m"
    and "GetNewObjectId m s = Inr (oid, s')"
  shows "FirstNormalObjectId \<le> oid \<and>
    (\<exists>lim'. oid_logged s' lim' \<and> oid \<noteq> lim' \<and>
      (lim' = lim \<and> events s' = events s \<or> events s' = events s @ [XLOG_NEXTOID lim']))"
  using GetNewObjectId_range [OF assms(3,2)] GetNewObjectId_logged [OF assms(1,3)] by blast

theorem oid_assignment_witness:
  "\<exists>oid s'. GetNewObjectId ex_mode ex_varsup = Inr (oid, s') \<and> 16384 \<le> oid"
proof -
  have "\<exists>oid s'. GetNewObjectId ex_mode ex_varsup = Inr (oid, s')"
    by (simp add: GetNewObjectId_def ex_mode_def Let_def)
  then obtain oid s' where new: "GetNewObjectId ex_mode ex_varsup = Inr (oid, s')" by blast
  have "oid_logged ex_varsup 0" "IsPostmasterEnvironment ex_mode"
    by (simp_all add: oid_logged_def ex_varsup_def ex_mode_def)
  then show ?thesis
    using oid_assignment [OF _ _ new] new by (auto simp: FirstNormalObjectId_def)
qed

section \<open>Visibility and snapshots\<close>

text \<open>
  C9: HeapTupleSatisfiesMVCC refines the definition of snapshot visibility: evaluated on the
  models of TransactionIdIsInProgress, TransactionIdDidCommit,
  TransactionIdIsCurrentTransactionId and the multixact functions, it answers whether the
  snapshot sees the insertion and not the deletion, judged by xmin, xmax, lock and command id
  fields only, whatever true hint bits are set; and the hint bits it writes keep the tuple
  consistent and change the answer for no snapshot.
\<close>

theorem mvcc_visibility:
  assumes "server_ok base live s" and "tuple_ok (server_env s) t"
  shows "fst (HeapTupleSatisfiesMVCC (server_env s) sn t) = mvcc_visible (server_env s) sn t \<and>
    tuple_ok (server_env s) (snd (HeapTupleSatisfiesMVCC (server_env s) sn t)) \<and>
    (\<forall>sn'. mvcc_visible (server_env s) sn' (snd (HeapTupleSatisfiesMVCC (server_env s) sn t)) =
       mvcc_visible (server_env s) sn' t)"
  using xact_world.MVCC_correct [OF server_world [OF assms(1)] assms(2), of sn]
    hint_steps_ok [OF _ assms(2)] specs_same(3) by blast

theorem mvcc_visibility_witness:
  "fst (HeapTupleSatisfiesMVCC (server_env busy_server) busy_snapshot (busy_tuple 6 4)) \<and>
   \<not> fst (HeapTupleSatisfiesMVCC (server_env busy_server) busy_snapshot (busy_tuple 4 0))"
proof -
  have "mvcc_visible (server_env busy_server) busy_snapshot (busy_tuple 6 4)"
    "\<not> mvcc_visible (server_env busy_server) busy_snapshot (busy_tuple 4 0)"
    by (simp_all add: mvcc_visible_def snapshot_sees_insert_def snapshot_sees_delete_def deleter_in_def
        busy_deleter own_def inserted_def settled_def busy_env busy_verdicts)
      (simp add: XidInMVCCSnapshot_def busy_snapshot_def TransactionIdPrecedes_def TransactionIdFollowsOrEquals_def
        TransactionIdIsNormal_def xid_constants)
  then show ?thesis
    using mvcc_visibility [OF busy_server_ok busy_tuple_ok, of 6 busy_snapshot 4]
      mvcc_visibility [OF busy_server_ok busy_tuple_ok, of 4 busy_snapshot 0] by simp
qed

text \<open>
  C10: The functions that judge a tuple by the current state answer by their specifications,
  whatever true hint bits are set: HeapTupleSatisfiesSelf whether the tuple is there for this
  backend now, HeapTupleSatisfiesDirty the same with insertions in progress and with the
  transactions to wait for, HeapTupleSatisfiesUpdate which of its five verdicts applies to a
  command of this transaction, and HeapTupleSatisfiesVacuum which of its five.
\<close>

theorem current_visibility:
  assumes "server_ok base live s" and "tuple_ok (server_env s) t"
  shows "fst (HeapTupleSatisfiesSelf (server_env s) t) = self_visible (server_env s) t \<and>
    fst (HeapTupleSatisfiesDirty (server_env s) sn t) = (dirty_visible (server_env s) t,
      sn\<lparr>snap_xmin := dirty_xmin (server_env s) t, snap_xmax := dirty_xmax (server_env s) t\<rparr>) \<and>
    fst (HeapTupleSatisfiesUpdate (server_env s) cid t) = update_result (server_env s) cid t \<and>
    fst (HeapTupleSatisfiesVacuum (server_env s) ox t) = vacuum_result (server_env s) ox t"
proof -
  note w = server_world [OF assms(1)]
  show ?thesis
    using xact_world.Self_correct [OF w assms(2)] xact_world.Dirty_correct [OF w assms(2), of sn]
      xact_world.Update_correct [OF w assms(2), of cid] xact_world.Vacuum_correct [OF w assms(2), of ox]
    by blast
qed

theorem current_visibility_witness:
  "fst (HeapTupleSatisfiesUpdate (server_env busy_server) 0 (busy_tuple 6 4)) = HeapTupleBeingUpdated \<and>
   fst (HeapTupleSatisfiesVacuum (server_env busy_server) 4 (busy_tuple 3 6)) = HEAPTUPLE_RECENTLY_DEAD"
proof -
  have "update_result (server_env busy_server) 0 (busy_tuple 6 4) = HeapTupleBeingUpdated"
    "vacuum_result (server_env busy_server) 4 (busy_tuple 3 6) = HEAPTUPLE_RECENTLY_DEAD"
    by (simp_all add: update_result_def vacuum_result_def foreign_lock_def deleter_in_def busy_deleter own_def
        inserted_def inserting_def settled_def busy_env busy_verdicts)
      (simp add: TransactionIdPrecedes_def TransactionIdIsNormal_def xid_constants)
  then show ?thesis
    using current_visibility [OF busy_server_ok busy_tuple_ok, of 6 4 busy_snapshot 0 4]
      current_visibility [OF busy_server_ok busy_tuple_ok, of 3 6 busy_snapshot 0 4] by simp
qed

text \<open>
  C11: VACUUM never removes a tuple that a held snapshot sees. A backend takes its first
  snapshot with GetSnapshotData, which advertises the snapshot's xmin in its entry of the
  process array; as long as that entry stands and GetOldestXmin of the vacuuming backend takes
  it into account, every tuple that HeapTupleSatisfiesVacuum calls dead for that horizon is
  invisible to the snapshot under HeapTupleSatisfiesMVCC in any backend that sees the same
  transactions.
\<close>

theorem vacuum_spares_snapshots:
  fixes rel :: "(bool \<times> bool) option"
  assumes taken: "GetSnapshotData cid v a = (sn, v', a')" "array_ok base0 a live0"
      "\<not> TransactionIdIsValid (x_xmin (allPgXact a (MyProcNo v)))"
    and held: "x_xmin (allPgXact (procs s) (MyProcNo v)) = x_xmin (allPgXact a' (MyProcNo v))"
      "MyProcNo v \<in> set (pgprocnos (procs s))"
      "considered (procs s) (MyDatabaseId (snapv s)) (case rel of None \<Rightarrow> True | Some p \<Rightarrow> fst p) iv (MyProcNo v)"
    and vacuum: "server_ok base live s" "horizon_ok base (snapv s) (procs s)" "tuple_ok (server_env s) t"
      "\<And>x. deleter (server_env s) t = Some x \<Longrightarrow> TransactionIdIsNormal x \<Longrightarrow> age base x < 2 ^ 31"
    and reader: "server_ok base' live' s'" "same_world (server_env s) (server_env s')" "tuple_ok (server_env s') t"
    and dead: "fst (HeapTupleSatisfiesVacuum (server_env s) (GetOldestXmin (snapv s) (procs s) rel iv) t) = HEAPTUPLE_DEAD"
  shows "\<not> fst (HeapTupleSatisfiesMVCC (server_env s') sn t)"
proof -
  have "x_xmin (allPgXact (procs s) (MyProcNo v)) = snap_xmin sn" "TransactionIdIsNormal (snap_xmin sn)"
    using GetSnapshotData_advertises [OF taken(1)] snapshot_scan_ok(4) [OF taken(2)] taken(3) held(1) by simp_all
  from dead_for_all [OF vacuum(1,2) reader(1,2) held(2,3) this vacuum(3) reader(3) vacuum(4) dead]
  show ?thesis by blast
qed

theorem vacuum_spares_snapshots_witness:
  "\<not> fst (HeapTupleSatisfiesMVCC (server_env busy_server) busy_snapshot (busy_tuple 3 3))"
proof -
  obtain v' where taken: "GetSnapshotData 0 (snapv busy_server) busy_before =
      (busy_snapshot, v', upd_xact 0 (\<lambda>x. x\<lparr>x_xmin := 4\<rparr>) busy_before)"
    using busy_takes_snapshot by blast
  have me: "MyProcNo (snapv busy_server) = 0" by (simp add: busy_defs)
  have entry: "\<not> TransactionIdIsValid (x_xmin (allPgXact busy_before 0))"
    "x_xmin (allPgXact (procs busy_server) 0) = 4"
    "x_xmin (allPgXact (upd_xact 0 (\<lambda>x. x\<lparr>x_xmin := 4\<rparr>) busy_before) 0) = 4"
    by (simp_all add: busy_before_def TransactionIdIsValid_def xid_constants) (simp add: busy_defs)
  have oldest: "GetOldestXmin (snapv busy_server) (procs busy_server) None True = 4" by code_simp
  have dead: "fst (HeapTupleSatisfiesVacuum (server_env busy_server) 4 (busy_tuple 3 3)) = HEAPTUPLE_DEAD"
    unfolding conjunct1 [OF xact_world.Vacuum_correct [OF server_world [OF busy_server_ok] busy_tuple_ok, of 3 4 3, simplified]]
    by (simp add: vacuum_result_def deleter_in_def busy_deleter own_def inserted_def inserting_def settled_def
        busy_env busy_verdicts TransactionIdPrecedes_def TransactionIdIsNormal_def xid_constants)
  show ?thesis
    using vacuum_spares_snapshots [OF taken busy_before_ok _ _ _ _ busy_server_ok busy_horizon busy_tuple_ok _ busy_server_ok _
        busy_tuple_ok, of None True 3 3] entry oldest dead
    by (simp add: me busy_procnos busy_deleter busy_ages busy_considered same_world_def)
qed

text \<open>
  C12: Well-formed tuples stay well-formed: whichever visibility function checks a tuple whose
  hint bits are true, the tuple it leaves in the buffer has true hint bits again, and differs
  from the old one in none of the fields a verdict is about: xmin, xmax, the command ids, the
  deleter, being frozen, locked only or a multixact.
\<close>

theorem hints_stay_true:
  assumes "server_ok base live s" and "tuple_ok (server_env s) t"
    and "t' \<in> checked_tuples (server_env s) sn cid ox t"
  shows "tuple_ok (server_env s) t' \<and> t_xmin t' = t_xmin t \<and> t_xmax t' = t_xmax t \<and>
    HeapTupleHeaderGetCmin c t' = HeapTupleHeaderGetCmin c t \<and> HeapTupleHeaderGetCmax c t' = HeapTupleHeaderGetCmax c t \<and>
    deleter (server_env s) t' = deleter (server_env s) t \<and> frozen t' = frozen t \<and>
    locked_only t' = locked_only t \<and> has t' HEAP_XMAX_IS_MULTI = has t HEAP_XMAX_IS_MULTI"
  using hint_steps_ok [OF checked_steps [OF assms] assms(2)] hint_steps_same [OF checked_steps [OF assms], of c]
  by blast

theorem hints_stay_true_witness:
  "tuple_ok (server_env busy_server) (snd (HeapTupleSatisfiesMVCC (server_env busy_server) busy_snapshot (busy_tuple 6 3)))"
  using hints_stay_true [OF busy_server_ok busy_tuple_ok, of 6
      "snd (HeapTupleSatisfiesMVCC (server_env busy_server) busy_snapshot (busy_tuple 6 3))" busy_snapshot 0 4 3]
  by (simp add: checked_tuples_def)

text \<open>
  C13: A commit hint never reaches a permanent buffer before the commit record is flushed: when
  a visibility function newly sets HEAP_XMIN_COMMITTED (on a tuple no old-style VACUUM FULL
  moved) or HEAP_XMAX_COMMITTED, the LSN that TransactionIdGetCommitLSN gives for that
  transaction is already flushed, or the buffer belongs to a relation that is not WAL-logged.
\<close>

theorem hints_await_commit_record:
  assumes "server_ok base live s" and "tuple_ok (server_env s) t"
    and "t' \<in> checked_tuples (server_env s) sn cid ox t" and "BufferIsPermanent (server_env s)"
  shows "(has t' HEAP_XMIN_COMMITTED \<and> \<not> has t HEAP_XMIN_COMMITTED \<and> \<not> moved_off t \<and> \<not> moved_in t \<longrightarrow>
      \<not> XLogNeedsFlush (server_env s) (CommitLSN (server_env s) (t_xmin t))) \<and>
    (has t' HEAP_XMAX_COMMITTED \<and> \<not> has t HEAP_XMAX_COMMITTED \<longrightarrow>
      \<not> XLogNeedsFlush (server_env s) (CommitLSN (server_env s) (t_xmax t)))"
  using hint_steps_durable [OF checked_steps [OF assms(1-3)]] assms(4) by (auto simp: durable_def)

theorem hints_await_commit_record_witness:
  "has (snd (HeapTupleSatisfiesMVCC (server_env busy_server) busy_snapshot (busy_tuple 6 3))) HEAP_XMIN_COMMITTED \<and>
   \<not> XLogNeedsFlush (server_env busy_server) (CommitLSN (server_env busy_server) 6)"
proof -
  let ?e = "server_env busy_server"
  have env: "BufferIsPermanent ?e" "\<not> XLogNeedsFlush ?e l" for l
    by (simp_all add: server_env_def busy_server_def idle_server_def)
  have xmin: "MVCC_xmin ?e busy_snapshot (busy_tuple 6 3) = Inr (add_flag HEAP_XMIN_COMMITTED (busy_tuple 6 3))"
    by (simp add: MVCC_xmin_def other_xmin_check_def HeapTupleHeaderXminCommitted_def XminInvalid_iff busy_env
        busy_verdicts SetHintBits_def env)
  have "has (snd (MVCC_xmax ?e busy_snapshot (add_flag HEAP_XMIN_COMMITTED (busy_tuple 6 3)))) HEAP_XMIN_COMMITTED"
    by (simp add: MVCC_xmax_def SetHintBits_def Let_def has_add_flag heap_flags split: sum.split)
  then have has: "has (snd (HeapTupleSatisfiesMVCC ?e busy_snapshot (busy_tuple 6 3))) HEAP_XMIN_COMMITTED"
    by (simp add: HeapTupleSatisfiesMVCC_def xmin)
  show ?thesis
    using hints_await_commit_record [OF busy_server_ok busy_tuple_ok, of 6
        "snd (HeapTupleSatisfiesMVCC ?e busy_snapshot (busy_tuple 6 3))" busy_snapshot 0 4 3] has env(1)
    by (simp add: checked_tuples_def)
qed

text \<open>
  C14: A snapshot records the running transactions exactly: a transaction is in progress for the
  snapshot that GetSnapshotData takes if and only if it runs, as main transaction or as
  subtransaction, in another backend that is neither vacuuming nor decoding, or was not yet
  assigned when the latest transaction had completed; also when the cache of some backend has
  overflowed and XidInMVCCSnapshot has to go through pg_subtrans.
\<close>

theorem snapshot_exact:
  assumes "array_ok base a live" and "TransactionIdIsNormal x" and "age base x < 2 ^ 31"
    and "age base x \<le> age base (pa_latestCompletedXid a) \<Longrightarrow> topmost_ok (GetTopmost e) a live x"
  shows "XidInMVCCSnapshot e x (fst (GetSnapshotData cid v a)) \<longleftrightarrow>
    x \<in> snapshot_running a live (MyProcNo v) \<or> age base (next_unassigned a) \<le> age base x"
  by (rule snapshot_membership [OF assms])

theorem snapshot_exact_witness:
  "XidInMVCCSnapshot (server_env busy_server) 4 (fst (GetSnapshotData 0 (snapv busy_server) (procs busy_server))) \<and>
   \<not> XidInMVCCSnapshot (server_env busy_server) 6 (fst (GetSnapshotData 0 (snapv busy_server) (procs busy_server)))"
proof -
  have top: "topmost_ok (GetTopmost (server_env busy_server)) (procs busy_server) (\<lambda>_. {}) x" if "x \<in> {4, 6}" for x
    using that busy_topmost [of x]
    by (auto simp: server_env_def topmost_ok_def busy_running busy_procnos) (simp_all add: main_xid_def busy_defs)
  have run: "4 \<in> snapshot_running (procs busy_server) (\<lambda>_. {}) (MyProcNo (snapv busy_server))"
    "6 \<notin> snapshot_running (procs busy_server) (\<lambda>_. {}) (MyProcNo (snapv busy_server))"
    by (auto simp: snapshot_running_def busy_running busy_procnos in_scan_def has_flag_def)
      (simp_all add: busy_defs)
  show ?thesis
    using snapshot_exact [OF busy_array, where x = 4 and e = "server_env busy_server" and cid = 0 and v = "snapv busy_server"]
      snapshot_exact [OF busy_array, where x = 6 and e = "server_env busy_server" and cid = 0 and v = "snapv busy_server"]
      top run by (simp add: busy_ages busy_latest)
qed

text \<open>
  C15: TransactionIdIsInProgress, with its quick exits on RecentXmin, on the cached completed
  transaction and on the backend's own transactions, its scan of the main identifiers and
  subtransaction caches and its walk through pg_subtrans, is equivalent to the plain definition:
  the transaction runs in some backend of the array, or is younger than the latest completed
  one.
\<close>

theorem in_progress_test:
  assumes "server_ok base live s" and "TransactionIdIsNormal x" and "age base x < 2 ^ 31"
  shows "TransactionIdIsInProgress (server_tests s) (snapv s) (procs s) x \<longleftrightarrow> in_progress (procs s) live x"
  using server_in_progress_iff [OF assms] by (simp add: server_in_progress_def)

theorem in_progress_test_witness:
  "TransactionIdIsInProgress (server_tests busy_server) (snapv busy_server) (procs busy_server) 5 \<and>
   \<not> TransactionIdIsInProgress (server_tests busy_server) (snapv busy_server) (procs busy_server) 6"
  using in_progress_test [OF busy_server_ok, of 5] in_progress_test [OF busy_server_ok, of 6]
  by (simp add: busy_ages in_progress_def busy_running_xids busy_latest TransactionIdPrecedes_def)

text \<open>
  C16: GetOldestXmin is a lower bound: the horizon it returns is a normal identifier no younger
  than the identifier and the advertised xmin of every backend it takes into account (those of
  the database, or all for a shared relation, vacuuming ones left out on request), than the
  replication slots' xmin and than the next unassigned identifier; vacuum_defer_cleanup_age and
  the skipped permanent identifiers at the wraparound do not break this.
\<close>

theorem oldest_xmin_bound:
  fixes rel :: "(bool \<times> bool) option"
  assumes ok: "array_ok base a live" and hz: "horizon_ok base v a"
  shows "TransactionIdIsNormal (GetOldestXmin v a rel iv) \<and>
    age base (GetOldestXmin v a rel iv) \<le> age base (next_unassigned a) \<and>
    (\<forall>n \<in> set (pgprocnos a).
       considered a (MyDatabaseId v) (case rel of None \<Rightarrow> True | Some p \<Rightarrow> fst p) iv n \<longrightarrow>
       (TransactionIdIsNormal (main_xid a n) \<longrightarrow> age base (GetOldestXmin v a rel iv) \<le> age base (main_xid a n)) \<and>
       (TransactionIdIsNormal (x_xmin (allPgXact a n)) \<longrightarrow>
          age base (GetOldestXmin v a rel iv) \<le> age base (x_xmin (allPgXact a n)))) \<and>
    (TransactionIdIsValid (replication_slot_xmin a) \<longrightarrow>
       age base (GetOldestXmin v a rel iv) \<le> age base (replication_slot_xmin a))"
  using GetOldestXmin_bound [OF ok hz, where rel = rel and iv = iv] by blast

theorem oldest_xmin_bound_witness:
  "age 3 (GetOldestXmin (snapv busy_server) (procs busy_server) None True) \<le> 1"
  using oldest_xmin_bound [OF busy_array busy_horizon, where rel = None and iv = True] busy_ages
  by (simp add: busy_procnos busy_considered [simplified])

text \<open>
  C17: The table of backends: ProcArrayAdd of a backend that is not in it keeps the table
  sorted, adds exactly that backend and touches no entry, and when all slots are taken raises
  the FATAL error that there are too many clients, and in no other case; ProcArrayRemove takes
  exactly that backend out, keeps the table sorted, and reports a backend that is not in it.
\<close>

theorem backend_slots:
  assumes "wf_procs a" and "n \<notin> set (pgprocnos a)"
  shows "(case ProcArrayAdd n a of
      Inl e \<Rightarrow> e = FATAL ''sorry, too many clients already'' \<and> length (pgprocnos a) = maxProcs a
    | Inr a' \<Rightarrow> length (pgprocnos a) < maxProcs a \<and> wf_procs a' \<and>
        set (pgprocnos a') = insert n (set (pgprocnos a)) \<and> allPgXact a' = allPgXact a) \<and>
    (\<forall>m x. wf_procs (snd (ProcArrayRemove m x a)) \<and>
       set (pgprocnos (snd (ProcArrayRemove m x a))) = set (pgprocnos a) - {m} \<and>
       (fst (ProcArrayRemove m x a) \<longleftrightarrow> m \<in> set (pgprocnos a)))"
proof -
  have "length (pgprocnos a) < maxProcs a \<or> length (pgprocnos a) = maxProcs a"
    using assms(1) by (auto simp: wf_procs_def)
  then show ?thesis
    using ProcArrayAdd_ok [OF assms] ProcArrayRemove_ok [OF assms(1)] by auto
qed

theorem backend_slots_witness:
  "ProcArrayAdd 2 busy_procs = Inl (FATAL ''sorry, too many clients already'') \<and>
   set (pgprocnos (snd (ProcArrayRemove 0 6 busy_procs))) = {1}"
proof -
  have full: "wf_procs busy_procs" "length (pgprocnos busy_procs) = maxProcs busy_procs" "set (pgprocnos busy_procs) = {0, 1}"
    by (simp_all add: wf_procs_def busy_procs_def)
  then show ?thesis using backend_slots [OF full(1), of 2] by (auto split: sum.splits)
qed

section \<open>The current transaction\<close>

text \<open>A subtransaction in a subtransaction, none of the three transactions having an identifier yet.\<close>

definition ex_stack :: xact_stack where
  "ex_stack = replicate 3 (TopTransactionStateData\<lparr>xstate := TRANS_INPROGRESS\<rparr>)"

definition ex_xact :: xact_vars where
  "ex_xact = \<lparr>stack = ex_stack,
     vars = ex_varsup\<lparr>cache := (cache ex_varsup)\<lparr>xidVacLimit := 200000003, xidWarnLimit := 2136483650,
       xidStopLimit := 2146483650, xidWrapLimit := 2147483650\<rparr>\<rparr>,
     unreportedXids = [], xevents = []\<rparr>"

definition ex_xmode :: xact_mode where
  "ex_xmode = \<lparr>block_size = 8, serverMode = ex_mode, XLogLogicalInfoActive = False, XLogStandbyInfoActive = True\<rparr>"






text \<open>
  C19: TransactionIdIsCurrentTransactionId, which walks up the whole stack, skips the levels
  being aborted and those without an identifier, and searches each array of committed children
  by bisection in transaction order (the search terminates), decides membership in the set of
  identifiers of the backend's unaborted transactions and their committed children, on every
  well-formed stack. Committing a subtransaction that has an identifier into its parent with
  AtSubCommit_childXids, neither of them being aborted and the parent's array of children within
  its allocation, keeps that set and the order the bisection relies on, or fails, exactly when
  the parent would get more children than memory allows.
\<close>

theorem current_transaction:
  assumes "wf_stack base st"
  shows "(TransactionIdIsCurrentTransactionId x st \<longleftrightarrow> x \<in> current_xids st) \<and>
    (\<forall>s p rest. st = s # p # rest \<and> TransactionIdIsValid (transactionId s) \<and>
       xstate s \<noteq> TRANS_ABORT \<and> xstate p \<noteq> TRANS_ABORT \<and>
       length (childXids p) \<le> maxChildXids p \<and> maxChildXids p \<le> MAX_CHILD_XIDS \<longrightarrow>
       (if length (childXids p) + length (childXids s) + 1 \<le> MAX_CHILD_XIDS
        then \<exists>s' p'. AtSubCommit_childXids s p = Inr (s', p') \<and> wf_stack base (p' # rest) \<and>
          (TransactionIdIsCurrentTransactionId x (p' # rest) \<longleftrightarrow> x \<in> current_xids st)
        else \<not> returns (AtSubCommit_childXids s p)))"
proof -
  have "if length (childXids p) + length (childXids s) + 1 \<le> MAX_CHILD_XIDS
      then \<exists>s' p'. AtSubCommit_childXids s p = Inr (s', p') \<and> wf_stack base (p' # rest) \<and>
        (TransactionIdIsCurrentTransactionId x (p' # rest) \<longleftrightarrow> x \<in> current_xids st)
      else \<not> returns (AtSubCommit_childXids s p)"
    if st: "st = s # p # rest" "TransactionIdIsValid (transactionId s)"
      and live: "xstate s \<noteq> TRANS_ABORT" "xstate p \<noteq> TRANS_ABORT"
      and len: "length (childXids p) \<le> maxChildXids p" "maxChildXids p \<le> MAX_CHILD_XIDS" for s p rest
  proof (cases "returns (AtSubCommit_childXids s p)")
    case True
    then obtain s' p' where r: "AtSubCommit_childXids s p = Inr (s', p')" by (auto elim: returnsE)
    note c = SubCommit_ok [OF assms [unfolded st(1)] st(2) r]
    show ?thesis
      using True r c(1) c(3) [OF live] IsCurrent_iff [OF c(1), of x] SubCommit_error_iff [OF len, of s] st(1)
      by auto
  qed (use SubCommit_error_iff [OF len, of s] in simp)
  then show ?thesis using IsCurrent_iff [OF assms, of x] by blast
qed

theorem current_transaction_witness:
  "TransactionIdIsCurrentTransactionId 5
     [TopTransactionStateData\<lparr>xstate := TRANS_INPROGRESS\<rparr>,
      TopTransactionStateData\<lparr>transactionId := 6, xstate := TRANS_ABORT\<rparr>,
      TopTransactionStateData\<lparr>transactionId := 3, childXids := [4, 5], maxChildXids := 2, xstate := TRANS_INPROGRESS\<rparr>] \<and>
   \<not> TransactionIdIsCurrentTransactionId 6
     [TopTransactionStateData\<lparr>xstate := TRANS_INPROGRESS\<rparr>,
      TopTransactionStateData\<lparr>transactionId := 6, xstate := TRANS_ABORT\<rparr>,
      TopTransactionStateData\<lparr>transactionId := 3, childXids := [4, 5], maxChildXids := 2, xstate := TRANS_INPROGRESS\<rparr>]"
proof -
  let ?st = "[TopTransactionStateData\<lparr>xstate := TRANS_INPROGRESS\<rparr>,
      TopTransactionStateData\<lparr>transactionId := 6, xstate := TRANS_ABORT\<rparr>,
      TopTransactionStateData\<lparr>transactionId := 3, childXids := [4, 5], maxChildXids := 2, xstate := TRANS_INPROGRESS\<rparr>]"
  have "wf_stack 3 ?st"
    by (simp add: wf_stack_def TopTransactionStateData_def stack_ids_def xid_ascending_def xid_window_def
        TransactionIdIsValid_def TransactionIdIsNormal_def xid_constants age_def)
  then show ?thesis
    using current_transaction [of 3 ?st 5] current_transaction [of 3 ?st 6]
    by (simp add: TopTransactionStateData_def current_xids_def stack_ids_def TransactionIdIsValid_def xid_constants)
qed

section \<open>Sessions and commits\<close>

text \<open>
  The example: a server in which the call number 40 of a command fails, one in which every check for
  interrupts finds a cancel request, a backend that is idle,
  one in a block with the savepoint \<open>a\<close>, and one with transaction 3 and its two committed
  subtransactions, in a server in which no call fails.
\<close>

definition ex_services :: "(xact_call list \<Rightarrow> pg_error option) \<Rightarrow> xact_services" where
  "ex_services err = \<lparr>xmode = ex_xmode, other_backends = id, raises = err, portal_rounds = (\<lambda>_. 0),
     pending_deletes = (\<lambda>_. 0), inval_messages = (\<lambda>_. (0, False)), inserted_at = (\<lambda>t. of_nat (length t)),
     empty_context = (\<lambda>_. True), XactHasExportedSnapshots = (\<lambda>_. False), synchronous_commit_on = True,
     DefaultXactReadOnly = False\<rparr>"

definition fails_late :: "xact_call list \<Rightarrow> pg_error option" where
  "fails_late t = (if length t = 40 then Some (ERROR ''out of memory'') else None)"

definition fails_cancelled :: "xact_call list \<Rightarrow> pg_error option" where
  "fails_cancelled t = (if last t = Call ''CHECK_FOR_INTERRUPTS'' []
     then Some (ERROR ''canceling statement due to user request'') else None)"

definition ex_session :: "xact_stack \<Rightarrow> xact_backend" where
  "ex_session st = \<lparr>xv = ex_xact\<lparr>stack := st\<rparr>, fetched = (0, 0, 0), own_xmin = 3, XactLastRecEnd = 5,
     latestXid = 0, currentSubTransactionId = 1, currentCommandId = 0, currentCommandIdUsed = False,
     XactReadOnly = False, forceSyncCommit = False, MyXactAccessedTempRel = False, delayChkpt = False,
     GUCNestLevel = 1, TopTransactionContext = False, TransactionAbortContext = True,
     TopTransactionResourceOwner = False, prepareGID = None, trace = []\<rparr>"

definition ex_live :: TransactionStateData where
  "ex_live = TopTransactionStateData\<lparr>xstate := TRANS_INPROGRESS, blockState := TBLOCK_INPROGRESS, nestingLevel := 1\<rparr>"

definition ex_block :: xact_stack where
  "ex_block = [ex_live\<lparr>blockState := TBLOCK_SUBINPROGRESS, savepoint := Some ''a'', nestingLevel := 2\<rparr>, ex_live]"

definition ex_committing :: xact_stack where
  "ex_committing = [ex_live\<lparr>blockState := TBLOCK_END, transactionId := 3, childXids := [4, 35]\<rparr>]"

definition ex_failed :: xact_stack where
  "ex_failed = [ex_live\<lparr>xstate := TRANS_ABORT, blockState := TBLOCK_ABORT\<rparr>]"

lemma ex_only_errors:
  "only_errors (ex_services fails_late)" "only_errors (ex_services (\<lambda>_. None))" "only_errors (ex_services fails_cancelled)"
  by (simp_all add: only_errors_def ex_services_def fails_late_def fails_cancelled_def)

lemma ex_in_recovery: "\<not> in_recovery (ex_services err)"
  by (simp add: ex_services_def ex_xmode_def ex_mode_def)

lemma ex_session_view: "view (ex_session st) = map level_view st"
  by (simp add: view_def trans_def ex_session_def)

lemma ex_views:
  "view (ex_session [TopTransactionStateData]) = session_view 0 Idle"
  "view (ex_session ex_block) = session_view 0 (Block [''a''])"
  "view (ex_session ex_failed) = session_view 0 (Failed [])"
  by (simp_all add: ex_session_view ex_block_def ex_failed_def ex_live_def level_view_def TopTransactionStateData_def
      idle_view_def top_level_def sub_level_def)

text \<open>
  C20: The traffic cop with xact.c implements the client's session, which is idle, in a block or
  in a failed block with a list of savepoint names, for a query string of one statement
  (client_step gives for each statement the session after success and the session after an error
  in it or at the end of its command). Whatever calls of other modules raise errors, at whatever
  point, a FATAL one excepted, and however often the error handler fails itself: a command that
  succeeds leaves the stack of the successor session; if it fails and the process survives, the
  stack is that of the session that the place of the first error determines: before the
  statement acts (parsing, a cancelled query, the portal) a block fails as a whole, in the
  statement client_step decides, and while the result is reported the new session's block fails;
  otherwise the process ends, by a PANIC and never by the FATAL error of an unexpected block
  state. Any other statement is taken to leave the block state alone.
\<close>

theorem session_refinement:
  assumes "only_errors e" and "ordinary stmt" and "view s = session_view l S"
    and "client_step (in_recovery e) stmt S = (ok, failure)"
  shows "refines l ok (failure_session e stmt (ok, failure) S s) (PostgresMain_command e stmt s)"
  using main_loop_refines [OF assms] by simp

theorem session_refinement_witness:
  "refines 0 (Some Idle) (Failed [''a'']) (PostgresMain_command (ex_services fails_cancelled) TRANS_STMT_COMMIT (ex_session ex_block))"
proof -
  have "failure_session (ex_services fails_cancelled) TRANS_STMT_COMMIT (Some Idle, Idle) (Block [''a'']) (ex_session ex_block)
      = Failed [''a'']"
    by (simp add: failure_session_def exec_query_start_def start_xact_command_def StartTransactionCommand_def steps.simps(2)
        call_def calls_def Let_def ex_services_def fails_cancelled_def only_def IsAbortedTransactionBlockState_def cur_def trans_def
        ex_session_def ex_block_def ex_live_def)
  moreover have "ordinary TRANS_STMT_COMMIT" by (simp add: ordinary_def)
  ultimately show ?thesis
    using session_refinement [OF ex_only_errors(3) _ ex_views(2), of TRANS_STMT_COMMIT "Some Idle" Idle] by simp
qed

text \<open>
  C21: After any sequence of commands that the process survives, the stack is that of one of the
  sessions that the specification allows for the sequence, errors before, in and after the
  statements included; the status character sent to the client tells which kind of session it
  is; and a ROLLBACK from there that succeeds leaves the session idle, while one that fails
  leaves it idle or, when it failed before it acted, with its block in the failed state, so that
  it can be sent again, or ends the process by a PANIC.
\<close>

theorem session_runs:
  assumes "only_errors e" and "list_all ordinary cs" and "view s = session_view l S"
    and "run_session e cs s = Some t"
  shows "\<exists>T \<in> set (client_sessions (in_recovery e) cs S). view t = session_view l T \<and>
    TransactionBlockStatusCode t = session_status T \<and>
    (case PostgresMain_command e TRANS_STMT_ROLLBACK t of
      (failed, None, u) \<Rightarrow> view u = session_view l Idle \<or> failed \<and> view u = session_view l (fail_session T)
    | (failed, Some err, u) \<Rightarrow> \<forall>m. err \<noteq> FATAL m \<and> err \<noteq> ERROR m)"
proof -
  obtain T where T: "T \<in> set (client_sessions (in_recovery e) cs S)" "view t = session_view l T"
    using run_at_rest [OF assms] by blast
  show ?thesis
    using T(2) status_of_view [OF T(2)] rollback_idle [OF assms(1) T(2)] by (intro bexI [OF _ T(1)] conjI)
qed

theorem session_runs_witness:
  "\<exists>t. run_session (ex_services fails_cancelled) [TRANS_STMT_ROLLBACK, OtherStmt (Pair None)] (ex_session ex_failed) = Some t \<and>
    (\<exists>T \<in> set (client_sessions False [TRANS_STMT_ROLLBACK, OtherStmt (Pair None)] (Failed [])). view t = session_view 0 T \<and>
      TransactionBlockStatusCode t = session_status T)"
proof -
  let ?e = "ex_services fails_cancelled" and ?cs = "[TRANS_STMT_ROLLBACK, OtherStmt (Pair None)]"
  have "\<exists>t. run_session ?e ?cs (ex_session ex_failed) = Some t"
    by (simp add: PostgresMain_command_def exec_simple_query_def exec_query_start_def start_xact_command_def
        StartTransactionCommand_def steps.simps(2) call_def calls_def Let_def ex_services_def fails_cancelled_def only_def
        IsAbortedTransactionBlockState_def IsTransactionExitStmt_def raise_def ERRORDATA_STACK_SIZE_def eval_nat_numeral
        handle_error_def AbortCurrentTransaction.simps cur_def trans_def ex_session_def ex_failed_def ex_live_def)
  then obtain t where t: "run_session ?e ?cs (ex_session ex_failed) = Some t" by blast
  have "list_all ordinary ?cs" by (simp add: ordinary_def frames_def calm_def)
  from session_runs [OF ex_only_errors(3) this ex_views(3) t] show ?thesis using t ex_in_recovery by auto
qed

text \<open>
  C22: From every stack that an error can leave behind, in the middle of a start, a commit, an
  abort or a rollback to a savepoint, AbortCurrentTransaction leads to one session, which that
  stack determines; when it fails itself, it leaves a stack that determines the same session, so
  that handling can be repeated.
\<close>

theorem error_handler_converges:
  assumes "only_errors e" and "doomed l T (view s)"
  shows "case AbortCurrentTransaction e s of
      (None, t) \<Rightarrow> view t = session_view l T
    | (Some err, t) \<Rightarrow> (\<forall>m. err \<noteq> FATAL m) \<and> doomed l T (view t)"
  using gives_AbortCurrent [OF assms] by (simp add: gives_def)

theorem error_handler_converges_witness:
  "case AbortCurrentTransaction (ex_services fails_late) (ex_session [TopTransactionStateData\<lparr>xstate := TRANS_START\<rparr>]) of
      (None, t) \<Rightarrow> view t = session_view 0 Idle
    | (Some err, t) \<Rightarrow> (\<forall>m. err \<noteq> FATAL m) \<and> doomed 0 Idle (view t)"
  by (rule error_handler_converges [OF ex_only_errors(1)])
    (simp add: ex_session_view level_view_def TopTransactionStateData_def)

text \<open>
  C23: AbortOutOfAnyTransaction, whose loop runs until the block state is the default,
  terminates from every stack that an error can leave behind; without an error the backend is
  idle with an empty stack, and an error leaves a stack of the same kind.
\<close>

theorem abort_out_terminates:
  assumes "only_errors e" and "recoverable l (view s)"
  shows "\<exists>r t. AbortOutOfAnyTransaction e s = Some (r, t) \<and>
    (case r of None \<Rightarrow> view t = session_view l Idle | Some err \<Rightarrow> (\<forall>m. err \<noteq> FATAL m) \<and> recoverable l (view t))"
  by (rule abort_out_ends [OF assms])

theorem abort_out_terminates_witness:
  "\<exists>r t. AbortOutOfAnyTransaction (ex_services fails_late) (ex_session ex_block) = Some (r, t) \<and>
    (case r of None \<Rightarrow> view t = session_view 0 Idle | Some err \<Rightarrow> (\<forall>m. err \<noteq> FATAL m) \<and> recoverable 0 (view t))"
  by (rule abort_out_terminates [OF ex_only_errors(1)]) (simp only: ex_views session_recoverable)

text \<open>
  C24: A subtransaction of the server itself, as procedural languages use it for an exception
  block, in each of the five block states in which it may begin. Released after its body has
  succeeded, it leaves the stack as it began. Rolled back after its body has failed, it does so
  too, unless it began in TBLOCK_END or TBLOCK_PREPARE: there the assertion that closes the
  rollback fails (the third part says exactly when). An error on the way leaves the outer levels
  as they were.
\<close>

theorem exception_block:
  assumes "only_errors e" and "frames f" and "calm f"
    and "b \<in> {TBLOCK_STARTED, TBLOCK_INPROGRESS, TBLOCK_END, TBLOCK_PREPARE, TBLOCK_SUBINPROGRESS}"
    and "view s = (TRANS_INPROGRESS, b, n, l, d) # r"
  shows "(case steps [BeginInternalSubTransaction e name, f, ReleaseCurrentSubTransaction e] s of
      (None, t) \<Rightarrow> view t = view s | (Some err, t) \<Rightarrow> (\<forall>m. err \<noteq> FATAL m) \<and> (\<exists>p. view t = p @ view s)) \<and>
    (case steps [BeginInternalSubTransaction e name, caught f, RollbackAndReleaseCurrentSubTransaction e] s of
      (None, t) \<Rightarrow> b \<notin> {TBLOCK_END, TBLOCK_PREPARE} \<and> view t = view s
    | (Some err, t) \<Rightarrow> (\<forall>m. err \<noteq> FATAL m) \<and> (\<exists>p. view t = p @ view s)) \<and>
    (\<forall>u. view u = (TRANS_INPROGRESS, TBLOCK_SUBINPROGRESS, name, l, d + 1) # view s \<longrightarrow>
      RollbackAndReleaseCurrentSubTransaction e u = (case steps [AbortSubTransaction e, CleanupSubTransaction e] u of
        (None, t) \<Rightarrow> (if b \<in> {TBLOCK_END, TBLOCK_PREPARE} then Some failed_assertion else None, t) | out \<Rightarrow> out))"
proof (intro conjI allI impI)
  note levels = exception_block_levels [OF assms(1-3,5,4), where name = name]
  show "case steps [BeginInternalSubTransaction e name, f, ReleaseCurrentSubTransaction e] s of
      (None, t) \<Rightarrow> view t = view s | (Some err, t) \<Rightarrow> (\<forall>m. err \<noteq> FATAL m) \<and> (\<exists>p. view t = p @ view s)"
    using levels(1) by (simp add: gives_def)
  show "case steps [BeginInternalSubTransaction e name, caught f, RollbackAndReleaseCurrentSubTransaction e] s of
      (None, t) \<Rightarrow> b \<notin> {TBLOCK_END, TBLOCK_PREPARE} \<and> view t = view s
    | (Some err, t) \<Rightarrow> (\<forall>m. err \<noteq> FATAL m) \<and> (\<exists>p. view t = p @ view s)"
  proof -
    obtain err t where out: "steps [BeginInternalSubTransaction e name, caught f, RollbackAndReleaseCurrentSubTransaction e] s = (err, t)"
      by (cases "steps [BeginInternalSubTransaction e name, caught f, RollbackAndReleaseCurrentSubTransaction e] s")
    have "err = None \<Longrightarrow> b \<notin> {TBLOCK_END, TBLOCK_PREPARE}" using levels(4) [OF _ refl] by (auto simp: out)
    then show ?thesis using gives_outcome [OF levels(3) refl out] by (cases err) (simp_all add: out)
  qed
qed (rule exception_block_levels(2) [OF assms(1-3,5,4)])

theorem exception_block_witness:
  "case steps [BeginInternalSubTransaction (ex_services fails_late) None, caught (call (ex_services fails_late) (Call ''f'' [])),
       RollbackAndReleaseCurrentSubTransaction (ex_services fails_late)] (ex_session ex_block) of
      (None, t) \<Rightarrow> view t = view (ex_session ex_block)
    | (Some err, t) \<Rightarrow> (\<forall>m. err \<noteq> FATAL m) \<and> (\<exists>p. view t = p @ view (ex_session ex_block))"
proof -
  let ?f = "call (ex_services fails_late) (Call ''f'' [])"
  have "frames ?f" "calm ?f" by (simp_all add: frames calm ex_only_errors)
  moreover have "view (ex_session ex_block) = (TRANS_INPROGRESS, TBLOCK_SUBINPROGRESS, Some ''a'', 0, 2) # [level_view ex_live]"
    by (simp add: ex_session_view ex_block_def ex_live_def level_view_def TopTransactionStateData_def)
  ultimately show ?thesis
    using exception_block [OF ex_only_errors(1), of ?f TBLOCK_SUBINPROGRESS "ex_session ex_block" "Some ''a''" 0 2 _ None]
    by (fastforce split: prod.split option.split)
qed

text \<open>
  C25: The order of a commit, in every outcome: its events are a prefix of BufmgrCommit, the WAL
  insertion of the commit record, the flush up to the record's end (or the report to the WAL
  writer, when the commit is asynchronous), the commit log update, and the wait for a standby.
  The commit log changes only after all of the record's events; success means that all events
  took place; and an error that is not a crash can only come from before the record is inserted
  or after the transaction is committed.
\<close>

theorem commit_write_ahead:
  assumes "TransactionIdIsValid (GetTopTransactionIdIfAny s)"
  shows "commit_progress e s (RecordTransactionCommit e s)"
  by (rule commit_ordered [OF assms])

theorem commit_write_ahead_witness:
  "commit_progress (ex_services fails_late) (ex_session ex_committing)
     (RecordTransactionCommit (ex_services fails_late) (ex_session ex_committing))"
  by (rule commit_write_ahead)
    (simp add: GetTopTransactionIdIfAny_def trans_def ex_session_def ex_committing_def TransactionIdIsValid_def xid_constants)

text \<open>
  C26: A commit is final. Once RecordTransactionCommit has returned, an abort of the transaction
  (which an error in the rest of the commit would start) never succeeds: it stops with an error
  before it writes an abort record or touches the commit log, which still says committed for the
  transaction and all of its committed children.
\<close>

theorem commit_is_final:
  assumes "trans s = [x]" and "TransactionIdIsNormal (transactionId x)"
    and "wf_clog (block_size (xmode e)) (xact_log (vars (xv s)))"
    and "\<And>y. y \<in> insert (transactionId x) (set (childXids x)) \<Longrightarrow>
      clog_covers (block_size (xmode e)) (xact_log (vars (xv s))) y"
    and "undecided (block_size (xmode e)) (xact_log (vars (xv s))) (transactionId x) (set (childXids x))"
    and "cache_ok (block_size (xmode e)) (observer s)"
    and "RecordTransactionCommit e s = (None, t)"
  shows "\<exists>err u. AbortTransaction e t = (Some err, u) \<and>
    (\<forall>y \<in> insert (transactionId x) (set (childXids x)).
      xid_status (block_size (xmode e)) (xact_log (vars (xv u))) y = TRANSACTION_STATUS_COMMITTED) \<and>
    (\<exists>cs. trace u = trace s @ commit_events e s @ cs \<and> list_all no_record cs)"
  by (rule commit_final [OF assms])

theorem commit_is_final_witness:
  "\<exists>err u. AbortTransaction (ex_services (\<lambda>_. None))
      (snd (RecordTransactionCommit (ex_services (\<lambda>_. None)) (ex_session ex_committing))) = (Some err, u) \<and>
    xid_status 8 (xact_log (vars (xv u))) 35 = TRANSACTION_STATUS_COMMITTED"
proof -
  let ?e = "ex_services (\<lambda>_. None)" and ?s = "ex_session ex_committing"
  let ?x = "ex_live\<lparr>blockState := TBLOCK_END, transactionId := 3, childXids := [4, 35]\<rparr>"
  have s: "trans ?s = [?x]" "transactionId ?x = 3" "childXids ?x = [4, 35]" "xact_log (vars (xv ?s)) = ex_clog"
      "block_size (xmode ?e) = 8" "raises ?e = (\<lambda>_. None)"
    by (simp_all add: trans_def ex_session_def ex_committing_def ex_xact_def ex_varsup_def ex_services_def ex_xmode_def)
  have id: "GetTopTransactionIdIfAny ?s = 3" "xactGetCommittedChildren (trans ?s) = [4, 35]"
    by (simp_all add: GetTopTransactionIdIfAny_def xactGetCommittedChildren_def s)
  have valid: "TransactionIdIsValid (3 :: TransactionId)" "TransactionIdIsNormal (3 :: TransactionId)"
    by (simp_all add: TransactionIdIsValid_def TransactionIdIsNormal_def xid_constants)
  have "\<exists>c. TransactionIdSetTreeStatus 8 3 [4, 35] TRANSACTION_STATUS_COMMITTED lsn ex_clog = Inr c" for lsn
    using SetTreeStatus_final [OF ex_wf valid(1), of TRANSACTION_STATUS_COMMITTED "[4, 35]" lsn] ex_covers
    by (auto simp: final_status_def)
  then have "\<exists>c. committed_log ?e ?s = Inr c"
    by (cases "must_flush ?e ?s")
      (simp_all add: committed_log_def id(1) s xactGetCommittedChildren_def TransactionIdCommitTree_def TransactionIdAsyncCommitTree_def)
  then have "fst (RecordTransactionCommit ?e ?s) = None"
    using commit_succeeds [of ?s ?e] valid(1) by (auto simp: id s)
  then obtain t where t: "RecordTransactionCommit ?e ?s = (None, t)"
    by (cases "RecordTransactionCommit ?e ?s") auto
  have "cache_ok 8 (observer ?s)"
    by (simp add: cache_ok_def observer_def ex_session_def xid_constants status_defs)
  then show ?thesis
    using commit_is_final [of ?s ?x ?e t, OF s(1) _ _ _ _ _ t] ex_wf ex_covers ex_undecided valid(2) by (auto simp: s t)
qed

section \<open>Hot standby\<close>

text \<open>A standby that has seen transaction 5 last, with room for four running transactions.\<close>

definition ex_standby :: "HotStandbyState \<Rightarrow> standby" where
  "ex_standby st = \<lparr>standbyState = st,
     known_xids = \<lparr>KnownAssignedXids = replicate 4 0, KnownAssignedXidsValid = replicate 4 False,
       maxKnownAssignedXids = 4, numKnownAssignedXids = 0, tailKnownAssignedXids = 0, headKnownAssignedXids = 0\<rparr>,
     latestObservedXid = 5, standbySnapshotPendingXmin = 0, lastOverflowedXid = 0, latestCompletedXid = 5,
     standby_nextXid = 6, standby_subtrans = \<lparr>parent_pages = (\<lambda>_. None), recovering = True\<rparr>\<rparr>"

lemma ex_standby_known:
  "wf_known base (known_xids (ex_standby st))" "slot_set (known_xids (ex_standby st)) = {}"
  "running_set (ex_standby st) = {}" "capacity (ex_standby st) = 4"
  by (simp_all add: ex_standby_def wf_known_def known_list_def slots_list_def xids_ordered_def slot_set_def
      running_set_def capacity_def)

text \<open>
  C27: A standby past initialization refines a machine whose state is the latest observed
  identifier and a set of running transactions: for every sequence of WAL records that observe
  an identifier, end a transaction tree or prune old transactions, the sorted array with its
  binary search, lazy removal and compression holds exactly the machine's set, and replay fails
  if and only if the machine does, namely when the set would outgrow the array.
\<close>

theorem standby_tracks_running:
  assumes "standby_ok base s" and "\<forall>r \<in> set rs. record_in_window base r"
  shows "map_sum id standby_abs (foldM (apply_record bs maxprocs prepared) rs s) =
      foldM (abs_record base (capacity s) prepared) rs (standby_abs s) \<and>
    (\<forall>s'. foldM (apply_record bs maxprocs prepared) rs s = Inr s' \<longrightarrow> standby_ok base s' \<and> capacity s' = capacity s)"
  using records_refine [OF assms, of bs maxprocs prepared] by (simp add: refines_abs_def)

theorem standby_tracks_running_witness:
  "\<exists>s'. foldM (apply_record 8 10 (\<lambda>_. False)) [Observe 7, End 6 [] 6] (ex_standby STANDBY_SNAPSHOT_READY) = Inr s' \<and>
     running_set s' = {7}"
proof -
  let ?s = "ex_standby STANDBY_SNAPSHOT_READY"
  have ok: "standby_ok 3 ?s"
    using ex_standby_known by (simp add: standby_ok_def less_HotStandbyState_def)
      (simp add: ex_standby_def TransactionIdIsNormal_def xid_constants age_def)
  have win: "\<forall>r \<in> set [Observe 7, End 6 [] 6]. record_in_window 3 r"
    by (simp add: TransactionIdIsNormal_def xid_constants age_def)
  have new: "xids_upto 3 5 7 = {6, 7}"
  proof (rule set_eqI)
    fix z :: TransactionId
    have "age 3 z = age 3 6 \<or> age 3 z = age 3 7 \<longleftrightarrow> age 3 5 < age 3 z \<and> age 3 z \<le> age 3 7"
      unfolding busy_ages by arith
    then show "z \<in> xids_upto 3 5 7 \<longleftrightarrow> z \<in> {6, 7}"
      using busy_ages(4,5) by (auto simp: xids_upto_def)
  qed
  have "foldM (abs_record 3 4 (\<lambda>_. False)) [Observe 7, End 6 [] 6] (5, {}) = Inr (7, {7})"
    by (simp add: new age_def)
  moreover have "standby_abs ?s = (5, {})" using ex_standby_known by (simp add: standby_abs_def) (simp add: ex_standby_def)
  ultimately show ?thesis
    using standby_tracks_running [OF ok win, of 8 10 "\<lambda>_. False"] ex_standby_known(4)
    by (cases "foldM (apply_record 8 10 (\<lambda>_. False)) [Observe 7, End 6 [] 6] ?s") (auto simp: standby_abs_def)
qed

text \<open>
  C28: When an initialized standby gets a record of the running transactions,
  ProcArrayApplyRecoveryInfo ends with exactly those that have not completed since in the array,
  ready for snapshots (or pending if the record had overflowed), provided that their numeric
  order, by which qsort with xidComparator sorts them, is their transaction order without
  duplicates; otherwise, and on both sides of the 2^32 wraparound that is so for any valid
  record, it fails with the error out-of-order XID insertion.
\<close>

theorem recovery_start:
  assumes "startable base completed running s"
  shows "if ascending base (sort (filter (\<lambda>x. \<not> completed x) (rt_xids running)))
    then \<exists>s'. ProcArrayApplyRecoveryInfo bs p prepared completed running s = Inr s' \<and> standby_ok base s' \<and>
      standbyState s' = (if subxid_overflow running then STANDBY_SNAPSHOT_PENDING else STANDBY_SNAPSHOT_READY) \<and>
      running_set s' = set (filter (\<lambda>x. \<not> completed x) (rt_xids running)) \<and>
      latestObservedXid s' = TransactionIdRetreat (running_nextXid running)
    else ProcArrayApplyRecoveryInfo bs p prepared completed running s =
      Inl (ERROR ''out-of-order XID insertion in KnownAssignedXids'')"
  by (rule ApplyRecoveryInfo_start [OF assms])

theorem recovery_start_witness:
  "ProcArrayApplyRecoveryInfo 8 10 (\<lambda>_. False) (\<lambda>_. False)
     \<lparr>xcnt = 2, subxid_overflow = False, running_nextXid = 8, oldestRunningXid = 4294967290,
      running_latestCompleted = 5, rt_xids = [4294967290, 7]\<rparr> (ex_standby STANDBY_INITIALIZED) =
     Inl (ERROR ''out-of-order XID insertion in KnownAssignedXids'')"
proof -
  let ?r = "\<lparr>xcnt = 2, subxid_overflow = False, running_nextXid = 8, oldestRunningXid = 4294967290,
      running_latestCompleted = 5, rt_xids = [4294967290, 7]\<rparr>"
  have "startable 4294967290 (\<lambda>_. False) ?r (ex_standby STANDBY_INITIALIZED)"
    using ex_standby_known
    by (simp add: startable_def xid_window_def TransactionIdIsNormal_def xid_constants age_def)
      (simp add: ex_standby_def age_def TransactionIdIsNormal_def xid_constants)
  from recovery_start [OF this, of 8 10 "\<lambda>_. False"] show ?thesis by (simp add: age_def)
qed

section \<open>Bitmap sets\<close>

section \<open>Multixacts\<close>

text \<open>
  The example: pages of ten words, so eight members and ten offsets on a page. Multixact 1 has
  the members 10, a locker, and 11, an updater; the next multixact is 2, the next offset 3.
\<close>

definition ex_shared :: MultiXactStateData where
  "ex_shared = \<lparr>nextMXact = 2, nextOffset = 3, finishedStartup = True, oldestMultiXactId = 1,
     oldestMultiXactDB = 1, oldestOffset = 1, oldestOffsetKnown = True, lastCheckpointedOldest = 1,
     multiVacLimit = 1000, multiWarnLimit = 2000, multiStopLimit = 3000, multiWrapLimit = 4000,
     offsetStopLimit = 4294966000, offsetStopLimitKnown = True,
     OldestMemberMXactId = (\<lambda>_. 0), OldestVisibleMXactId = (\<lambda>_. 0)\<rparr>"

definition ex_multixact :: multixact where
  "ex_multixact = \<lparr>mx = ex_shared,
     offset_pages = (\<lambda>n. if n = 0 then Some [0, 1, 0, 0, 0, 0, 0, 0, 0, 0] else None),
     member_pages = (\<lambda>n. if n = 0 then Some [0x50000, 0, 10, 11, 0, 0, 0, 0, 0, 0] else None),
     mx_recovery = False, MXactCache = [], MyBackendId = 1, MaxOldestSlot = 2, mx_events = []\<rparr>"

definition ex_members :: "MultiXactMember list" where
  "ex_members = map (\<lambda>x. \<lparr>mxid = x, mxstatus = MultiXactStatusForShare\<rparr>) [26, 25, 24, 23, 22, 21]"

lemmas ex_multi_defs = ex_multixact_def ex_shared_def ex_mode_def multixact_constants member_layout

lemma ex_next: "ReadNextMultiXactId ex_multixact = 2"
  by (simp add: ReadNextMultiXactId_def ex_multi_defs)

lemma ex_ready: "multi_ready 40 ex_multixact"
  unfolding multi_ready_def ex_next
  by (simp add: wf_mx_def words_per_page_def offset_covers_def member_covers_def begins_page_def
      MultiXactIdToOffsetPage_def MULTIXACT_OFFSETS_PER_PAGE_def MXOffsetToMemberPage_def MultiXactIdPrecedes_def
      ex_multi_defs)

lemma ex_valid: "m \<in> set ex_members \<Longrightarrow> valid_member m"
  by (auto simp: ex_members_def valid_member_def TransactionIdIsValid_def InvalidTransactionId_def multixact_constants)

lemma ex_length: "length ex_members = 6"
  by (simp add: ex_members_def)

lemma ex_accepted: "create_refusal ex_mode ex_members ex_multixact = None"
proof -
  have "one_update ex_members"
    by (simp add: one_update_def ex_members_def ISUPDATE_from_mxstatus_def multixact_constants)
  moreover have "\<not> past_multi_stop ex_mode ex_multixact"
    unfolding past_multi_stop_def ex_next by (simp add: MultiXactIdPrecedes_def ex_multi_defs)
  moreover have "\<not> past_members_stop (length ex_members) ex_multixact"
    by (simp add: past_members_stop_def new_count_def ex_members_def MultiXactOffsetWouldWrap_def ex_multi_defs)
  ultimately show ?thesis by (simp add: create_refusal_def refusal_def ex_mode_def)
qed

lemma ex_uncached: "find (\<lambda>entry. snd entry = sort_members ex_members) (MXactCache ex_multixact) = None"
  by (simp add: ex_multixact_def)

text \<open>
  C29: A new multixact reads back. For a set of members that is not cached,
  MultiXactIdCreateFromMembers always returns: it raises exactly the error that the server mode,
  the limits on multixacts and members and the number of updaters call for (create_refusal), and
  otherwise hands out the next number; then GetMultiXactIdMembers of every backend that has it
  not in its cache reads exactly the sorted members from the two logs, also when they spread
  over new pages, cross the wraparound of the offsets or follow the unused slot 0. While the
  lock is released no other backend is active.
\<close>

theorem multixact_roundtrip:
  assumes "multi_ready bs s" and "length members < 2 ^ 31"
    and "\<And>m. m \<in> set members \<Longrightarrow> valid_member m"
    and "find (\<lambda>entry. snd entry = sort_members members) (MXactCache s) = None"
  shows "case create_refusal m members s of
      Some e \<Rightarrow> MultiXactIdCreateFromMembers bs m id members s = Some (Inl e)
    | None \<Rightarrow> \<exists>s'. MultiXactIdCreateFromMembers bs m id members s = Some (Inr (ReadNextMultiXactId s, s')) \<and>
        (\<forall>backend allow_old. \<exists>s''. GetMultiXactIdMembers bs (ReadNextMultiXactId s) allow_old (seen_by backend s') =
           Inr (Some (sort_members members), s''))"
proof -
  have "length members < 2 ^ 32" using assms(2) by simp
  note made = Create_cases [where m = m, OF assms(1) this assms(3,4)]
  show ?thesis
  proof (cases "create_refusal m members s")
    case None
    then obtain s' where s': "MultiXactIdCreateFromMembers bs m id members s = Some (Inr (ReadNextMultiXactId s, s'))"
      "makes bs members s s'" using made by auto
    note rd = makes_reads_back [OF assms(1) s'(2) assms(2,3)]
    show ?thesis using None s'(1) read_elsewhere [OF rd(1)] rd(2) by auto
  qed (use made in simp)
qed

theorem multixact_roundtrip_witness:
  "\<exists>s'. MultiXactIdCreateFromMembers 40 ex_mode id ex_members ex_multixact = Some (Inr (2, s')) \<and>
    (\<exists>s''. GetMultiXactIdMembers 40 2 False (seen_by 7 s') = Inr (Some (sort_members ex_members), s''))"
proof -
  have "length ex_members < 2 ^ 31" by (simp add: ex_members_def)
  from multixact_roundtrip [where m = ex_mode, OF ex_ready this ex_valid ex_uncached] show ?thesis
    using ex_accepted ex_next by auto
qed

text \<open>
  C30: Creating a multixact leaves what the older ones say alone: a multixact that could be read
  before has the same members for every backend afterwards, although flag words are shared with
  its neighbours, although the newest one ended at the next free offset and now ends where the
  new one starts, and although that moves its end from 0 to 1 at the wraparound of the offsets.
  Needed is that the pages which the new one zeroes are not in use (undisturbed).
\<close>

theorem multixacts_keep_members:
  assumes "multi_ready bs s" and "length members < 2 ^ 31"
    and "\<And>m. m \<in> set members \<Longrightarrow> valid_member m"
    and "find (\<lambda>entry. snd entry = sort_members members) (MXactCache s) = None"
    and "create_refusal m members s = None"
    and "readable bs s multi e" and "undisturbed bs (length members) s multi e"
  shows "\<exists>new s' ms. MultiXactIdCreateFromMembers bs m id members s = Some (Inr (new, s')) \<and>
    (\<forall>backend allow_old. (\<exists>t. GetMultiXactIdMembers bs multi allow_old (seen_by backend s) = Inr (Some ms, t)) \<and>
       (\<exists>t. GetMultiXactIdMembers bs multi allow_old (seen_by backend s') = Inr (Some ms, t)))"
proof -
  have "length members < 2 ^ 32" using assms(2) by simp
  from Create_cases [where m = m, OF assms(1) this assms(3,4)] obtain s' where
    s': "MultiXactIdCreateFromMembers bs m id members s = Some (Inr (ReadNextMultiXactId s, s'))" "makes bs members s s'"
    using assms(5) by auto
  obtain e' where e': "readable bs s' multi e'" "stored_members bs s' multi e' = stored_members bs s multi e"
    using older_kept [OF assms(6,7,1) s'(2) assms(2)] by blast
  show ?thesis
    using s'(1) read_elsewhere [OF assms(6)] read_elsewhere [OF e'(1)] e'(2) by metis
qed

lemma ex_readable: "readable 40 ex_multixact 1 3" "undisturbed 40 6 ex_multixact 1 3"
proof -
  have off: "offset_at 40 ex_multixact 1 = 1"
    by (simp add: offset_at_def MultiXactIdToOffsetPage_def MultiXactIdToOffsetEntry_def MULTIXACT_OFFSETS_PER_PAGE_def
        ex_multi_defs)
  have range: "new_range 6 ex_multixact = [3, 4, 5, 6, 7, 8]"
    by (simp add: new_range_def new_count_def member_offsets_def upt_rec ex_multi_defs)
  have page: "MXOffsetToMemberPage 40 1 = 0" "MXOffsetToMemberPage 40 2 = 0" "MXOffsetToMemberPage 40 8 = 1"
    by (simp_all add: MXOffsetToMemberPage_def member_layout)
  have "{x \<in> set [3, 4, 5, 6, 7, 8]. begins_page 40 x} = {8}"
    by (auto simp: begins_page_def member_layout)
  then have fresh: "fresh_pages 40 (new_range 6 ex_multixact) = {1}"
    unfolding fresh_pages_def range by (simp only: image_insert image_empty page)
  show "readable 40 ex_multixact 1 3"
    unfolding readable_def off
    by (simp add: multi_end_def MultiXactIdPrecedes_def offset_covers_def member_covers_def
        MultiXactIdToOffsetPage_def MULTIXACT_OFFSETS_PER_PAGE_def less_2_cases_iff page ex_multi_defs)
  show "undisturbed 40 6 ex_multixact 1 3"
    unfolding undisturbed_def fresh off ex_next unfolding range
    by (simp add: less_2_cases_iff page MultiXactIdPrecedes_def MultiXactIdToOffsetEntry_def MULTIXACT_OFFSETS_PER_PAGE_def
        multixact_constants)
qed

theorem multixacts_keep_members_witness:
  "\<exists>new s' ms. MultiXactIdCreateFromMembers 40 ex_mode id ex_members ex_multixact = Some (Inr (new, s')) \<and>
    (\<exists>t. GetMultiXactIdMembers 40 1 False (seen_by 2 s') = Inr (Some ms, t))"
proof -
  have "length ex_members < 2 ^ 31" by (simp add: ex_members_def)
  moreover have "undisturbed 40 (length ex_members) ex_multixact 1 3"
    unfolding ex_length by (rule ex_readable)
  ultimately show ?thesis
    using multixacts_keep_members [OF ex_ready _ ex_valid ex_uncached ex_accepted ex_readable(1)] by metis
qed

text \<open>
  C31: The loop of ExtendMultiXactMember ends for every block size from 20 bytes to 2^31, every
  first offset and every number of members, also across the wraparound of the offsets, where the
  last page is shorter: it zeroes exactly the pages whose first slot is in the range, and
  changes nothing else but the WAL.
\<close>

theorem member_pages_extension:
  assumes "20 \<le> bs" and "bs < 2 ^ 31"
  shows "\<exists>s'. ExtendMultiXactMember bs offset (int n) s = Some s' \<and> mx s' = mx s \<and> offset_pages s' = offset_pages s \<and>
    member_pages s' = (\<lambda>p. if \<exists>i < n. unat (offset + of_nat i) mod MULTIXACT_MEMBERS_PER_PAGE bs = 0 \<and>
        p = MXOffsetToMemberPage bs (offset + of_nat i)
      then Some (replicate (words_per_page bs) 0) else member_pages s p)"
proof -
  obtain s' where s': "ExtendMultiXactMember bs offset (int n) s = Some s'"
    "extended bs (fresh_pages bs (member_offsets offset n)) s s'"
    using ExtendMember_ok [OF assms] by blast
  then show ?thesis
    unfolding extended_def zeroed_def fresh_pages_iff begins_page_def by blast
qed

theorem member_pages_extension_witness:
  "\<exists>s'. ExtendMultiXactMember 40 3 6 ex_multixact = Some s' \<and>
    member_pages s' 1 = Some (replicate (words_per_page 40) 0)"
proof -
  have "\<exists>i < (6 :: nat). unat ((3 :: uint32) + of_nat i) mod MULTIXACT_MEMBERS_PER_PAGE 40 = 0 \<and>
      1 = MXOffsetToMemberPage 40 (3 + of_nat i)"
    by (intro exI [of _ 5]) (simp add: MXOffsetToMemberPage_def member_layout)
  then show ?thesis
    using member_pages_extension [of 40 3 6 ex_multixact] by fastforce
qed

text \<open>
  C32: New members stay before the limit. When a multixact is not refused and the limit on
  members is known and not already reached, the members it takes end before the limit, counted
  round the circle of the offsets from where they start; the next offset stays on the same side
  of the limit.
\<close>

theorem member_limit:
  assumes "multi_ready bs s" and "refusal m n s = None" and "n + 1 < 2 ^ 31"
    and "offsetStopLimitKnown (mx s)" and "nextOffset (mx s) \<noteq> offsetStopLimit (mx s)"
  shows "\<exists>x start s'. GetNewMultiXactId bs m id n s = Some (Inr (x, start, s')) \<and>
    unat (nextOffset (mx s') - nextOffset (mx s)) < unat (offsetStopLimit (mx s) - nextOffset (mx s)) \<and>
    nextOffset (mx s') = start + of_nat n \<and> start \<noteq> 0"
proof -
  have bs: "20 \<le> bs" "bs < 2 ^ 31" using assms(1) by (simp_all add: multi_ready_def wf_mx_def)
  obtain s' where s': "GetNewMultiXactId bs m id n s = Some (Inr (ReadNextMultiXactId s, new_start s, s'))"
    "reserved bs n s s'"
    using GetNewMultiXactId_cases [OF bs, of m n s] assms(2) by auto
  have "\<not> past_members_stop n s" using assms(2) by (auto simp: refusal_def split: if_splits)
  then have "\<not> MultiXactOffsetWouldWrap (offsetStopLimit (mx s)) (nextOffset (mx s)) (of_nat (new_count n s))"
    using assms(4) by (simp add: past_members_stop_def)
  moreover have "unat (of_nat (new_count n s) :: uint32) < 2 ^ 31"
    using assms(3) by (simp add: new_count_def unat_of_nat)
  ultimately have "unat (of_nat (new_count n s) :: uint32) < unat (offsetStopLimit (mx s) - nextOffset (mx s))"
    using not_would_wrap assms(5) by blast
  moreover have "nextOffset (mx s') = nextOffset (mx s) + of_nat (new_count n s)"
    using s'(2) by (simp add: reserved_def)
  moreover have "new_start s \<noteq> 0" by (simp add: new_start_def)
  ultimately show ?thesis using s'(1) new_end [of s n, symmetric] by auto
qed

theorem member_limit_witness:
  "\<exists>x start s'. GetNewMultiXactId 40 ex_mode id 6 ex_multixact = Some (Inr (x, start, s')) \<and>
    nextOffset (mx s') = start + 6"
proof -
  have "refusal ex_mode 6 ex_multixact = None"
    using ex_accepted unfolding create_refusal_def ex_length by (simp split: if_splits)
  moreover have "offsetStopLimitKnown (mx ex_multixact)" "nextOffset (mx ex_multixact) \<noteq> offsetStopLimit (mx ex_multixact)"
    by (simp_all add: ex_multi_defs)
  ultimately show ?thesis
    using member_limit [OF ex_ready, of ex_mode 6] by auto
qed

text \<open>
  GetNewMultiXactId, whose lock was released while others used up the last number, hands out
  multixact 1 and leaves a state in which the next number is 1 again.
\<close>

theorem multixact_number_twice:
  assumes "20 \<le> bs" and "bs < 2 ^ 31" and "\<not> RecoveryInProgress m" and "near_limits (skip_invalid_multi s)"
    and "\<not> past_multi_stop m s"
    and "\<And>t. nextMXact (mx (others t)) = 0" and "\<And>t. \<not> offsetStopLimitKnown (mx (others t))"
  shows "\<exists>offset s'. GetNewMultiXactId bs m others n s = Some (Inr (FirstMultiXactId, offset, s')) \<and>
    ReadNextMultiXactId s' = FirstMultiXactId"
  using assms by (rule number_twice)

text \<open>
  C33: The binary operations of bitmapset.c, whatever the lengths of the two word arrays and
  whether or not an argument is NULL, compute union, intersection and difference of the sets
  they represent; the recycling variants that overwrite their left argument compute the same
  sets.
\<close>

theorem bitmapset_algebra:
  "bms_set (bms_union a b) = bms_set a \<union> bms_set b \<and>
   bms_set (bms_add_members a b) = bms_set a \<union> bms_set b \<and>
   bms_set (bms_join a b) = bms_set a \<union> bms_set b \<and>
   bms_set (bms_intersect a b) = bms_set a \<inter> bms_set b \<and>
   bms_set (bms_int_members a b) = bms_set a \<inter> bms_set b \<and>
   bms_set (bms_difference a b) = bms_set a - bms_set b \<and>
   bms_set (bms_del_members a b) = bms_set a - bms_set b"
  by (simp add: pg_abs)

text \<open>
  C34: The comparisons of bitmapset.c decide equality, inclusion, overlap and non-empty
  difference of the represented sets (trailing zero words and NULL are invisible), and
  bms_subset_compare returns the one of its four verdicts that the two inclusions determine.
\<close>

theorem bitmapset_comparisons:
  "(bms_equal a b \<longleftrightarrow> bms_set a = bms_set b) \<and>
   (bms_is_subset a b \<longleftrightarrow> bms_set a \<subseteq> bms_set b) \<and>
   (bms_overlap a b \<longleftrightarrow> bms_set a \<inter> bms_set b \<noteq> {}) \<and>
   (bms_nonempty_difference a b \<longleftrightarrow> bms_set a - bms_set b \<noteq> {}) \<and>
   (bms_subset_compare a b = BMS_EQUAL \<longleftrightarrow> bms_set a = bms_set b) \<and>
   (bms_subset_compare a b = BMS_SUBSET1 \<longleftrightarrow> bms_set a \<subset> bms_set b) \<and>
   (bms_subset_compare a b = BMS_SUBSET2 \<longleftrightarrow> bms_set b \<subset> bms_set a)"
  by (auto simp: bms_equal_iff bms_is_subset_iff bms_overlap_iff bms_nonempty_difference_iff
      bms_subset_compare_eq cmp_of_def)

text \<open>
  C35: Membership, insertion and deletion of a non-negative member act on the represented set,
  enlarging the word array when needed; a negative member is refused with the code's error by
  all three.
\<close>

theorem bitmapset_members:
  "if x < 0
   then bms_is_member x a = Inl (ERROR ''negative bitmapset member not allowed'') \<and>
     bms_add_member a x = Inl (ERROR ''negative bitmapset member not allowed'') \<and>
     bms_del_member a x = Inl (ERROR ''negative bitmapset member not allowed'')
   else bms_is_member x a = Inr (nat x \<in> bms_set a) \<and>
     (\<exists>c. bms_add_member a x = Inr c \<and> bms_set c = insert (nat x) (bms_set a)) \<and>
     (\<exists>c. bms_del_member a x = Inr c \<and> bms_set c = bms_set a - {nat x})"
  using bms_is_member_eq [of x a] bms_add_member_set [of x a] bms_del_member_set [of x a]
  by (simp add: bms_add_member_def bms_del_member_def)

text \<open>
  The byte-table counts are right: bms_num_members is the cardinality, bms_membership classifies it as
  zero, one or more, and bms_singleton_member returns the only member or the code's error.
\<close>

theorem bitmapset_counts:
  "bms_num_members a = card (bms_set a) \<and>
   bms_membership a =
     (if card (bms_set a) = 0 then BMS_EMPTY_SET
      else if card (bms_set a) = 1 then BMS_SINGLETON else BMS_MULTIPLE) \<and>
   bms_singleton_member a =
     (if card (bms_set a) = 0 then Inl (ERROR ''bitmapset is empty'')
      else if card (bms_set a) = 1 then Inr (int (the_elem (bms_set a)))
      else Inl (ERROR ''bitmapset has multiple members''))"
  by (simp add: bms_num_members_card bms_membership_card bms_singleton_member_eq)

text \<open>
  bms_first_member removes and returns the least member of a non-empty set, and returns -1 on an empty
  one, so that draining a set with it visits the members in increasing order.
\<close>

theorem bitmapset_first_member:
  "if bms_set a = {} then \<exists>c. bms_first_member a = Inr (- 1, c) \<and> bms_set c = {}
   else \<exists>c. bms_first_member a = Inr (int (Min (bms_set a)), c) \<and>
     bms_set c = bms_set a - {Min (bms_set a)}"
  using bms_first_member_empty [of a] bms_first_member_nonempty [of a] by simp

text \<open>
  offset_relid_set terminates and returns the image of the relid set under adding the offset, whenever
  no member becomes negative.
\<close>

theorem relid_offset:
  assumes "\<forall>x \<in> bms_set relids. 0 \<le> int x + off"
  shows "\<exists>d. offset_relid_set relids off = Some (Inr d) \<and>
    bms_set d = (\<lambda>x. nat (int x + off)) ` bms_set relids"
  using assms by (rule offset_relid_set_image)

theorem relid_offset_witness:
  "\<exists>d. offset_relid_set (Some \<lparr>words = [4]\<rparr>) 40 = Some (Inr d) \<and>
    bms_set d = (\<lambda>x. nat (int x + 40)) ` bms_set (Some \<lparr>words = [4]\<rparr>)"
  by (rule relid_offset) simp

text \<open>
  C36: HeapSatisfiesHOTandKeyUpdate fails an assertion unless the identity columns are among the
  key columns and those among the HOT columns. For nested sets, without the member 0 (attribute
  numbers lie above FirstLowInvalidHeapAttributeNumber), its single interleaved pass terminates
  and returns, for each of the three sets, whether all of its columns are unchanged by the
  update.
\<close>

theorem hot_update_check:
  assumes "0 \<notin> bms_set hot"
  shows "HeapSatisfiesHOTandKeyUpdate eq hot key ident =
    Some (if bms_set ident \<subseteq> bms_set key \<and> bms_set key \<subseteq> bms_set hot
      then Inr (\<forall>x \<in> bms_set hot. eq (int x + FirstLowInvalidHeapAttributeNumber),
                \<forall>x \<in> bms_set key. eq (int x + FirstLowInvalidHeapAttributeNumber),
                \<forall>x \<in> bms_set ident. eq (int x + FirstLowInvalidHeapAttributeNumber))
      else Inl (PANIC ''FailedAssertion''))"
  using HOT_check_correct [OF assms] by simp

lemma ex_no_zero: "0 \<notin> bms_set (Some \<lparr>words = [512]\<rparr>)"
  by (simp add: bms_set_def wordat_def)

theorem hot_update_check_witness:
  "HeapSatisfiesHOTandKeyUpdate (\<lambda>x. x \<noteq> 1) (Some \<lparr>words = [512]\<rparr>) None None =
    Some (Inr (\<forall>x \<in> bms_set (Some \<lparr>words = [512]\<rparr>). int x - 8 \<noteq> 1, True, True))"
  using hot_update_check [OF ex_no_zero, of "\<lambda>x. x \<noteq> 1" None None]
  by (simp add: FirstLowInvalidHeapAttributeNumber_def bms_set_def wordat_def)

text \<open>
  hash_any gives the same hash by its word-wide path for aligned keys and by its bytewise path, for keys
  of every length and on machines of either endianness.
\<close>

theorem hash_path_independent: "hash_any en True k = hash_any en False k"
  by (rule hash_any_variants)

text \<open>
  hash_uint32 is hash_any of the four bytes of the integer, on machines of either endianness and whatever
  the alignment of the bytes.
\<close>

theorem hash_uint32_is_hash_any: "hash_uint32 w = hash_any en aligned (word_bytes en w)"
  by (rule hash_uint32_any)

text \<open>
  C37: Any two bitmap sets that bms_equal calls equal have the same bms_hash_value, trailing
  zero words or not.
\<close>

theorem bitmapset_hash:
  assumes "bms_equal a b"
  shows "bms_hash_value en a = bms_hash_value en b"
  using assms by (intro bms_hash_value_cong) (simp add: bms_equal_iff)

theorem bitmapset_hash_witness:
  "bms_hash_value LittleEndian (Some \<lparr>words = [5]\<rparr>) = bms_hash_value LittleEndian (Some \<lparr>words = [5, 0]\<rparr>)"
  by (rule bitmapset_hash) (simp add: bms_equal_def)

section \<open>The free space map\<close>

text \<open>A block of 64 bytes: a page with five leaves under 31 upper nodes.\<close>

lemma ex_blcksz: "fsm_blcksz 64 5"
  by (simp add: fsm_blcksz_def)

definition ex_fsm_page :: FSMPage where
  "ex_fsm_page = \<lparr>fp_next_slot = 0, fp_nodes = replicate 36 0\<rparr>"

lemma ex_page_ok: "page_ok 64 ex_fsm_page"
  by (simp add: page_ok_def ex_fsm_page_def NodesPerPage_def SizeOfPageHeader_def)

lemma ex_slots: "LeafNodesPerPage 64 = 5"
  by (simp add: LeafNodesPerPage_def NodesPerPage_def SizeOfPageHeader_def NonLeafNodesPerPage_def)

lemma ex_consistent: "consistent 64 (fp_nodes ex_fsm_page)"
  by (auto simp: consistent_iff ex_fsm_page_def children_max_def leftchild_def NodesPerPage_def
      NonLeafNodesPerPage_def SizeOfPageHeader_def Let_def)

text \<open>
  C38: fsm_search_avail terminates on every FSM page, also a torn one. It leaves the nodes as
  they are or as one rebuild of the upper nodes makes them, and changes no slot. It answers -1
  exactly if the root holds less than the value asked for (on a torn page that may be wrong) or
  no slot fits, and then keeps fp_next_slot; otherwise it answers a slot on the page whose own
  value is at least the one asked for, and sets fp_next_slot to it, or to the next one if asked
  to advance.
\<close>

theorem fsm_search_total:
  assumes "fsm_blcksz bs D" and "page_ok bs page"
  shows "\<exists>slot page' rebuilt. fsm_search_avail bs page minvalue adv = Some (slot, page', rebuilt) \<and>
    page_ok bs page' \<and>
    fp_nodes page' = fp_nodes (if rebuilt then snd (fsm_rebuild_page bs page) else page) \<and>
    (\<forall>j. fsm_get_avail bs page' j = fsm_get_avail bs page j) \<and>
    (slot = - 1 \<longleftrightarrow> fsm_get_max_avail page < minvalue \<or>
       (\<forall>j < LeafNodesPerPage bs. fsm_get_avail bs page j < minvalue)) \<and>
    (if slot = - 1 then fp_next_slot page' = fp_next_slot page
     else 0 \<le> slot \<and> nat slot < LeafNodesPerPage bs \<and> minvalue \<le> fsm_get_avail bs page (nat slot) \<and>
       fp_next_slot page' = slot + of_bool adv)"
proof -
  obtain slot page' rebuilt where r: "fsm_search_avail bs page minvalue adv = Some (slot, page', rebuilt)"
    and s: "search_result bs page minvalue adv (slot, page', rebuilt)"
    using fsm_search_avail_total [OF assms, of minvalue adv] by (metis prod_cases3)
  have nl: "NonLeafNodesPerPage bs \<le> NodesPerPage bs" using blcksz_sizes(5) [OF assms(1)] by simp
  have "fsm_get_avail bs (snd (fsm_rebuild_page bs page)) j = fsm_get_avail bs page j" for j
    using fsm_rebuild_page_spec(5) [OF assms(2) nl surjective_pairing] by (simp add: fsm_get_avail_def)
  moreover have "(\<forall>j. \<not> fits bs page minvalue j) \<longleftrightarrow>
      (\<forall>j < LeafNodesPerPage bs. fsm_get_avail bs page j < minvalue)"
    by (auto simp: fits_def not_le)
  ultimately have "(\<forall>j. fsm_get_avail bs page' j = fsm_get_avail bs page j) \<and>
      (slot = - 1 \<longleftrightarrow> fsm_get_max_avail page < minvalue \<or>
         (\<forall>j < LeafNodesPerPage bs. fsm_get_avail bs page j < minvalue))"
    using s by (simp add: search_result_def fsm_get_avail_def split: if_splits)
  moreover have "page_ok bs page'" "fp_nodes page' = fp_nodes (if rebuilt then snd (fsm_rebuild_page bs page) else page)"
    "if slot = - 1 then fp_next_slot page' = fp_next_slot page
     else 0 \<le> slot \<and> nat slot < LeafNodesPerPage bs \<and> minvalue \<le> fsm_get_avail bs page (nat slot) \<and>
       fp_next_slot page' = slot + of_bool adv"
    using s by (cases "slot = - 1"; simp add: search_result_def fits_def)+
  ultimately show ?thesis using r by (intro exI [of _ slot] exI [of _ page'] exI [of _ rebuilt] conjI) simp_all
qed

theorem fsm_search_total_witness:
  "\<exists>page' rebuilt. fsm_search_avail 64 \<lparr>fp_next_slot = 0, fp_nodes = 9 # replicate 35 0\<rparr> 7 True =
     Some (- 1, page', rebuilt)"
proof -
  let ?page = "\<lparr>fp_next_slot = 0, fp_nodes = 9 # replicate 35 0\<rparr>"
  have ok: "page_ok 64 ?page"
    by (simp add: page_ok_def NodesPerPage_def SizeOfPageHeader_def)
  have "fsm_get_avail 64 ?page j < 7" if "j < LeafNodesPerPage 64" for j
    using ex_slots that by (simp add: fsm_get_avail_def NonLeafNodesPerPage_def)
  then show ?thesis using fsm_search_total [OF ex_blcksz ok, of 7 True] by auto
qed

text \<open>
  C39: fsm_set_avail stores the value of its slot and no other, keeps a consistent tree
  consistent (every upper node the maximum of its children), always leaves a root that admits
  the new value, and reports a modification if and only if the page changed.
\<close>

theorem fsm_update:
  assumes "fsm_blcksz bs D" and "page_ok bs page" and "slot < LeafNodesPerPage bs"
  shows "case fsm_set_avail bs page slot value of (modified, page') \<Rightarrow>
    page_ok bs page' \<and> fsm_get_avail bs page' slot = value \<and>
    (\<forall>j. j \<noteq> slot \<longrightarrow> fsm_get_avail bs page' j = fsm_get_avail bs page j) \<and>
    value \<le> fsm_get_max_avail page' \<and> (modified \<longleftrightarrow> page' \<noteq> page) \<and>
    (consistent bs (fp_nodes page) \<longrightarrow> consistent bs (fp_nodes page'))"
  using fsm_set_avail_spec [OF assms] by (auto split: prod.splits)

theorem fsm_update_witness:
  "fsm_get_avail 64 (snd (fsm_set_avail 64 ex_fsm_page 3 9)) 3 = 9"
  using fsm_update [OF ex_blcksz ex_page_ok, of 3 9] ex_slots by (auto split: prod.splits)

text \<open>
  C40: On a consistent page fsm_search_avail is a first-fit search: it returns the first slot
  with enough space going right from fp_next_slot and round past the last slot, and -1 only when
  no slot fits.
\<close>

theorem fsm_search_first_fit:
  assumes "fsm_blcksz bs D" and "page_ok bs page" and "consistent bs (fp_nodes page)"
    and "0 < minvalue"
  shows "fsm_search_avail bs page minvalue adv =
      (if \<exists>j. fits bs page minvalue j
       then Some (int (THE j. first_fit_from bs page minvalue (search_target bs page) j),
         page\<lparr>fp_next_slot := int (THE j. first_fit_from bs page minvalue (search_target bs page) j)
           + of_bool adv\<rparr>, False)
       else Some (- 1, page, False))"
  using assms by (rule fsm_search_avail_first_fit)

theorem fsm_search_first_fit_witness:
  "fsm_search_avail 64 ex_fsm_page 7 False = Some (- 1, ex_fsm_page, False)"
proof -
  have "\<not> fits 64 ex_fsm_page 7 j" for j
    using ex_slots by (auto simp: fits_def fsm_get_avail_def ex_fsm_page_def NonLeafNodesPerPage_def)
  then show ?thesis
    using fsm_search_first_fit [OF ex_blcksz ex_page_ok ex_consistent, of 7 False] by simp
qed

text \<open>
  fsm_truncate_avail sets the slots from nslots on to zero, keeps the others, and keeps a consistent
  tree consistent.
\<close>

theorem fsm_truncation:
  assumes "fsm_blcksz bs D" and "page_ok bs page"
  shows "case fsm_truncate_avail bs page nslots of (changed, page') \<Rightarrow>
    page_ok bs page' \<and>
    (\<forall>j < LeafNodesPerPage bs.
       fsm_get_avail bs page' j = (if nslots \<le> j then 0 else fsm_get_avail bs page j)) \<and>
    (consistent bs (fp_nodes page) \<longrightarrow> consistent bs (fp_nodes page'))"
  using fsm_truncate_avail_spec [OF assms] by (auto split: prod.splits)

theorem fsm_truncation_witness:
  "fsm_get_avail 64 (snd (fsm_truncate_avail 64 ex_fsm_page 2)) 4 = 0"
  using fsm_truncation [OF ex_blcksz ex_page_ok, of 2] ex_slots by (auto split: prod.splits)

text \<open>
  Free space categories keep their promise: if the category recorded for a page's free space is at least
  the category computed for a request, the page really has that much space, in spite of the rounding
  to 256 steps.
\<close>

theorem fsm_category_promise:
  assumes "256 dvd bs" and "0 < bs" and "fsm_space_needed_to_cat bs needed = Inr cat"
    and "cat \<le> fsm_space_avail_to_cat bs avail"
  shows "needed \<le> avail"
  using assms by (rule category_promise)

theorem fsm_category_promise_witness: "(100 :: nat) \<le> 128"
  by (rule fsm_category_promise [of 8192 100 4 128])
    (simp_all add: fsm_space_needed_to_cat_def fsm_space_avail_to_cat_def MaxFSMRequestSize_def
      FSM_CAT_STEP_def)

text \<open>
  The address and slot that fsm_get_location computes for a heap block lead fsm_get_heap_blk back to
  that block, and the slot is on the page.
\<close>

theorem fsm_address_roundtrip:
  assumes "0 < LeafNodesPerPage bs"
  shows "case fsm_get_location bs blk of (addr, slot) \<Rightarrow>
    fsm_get_heap_blk bs addr slot = blk \<and> slot < LeafNodesPerPage bs \<and> level addr = 0"
  using assms by (rule fsm_location_roundtrip)

theorem fsm_address_roundtrip_witness:
  "fsm_get_heap_blk 64 (fst (fsm_get_location 64 1234)) (snd (fsm_get_location 64 1234)) = 1234"
  using fsm_address_roundtrip [of 64 1234] ex_slots by (auto split: prod.splits)

end
